(* ===== verification/Prelude.thy ===== *)
theory Prelude
  imports Main "HOL-Library.Word"
begin

unbundle bit_operations_syntax

text \<open>
  Shared vocabulary of the development: the Rust integer types as words, the checked and saturating
  arithmetic of the standard library, little-endian byte strings, the result type of fallible
  operations, the list operations behind sorted vectors, and the interface (a locale) of a component
  that is driven by a sequence of operations and keeps an invariant.
\<close>

section \<open>Types and collections\<close>

type_synonym u8 = "8 word"
type_synonym u16 = "16 word"
type_synonym u32 = "32 word"
type_synonym u64 = "64 word"

text \<open>
  \<open>rust_arith\<close> collects the unfolding of checked and saturating arithmetic into natural numbers,
  \<open>word_to_nat\<close> the rewrites that read word comparisons and sums as natural numbers.
\<close>

named_theorems rust_arith
named_theorems word_to_nat

lemmas [word_to_nat] = word_le_nat_alt word_less_nat_alt

section \<open>Results\<close>

text \<open>A Rust \<open>Result\<close>: \<open>Inl\<close> is the error, \<open>Inr\<close> the value. The operator \<open>?\<close> is \<open>res_bind\<close>.\<close>

definition res_bind :: "'e + 'a \<Rightarrow> ('a \<Rightarrow> 'e + 'b) \<Rightarrow> 'e + 'b" where
  "res_bind r f = (case r of Inl e \<Rightarrow> Inl e | Inr x \<Rightarrow> f x)"

definition is_ok :: "'e + 'a \<Rightarrow> bool" where
  "is_ok r = (case r of Inl _ \<Rightarrow> False | Inr _ \<Rightarrow> True)"

definition res_ok :: "'e + 'a \<Rightarrow> 'a option" where
  "res_ok r = (case r of Inl _ \<Rightarrow> None | Inr x \<Rightarrow> Some x)"

lemma res_bind_simps [simp]:
  "res_bind (Inl e) f = Inl e"
  "res_bind (Inr x) f = f x"
  by (simp_all add: res_bind_def)

lemma res_bind_eq_Inr:
  "res_bind r f = Inr y \<longleftrightarrow> (\<exists>x. r = Inr x \<and> f x = Inr y)"
  by (cases r) simp_all

lemma is_ok_simps [simp]: "\<not> is_ok (Inl e)" "is_ok (Inr x)"
  by (simp_all add: is_ok_def)

lemma is_ok_iff: "is_ok r \<longleftrightarrow> (\<exists>x. r = Inr x)"
  by (cases r) simp_all

lemma res_ok_simps [simp]: "res_ok (Inl e) = None" "res_ok (Inr x) = Some x"
  by (simp_all add: res_ok_def)

lemma res_ok_eq_Some: "res_ok r = Some x \<longleftrightarrow> r = Inr x"
  by (cases r) simp_all

section \<open>Checked, saturating and wrapping arithmetic\<close>

text \<open>
  \<open>checked_add\<close>, \<open>saturating_add\<close> and \<open>saturating_sub\<close> of Rust's unsigned integers; \<open>wrapping_add\<close>
  and \<open>wrapping_sub\<close> are the word operations themselves.
\<close>

definition checked_add :: "'a::len word \<Rightarrow> 'a word \<Rightarrow> 'a word option" where
  "checked_add a b = (if unat a + unat b < 2 ^ LENGTH('a) then Some (a + b) else None)"

definition saturating_add :: "'a::len word \<Rightarrow> 'a word \<Rightarrow> 'a word" where
  "saturating_add a b = (case checked_add a b of Some c \<Rightarrow> c | None \<Rightarrow> - 1)"

definition saturating_sub :: "'a::len word \<Rightarrow> 'a word \<Rightarrow> 'a word" where
  "saturating_sub a b = (if b \<le> a then a - b else 0)"

lemma unat_add_no_overflow:
  "unat a + unat b < 2 ^ LENGTH('a) \<Longrightarrow> unat (a + b) = unat a + unat (b :: 'a::len word)"
  by (simp add: unat_word_ariths)

lemma unat_mem_image: "unat x \<in> unat ` X \<longleftrightarrow> x \<in> X"
  by (auto simp: image_iff simp flip: word_unat_eq_iff)

lemma unat_of_nat_small: "n < 2 ^ LENGTH('a) \<Longrightarrow> unat (of_nat n :: 'a::len word) = n"
  by (simp only: unat_of_nat mod_less)

lemma checked_add_Some [rust_arith]:
  "checked_add a b = Some c \<longleftrightarrow>
     unat a + unat b < 2 ^ LENGTH('a) \<and> unat c = unat a + unat (b :: 'a::len word)"
proof -
  have "unat a + unat b < 2 ^ LENGTH('a) \<Longrightarrow> unat c = unat a + unat b \<Longrightarrow> a + b = c"
    by (metis unat_add_no_overflow word_unat_eq_iff)
  then show ?thesis
    by (auto simp: checked_add_def unat_add_no_overflow)
qed

lemma checked_add_None [rust_arith]:
  "checked_add a b = None \<longleftrightarrow> 2 ^ LENGTH('a) \<le> unat a + unat (b :: 'a::len word)"
  by (auto simp: checked_add_def)

lemma unat_minus_one_eq: "unat (- 1 :: 'a::len word) = 2 ^ LENGTH('a) - 1"
  by (simp add: unsigned_minus_1_eq_mask mask_eq_exp_minus_1)

lemma unat_saturating_add [rust_arith]:
  "unat (saturating_add a b) = min (unat a + unat b) (2 ^ LENGTH('a) - 1)"
  for a b :: "'a::len word"
proof (cases "checked_add a b")
  case None
  then have "2 ^ LENGTH('a) \<le> unat a + unat b"
    by (simp add: checked_add_None)
  moreover have "saturating_add a b = - 1"
    by (simp add: saturating_add_def None)
  ultimately show ?thesis
    by (simp add: unat_minus_one_eq)
next
  case (Some c)
  then have "unat a + unat b < 2 ^ LENGTH('a)" and "unat c = unat a + unat b"
    by (simp_all add: checked_add_Some)
  moreover have "saturating_add a b = c"
    by (simp add: saturating_add_def Some)
  ultimately show ?thesis by simp
qed

lemma unat_saturating_sub [rust_arith]:
  "unat (saturating_sub a b) = unat a - unat (b :: 'a::len word)"
  by (simp add: saturating_sub_def unat_sub word_le_nat_alt)

section \<open>Powers of two\<close>

text \<open>\<open>count_ones\<close> and \<open>is_power_of_two\<close> of the standard library.\<close>

definition count_ones :: "'a::len word \<Rightarrow> nat" where
  "count_ones w = length (filter (bit w) [0..<LENGTH('a)])"

definition is_power_of_two :: "'a::len word \<Rightarrow> bool" where
  "is_power_of_two w \<longleftrightarrow> count_ones w = 1"

lemma filter_singleton_iff:
  "length (filter P xs) = 1 \<Longrightarrow> \<exists>x. filter P xs = [x]"
  by (cases "filter P xs") auto

lemma is_power_of_two_unique_bit:
  assumes "is_power_of_two (w :: 'a::len word)"
  obtains k where "k < LENGTH('a)" and "w = push_bit k 1"
proof -
  from assms obtain k where k: "filter (bit w) [0..<LENGTH('a)] = [k]"
    using filter_singleton_iff [of "bit w" "[0..<LENGTH('a)]"]
    by (auto simp: is_power_of_two_def count_ones_def)
  then have "set (filter (bit w) [0..<LENGTH('a)]) = {k}" by simp
  then have eq: "{i. i < LENGTH('a) \<and> bit w i} = {k}" by auto
  then have "k < LENGTH('a)" by blast
  moreover have "w = push_bit k 1"
  proof (rule bit_word_eqI)
    fix n assume "n < LENGTH('a)"
    with eq show "bit w n = bit (push_bit k 1 :: 'a word) n"
      by (auto simp: bit_simps)
  qed
  ultimately show thesis by (rule that)
qed

lemma is_power_of_two_unat:
  assumes "is_power_of_two (w :: 'a::len word)"
  shows "\<exists>k < LENGTH('a). unat w = 2 ^ k"
proof -
  obtain k where "k < LENGTH('a)" "w = push_bit k 1"
    using assms by (rule is_power_of_two_unique_bit)
  moreover from this have "unat w = 2 ^ k"
    by (simp only: unsigned_push_bit_eq) (simp add: take_bit_push_bit unsigned_1)
  ultimately show ?thesis by blast
qed

lemma is_power_of_two_pos: "is_power_of_two w \<Longrightarrow> 0 < unat w"
  using is_power_of_two_unat [of w] by auto

section \<open>Little-endian byte strings\<close>

text \<open>
  \<open>to_le n w\<close> is the first \<open>n\<close> bytes of \<open>w.to_le_bytes()\<close>; \<open>from_le\<close> is \<open>from_le_bytes\<close>, into a word
  of any width.
\<close>

definition to_le :: "nat \<Rightarrow> 'a::len word \<Rightarrow> u8 list" where
  "to_le n w = map (\<lambda>i. ucast (drop_bit (8 * i) w)) [0..<n]"

fun from_le :: "u8 list \<Rightarrow> 'a::len word" where
  "from_le [] = 0"
| "from_le (b # bs) = ucast b OR push_bit 8 (from_le bs)"

lemma length_to_le [simp]: "length (to_le n w) = n"
  by (simp add: to_le_def)

lemma nth_to_le: "i < n \<Longrightarrow> to_le n w ! i = ucast (drop_bit (8 * i) w)"
  by (simp add: to_le_def)

lemma bit_from_le:
  "bit (from_le bs :: 'a::len word) n \<longleftrightarrow>
     n < LENGTH('a) \<and> n div 8 < length bs \<and> bit (bs ! (n div 8)) (n mod 8)"
proof (induction bs arbitrary: n)
  case Nil
  then show ?case by simp
next
  case (Cons b bs)
  show ?case
  proof (cases "n < 8")
    case True
    then show ?thesis by (auto simp: bit_simps)
  next
    case False
    then have d: "n div 8 = Suc ((n - 8) div 8)" and m: "n mod 8 = (n - 8) mod 8"
      by (simp_all add: div_if mod_if [of n 8])
    from False have "\<not> bit b n" by (auto dest: bit_imp_le_length)
    with False show ?thesis
      by (auto simp: bit_simps Cons.IH d m)
  qed
qed

lemma from_le_to_le:
  "from_le (to_le n w) = take_bit (8 * n) (w :: 'a::len word)"
proof (rule bit_word_eqI)
  fix k assume "k < LENGTH('a)"
  moreover have "bit (ucast (drop_bit (8 * (k div 8)) w) :: u8) (k mod 8) = bit w k"
    by (simp add: bit_simps)
  moreover have "k div 8 < n \<longleftrightarrow> k < 8 * n" by auto
  ultimately show "bit (from_le (to_le n w) :: 'a word) k = bit (take_bit (8 * n) w) k"
    by (auto simp: bit_from_le bit_simps nth_to_le)
qed

lemma from_le_to_le_id [simp]:
  "LENGTH('a::len) \<le> 8 * n \<Longrightarrow> from_le (to_le n w) = (w :: 'a word)"
  by (simp add: from_le_to_le take_bit_word_eq_self)

lemma to_le_from_le:
  assumes "8 * length bs \<le> LENGTH('a)"
  shows "to_le (length bs) (from_le bs :: 'a::len word) = bs"
proof (rule nth_equalityI)
  show "length (to_le (length bs) (from_le bs :: 'a word)) = length bs" by simp
  fix i assume "i < length (to_le (length bs) (from_le bs :: 'a word))"
  then have i: "i < length bs" by simp
  show "to_le (length bs) (from_le bs :: 'a word) ! i = bs ! i"
  proof (rule bit_word_eqI)
    fix n assume n: "n < LENGTH(8)"
    then have "n < 8" by simp
    then have "(8 * i + n) div 8 = i" "(8 * i + n) mod 8 = n" by simp_all
    moreover from i \<open>n < 8\<close> assms have "8 * i + n < LENGTH('a)" by linarith
    ultimately show "bit (to_le (length bs) (from_le bs :: 'a word) ! i) n = bit (bs ! i) n"
      using i \<open>n < 8\<close> by (simp add: nth_to_le bit_simps bit_from_le)
  qed
qed

section \<open>Access widths\<close>

text \<open>
  \<open>mask\<close> of the device models: keep the low \<open>size\<close> bytes of a register value. The same function is
  written out in \<open>ternvale-vmm/src/mmio.rs\<close>, \<open>ternvale-devices/src/virtio/core.rs\<close> and
  \<open>ternvale-devices/src/uart.rs\<close>.
\<close>

definition mask_size :: "u64 \<Rightarrow> u8 \<Rightarrow> u64" where
  "mask_size value sz =
     (if sz = 1 then value AND 0xff
      else if sz = 2 then value AND 0xffff
      else if sz = 4 then value AND 0xffffffff
      else value)"

lemma and_ones_take_bit: "w AND (mask n :: 'a::len word) = take_bit n w"
  by (simp add: take_bit_eq_mask)

lemma mask_size_take_bit:
  "sz \<in> {1, 2, 4, 8} \<Longrightarrow> mask_size v sz = take_bit (8 * unat sz) v"
proof -
  have m: "(0xff :: u64) = mask 8" "(0xffff :: u64) = mask 16" "(0xffffffff :: u64) = mask 32"
    by (simp_all add: mask_eq_exp_minus_1)
  assume "sz \<in> {1, 2, 4, 8}"
  then consider "sz = 1" | "sz = 2" | "sz = 4" | "sz = 8" by auto
  then show ?thesis
    by cases (simp_all add: mask_size_def m and_ones_take_bit take_bit_word_eq_self del: take_bit_eq_mask)
qed

lemma mask_size_idem: "mask_size (mask_size v sz) sz = mask_size v sz"
  by (simp add: mask_size_def and.assoc)

section \<open>Sorted vectors\<close>

text \<open>
  \<open>partition_point\<close> of a slice: the length of the prefix that satisfies the predicate (the slice is
  partitioned), and \<open>Vec::insert\<close> at an index.
\<close>

definition partition_point :: "('a \<Rightarrow> bool) \<Rightarrow> 'a list \<Rightarrow> nat" where
  "partition_point P xs = length (takeWhile P xs)"

definition vec_insert :: "nat \<Rightarrow> 'a \<Rightarrow> 'a list \<Rightarrow> 'a list" where
  "vec_insert i x xs = take i xs @ x # drop i xs"

lemma set_vec_insert [simp]: "set (vec_insert i x xs) = insert x (set xs)"
proof -
  have "set xs = set (take i xs) \<union> set (drop i xs)"
    by (metis append_take_drop_id set_append)
  then show ?thesis by (simp add: vec_insert_def)
qed

lemma vec_insert_partition:
  "vec_insert (partition_point P xs) x xs = takeWhile P xs @ x # dropWhile P xs"
  by (simp add: vec_insert_def partition_point_def takeWhile_eq_take [symmetric]
      dropWhile_eq_drop [symmetric])

lemma partition_point_le: "partition_point P xs \<le> length xs"
  by (simp add: partition_point_def length_takeWhile_le)

lemma partition_point_Suc_holds:
  "i < partition_point P xs \<Longrightarrow> P (xs ! i)"
  unfolding partition_point_def
  by (metis nth_mem set_takeWhileD takeWhile_nth)

lemma partition_point_sorted:
  assumes "sorted (map f xs)"
    and "partition_point (\<lambda>x. f x \<le> a) xs \<le> i" and "i < length xs"
  shows "a < (f (xs ! i) :: 'b::linorder)"
proof -
  let ?n = "partition_point (\<lambda>x. f x \<le> a) xs"
  from assms have "?n < length xs" by simp
  then have "\<not> f (xs ! ?n) \<le> a"
    unfolding partition_point_def using nth_length_takeWhile by blast
  moreover have "f (xs ! ?n) \<le> f (xs ! i)"
    using sorted_nth_mono [OF assms(1), of ?n i] assms \<open>?n < length xs\<close> by simp
  ultimately show ?thesis by simp
qed

text \<open>
  Vectors of intervals \<open>[lo x, hi x)\<close> kept sorted and disjoint: inserting one that overlaps none keeps them
  so, and a point lies in at most one.
\<close>

lemma insert_interval:
  fixes lo hi :: "'a \<Rightarrow> nat"
  assumes sorted: "sorted_wrt (\<lambda>a b. hi a \<le> lo b) xs"
    and pos: "\<forall>y \<in> set (x # xs). lo y < hi y"
    and apart: "\<forall>y \<in> set xs. hi y \<le> lo x \<or> hi x \<le> lo y"
  shows "sorted_wrt (\<lambda>a b. hi a \<le> lo b) (vec_insert (partition_point (\<lambda>y. lo y < lo x) xs) x xs)"
proof -
  let ?P = "\<lambda>y. lo y < lo x"
  let ?before = "takeWhile ?P xs" and ?after = "dropWhile ?P xs"
  have sorted': "sorted_wrt (\<lambda>a b. hi a \<le> lo b) (?before @ ?after)"
    using sorted by simp
  have before: "hi y \<le> lo x" if "y \<in> set ?before" for y
    using set_takeWhileD [OF that] apart pos by fastforce
  have after: "hi x \<le> lo y" if y: "y \<in> set ?after" for y
  proof (cases ?after)
    case Nil
    with y show ?thesis by simp
  next
    case (Cons z zs)
    then have z: "z \<in> set xs" "\<not> ?P z"
      by (metis list.set_intros(1) set_dropWhileD, auto dest: dropWhile_eq_Cons_conv [THEN iffD1])
    then have hz: "hi x \<le> lo z" using apart pos by fastforce
    show ?thesis
    proof (cases "y = z")
      case False
      with y Cons have "y \<in> set zs" by simp
      with sorted' Cons have "hi z \<le> lo y" by (simp add: sorted_wrt_append)
      moreover have "lo z < hi z" using z(1) pos by simp
      ultimately show ?thesis using hz by simp
    qed (simp add: hz)
  qed
  have "hi y \<le> lo z" if "y \<in> set ?before" "z \<in> set ?after" for y z
    using before [OF that(1)] after [OF that(2)] pos by simp
  with sorted' before after show ?thesis
    by (auto simp: vec_insert_partition sorted_wrt_append)
qed

lemma interval_unique:
  fixes lo hi :: "'a \<Rightarrow> nat"
  assumes sorted: "sorted_wrt (\<lambda>a b. hi a \<le> lo b) xs" and ij: "i < length xs" "j < length xs"
    and i: "lo (xs ! i) \<le> a" "a < hi (xs ! i)" and j: "lo (xs ! j) \<le> a" "a < hi (xs ! j)"
  shows "j = i"
  using sorted_wrt_nth_less [OF sorted, of i j] sorted_wrt_nth_less [OF sorted, of j i] ij i j
  by (cases i j rule: linorder_cases) simp_all

lemma ball_update: "\<forall>x \<in> set xs. Q x \<Longrightarrow> Q t \<Longrightarrow> \<forall>x \<in> set (xs[i := t]). Q x"
  using set_update_subset_insert [of xs i t] by blast

lemma sorted_wrt_update:
  assumes "sorted_wrt (\<lambda>a b. hi a \<le> lo b) xs" and "lo t = lo (xs ! i)" and "hi t = hi (xs ! i)"
  shows "sorted_wrt (\<lambda>a b. hi a \<le> lo b) (xs[i := t])"
proof -
  have nth: "lo (xs[i := t] ! j) = lo (xs ! j)" "hi (xs[i := t] ! j) = hi (xs ! j)" if "j < length xs" for j
    using assms(2,3) that by (cases "j = i"; simp)+
  show ?thesis using assms(1) by (simp add: sorted_wrt_iff_nth_less nth)
qed

lemma filter_eq_upt: "i < n \<Longrightarrow> filter (\<lambda>j. j = i) [0..<n] = [i]"
proof (induction n)
  case (Suc n)
  have "filter (\<lambda>j. j = n) [0..<n] = []" by (auto simp: filter_empty_conv)
  with Suc show ?case by (cases "i = n") auto
qed simp

section \<open>Components driven by a sequence of operations\<close>

text \<open>
  A component is a state with operations; a run applies a list of operations in order. The locale is
  the interface every stateful component of the development offers: one step keeps the invariant.
  Runs keep it then, and a relation kept by every step relates the ends of a run.
\<close>

definition run :: "('s \<Rightarrow> 'op \<Rightarrow> 's) \<Rightarrow> 's \<Rightarrow> 'op list \<Rightarrow> 's" where
  "run step s ops = foldl step s ops"

lemma run_simps [simp]:
  "run step s [] = s"
  "run step s (op # ops) = run step (step s op) ops"
  by (simp_all add: run_def)

lemma run_append: "run step s (xs @ ys) = run step (run step s xs) ys"
  by (simp add: run_def)

locale component =
  fixes step :: "'s \<Rightarrow> 'op \<Rightarrow> 's"
    and inv :: "'s \<Rightarrow> bool"
  assumes step_inv: "inv s \<Longrightarrow> inv (step s op)"
begin

lemma run_inv: "inv s \<Longrightarrow> inv (run step s ops)"
  by (induction ops arbitrary: s) (simp_all add: step_inv)

lemma run_filtered:
  assumes one: "\<And>s op. inv s \<Longrightarrow> Q s \<Longrightarrow> P op \<Longrightarrow> Q (step s op)"
  shows "inv s \<Longrightarrow> Q s \<Longrightarrow> \<forall>op \<in> set ops. P op \<Longrightarrow> Q (run step s ops)"
proof (induction ops arbitrary: s)
  case (Cons op ops)
  then have "P op" "\<forall>op \<in> set ops. P op" by simp_all
  with Cons.prems show ?case by (simp add: Cons.IH one step_inv)
qed simp

lemma run_relates:
  assumes refl: "\<And>s. R s s"
    and trans: "\<And>s t u. R s t \<Longrightarrow> R t u \<Longrightarrow> R s u"
    and one: "\<And>s op. inv s \<Longrightarrow> R s (step s op)"
  shows "inv s \<Longrightarrow> R s (run step s ops)"
proof (induction ops arbitrary: s)
  case Nil
  show ?case by (simp add: refl)
next
  case (Cons op ops)
  have "R s (step s op)" using Cons.prems by (rule one)
  moreover have "R (step s op) (run step (step s op) ops)"
    using Cons.prems by (intro Cons.IH step_inv)
  ultimately show ?case by (simp add: trans)
qed

end

section \<open>Computations that may return early or panic\<close>

text \<open>
  A method with \<open>&mut self\<close> that returns \<open>Option\<close> is a value of this type: \<open>None\<close> is a panic, \<open>Some (s, None)\<close>
  an early return with the state changed up to there, \<open>Some (s, Some x)\<close> a result. \<open>attempt_bind\<close> is the
  operator \<open>?\<close>.
\<close>

type_synonym ('s, 'a) attempt = "('s \<times> 'a option) option"

fun attempt_bind ::
  "('s, 'a) attempt \<Rightarrow> ('s \<Rightarrow> 'a \<Rightarrow> ('s, 'b) attempt) \<Rightarrow> ('s, 'b) attempt" where
  "attempt_bind None f = None"
| "attempt_bind (Some (s, None)) f = Some (s, None)"
| "attempt_bind (Some (s, Some x)) f = f s x"

lemma attempt_bind_eq_ok:
  "attempt_bind a f = Some (s', Some y) \<longleftrightarrow> (\<exists>s x. a = Some (s, Some x) \<and> f s x = Some (s', Some y))"
  by (cases "(a, f)" rule: attempt_bind.cases) auto

lemma attempt_bind_eq_none:
  "attempt_bind a f = Some (s', None) \<longleftrightarrow>
     a = Some (s', None) \<or> (\<exists>s x. a = Some (s, Some x) \<and> f s x = Some (s', None))"
  by (cases "(a, f)" rule: attempt_bind.cases) auto

text \<open>An index into a vector and the remainder of unsigned integers panic on a bad operand.\<close>

definition vec_get :: "'a list \<Rightarrow> nat \<Rightarrow> 'a option" where
  "vec_get xs i = (if i < length xs then Some (xs ! i) else None)"

lemma vec_get_in [simp]: "i < length xs \<Longrightarrow> vec_get xs i = Some (xs ! i)"
  by (simp add: vec_get_def)

definition checked_rem :: "'a::len word \<Rightarrow> 'a word \<Rightarrow> 'a word option" where
  "checked_rem a b = (if b = 0 then None else Some (a mod b))"

lemma checked_rem_nonzero [simp]: "b \<noteq> 0 \<Longrightarrow> checked_rem a b = Some (a mod b)"
  by (simp add: checked_rem_def)

text \<open>
  A method that may fail after it has changed the state is a function from the state to a result and the state
  it leaves; \<open>op_bind\<close> is the operator \<open>?\<close> for it.
\<close>

type_synonym ('s, 'e, 'a) fallible = "'s \<Rightarrow> ('e + 'a) \<times> 's"

definition op_return :: "'a \<Rightarrow> ('s, 'e, 'a) fallible" where
  "op_return x s = (Inr x, s)"

definition op_bind :: "('s, 'e, 'a) fallible \<Rightarrow> ('a \<Rightarrow> ('s, 'e, 'b) fallible) \<Rightarrow> ('s, 'e, 'b) fallible" where
  "op_bind m f s = (case m s of (Inl err, s') \<Rightarrow> (Inl err, s') | (Inr x, s') \<Rightarrow> f x s')"

lemma op_return_simp [simp]: "op_return x s = (Inr x, s)"
  by (simp add: op_return_def)

lemma op_bind_ok:
  "op_bind m f s = (Inr y, s'') \<longleftrightarrow> (\<exists>x s'. m s = (Inr x, s') \<and> f x s' = (Inr y, s''))"
  by (auto simp: op_bind_def split: prod.splits sum.splits)

lemma op_bind_err:
  "op_bind m f s = (Inl err, s'') \<longleftrightarrow>
     m s = (Inl err, s'') \<or> (\<exists>x s'. m s = (Inr x, s') \<and> f x s' = (Inl err, s''))"
  by (auto simp: op_bind_def split: prod.splits sum.splits)

end
