(* ===== verification/Guest_Memory.thy ===== *)
theory Guest_Memory
  imports Prelude
begin

text \<open>
  Guest physical memory, \<open>ternvale-vmm/src/memory/mod.rs\<close> with its \<open>error.rs\<close> and \<open>host.rs\<close>: a
  vector of host-backed regions sorted by guest physical address, the checks that admit a region, the
  search that admits an access, and the byte and integer accessors. The bytes behind a region are a
  function from the offset to the byte (the anonymous mapping is zero-filled). The operating system
  and the hypervisor are parameters: \<open>os_mmap\<close>, \<open>os_madvise\<close>, \<open>hv_map\<close> and \<open>os_sysconf\<close>. Logging is
  not modelled. The last part states the interface \<open>byte_store\<close> that device models rely on and
  interprets it on this memory.
\<close>

section \<open>Data\<close>

type_synonym os_error = int
type_synonym hv_error = int

datatype memory_error =
    MisalignedGpa u64 u64
  | MisalignedSize u64 u64
  | MisalignedHost u64 u64
  | MemOverflow u64 u64
  | MemOverlap u64 u64 u64 u64
  | Mmap u64 os_error
  | Munmap u64 u64 os_error
  | PageSize
  | UnexpectedPageSize u64 u64
  | MapFailed u64 u64 hv_error
  | UnmapFailed u64 u64 hv_error
  | OutOfRange u64 nat
  | CrossRegion u64 nat
  | Advise u64 nat os_error

datatype mem_advice = FreeReusable | FreeReuse

definition HOST_PAGE_SIZE :: u64 where
  "HOST_PAGE_SIZE = 16 * 1024"

record region =
  r_gpa :: u64
  r_size :: nat
  r_host :: u64
  r_guest_mapped :: bool
  r_data :: "nat \<Rightarrow> u8"

record guest_memory =
  regions :: "region list"

definition region_end :: "region \<Rightarrow> u64" where
  "region_end r = r_gpa r + of_nat (r_size r)"

section \<open>Host mappings\<close>

definition host_page_size :: "int \<Rightarrow> memory_error + u64" where
  "host_page_size os_sysconf = (if os_sysconf < 0 then Inl PageSize else Inr (of_int os_sysconf))"

definition require_host_alignment :: "u64 \<Rightarrow> memory_error + unit" where
  "require_host_alignment addr =
     (if addr mod HOST_PAGE_SIZE \<noteq> 0 then Inl (MisalignedHost addr HOST_PAGE_SIZE) else Inr ())"

text \<open>\<open>os_mmap size\<close> is the errno of a failed \<open>mmap\<close> or the address it returned.\<close>

definition mmap_anonymous :: "(nat \<Rightarrow> os_error + u64) \<Rightarrow> nat \<Rightarrow> memory_error + u64" where
  "mmap_anonymous os_mmap sz =
     (case os_mmap sz of
        Inl err \<Rightarrow> Inl (Mmap (of_nat sz) err)
      | Inr addr \<Rightarrow> res_bind (require_host_alignment addr) (\<lambda>_. Inr addr))"

section \<open>Admitting a region\<close>

definition memory_new :: "int \<Rightarrow> memory_error + guest_memory" where
  "memory_new os_sysconf =
     res_bind (host_page_size os_sysconf) (\<lambda>bytes.
       if bytes \<noteq> HOST_PAGE_SIZE then Inl (UnexpectedPageSize bytes HOST_PAGE_SIZE)
       else Inr \<lparr>regions = []\<rparr>)"

definition check_layout :: "u64 \<Rightarrow> u64 \<Rightarrow> memory_error + nat" where
  "check_layout gpa sz =
     (if gpa mod HOST_PAGE_SIZE \<noteq> 0 then Inl (MisalignedGpa gpa HOST_PAGE_SIZE)
      else if sz = 0 \<or> sz mod HOST_PAGE_SIZE \<noteq> 0 then Inl (MisalignedSize sz HOST_PAGE_SIZE)
      else if checked_add gpa sz = None then Inl (MemOverflow gpa sz)
      else Inr (unat sz))"

fun overlap_scan :: "u64 \<Rightarrow> u64 \<Rightarrow> region list \<Rightarrow> (u64 \<times> u64) option" where
  "overlap_scan gpa e [] = None"
| "overlap_scan gpa e (r # rs) =
     (if gpa < region_end r \<and> r_gpa r < e then Some (r_gpa r, of_nat (r_size r))
      else overlap_scan gpa e rs)"

definition overlap :: "guest_memory \<Rightarrow> u64 \<Rightarrow> u64 \<Rightarrow> (u64 \<times> u64) option" where
  "overlap m gpa sz = overlap_scan gpa (gpa + sz) (regions m)"

definition reserve :: "guest_memory \<Rightarrow> u64 \<Rightarrow> u64 \<Rightarrow> memory_error + nat" where
  "reserve m gpa sz =
     res_bind (check_layout gpa sz) (\<lambda>bytes.
       case overlap m gpa sz of
         Some (other_gpa, other_size) \<Rightarrow> Inl (MemOverlap gpa sz other_gpa other_size)
       | None \<Rightarrow> Inr bytes)"

definition alloc_region ::
  "(nat \<Rightarrow> os_error + u64) \<Rightarrow> guest_memory \<Rightarrow> u64 \<Rightarrow> u64 \<Rightarrow> memory_error + region" where
  "alloc_region os_mmap m gpa sz =
     res_bind (reserve m gpa sz) (\<lambda>bytes.
     res_bind (mmap_anonymous os_mmap bytes) (\<lambda>host.
       Inr \<lparr>r_gpa = gpa, r_size = bytes, r_host = host, r_guest_mapped = False,
            r_data = (\<lambda>_. 0)\<rparr>))"

definition insert_region :: "guest_memory \<Rightarrow> region \<Rightarrow> guest_memory" where
  "insert_region m r =
     m\<lparr>regions := vec_insert (partition_point (\<lambda>existing. r_gpa existing < r_gpa r) (regions m))
                   r (regions m)\<rparr>"

definition add_region ::
  "(nat \<Rightarrow> os_error + u64) \<Rightarrow> guest_memory \<Rightarrow> u64 \<Rightarrow> u64 \<Rightarrow> memory_error + guest_memory" where
  "add_region os_mmap m gpa sz =
     res_bind (alloc_region os_mmap m gpa sz) (\<lambda>r. Inr (insert_region m r))"

text \<open>\<open>hv_map host gpa bytes flags\<close> is the error of a failed \<open>hv_vm_map\<close>, if it failed.\<close>

definition map_flags ::
  "(nat \<Rightarrow> os_error + u64) \<Rightarrow> (u64 \<Rightarrow> u64 \<Rightarrow> nat \<Rightarrow> u64 \<Rightarrow> hv_error option) \<Rightarrow>
   guest_memory \<Rightarrow> u64 \<Rightarrow> u64 \<Rightarrow> u64 \<Rightarrow> memory_error + guest_memory" where
  "map_flags os_mmap hv_map m gpa sz flags =
     res_bind (alloc_region os_mmap m gpa sz) (\<lambda>r.
       case hv_map (r_host r) gpa (r_size r) flags of
         Some source \<Rightarrow> Inl (MapFailed gpa sz source)
       | None \<Rightarrow> Inr (insert_region m (r\<lparr>r_guest_mapped := True\<rparr>)))"

definition HV_MEMORY_RWX :: u64 where
  "HV_MEMORY_RWX = 7"

definition memory_map ::
  "(nat \<Rightarrow> os_error + u64) \<Rightarrow> (u64 \<Rightarrow> u64 \<Rightarrow> nat \<Rightarrow> u64 \<Rightarrow> hv_error option) \<Rightarrow>
   guest_memory \<Rightarrow> u64 \<Rightarrow> u64 \<Rightarrow> memory_error + guest_memory" where
  "memory_map os_mmap hv_map m gpa sz = map_flags os_mmap hv_map m gpa sz HV_MEMORY_RWX"

section \<open>Admitting an access\<close>

fun find_scan ::
  "u64 \<Rightarrow> nat \<Rightarrow> u64 \<Rightarrow> nat \<Rightarrow> nat option \<Rightarrow> region list \<Rightarrow> memory_error + nat option" where
  "find_scan gpa sz e index matched [] = Inr matched"
| "find_scan gpa sz e index matched (r # rs) =
     (if gpa < region_end r \<and> r_gpa r < e then
        (if matched \<noteq> None then Inl (CrossRegion gpa sz)
         else find_scan gpa sz e (Suc index) (Some index) rs)
      else find_scan gpa sz e (Suc index) matched rs)"

definition find_region :: "guest_memory \<Rightarrow> u64 \<Rightarrow> nat \<Rightarrow> memory_error + nat" where
  "find_region m gpa sz =
     (if 2 ^ 64 \<le> sz then Inl (OutOfRange gpa sz)
      else case checked_add gpa (of_nat sz) of
        None \<Rightarrow> Inl (OutOfRange gpa sz)
      | Some e \<Rightarrow>
          res_bind (find_scan gpa sz e 0 None (regions m)) (\<lambda>matched.
            case matched of
              None \<Rightarrow> Inl (OutOfRange gpa sz)
            | Some index \<Rightarrow>
                let r = regions m ! index in
                if gpa < r_gpa r \<or> region_end r < e then Inl (OutOfRange gpa sz)
                else Inr index))"

text \<open>\<open>access\<close> returns a reference into the vector; the model returns its index.\<close>

definition access :: "guest_memory \<Rightarrow> u64 \<Rightarrow> nat \<Rightarrow> memory_error + nat" where
  "access m gpa sz = (case find_region m gpa sz of Inr index \<Rightarrow> Inr index | Inl err \<Rightarrow> Inl err)"

definition read_bytes :: "guest_memory \<Rightarrow> u64 \<Rightarrow> nat \<Rightarrow> memory_error + u8 list" where
  "read_bytes m gpa len =
     (if len = 0 then Inr []
      else res_bind (access m gpa len) (\<lambda>index.
        let r = regions m ! index; off = unat (gpa - r_gpa r)
        in Inr (map (\<lambda>k. r_data r (off + k)) [0..<len])))"

definition copy_into :: "(nat \<Rightarrow> u8) \<Rightarrow> nat \<Rightarrow> u8 list \<Rightarrow> nat \<Rightarrow> u8" where
  "copy_into data off src i = (if off \<le> i \<and> i < off + length src then src ! (i - off) else data i)"

definition write_bytes :: "guest_memory \<Rightarrow> u64 \<Rightarrow> u8 list \<Rightarrow> memory_error + guest_memory" where
  "write_bytes m gpa src =
     (if src = [] then Inr m
      else res_bind (access m gpa (length src)) (\<lambda>index.
        let r = regions m ! index; off = unat (gpa - r_gpa r)
        in Inr (m\<lparr>regions := (regions m)[index := r\<lparr>r_data := copy_into (r_data r) off src\<rparr>]\<rparr>)))"

definition region_list :: "guest_memory \<Rightarrow> (u64 \<times> u64) list" where
  "region_list m = map (\<lambda>r. (r_gpa r, of_nat (r_size r))) (regions m)"

definition copy_region :: "guest_memory \<Rightarrow> u64 \<Rightarrow> u64 \<Rightarrow> memory_error + u8 list" where
  "copy_region m gpa sz = read_bytes m gpa (unat sz)"

definition host_ptr :: "guest_memory \<Rightarrow> u64 \<Rightarrow> nat \<Rightarrow> memory_error + u64" where
  "host_ptr m gpa len =
     (if len = 0 then Inr 1
      else res_bind (access m gpa len) (\<lambda>index.
        let r = regions m ! index in Inr (r_host r + (gpa - r_gpa r))))"

text \<open>\<open>os_madvise addr len advice\<close> is the errno of a failed \<open>madvise\<close>, if it failed.\<close>

definition advise ::
  "(u64 \<Rightarrow> nat \<Rightarrow> mem_advice \<Rightarrow> os_error option) \<Rightarrow>
   guest_memory \<Rightarrow> u64 \<Rightarrow> nat \<Rightarrow> mem_advice \<Rightarrow> memory_error + unit" where
  "advise os_madvise m gpa len adv =
     (if len = 0 then Inr ()
      else res_bind (host_ptr m gpa len) (\<lambda>ptr.
        case os_madvise ptr len adv of
          Some source \<Rightarrow> Inl (Advise gpa len source)
        | None \<Rightarrow> Inr ()))"

text \<open>The instances of the macro \<open>guest_int!\<close>: little-endian integers of each width.\<close>

definition read_u8 :: "guest_memory \<Rightarrow> u64 \<Rightarrow> memory_error + u8" where
  "read_u8 m gpa = res_bind (read_bytes m gpa 1) (\<lambda>buf. Inr (from_le buf))"

definition read_u16 :: "guest_memory \<Rightarrow> u64 \<Rightarrow> memory_error + u16" where
  "read_u16 m gpa = res_bind (read_bytes m gpa 2) (\<lambda>buf. Inr (from_le buf))"

definition read_u32 :: "guest_memory \<Rightarrow> u64 \<Rightarrow> memory_error + u32" where
  "read_u32 m gpa = res_bind (read_bytes m gpa 4) (\<lambda>buf. Inr (from_le buf))"

definition read_u64 :: "guest_memory \<Rightarrow> u64 \<Rightarrow> memory_error + u64" where
  "read_u64 m gpa = res_bind (read_bytes m gpa 8) (\<lambda>buf. Inr (from_le buf))"

definition write_u8 :: "guest_memory \<Rightarrow> u64 \<Rightarrow> u8 \<Rightarrow> memory_error + guest_memory" where
  "write_u8 m gpa v = write_bytes m gpa (to_le 1 v)"

definition write_u16 :: "guest_memory \<Rightarrow> u64 \<Rightarrow> u16 \<Rightarrow> memory_error + guest_memory" where
  "write_u16 m gpa v = write_bytes m gpa (to_le 2 v)"

definition write_u32 :: "guest_memory \<Rightarrow> u64 \<Rightarrow> u32 \<Rightarrow> memory_error + guest_memory" where
  "write_u32 m gpa v = write_bytes m gpa (to_le 4 v)"

definition write_u64 :: "guest_memory \<Rightarrow> u64 \<Rightarrow> u64 \<Rightarrow> memory_error + guest_memory" where
  "write_u64 m gpa v = write_bytes m gpa (to_le 8 v)"

lemmas guest_int_defs =
  read_u8_def read_u16_def read_u32_def read_u64_def
  write_u8_def write_u16_def write_u32_def write_u64_def

section \<open>The invariant: regions are page multiples, sorted and disjoint\<close>

definition region_lo :: "region \<Rightarrow> nat" where
  "region_lo r = unat (r_gpa r)"

definition region_hi :: "region \<Rightarrow> nat" where
  "region_hi r = unat (r_gpa r) + r_size r"

definition region_ok :: "region \<Rightarrow> bool" where
  "region_ok r \<longleftrightarrow>
     r_gpa r mod HOST_PAGE_SIZE = 0 \<and> 0 < r_size r \<and> r_size r mod unat HOST_PAGE_SIZE = 0 \<and>
     region_hi r < 2 ^ 64"

definition regions_ok :: "region list \<Rightarrow> bool" where
  "regions_ok rs \<longleftrightarrow>
     (\<forall>r \<in> set rs. region_ok r) \<and> sorted_wrt (\<lambda>a b. region_hi a \<le> region_lo b) rs"

definition mem_inv :: "guest_memory \<Rightarrow> bool" where
  "mem_inv m \<longleftrightarrow> regions_ok (regions m)"

lemma unat_region_end: "region_ok r \<Longrightarrow> unat (region_end r) = region_hi r"
  by (simp add: region_end_def region_ok_def region_hi_def unat_word_ariths unsigned_of_nat
      take_bit_eq_mod)

lemma region_lo_less_hi: "region_ok r \<Longrightarrow> region_lo r < region_hi r"
  by (simp add: region_ok_def region_lo_def region_hi_def)

text \<open>The intersection test of \<open>overlap\<close> and \<open>find\<close>, on natural numbers.\<close>

lemma touches_iff:
  "region_ok r \<Longrightarrow> (gpa < region_end r \<and> r_gpa r < e) \<longleftrightarrow> unat gpa < region_hi r \<and> region_lo r < unat e"
  by (simp add: word_less_nat_alt unat_region_end region_lo_def)

lemma check_layout_ok:
  "check_layout gpa sz = Inr bytes \<longleftrightarrow>
     gpa mod HOST_PAGE_SIZE = 0 \<and> sz \<noteq> 0 \<and> sz mod HOST_PAGE_SIZE = 0 \<and>
     unat gpa + unat sz < 2 ^ 64 \<and> bytes = unat sz"
  by (auto simp: check_layout_def checked_add_def split: if_splits)

lemma overlap_scan_None:
  "(\<forall>r \<in> set rs. region_ok r) \<Longrightarrow>
   overlap_scan gpa e rs = None \<longleftrightarrow>
     (\<forall>r \<in> set rs. region_hi r \<le> unat gpa \<or> unat e \<le> region_lo r)"
  by (induction rs) (auto simp: touches_iff not_less)

lemma insert_regions_ok:
  assumes ok: "regions_ok rs" and new: "region_ok x"
    and apart: "\<forall>r \<in> set rs. region_hi r \<le> region_lo x \<or> region_hi x \<le> region_lo r"
  shows "regions_ok (vec_insert (partition_point (\<lambda>r. r_gpa r < r_gpa x) rs) x rs)"
proof -
  have lt: "r_gpa r < r_gpa x \<longleftrightarrow> region_lo r < region_lo x" for r
    by (simp add: region_lo_def word_less_nat_alt)
  have "\<forall>r \<in> set (x # rs). region_lo r < region_hi r"
    using ok new region_lo_less_hi by (auto simp: regions_ok_def)
  with ok new apart show ?thesis
    unfolding lt by (auto simp: regions_ok_def intro!: insert_interval)
qed

lemma alloc_region_ok:
  assumes "mem_inv m" and "alloc_region os_mmap m gpa sz = Inr r"
  shows "region_ok r \<and> r_gpa r = gpa \<and> r_size r = unat sz \<and>
    (\<forall>r' \<in> set (regions m). region_hi r' \<le> region_lo r \<or> region_hi r \<le> region_lo r')"
proof -
  from assms(2) obtain bytes where res: "reserve m gpa sz = Inr bytes"
    and r: "r_gpa r = gpa" "r_size r = bytes"
    by (auto simp: alloc_region_def res_bind_eq_Inr)
  from res have lay: "check_layout gpa sz = Inr bytes" and ov: "overlap m gpa sz = None"
    by (auto simp: reserve_def res_bind_eq_Inr split: option.splits prod.splits) (metis option.exhaust surj_pair)
  from lay have sz: "bytes = unat sz" "sz \<noteq> 0" "unat gpa + unat sz < 2 ^ 64"
    "gpa mod HOST_PAGE_SIZE = 0" "sz mod HOST_PAGE_SIZE = 0"
    by (auto simp: check_layout_ok)
  then have "unat sz mod unat HOST_PAGE_SIZE = 0"
    by (metis unat_mod unat_0)
  with sz r have ok: "region_ok r"
    by (simp add: region_ok_def region_hi_def unat_gt_0)
  have "unat (gpa + sz) = region_hi r"
    using sz r by (simp add: region_hi_def unat_add_no_overflow)
  with ov assms(1) r ok sz show ?thesis
    by (auto simp: overlap_def overlap_scan_None mem_inv_def regions_ok_def region_lo_def)
qed

lemma insert_region_inv:
  assumes "mem_inv m" and "alloc_region os_mmap m gpa sz = Inr r"
  shows "mem_inv (insert_region m (r\<lparr>r_guest_mapped := b\<rparr>))"
proof -
  have same: "region_ok (r\<lparr>r_guest_mapped := b\<rparr>) = region_ok r"
    "region_lo (r\<lparr>r_guest_mapped := b\<rparr>) = region_lo r"
    "region_hi (r\<lparr>r_guest_mapped := b\<rparr>) = region_hi r"
    by (simp_all add: region_ok_def region_lo_def region_hi_def)
  show ?thesis
    using alloc_region_ok [OF assms] assms(1)
      insert_regions_ok [of "regions m" "r\<lparr>r_guest_mapped := b\<rparr>"]
    by (simp add: mem_inv_def insert_region_def same)
qed

lemma add_region_inv:
  assumes "mem_inv m" and "add_region os_mmap m gpa sz = Inr m'"
  shows "mem_inv m'"
proof -
  from assms(2) obtain r where r: "alloc_region os_mmap m gpa sz = Inr r"
    and m': "m' = insert_region m r"
    by (auto simp: add_region_def res_bind_eq_Inr)
  from r have "r_guest_mapped r = False"
    by (auto simp: alloc_region_def res_bind_eq_Inr)
  then have "r\<lparr>r_guest_mapped := False\<rparr> = r" by simp
  with insert_region_inv [OF assms(1) r, of False] show ?thesis by (simp add: m')
qed

lemma map_flags_inv:
  assumes "mem_inv m" and "map_flags os_mmap hv_map m gpa sz flags = Inr m'"
  shows "mem_inv m'"
  using assms insert_region_inv [OF assms(1)]
  by (auto simp: map_flags_def res_bind_eq_Inr split: option.splits)

lemma memory_new_inv: "memory_new page = Inr m \<Longrightarrow> mem_inv m"
  by (auto simp: memory_new_def res_bind_eq_Inr mem_inv_def regions_ok_def split: if_splits)

section \<open>The search for an access\<close>

text \<open>The regions an access \<open>[lo, hi)\<close> touches, as the list of their positions.\<close>

definition touched :: "nat \<Rightarrow> nat \<Rightarrow> region list \<Rightarrow> nat list" where
  "touched lo hi rs = filter (\<lambda>i. lo < region_hi (rs ! i) \<and> region_lo (rs ! i) < hi) [0..<length rs]"

lemma touched_Cons:
  "touched lo hi (r # rs) =
     (if lo < region_hi r \<and> region_lo r < hi then [0] else []) @ map Suc (touched lo hi rs)"
proof -
  have "[0..<length (r # rs)] = 0 # map Suc [0..<length rs]"
    by (simp add: upt_conv_Cons map_Suc_upt del: upt_Suc)
  then show ?thesis by (simp add: touched_def filter_map o_def)
qed

lemma find_scan_matched:
  "(\<forall>r \<in> set rs. region_ok r) \<Longrightarrow>
   find_scan gpa sz e index (Some i) rs =
     (if touched (unat gpa) (unat e) rs = [] then Inr (Some i) else Inl (CrossRegion gpa sz))"
  by (induction rs arbitrary: index) (auto simp: touched_Cons touches_iff touched_def [of _ _ "[]"])

lemma find_scan_none:
  "(\<forall>r \<in> set rs. region_ok r) \<Longrightarrow>
   find_scan gpa sz e index None rs =
     (case touched (unat gpa) (unat e) rs of
        [] \<Rightarrow> Inr None
      | [i] \<Rightarrow> Inr (Some (index + i))
      | _ \<Rightarrow> Inl (CrossRegion gpa sz))"
proof (induction rs arbitrary: index)
  case Nil
  show ?case by (simp add: touched_def)
next
  case (Cons r rs)
  then have r: "region_ok r" and rs: "\<forall>r \<in> set rs. region_ok r" by simp_all
  show ?case
    using Cons.IH [OF rs] find_scan_matched [OF rs]
    by (auto simp: touched_Cons touches_iff [OF r] split: list.splits)
qed

text \<open>With regions sorted and disjoint, an access inside a region touches that region only.\<close>

lemma touched_inside:
  assumes ok: "regions_ok rs" and i: "i < length rs"
    and inside: "region_lo (rs ! i) \<le> lo" "hi \<le> region_hi (rs ! i)" "lo < hi"
  shows "touched lo hi rs = [i]"
proof -
  have only: "j = i"
    if "j < length rs" "lo < region_hi (rs ! j)" "region_lo (rs ! j) < hi" for j
  proof (rule ccontr)
    assume "j \<noteq> i"
    then consider "j < i" | "i < j" by linarith
    then show False
    proof cases
      case 1
      have "region_hi (rs ! j) \<le> region_lo (rs ! i)"
        using ok i 1 sorted_wrt_nth_less by (fastforce simp: regions_ok_def)
      with that inside show False by simp
    next
      case 2
      have "region_hi (rs ! i) \<le> region_lo (rs ! j)"
        using ok that 2 sorted_wrt_nth_less by (fastforce simp: regions_ok_def)
      with that inside show False by simp
    qed
  qed
  have "filter (\<lambda>j. lo < region_hi (rs ! j) \<and> region_lo (rs ! j) < hi) [0..<length rs] =
        filter (\<lambda>j. j = i) [0..<length rs]"
  proof (rule filter_cong [OF refl])
    fix j assume "j \<in> set [0..<length rs]"
    then have "j < length rs" by simp
    with only [of j] inside show "(lo < region_hi (rs ! j) \<and> region_lo (rs ! j) < hi) = (j = i)"
      by fastforce
  qed
  also have "\<dots> = [i]"
    using i by (rule filter_eq_upt)
  finally show ?thesis by (simp add: touched_def)
qed

text \<open>
  The outcome of the search is decided by the regions alone: it succeeds exactly for the region that
  holds the whole access.
\<close>

lemma find_region_iff:
  assumes inv: "mem_inv m" and pos: "0 < sz"
  shows "find_region m gpa sz = Inr i \<longleftrightarrow>
    i < length (regions m) \<and> region_lo (regions m ! i) \<le> unat gpa \<and>
    unat gpa + sz \<le> region_hi (regions m ! i)" (is "?lhs \<longleftrightarrow> ?rhs")
proof
  have all: "\<forall>r \<in> set (regions m). region_ok r"
    using inv by (simp add: mem_inv_def regions_ok_def)
  {
    assume ?lhs
    then obtain e where e: "sz < 2 ^ 64" "checked_add gpa (of_nat sz) = Some e"
      and scan: "find_scan gpa sz e 0 None (regions m) = Inr (Some i)"
      and fits: "r_gpa (regions m ! i) \<le> gpa" "e \<le> region_end (regions m ! i)"
      by (auto simp: find_region_def res_bind_eq_Inr Let_def split: if_splits option.splits)
    then have ue: "unat e = unat gpa + sz"
      by (simp add: checked_add_Some unsigned_of_nat take_bit_eq_mod)
    from scan have "touched (unat gpa) (unat e) (regions m) = [i]"
      by (auto simp: find_scan_none [OF all] split: list.splits)
    then have "i \<in> set (touched (unat gpa) (unat e) (regions m))" by simp
    then have i: "i < length (regions m)" by (simp add: touched_def)
    with fits all ue show ?rhs
      by (auto simp: word_le_nat_alt unat_region_end region_lo_def)
  next
    assume r: ?rhs
    then have ok: "region_ok (regions m ! i)" using all by simp
    with r have bound: "unat gpa + sz < 2 ^ 64" by (simp add: region_ok_def)
    then have usz: "unat (of_nat sz :: u64) = sz"
      by (simp add: unsigned_of_nat take_bit_eq_mod)
    with bound have c: "checked_add gpa (of_nat sz) = Some (gpa + of_nat sz)"
      and ue: "unat (gpa + of_nat sz) = unat gpa + sz"
      by (simp_all add: checked_add_def unat_add_no_overflow)
    have "touched (unat gpa) (unat gpa + sz) (regions m) = [i]"
      using r pos inv by (intro touched_inside) (auto simp: mem_inv_def)
    with r bound show ?lhs
      by (auto simp: find_region_def c find_scan_none [OF all] ue Let_def word_less_nat_alt
          unat_region_end [OF ok] region_lo_def)
  }
qed

lemma find_region_error:
  assumes "find_region m gpa sz = Inl err"
  shows "err = OutOfRange gpa sz \<or> err = CrossRegion gpa sz"
proof -
  have "find_scan gpa sz e i k rs = Inl err \<Longrightarrow> err = CrossRegion gpa sz" for e i k rs
    by (induction gpa sz e i k rs rule: find_scan.induct) (auto split: if_splits)
  with assms show ?thesis
    by (auto simp: find_region_def res_bind_def Let_def split: if_splits option.splits sum.splits)
qed

lemma access_eq_find [simp]: "access m gpa sz = find_region m gpa sz"
  by (simp add: access_def split: sum.splits)

section \<open>Memory as a partial map from addresses to bytes\<close>

text \<open>
  The abstract view: the byte at a guest physical address, if a region backs it. Reads look bytes up in
  the view, writes override it; the layout of regions stays hidden.
\<close>

definition byte_at :: "region list \<Rightarrow> nat \<Rightarrow> u8 option" where
  "byte_at rs a =
     (case find (\<lambda>r. region_lo r \<le> a \<and> a < region_hi r) rs of
        None \<Rightarrow> None
      | Some r \<Rightarrow> Some (r_data r (a - region_lo r)))"

definition mem_view :: "guest_memory \<Rightarrow> nat \<Rightarrow> u8 option" where
  "mem_view m = byte_at (regions m)"

definition view_write :: "(nat \<Rightarrow> u8 option) \<Rightarrow> nat \<Rightarrow> u8 list \<Rightarrow> nat \<Rightarrow> u8 option" where
  "view_write v a bs k = (if a \<le> k \<and> k < a + length bs then Some (bs ! (k - a)) else v k)"

lemma view_write_Nil [simp]: "view_write v a [] = v"
  by (auto simp: view_write_def fun_eq_iff)

lemma regions_disjoint:
  assumes "regions_ok rs" and "i < length rs" and "j < length rs"
    and "region_lo (rs ! i) \<le> a" and "a < region_hi (rs ! i)"
    and "region_lo (rs ! j) \<le> a" and "a < region_hi (rs ! j)"
  shows "j = i"
  using assms interval_unique [of region_hi region_lo rs i j a] by (simp add: regions_ok_def)

lemma find_region_at:
  assumes ok: "regions_ok rs" and i: "i < length rs"
    and a: "region_lo (rs ! i) \<le> a" "a < region_hi (rs ! i)"
  shows "find (\<lambda>r. region_lo r \<le> a \<and> a < region_hi r) rs = Some (rs ! i)"
proof -
  have "\<not> (region_lo (rs ! j) \<le> a \<and> a < region_hi (rs ! j))" if "j < i" for j
  proof -
    have "region_hi (rs ! j) \<le> region_lo (rs ! i)"
      using ok i that sorted_wrt_nth_less by (fastforce simp: regions_ok_def)
    with a show ?thesis by simp
  qed
  with i a show ?thesis by (auto simp: find_Some_iff)
qed

lemma byte_at_region:
  assumes "regions_ok rs" and "i < length rs"
    and "region_lo (rs ! i) \<le> a" and "a < region_hi (rs ! i)"
  shows "byte_at rs a = Some (r_data (rs ! i) (a - region_lo (rs ! i)))"
  by (simp add: byte_at_def find_region_at [OF assms])

lemma byte_at_None:
  "byte_at rs a = None \<longleftrightarrow> (\<forall>r \<in> set rs. \<not> (region_lo r \<le> a \<and> a < region_hi r))"
proof -
  have "byte_at rs a = None \<longleftrightarrow> find (\<lambda>r. region_lo r \<le> a \<and> a < region_hi r) rs = None"
    by (simp add: byte_at_def split: option.splits)
  then show ?thesis by (auto simp: find_None_iff)
qed

lemma unat_region_offset:
  "region_lo r \<le> unat gpa \<Longrightarrow> unat (gpa - r_gpa r) = unat gpa - region_lo r"
  by (simp add: unat_sub word_le_nat_alt region_lo_def)

lemma read_bytes_view:
  assumes inv: "mem_inv m" and rd: "read_bytes m gpa n = Inr bs"
  shows "length bs = n" and "k < n \<Longrightarrow> mem_view m (unat gpa + k) = Some (bs ! k)"
proof -
  show len: "length bs = n"
    using rd by (auto simp: read_bytes_def res_bind_eq_Inr Let_def split: if_splits)
  assume k: "k < n"
  with rd obtain i where f: "find_region m gpa n = Inr i"
    and bs: "bs = map (\<lambda>k. r_data (regions m ! i) (unat (gpa - r_gpa (regions m ! i)) + k)) [0..<n]"
    by (auto simp: read_bytes_def res_bind_eq_Inr Let_def split: if_splits)
  from f k have i: "i < length (regions m)" and lo: "region_lo (regions m ! i) \<le> unat gpa"
    and hi: "unat gpa + n \<le> region_hi (regions m ! i)"
    by (simp_all add: find_region_iff [OF inv])
  from lo hi k show "mem_view m (unat gpa + k) = Some (bs ! k)"
    using inv byte_at_region [of "regions m" i "unat gpa + k"] i
    by (simp add: mem_view_def mem_inv_def bs unat_region_offset)
qed

lemma write_region_ok:
  "regions_ok (rs[i := (rs ! i)\<lparr>r_data := d\<rparr>]) = regions_ok rs"
proof (cases "i < length rs")
  case True
  let ?rs = "rs[i := (rs ! i)\<lparr>r_data := d\<rparr>]"
  have ok: "region_ok (?rs ! j) = region_ok (rs ! j)" and lo: "region_lo (?rs ! j) = region_lo (rs ! j)"
    and hi: "region_hi (?rs ! j) = region_hi (rs ! j)" for j
    using True by (cases "j = i"; simp add: region_ok_def region_lo_def region_hi_def)+
  show ?thesis
    by (simp add: regions_ok_def all_set_conv_all_nth sorted_wrt_iff_nth_less ok lo hi)
next
  case False
  then show ?thesis by (simp add: list_update_beyond)
qed

text \<open>A write that succeeds keeps the layout and overrides exactly the bytes written.\<close>

lemma write_bytes_view:
  assumes inv: "mem_inv m" and wr: "write_bytes m gpa src = Inr m'"
  shows "mem_inv m'" and "mem_view m' = view_write (mem_view m) (unat gpa) src"
    and "map region_lo (regions m') = map region_lo (regions m)"
    and "map region_hi (regions m') = map region_hi (regions m)"
proof -
  have "mem_inv m' \<and> mem_view m' = view_write (mem_view m) (unat gpa) src \<and>
    map region_lo (regions m') = map region_lo (regions m) \<and>
    map region_hi (regions m') = map region_hi (regions m)"
  proof (cases "src = []")
    case True
    with wr inv show ?thesis by (simp add: write_bytes_def)
  next
    case False
    with wr obtain i where f: "find_region m gpa (length src) = Inr i"
      and m': "m' = m\<lparr>regions := (regions m)[i := (regions m ! i)\<lparr>r_data :=
                 copy_into (r_data (regions m ! i)) (unat (gpa - r_gpa (regions m ! i))) src\<rparr>]\<rparr>"
      by (auto simp: write_bytes_def res_bind_eq_Inr Let_def)
    let ?d = "copy_into (r_data (regions m ! i)) (unat (gpa - r_gpa (regions m ! i))) src"
    let ?rs = "regions m" and ?rs' = "(regions m)[i := (regions m ! i)\<lparr>r_data := ?d\<rparr>]"
    from f False have i: "i < length ?rs" and lo: "region_lo (?rs ! i) \<le> unat gpa"
      and hi: "unat gpa + length src \<le> region_hi (?rs ! i)"
      by (simp_all add: find_region_iff [OF inv])
    have ok: "regions_ok ?rs" using inv by (simp add: mem_inv_def)
    then have ok': "regions_ok ?rs'" by (simp add: write_region_ok)
    have nlo: "region_lo (?rs' ! j) = region_lo (?rs ! j)"
      and nhi: "region_hi (?rs' ! j) = region_hi (?rs ! j)" for j
      using i by (cases "j = i"; simp add: region_lo_def region_hi_def)+
    have "byte_at ?rs' k = view_write (byte_at ?rs) (unat gpa) src k" for k
    proof (cases "\<exists>j < length ?rs. region_lo (?rs ! j) \<le> k \<and> k < region_hi (?rs ! j)")
      case True
      then obtain j where j: "j < length ?rs" "region_lo (?rs ! j) \<le> k" "k < region_hi (?rs ! j)"
        by blast
      have new: "byte_at ?rs' k = Some (r_data (?rs' ! j) (k - region_lo (?rs ! j)))"
        using byte_at_region [OF ok', of j k] j by (simp add: nlo nhi)
      have old: "byte_at ?rs k = Some (r_data (?rs ! j) (k - region_lo (?rs ! j)))"
        using byte_at_region [OF ok, of j k] j by simp
      show ?thesis
      proof (cases "j = i")
        case True
        with i j lo hi new old show ?thesis
          by (auto simp: view_write_def copy_into_def unat_region_offset)
      next
        case False
        then have "\<not> (unat gpa \<le> k \<and> k < unat gpa + length src)"
          using regions_disjoint [OF ok i j(1), of k] j(2,3) lo hi by linarith
        with False i new old show ?thesis by (auto simp: view_write_def)
      qed
    next
      case False
      then have none: "byte_at ?rs k = None"
        by (auto simp: byte_at_None in_set_conv_nth)
      from False have none': "byte_at ?rs' k = None"
        by (auto simp: byte_at_None in_set_conv_nth nlo nhi)
      have "\<not> (unat gpa \<le> k \<and> k < unat gpa + length src)"
        using False i lo hi order.strict_trans2 order_trans by blast
      with none none' show ?thesis by (simp add: view_write_def)
    qed
    moreover have "map region_lo ?rs' = map region_lo ?rs" "map region_hi ?rs' = map region_hi ?rs"
      by (intro nth_equalityI; simp add: nlo nhi)+
    ultimately show ?thesis
      using ok' by (simp add: m' mem_inv_def mem_view_def fun_eq_iff)
  qed
  then show "mem_inv m'" "mem_view m' = view_write (mem_view m) (unat gpa) src"
    "map region_lo (regions m') = map region_lo (regions m)"
    "map region_hi (regions m') = map region_hi (regions m)"
    by simp_all
qed

section \<open>The layout decides every access\<close>

definition layout :: "guest_memory \<Rightarrow> (u64 \<times> nat) list" where
  "layout m = map (\<lambda>r. (r_gpa r, r_size r)) (regions m)"

lemma find_scan_layout:
  "list_all2 (\<lambda>r s. r_gpa r = r_gpa s \<and> r_size r = r_size s) rs ss \<Longrightarrow>
   find_scan gpa sz e i k rs = find_scan gpa sz e i k ss"
  by (induction rs ss arbitrary: i k rule: list_all2_induct) (simp_all add: region_end_def)

lemma find_region_layout:
  assumes "layout m = layout m'"
  shows "find_region m gpa sz = find_region m' gpa sz"
proof -
  have all: "list_all2 (\<lambda>r s. r_gpa r = r_gpa s \<and> r_size r = r_size s) (regions m) (regions m')"
    using assms by (auto simp: layout_def list_eq_iff_nth_eq list_all2_conv_all_nth)
  then have scan: "find_scan gpa sz e 0 None (regions m) = find_scan gpa sz e 0 None (regions m')" for e
    by (rule find_scan_layout)
  have idx: "i < length (regions m)" if "find_scan gpa sz e 0 None (regions m') = Inr (Some i)" for e i
  proof -
    have "find_scan gpa sz e j k rs = Inr (Some i) \<Longrightarrow> k = Some i \<or> i < j + length rs" for j k rs
      by (induction gpa sz e j k rs rule: find_scan.induct) (auto split: if_splits)
    with that have "i < length (regions m')" by fastforce
    with all show ?thesis by (simp add: list_all2_lengthD)
  qed
  have same: "r_gpa (regions m ! i) = r_gpa (regions m' ! i)"
    "region_end (regions m ! i) = region_end (regions m' ! i)" if "i < length (regions m)" for i
    using list_all2_nthD [OF all that] by (simp_all add: region_end_def)
  show ?thesis
    by (auto simp: find_region_def scan res_bind_def Let_def same idx split: option.splits sum.splits)
qed

lemma write_bytes_layout:
  assumes "write_bytes m gpa src = Inr m'"
  shows "layout m' = layout m"
proof -
  have "map (\<lambda>r. (r_gpa r, r_size r)) (rs[i := (rs ! i)\<lparr>r_data := d\<rparr>]) =
        map (\<lambda>r. (r_gpa r, r_size r)) rs" for rs i d
  proof (rule nth_equalityI)
    fix j assume "j < length (map (\<lambda>r. (r_gpa r, r_size r)) (rs[i := (rs ! i)\<lparr>r_data := d\<rparr>]))"
    then show "map (\<lambda>r. (r_gpa r, r_size r)) (rs[i := (rs ! i)\<lparr>r_data := d\<rparr>]) ! j =
      map (\<lambda>r. (r_gpa r, r_size r)) rs ! j"
      by (cases "i = j") simp_all
  qed simp
  with assms show ?thesis
    by (auto simp: write_bytes_def res_bind_eq_Inr Let_def layout_def split: if_splits)
qed

section \<open>What a client of guest memory relies on\<close>

text \<open>
  The contract of a byte-addressed store with fallible accesses: a read returns the bytes of the view,
  a write overrides the view there and nowhere else, and which accesses fail, and how, is not changed by
  writes.
\<close>

locale byte_store =
  fixes rd :: "'m \<Rightarrow> u64 \<Rightarrow> nat \<Rightarrow> 'e + u8 list"
    and wr :: "'m \<Rightarrow> u64 \<Rightarrow> u8 list \<Rightarrow> 'e + 'm"
    and view :: "'m \<Rightarrow> nat \<Rightarrow> u8 option"
    and inv :: "'m \<Rightarrow> bool"
  assumes rd_len: "inv m \<Longrightarrow> rd m a n = Inr bs \<Longrightarrow> length bs = n"
    and rd_view: "inv m \<Longrightarrow> rd m a n = Inr bs \<Longrightarrow> k < n \<Longrightarrow> view m (unat a + k) = Some (bs ! k)"
    and wr_inv: "inv m \<Longrightarrow> wr m a bs = Inr m' \<Longrightarrow> inv m'"
    and wr_view: "inv m \<Longrightarrow> wr m a bs = Inr m' \<Longrightarrow> view m' = view_write (view m) (unat a) bs"
    and wr_ok: "inv m \<Longrightarrow> is_ok (wr m a bs) \<longleftrightarrow> is_ok (rd m a (length bs))"
    and wr_errors: "inv m \<Longrightarrow> wr m a bs = Inr m' \<Longrightarrow> rd m' b n = Inl e \<longleftrightarrow> rd m b n = Inl e"
begin

lemma rd_ok_after_wr: "inv m \<Longrightarrow> wr m a bs = Inr m' \<Longrightarrow> is_ok (rd m' b n) \<longleftrightarrow> is_ok (rd m b n)"
  unfolding is_ok_iff by (metis wr_errors sum.exhaust sum.distinct(1))

lemma rd_eqI:
  assumes "inv m" and "rd m a n = Inr bs" and "length cs = n"
    and "\<And>k. k < n \<Longrightarrow> view m (unat a + k) = Some (cs ! k)"
  shows "bs = cs"
proof (rule nth_equalityI)
  show len: "length bs = length cs" using rd_len [OF assms(1,2)] assms(3) by simp
  show "bs ! k = cs ! k" if "k < length bs" for k
    using rd_view [OF assms(1,2), of k] assms(3,4) len that by simp
qed

text \<open>A read of what was just written returns it.\<close>

lemma rd_after_wr:
  assumes inv: "inv m" and wr: "wr m a bs = Inr m'"
  shows "rd m' a (length bs) = Inr bs"
proof -
  from wr_ok [OF inv, of a bs] wr have "is_ok (rd m a (length bs))" by (simp add: is_ok_def)
  then have "is_ok (rd m' a (length bs))" by (simp add: rd_ok_after_wr [OF inv wr])
  then obtain cs where cs: "rd m' a (length bs) = Inr cs" by (auto simp: is_ok_iff)
  moreover have "cs = bs"
    using wr_inv [OF inv wr] cs by (rule rd_eqI) (simp_all add: wr_view [OF inv wr] view_write_def)
  ultimately show ?thesis by simp
qed

text \<open>A read of bytes a write did not touch is the read before the write, errors included.\<close>

lemma rd_frame:
  assumes inv: "inv m" and wr: "wr m a bs = Inr m'"
    and apart: "unat b + n \<le> unat a \<or> unat a + length bs \<le> unat b"
  shows "rd m' b n = rd m b n"
proof (cases "rd m b n")
  case (Inl e)
  then show ?thesis by (simp add: wr_errors [OF inv wr])
next
  case (Inr cs)
  with rd_ok_after_wr [OF inv wr, of b n] have "is_ok (rd m' b n)" by simp
  then obtain ds where ds: "rd m' b n = Inr ds" by (auto simp: is_ok_iff)
  have "ds = cs"
    using wr_inv [OF inv wr] ds
  proof (rule rd_eqI)
    show "length cs = n" using inv Inr by (rule rd_len)
    show "view m' (unat b + k) = Some (cs ! k)" if "k < n" for k
      using rd_view [OF inv Inr that] apart that by (auto simp: wr_view [OF inv wr] view_write_def)
  qed
  with ds Inr show ?thesis by simp
qed

lemma wr_ok_after_wr:
  assumes "inv m" and "wr m a bs = Inr m'"
  shows "is_ok (wr m' b cs) \<longleftrightarrow> is_ok (wr m b cs)"
  using assms by (simp add: wr_ok rd_ok_after_wr wr_inv)

end

interpretation mem: byte_store read_bytes write_bytes mem_view mem_inv
proof
  fix m a bs m' b n e
  assume inv: "mem_inv m"
  show "is_ok (write_bytes m a bs) \<longleftrightarrow> is_ok (read_bytes m a (length bs))"
    by (auto simp: write_bytes_def read_bytes_def is_ok_def res_bind_def Let_def split: sum.splits)
  assume wr: "write_bytes m a bs = Inr m'"
  have "find_region m' b n = find_region m b n"
    using write_bytes_layout [OF wr] by (rule find_region_layout)
  then show "read_bytes m' b n = Inl e \<longleftrightarrow> read_bytes m b n = Inl e"
    by (auto simp: read_bytes_def res_bind_def Let_def split: sum.splits)
qed (auto intro: read_bytes_view write_bytes_view)

text \<open>The laws for the integers of each width.\<close>

lemma read_int_after_write:
  "mem_inv m \<Longrightarrow> write_u8 m a x8 = Inr m' \<Longrightarrow> read_u8 m' a = Inr x8"
  "mem_inv m \<Longrightarrow> write_u16 m a x16 = Inr m' \<Longrightarrow> read_u16 m' a = Inr x16"
  "mem_inv m \<Longrightarrow> write_u32 m a x32 = Inr m' \<Longrightarrow> read_u32 m' a = Inr x32"
  "mem_inv m \<Longrightarrow> write_u64 m a x64 = Inr m' \<Longrightarrow> read_u64 m' a = Inr x64"
  by (auto simp: guest_int_defs dest: mem.rd_after_wr)

lemma read_int_frame:
  assumes "mem_inv m" and "write_bytes m a bs = Inr m'"
  shows "unat b + 1 \<le> unat a \<or> unat a + length bs \<le> unat b \<Longrightarrow> read_u8 m' b = read_u8 m b"
    "unat b + 2 \<le> unat a \<or> unat a + length bs \<le> unat b \<Longrightarrow> read_u16 m' b = read_u16 m b"
    "unat b + 4 \<le> unat a \<or> unat a + length bs \<le> unat b \<Longrightarrow> read_u32 m' b = read_u32 m b"
    "unat b + 8 \<le> unat a \<or> unat a + length bs \<le> unat b \<Longrightarrow> read_u64 m' b = read_u64 m b"
  using mem.rd_frame [OF assms] by (simp_all add: guest_int_defs)

lemma find_region_cross:
  assumes inv: "mem_inv m"
  shows "find_region m gpa sz = Inl (CrossRegion gpa sz) \<longleftrightarrow>
    unat gpa + sz < 2 ^ 64 \<and> 2 \<le> length (touched (unat gpa) (unat gpa + sz) (regions m))"
proof -
  have all: "\<forall>r \<in> set (regions m). region_ok r"
    using inv by (simp add: mem_inv_def regions_ok_def)
  show ?thesis
  proof (cases "unat gpa + sz < 2 ^ 64")
    case True
    then have usz: "unat (of_nat sz :: u64) = sz"
      by (simp add: unsigned_of_nat take_bit_eq_mod)
    with True have "checked_add gpa (of_nat sz) = Some (gpa + of_nat sz)"
      and "unat (gpa + of_nat sz) = unat gpa + sz"
      by (simp_all add: checked_add_def unat_add_no_overflow)
    with True show ?thesis
      by (simp add: find_region_def find_scan_none [OF all] Let_def split: list.splits)
  next
    case False
    then show ?thesis
      by (auto simp: find_region_def checked_add_def unsigned_of_nat take_bit_eq_mod)
  qed
qed

section \<open>Histories of the address space\<close>

text \<open>
  Each operation that changes the address space, as one step. An operation that fails returns before it
  touches the region list, so the step leaves the state as it was.
\<close>

datatype mem_op =
    AddRegion u64 u64
  | MapFlags u64 u64 u64
  | WriteBytes u64 "u8 list"

fun mem_step ::
  "(nat \<Rightarrow> os_error + u64) \<Rightarrow> (u64 \<Rightarrow> u64 \<Rightarrow> nat \<Rightarrow> u64 \<Rightarrow> hv_error option) \<Rightarrow>
   guest_memory \<Rightarrow> mem_op \<Rightarrow> guest_memory" where
  "mem_step os_mmap hv_map m (AddRegion gpa sz) =
     (case add_region os_mmap m gpa sz of Inl _ \<Rightarrow> m | Inr m' \<Rightarrow> m')"
| "mem_step os_mmap hv_map m (MapFlags gpa sz flags) =
     (case map_flags os_mmap hv_map m gpa sz flags of Inl _ \<Rightarrow> m | Inr m' \<Rightarrow> m')"
| "mem_step os_mmap hv_map m (WriteBytes gpa src) =
     (case write_bytes m gpa src of Inl _ \<Rightarrow> m | Inr m' \<Rightarrow> m')"

lemma mem_step_inv: "mem_inv m \<Longrightarrow> mem_inv (mem_step os_mmap hv_map m op)"
  by (cases op) (auto intro: add_region_inv map_flags_inv mem.wr_inv split: sum.splits)

interpretation memory: component "mem_step os_mmap hv_map" mem_inv for os_mmap hv_map
  by unfold_locales (rule mem_step_inv)

text \<open>A memory of two pages at the base of guest RAM, as \<open>add_region\<close> builds it.\<close>

definition demo_memory :: guest_memory where
  "demo_memory = \<lparr>regions = [\<lparr>r_gpa = 0x40000000, r_size = 0x8000, r_host = 0x200000,
                             r_guest_mapped = False, r_data = (\<lambda>_. 0)\<rparr>]\<rparr>"

lemma demo_memory_add:
  "add_region (\<lambda>_. Inr 0x200000) \<lparr>regions = []\<rparr> 0x40000000 0x8000 = Inr demo_memory"
  by (simp add: add_region_def alloc_region_def reserve_def check_layout_def mmap_anonymous_def
      require_host_alignment_def HOST_PAGE_SIZE_def overlap_def insert_region_def demo_memory_def
      vec_insert_def partition_point_def checked_add_def)

lemma demo_memory_inv: "mem_inv demo_memory"
  by (rule add_region_inv [OF _ demo_memory_add]) (simp add: mem_inv_def regions_ok_def)

section \<open>Properties\<close>

text \<open>
  Every history of additions, mappings and writes from a new address space keeps the regions
  page aligned, below the end of the 64-bit space, sorted and pairwise disjoint, whatever the operating
  system and the hypervisor answer.
\<close>

lemma guest_memory_layout_invariant:
  assumes "memory_new page = Inr m"
  shows "mem_inv (run (mem_step os_mmap hv_map) m ops)"
  by (rule memory.run_inv) (rule memory_new_inv [OF assms])

text \<open>
  C23. An access of \<open>n > 0\<close> bytes is admitted exactly when one region holds all of them. A refused access
  is reported as crossing regions exactly when its end does not overflow and it touches two regions or
  more, and as out of range otherwise.
\<close>

theorem guest_memory_access_exact:
  assumes "mem_inv m" and "0 < n"
  shows "(is_ok (read_bytes m gpa n) \<longleftrightarrow>
      (\<exists>r. r \<in> set (regions m) \<and> region_lo r \<le> unat gpa \<and> unat gpa + n \<le> region_hi r)) \<and>
    (read_bytes m gpa n = Inl (CrossRegion gpa n) \<longleftrightarrow>
      unat gpa + n < 2 ^ 64 \<and> 2 \<le> length (touched (unat gpa) (unat gpa + n) (regions m))) \<and>
    (read_bytes m gpa n = Inl err \<longrightarrow> err = OutOfRange gpa n \<or> err = CrossRegion gpa n)"
proof (intro conjI impI)
  have rd: "read_bytes m gpa n = Inl e \<longleftrightarrow> find_region m gpa n = Inl e" for e
    using assms(2) by (auto simp: read_bytes_def res_bind_def Let_def split: sum.splits)
  show "read_bytes m gpa n = Inl (CrossRegion gpa n) \<longleftrightarrow>
      unat gpa + n < 2 ^ 64 \<and> 2 \<le> length (touched (unat gpa) (unat gpa + n) (regions m))"
    by (simp add: rd find_region_cross [OF assms(1)])
  show "err = OutOfRange gpa n \<or> err = CrossRegion gpa n" if "read_bytes m gpa n = Inl err"
    using that find_region_error by (simp add: rd)
  have "is_ok (read_bytes m gpa n) \<longleftrightarrow> (\<exists>i. find_region m gpa n = Inr i)"
    using assms(2) by (auto simp: read_bytes_def is_ok_def res_bind_def Let_def split: sum.splits)
  then show "is_ok (read_bytes m gpa n) \<longleftrightarrow>
      (\<exists>r. r \<in> set (regions m) \<and> region_lo r \<le> unat gpa \<and> unat gpa + n \<le> region_hi r)"
    by (auto simp: find_region_iff [OF assms] in_set_conv_nth)
qed

theorem guest_memory_access_exact_witness:
  "mem_inv demo_memory \<and> is_ok (read_bytes demo_memory 0x40000ffc 4) \<and>
   \<not> is_ok (read_bytes demo_memory 0x40007ffe 4)"
  using guest_memory_access_exact [of demo_memory 4 "0x40000ffc"]
    guest_memory_access_exact [of demo_memory 4 "0x40007ffe"] demo_memory_inv
  by (simp add: demo_memory_def region_lo_def region_hi_def)

text \<open>
  C5. Guest memory refines a partial map from addresses to bytes: a write that is admitted keeps the
  layout, overrides exactly the bytes it names, is read back, and leaves every access that does not touch
  those bytes as it was, errors included.
\<close>

theorem guest_memory_write_refines:
  assumes "mem_inv m" and "write_bytes m gpa src = Inr m'"
  shows "mem_inv m' \<and> layout m' = layout m \<and>
    mem_view m' = view_write (mem_view m) (unat gpa) src \<and>
    read_bytes m' gpa (length src) = Inr src \<and>
    (\<forall>b n. unat b + n \<le> unat gpa \<or> unat gpa + length src \<le> unat b \<longrightarrow>
       read_bytes m' b n = read_bytes m b n)"
  using mem.wr_inv [OF assms] write_bytes_layout [OF assms(2)] mem.wr_view [OF assms]
    mem.rd_after_wr [OF assms] mem.rd_frame [OF assms] by blast

theorem guest_memory_write_refines_witness:
  "\<exists>m'. mem_inv demo_memory \<and> write_bytes demo_memory 0x40000010 [7, 8] = Inr m' \<and>
     read_bytes m' 0x40000010 (length [7, 8 :: u8]) = Inr [7, 8] \<and>
     read_bytes m' 0x40000012 1 = read_bytes demo_memory 0x40000012 1"
proof -
  have "is_ok (write_bytes demo_memory 0x40000010 [7, 8])"
    by (simp add: write_bytes_def demo_memory_def find_region_def checked_add_def region_end_def Let_def)
  then obtain m' where m': "write_bytes demo_memory 0x40000010 [7, 8] = Inr m'"
    by (auto simp: is_ok_iff)
  with guest_memory_write_refines [OF demo_memory_inv m'] demo_memory_inv show ?thesis
    by (intro exI [of _ m']) simp
qed

end
