(* ===== verification/Split_Queue.thy ===== *)
theory Split_Queue
  imports Guest_Memory
begin

text \<open>
  The split virtqueue of \<open>ternvale-devices/src/virtio/queue.rs\<close>: descriptor table, available ring and used
  ring in guest memory, walked by a device that trusts none of the values it reads there.

  A queue is the record \<open>split_queue\<close>. Its methods are functions from guest memory and a queue to the
  queue after the call; a method that may return early or panic is an \<open>attempt\<close>. The specification of a
  descriptor chain is the inductive predicate \<open>desc_path\<close>; \<open>walk\<close> is shown to accept exactly the chains it
  describes. Logging is not modelled.
\<close>

section \<open>Data\<close>

definition NEXT :: u16 where "NEXT = 1"

definition WRITE :: u16 where "WRITE = 2"

definition INDIRECT :: u16 where "INDIRECT = 4"

definition NO_INTERRUPT :: u16 where "NO_INTERRUPT = 1"

record buffer =
  b_addr :: u64
  b_len :: u32

record chain =
  c_head :: u16
  c_readable :: "buffer list"
  c_writable :: "buffer list"

record desc =
  d_addr :: u64
  d_len :: u32
  d_flags :: u16
  d_next :: u16

record split_queue =
  sq_size :: u16
  sq_desc :: u64
  sq_avail :: u64
  sq_used :: u64
  last_avail :: u16
  used_idx :: u16
  broken :: bool
  indirect :: bool
  event_idx :: bool

section \<open>Operations\<close>

definition break_queue :: "split_queue \<Rightarrow> split_queue" where
  "break_queue q = (if broken q then q else q\<lparr>broken := True\<rparr>)"

definition queue_new :: "u16 \<Rightarrow> u64 \<Rightarrow> u64 \<Rightarrow> u64 \<Rightarrow> bool \<Rightarrow> bool \<Rightarrow> split_queue" where
  "queue_new sz dsc avail used ind ev =
     (let queue = \<lparr>sq_size = sz, sq_desc = dsc, sq_avail = avail, sq_used = used, last_avail = 0,
                   used_idx = 0, broken = False, indirect = ind, event_idx = ev\<rparr>
      in if sz = 0 \<or> \<not> is_power_of_two sz then break_queue queue
         else if dsc mod 16 \<noteq> 0 \<or> avail mod 2 \<noteq> 0 \<or> used mod 4 \<noteq> 0 then break_queue queue
         else queue)"

definition is_broken :: "split_queue \<Rightarrow> bool" where
  "is_broken q = broken q"

definition offset :: "split_queue \<Rightarrow> u64 \<Rightarrow> u64 \<Rightarrow> (split_queue, u64) attempt" where
  "offset q base add =
     (case checked_add base add of
        Some a \<Rightarrow> Some (q, Some a)
      | None \<Rightarrow> Some (break_queue q, None))"

definition span_mapped :: "guest_memory \<Rightarrow> u64 \<Rightarrow> u32 \<Rightarrow> bool" where
  "span_mapped m addr len =
     (case checked_add addr (ucast len - 1) of
        None \<Rightarrow> False
      | Some last_at \<Rightarrow> is_ok (read_u8 m addr) \<and> is_ok (read_u8 m last_at))"

definition push_buf ::
  "guest_memory \<Rightarrow> split_queue \<Rightarrow> buffer list \<Rightarrow> u64 \<Rightarrow> u32 \<Rightarrow> split_queue \<times> buffer list \<times> bool" where
  "push_buf m q out addr len =
     (if 0 < len \<and> \<not> span_mapped m addr len then (break_queue q, out, False)
      else (q, out @ [\<lparr>b_addr = addr, b_len = len\<rparr>], True))"

text \<open>The vectors and the flag \<open>push_desc\<close> updates through references are part of its result.\<close>

definition push_desc ::
  "guest_memory \<Rightarrow> split_queue \<Rightarrow> desc \<Rightarrow> buffer list \<Rightarrow> buffer list \<Rightarrow> bool \<Rightarrow>
   split_queue \<times> buffer list \<times> buffer list \<times> bool \<times> bool" where
  "push_desc m q d readable writable writing =
     (if d_flags d AND WRITE \<noteq> 0 then
        (case push_buf m q writable (d_addr d) (d_len d) of
           (q', writable', ok) \<Rightarrow> (q', readable, writable', True, ok))
      else if writing then (break_queue q, readable, writable, writing, False)
      else
        (case push_buf m q readable (d_addr d) (d_len d) of
           (q', readable', ok) \<Rightarrow> (q', readable', writable, writing, ok)))"

definition read_desc_at :: "guest_memory \<Rightarrow> split_queue \<Rightarrow> u64 \<Rightarrow> (split_queue, desc) attempt" where
  "read_desc_at m q addr =
     attempt_bind (offset q addr 14) (\<lambda>q end_at.
       case (read_u64 m addr, read_u32 m (addr + 8), read_u16 m (addr + 12), read_u16 m end_at) of
         (Inr addr_val, Inr len, Inr flags, Inr nxt) \<Rightarrow>
           Some (q, Some \<lparr>d_addr = addr_val, d_len = len, d_flags = flags, d_next = nxt\<rparr>)
       | _ \<Rightarrow> Some (break_queue q, None))"

definition read_desc ::
  "guest_memory \<Rightarrow> split_queue \<Rightarrow> u64 \<Rightarrow> u16 \<Rightarrow> (split_queue, desc) attempt" where
  "read_desc m q table index =
     attempt_bind (offset q table (ucast index * 16)) (\<lambda>q addr. read_desc_at m q addr)"

text \<open>The loop of \<open>walk_indirect\<close>; the first argument counts the iterations left.\<close>

primrec walk_indirect_loop ::
  "nat \<Rightarrow> guest_memory \<Rightarrow> split_queue \<Rightarrow> desc \<Rightarrow> u32 \<Rightarrow> u32 \<Rightarrow> bool list \<Rightarrow> bool \<Rightarrow>
   buffer list \<Rightarrow> buffer list \<Rightarrow> (split_queue, buffer list \<times> buffer list) attempt" where
  "walk_indirect_loop 0 m q table count index seen writing readable writable = Some (break_queue q, None)"
| "walk_indirect_loop (Suc n) m q table count index seen writing readable writable =
     (case vec_get seen (unat index) of
        None \<Rightarrow> None
      | Some True \<Rightarrow> Some (break_queue q, None)
      | Some False \<Rightarrow>
          let seen = seen[unat index := True] in
          attempt_bind (offset q (d_addr table) (ucast index * 16)) (\<lambda>q addr.
          attempt_bind (read_desc_at m q addr) (\<lambda>q d.
            if d_flags d AND INDIRECT \<noteq> 0 then Some (break_queue q, None)
            else case push_desc m q d readable writable writing of
              (q, readable, writable, writing, ok) \<Rightarrow>
                if \<not> ok then Some (q, None)
                else if d_flags d AND NEXT = 0 then Some (q, Some (readable, writable))
                else if count \<le> ucast (d_next d) then Some (break_queue q, None)
                else walk_indirect_loop n m q table count (ucast (d_next d)) seen writing
                       readable writable)))"

definition walk_indirect ::
  "guest_memory \<Rightarrow> split_queue \<Rightarrow> desc \<Rightarrow> buffer list \<Rightarrow> buffer list \<Rightarrow>
   (split_queue, buffer list \<times> buffer list) attempt" where
  "walk_indirect m q table readable writable =
     (if d_len table = 0 \<or> d_len table mod 16 \<noteq> 0 then Some (break_queue q, None)
      else let count = d_len table div 16 in
        if ucast (sq_size q) < count then Some (break_queue q, None)
        else walk_indirect_loop (unat count) m q table count 0 (replicate (unat count) False) False
               readable writable)"

primrec walk_loop ::
  "nat \<Rightarrow> guest_memory \<Rightarrow> split_queue \<Rightarrow> u16 \<Rightarrow> u16 \<Rightarrow> bool list \<Rightarrow> bool \<Rightarrow>
   buffer list \<Rightarrow> buffer list \<Rightarrow> (split_queue, chain) attempt" where
  "walk_loop 0 m q head index seen writing readable writable = Some (break_queue q, None)"
| "walk_loop (Suc n) m q head index seen writing readable writable =
     (case vec_get seen (unat index) of
        None \<Rightarrow> None
      | Some True \<Rightarrow> Some (break_queue q, None)
      | Some False \<Rightarrow>
          let seen = seen[unat index := True] in
          attempt_bind (read_desc m q (sq_desc q) index) (\<lambda>q d.
            if d_flags d AND INDIRECT \<noteq> 0 then
              (if \<not> indirect q \<or> d_flags d AND NEXT \<noteq> 0 then Some (break_queue q, None)
               else attempt_bind (walk_indirect m q d readable writable) (\<lambda>q (readable, writable).
                 Some (q, Some \<lparr>c_head = head, c_readable = readable, c_writable = writable\<rparr>)))
            else case push_desc m q d readable writable writing of
              (q, readable, writable, writing, ok) \<Rightarrow>
                if \<not> ok then Some (q, None)
                else if d_flags d AND NEXT = 0 then
                  Some (q, Some \<lparr>c_head = head, c_readable = readable, c_writable = writable\<rparr>)
                else if sq_size q \<le> d_next d then Some (break_queue q, None)
                else walk_loop n m q head (d_next d) seen writing readable writable))"

definition walk :: "guest_memory \<Rightarrow> split_queue \<Rightarrow> u16 \<Rightarrow> (split_queue, chain) attempt" where
  "walk m q head =
     (if sq_size q \<le> head then Some (break_queue q, None)
      else walk_loop (unat (sq_size q)) m q head head (replicate (unat (sq_size q)) False) False [] [])"

definition pop :: "guest_memory \<Rightarrow> split_queue \<Rightarrow> (split_queue, chain) attempt" where
  "pop m q =
     (if broken q then Some (q, None)
      else attempt_bind (offset q (sq_avail q) 2) (\<lambda>q idx_at.
        case read_u16 m idx_at of
          Inl _ \<Rightarrow> Some (break_queue q, None)
        | Inr idx \<Rightarrow>
            if last_avail q = idx then Some (q, None)
            else case checked_rem (last_avail q) (sq_size q) of
              None \<Rightarrow> None
            | Some slot \<Rightarrow>
                attempt_bind (offset q (sq_avail q) (4 + ucast slot * 2)) (\<lambda>q ring.
                  case read_u16 m ring of
                    Inl _ \<Rightarrow> Some (break_queue q, None)
                  | Inr head \<Rightarrow>
                      attempt_bind (walk m q head) (\<lambda>q chn.
                        Some (q\<lparr>last_avail := last_avail q + 1\<rparr>, Some chn)))))"

text \<open>
  The iterator \<open>Chains\<close> driven to its end, as a device's \<open>for\<close> loop does: \<open>None\<close> is a panic or not enough
  fuel, otherwise the queue when \<open>pop\<close> returned nothing and the chains it returned before.
\<close>

primrec chains :: "nat \<Rightarrow> guest_memory \<Rightarrow> split_queue \<Rightarrow> (split_queue \<times> chain list) option" where
  "chains 0 m q = None"
| "chains (Suc n) m q =
     (case pop m q of
        None \<Rightarrow> None
      | Some (q', None) \<Rightarrow> Some (q', [])
      | Some (q', Some c) \<Rightarrow>
          (case chains n m q' of None \<Rightarrow> None | Some (q'', cs) \<Rightarrow> Some (q'', c # cs)))"

text \<open>\<open>add_used\<close> also changes guest memory; the first write stays when the second fails.\<close>

definition add_used ::
  "guest_memory \<Rightarrow> split_queue \<Rightarrow> u16 \<Rightarrow> u32 \<Rightarrow> (guest_memory \<times> split_queue \<times> bool) option" where
  "add_used m q head len =
     (if broken q then Some (m, q, False)
      else if sq_size q \<le> head then Some (m, break_queue q, False)
      else case checked_rem (used_idx q) (sq_size q) of
        None \<Rightarrow> None
      | Some slot \<Rightarrow>
          (case checked_add (sq_used q) (4 + ucast slot * 8) of
             None \<Rightarrow> Some (m, break_queue q, False)
           | Some elem \<Rightarrow>
               (case checked_add elem 4 of
                  None \<Rightarrow> Some (m, break_queue q, False)
                | Some len_at \<Rightarrow>
                    (case write_u32 m elem (ucast head) of
                       Inl _ \<Rightarrow> Some (m, break_queue q, False)
                     | Inr m1 \<Rightarrow>
                         (case write_u32 m1 len_at len of
                            Inl _ \<Rightarrow> Some (m1, break_queue q, False)
                          | Inr m2 \<Rightarrow>
                              (let nxt = used_idx q + 1 in
                               case checked_add (sq_used q) 2 of
                                 None \<Rightarrow> Some (m2, break_queue q, False)
                               | Some idx_at \<Rightarrow>
                                   (case write_u16 m2 idx_at nxt of
                                      Inl _ \<Rightarrow> Some (m2, break_queue q, False)
                                    | Inr m3 \<Rightarrow> Some (m3, q\<lparr>used_idx := nxt\<rparr>, True))))))))"

definition notification_needed :: "guest_memory \<Rightarrow> split_queue \<Rightarrow> split_queue \<times> bool" where
  "notification_needed m q =
     (if broken q then (q, False)
      else if event_idx q then
        (case checked_add (sq_avail q) (4 + ucast (sq_size q) * 2) of
           None \<Rightarrow> (break_queue q, False)
         | Some event_at \<Rightarrow>
             (case read_u16 m event_at of
                Inl _ \<Rightarrow> (break_queue q, False)
              | Inr used_event \<Rightarrow>
                  let new = used_idx q; old = new - 1
                  in (q, new - (used_event + 1) < new - old)))
      else (q, case read_u16 m (sq_avail q) of
                 Inl _ \<Rightarrow> False
               | Inr flags \<Rightarrow> flags AND NO_INTERRUPT = 0))"

section \<open>Descriptor chains, as the specification sees them\<close>

text \<open>
  \<open>desc_at m table i\<close> is entry \<open>i\<close> of the descriptor table at \<open>table\<close>, when all of it is guest memory.
  \<open>desc_path rd limit i ps\<close> says that following the \<open>next\<close> links from entry \<open>i\<close> visits the entries \<open>ps\<close> and
  ends. The predicate knows nothing of loop detection: a chain with a loop has no path.
\<close>

definition desc_at :: "guest_memory \<Rightarrow> u64 \<Rightarrow> nat \<Rightarrow> desc option" where
  "desc_at m table i =
     (let addr = table + of_nat (16 * i) in
      if unat table + 16 * i + 14 < 2 ^ 64 then
        (case (read_u64 m addr, read_u32 m (addr + 8), read_u16 m (addr + 12), read_u16 m (addr + 14)) of
           (Inr a, Inr len, Inr flags, Inr nxt) \<Rightarrow>
             Some \<lparr>d_addr = a, d_len = len, d_flags = flags, d_next = nxt\<rparr>
         | _ \<Rightarrow> None)
      else None)"

definition has_next :: "desc \<Rightarrow> bool" where
  "has_next d \<longleftrightarrow> d_flags d AND NEXT \<noteq> 0"

definition is_write :: "desc \<Rightarrow> bool" where
  "is_write d \<longleftrightarrow> d_flags d AND WRITE \<noteq> 0"

definition is_indirect :: "desc \<Rightarrow> bool" where
  "is_indirect d \<longleftrightarrow> d_flags d AND INDIRECT \<noteq> 0"

inductive desc_path :: "(nat \<Rightarrow> desc option) \<Rightarrow> nat \<Rightarrow> nat \<Rightarrow> (nat \<times> desc) list \<Rightarrow> bool"
  for rd :: "nat \<Rightarrow> desc option" and limit :: nat where
  path_end: "rd i = Some d \<Longrightarrow> \<not> has_next d \<Longrightarrow> desc_path rd limit i [(i, d)]"
| path_next: "rd i = Some d \<Longrightarrow> has_next d \<Longrightarrow> unat (d_next d) < limit \<Longrightarrow>
    desc_path rd limit (unat (d_next d)) ps \<Longrightarrow> desc_path rd limit i ((i, d) # ps)"

inductive_cases desc_path_NilE: "desc_path rd limit i []"
inductive_cases desc_path_ConsE: "desc_path rd limit i ((j, d) # ps)"

text \<open>A path is determined by where it starts, so it meets no entry twice and fits in the table.\<close>

lemma desc_path_det: "desc_path rd limit i ps \<Longrightarrow> desc_path rd limit i qs \<Longrightarrow> qs = ps"
proof (induction arbitrary: qs rule: desc_path.induct)
  case (path_end i d)
  from path_end.prems show ?case by (cases rule: desc_path.cases) (use path_end.hyps in auto)
next
  case (path_next i d ps)
  from path_next.prems obtain rest
    where "qs = (i, d) # rest" and "desc_path rd limit (unat (d_next d)) rest"
    by (cases rule: desc_path.cases) (use path_next.hyps in auto)
  with path_next.IH show ?case by blast
qed

lemma desc_path_suffix:
  "desc_path rd limit i ps \<Longrightarrow> j \<in> fst ` set ps \<Longrightarrow>
   \<exists>qs. desc_path rd limit j qs \<and> length qs \<le> length ps"
proof (induction rule: desc_path.induct)
  case (path_end i d)
  then show ?case by (auto intro: desc_path.path_end)
next
  case (path_next i d ps)
  then show ?case
    by (cases "j = i") (auto intro: desc_path.path_next exI [of _ "(i, d) # ps"] le_SucI)
qed

lemma desc_path_distinct: "desc_path rd limit i ps \<Longrightarrow> distinct (map fst ps)"
proof (induction rule: desc_path.induct)
  case (path_next i d ps)
  have "i \<notin> fst ` set ps"
  proof
    assume "i \<in> fst ` set ps"
    with path_next.hyps obtain qs where "desc_path rd limit i qs" "length qs \<le> length ps"
      using desc_path_suffix by blast
    with desc_path_det [OF desc_path.path_next [OF path_next.hyps]] show False by fastforce
  qed
  with path_next.IH show ?case by simp
qed simp

lemma desc_path_bound:
  "desc_path rd limit i ps \<Longrightarrow> i < limit \<Longrightarrow> fst ` set ps \<subseteq> {..<limit}"
  by (induction rule: desc_path.induct) auto

lemma desc_path_length:
  assumes "desc_path rd limit i ps" and "i < limit"
  shows "length ps \<le> limit"
proof -
  have "length ps = card (set (map fst ps))"
    using desc_path_distinct [OF assms(1)] by (metis distinct_card length_map)
  also have "\<dots> \<le> card {..<limit}"
    using desc_path_bound [OF assms] by (intro card_mono) auto
  finally show ?thesis by simp
qed

text \<open>What the device asks of the descriptors of one table: mapped at both ends, readable before writable.\<close>

definition desc_ok :: "guest_memory \<Rightarrow> desc \<Rightarrow> bool" where
  "desc_ok m d \<longleftrightarrow> d_len d = 0 \<or> span_mapped m (d_addr d) (d_len d)"

definition segment :: "guest_memory \<Rightarrow> bool \<Rightarrow> desc list \<Rightarrow> bool" where
  "segment m writing ds \<longleftrightarrow>
     (\<forall>d \<in> set ds. \<not> is_indirect d \<and> desc_ok m d) \<and>
     sorted_wrt (\<lambda>d e. is_write d \<longrightarrow> is_write e) ds \<and> (writing \<longrightarrow> (\<forall>d \<in> set ds. is_write d))"

definition buf_of :: "desc \<Rightarrow> buffer" where
  "buf_of d = \<lparr>b_addr = d_addr d, b_len = d_len d\<rparr>"

definition reads :: "desc list \<Rightarrow> buffer list" where
  "reads ds = map buf_of (filter (\<lambda>d. \<not> is_write d) ds)"

definition writes :: "desc list \<Rightarrow> buffer list" where
  "writes ds = map buf_of (filter is_write ds)"

lemma reads_writes_simps [simp]:
  "reads [] = []" "reads (d # ds) = (if is_write d then reads ds else buf_of d # reads ds)"
  "writes [] = []" "writes (d # ds) = (if is_write d then buf_of d # writes ds else writes ds)"
  "reads (ds @ es) = reads ds @ reads es" "writes (ds @ es) = writes ds @ writes es"
  by (simp_all add: reads_def writes_def)

lemma segment_Nil [simp]: "segment m w []"
  by (simp add: segment_def)

lemma segment_Cons:
  "segment m w (d # ds) \<longleftrightarrow>
     \<not> is_indirect d \<and> desc_ok m d \<and> (w \<longrightarrow> is_write d) \<and> segment m (w \<or> is_write d) ds"
  by (auto simp: segment_def)

section \<open>The queue breaks, or stays as it was\<close>

lemma break_queue_simps [simp]:
  "broken (break_queue q)" "sq_size (break_queue q) = sq_size q" "indirect (break_queue q) = indirect q"
  "sq_desc (break_queue q) = sq_desc q" "last_avail (break_queue q) = last_avail q"
  "sq_avail (break_queue q) = sq_avail q" "sq_used (break_queue q) = sq_used q"
  "used_idx (break_queue q) = used_idx q" "event_idx (break_queue q) = event_idx q"
  "break_queue (break_queue q) = break_queue q"
  by (simp_all add: break_queue_def)

lemma offset_eq:
  "offset q base add =
     (if unat base + unat add < 2 ^ 64 then Some (q, Some (base + add)) else Some (break_queue q, None))"
  by (simp add: offset_def checked_add_def)

lemma read_desc_at_table:
  assumes "unat (x :: u64) = 16 * i"
  shows "attempt_bind (offset q table x) (\<lambda>q addr. read_desc_at m q addr) =
    (case desc_at m table i of
       Some d \<Rightarrow> Some (q, Some d)
     | None \<Rightarrow> Some (break_queue q, None))"
proof -
  have x: "of_nat (16 * i) = x"
    unfolding assms [symmetric] by simp
  show ?thesis
  proof (cases "unat table + 16 * i < 2 ^ 64")
    case True
    then have "unat (table + x) = unat table + 16 * i"
      by (simp add: unat_add_no_overflow assms)
    with True show ?thesis
      by (simp add: offset_eq assms read_desc_at_def desc_at_def x [simplified] x Let_def
          split: sum.splits)
  next
    case False
    then show ?thesis by (simp add: offset_eq assms desc_at_def)
  qed
qed

lemma unat_ucast_times_16:
  fixes x :: "'a::len word"
  assumes "LENGTH('a) \<le> 32"
  shows "unat (ucast x * 16 :: u64) = 16 * unat x"
proof -
  have "unat x < 2 ^ 32"
    using unsigned_less [of x] assms by (meson less_le_trans one_le_numeral power_increasing)
  moreover have "unat (ucast x :: u64) = unat x"
    using \<open>unat x < 2 ^ 32\<close> by (simp add: unsigned_ucast_eq take_bit_eq_mod)
  ultimately show ?thesis by (simp add: unat_word_ariths)
qed

lemma read_desc_eq:
  "read_desc m q table index =
     (case desc_at m table (unat index) of
        Some d \<Rightarrow> Some (q, Some d)
      | None \<Rightarrow> Some (break_queue q, None))"
  unfolding read_desc_def by (rule read_desc_at_table) (simp add: unat_ucast_times_16)

lemma push_desc_eq:
  "push_desc m q d r w writing =
     (if desc_ok m d \<and> (writing \<longrightarrow> is_write d)
      then (q, r @ reads [d], w @ writes [d], writing \<or> is_write d, True)
      else (break_queue q, r, w, writing \<or> is_write d, False))"
  by (auto simp: push_desc_def push_buf_def desc_ok_def is_write_def buf_of_def word_gt_0)

section \<open>Both walks follow exactly the paths\<close>

text \<open>
  For each loop: what a result means, that every chain with the right path is accepted, that a refusal
  breaks the queue, and that the index into \<open>seen\<close> is in range.
\<close>

lemma indirect_step_desc:
  "attempt_bind (offset q (d_addr table) (ucast (index :: u32) * 16)) (\<lambda>q addr.
     attempt_bind (read_desc_at m q addr) f) =
   (case desc_at m (d_addr table) (unat index) of
      Some d \<Rightarrow> f q d
    | None \<Rightarrow> Some (break_queue q, None))"
proof -
  have assoc: "attempt_bind a (\<lambda>q x. attempt_bind (g q x) f) = attempt_bind (attempt_bind a g) f"
    for a and g :: "split_queue \<Rightarrow> u64 \<Rightarrow> (split_queue, desc) attempt"
    by (cases "(a, g)" rule: attempt_bind.cases) simp_all
  show ?thesis
    by (simp add: assoc [of _ "\<lambda>q addr. read_desc_at m q addr"]
        read_desc_at_table [OF unat_ucast_times_16] split: option.splits)
qed

lemma walk_indirect_loop_Suc:
  "walk_indirect_loop (Suc n) m q table count index seen writing r w =
     (case vec_get seen (unat index) of
        None \<Rightarrow> None
      | Some True \<Rightarrow> Some (break_queue q, None)
      | Some False \<Rightarrow>
          (case desc_at m (d_addr table) (unat index) of
             None \<Rightarrow> Some (break_queue q, None)
           | Some d \<Rightarrow>
               if is_indirect d \<or> \<not> desc_ok m d \<or> writing \<and> \<not> is_write d then Some (break_queue q, None)
               else if \<not> has_next d then Some (q, Some (r @ reads [d], w @ writes [d]))
               else if unat count \<le> unat (d_next d) then Some (break_queue q, None)
               else walk_indirect_loop n m q table count (ucast (d_next d)) (seen[unat index := True])
                      (writing \<or> is_write d) (r @ reads [d]) (w @ writes [d])))"
proof -
  have next_bound: "count \<le> ucast (x :: u16) \<longleftrightarrow> unat count \<le> unat x" for x
    by (simp add: word_le_nat_alt unsigned_ucast_eq take_bit_nat_eq_self less_le_trans [OF unsigned_less])
  show ?thesis
    by (auto simp: Let_def indirect_step_desc push_desc_eq next_bound
        is_indirect_def [symmetric] has_next_def [symmetric] has_next_def [THEN Not_eq_iff [THEN iffD2], simplified, symmetric]
        split: option.splits bool.splits)
qed

declare walk_indirect_loop.simps(2) [simp del]

lemma indirect_sound:
  "walk_indirect_loop n m q table count index seen writing r w = Some (q', Some (r', w')) \<Longrightarrow>
   q' = q \<and> (\<exists>ps. desc_path (desc_at m (d_addr table)) (unat count) (unat index) ps \<and>
     segment m writing (map snd ps) \<and> r' = r @ reads (map snd ps) \<and> w' = w @ writes (map snd ps))"
proof (induction n arbitrary: index seen writing r w)
  case 0
  then show ?case by simp
next
  case (Suc n)
  from Suc.prems obtain d where d: "desc_at m (d_addr table) (unat index) = Some d"
    and ok: "\<not> is_indirect d" "desc_ok m d" "writing \<longrightarrow> is_write d"
    by (auto simp: walk_indirect_loop_Suc split: option.splits bool.splits if_splits)
  show ?case
  proof (cases "has_next d")
    case False
    with Suc.prems d ok show ?thesis
      by (intro conjI exI [of _ "[(unat index, d)]"])
        (auto simp: walk_indirect_loop_Suc segment_Cons intro: desc_path.path_end
          split: option.splits bool.splits if_splits)
  next
    case True
    have idx: "unat (ucast (d_next d) :: u32) = unat (d_next d)"
      by (simp add: unsigned_ucast_eq take_bit_nat_eq_self less_le_trans [OF unsigned_less])
    from Suc.prems d ok True have bound: "unat (d_next d) < unat count"
      and rest: "walk_indirect_loop n m q table count (ucast (d_next d)) (seen[unat index := True])
        (writing \<or> is_write d) (r @ reads [d]) (w @ writes [d]) = Some (q', Some (r', w'))"
      by (auto simp: walk_indirect_loop_Suc split: option.splits bool.splits if_splits)
    from Suc.IH [OF rest] obtain ps
      where ps: "desc_path (desc_at m (d_addr table)) (unat count) (unat (d_next d)) ps"
        "segment m (writing \<or> is_write d) (map snd ps)" "q' = q"
        "r' = (r @ reads [d]) @ reads (map snd ps)" "w' = (w @ writes [d]) @ writes (map snd ps)"
      unfolding idx by blast
    with desc_path.path_next [OF d True bound ps(1)] ok show ?thesis
      by (intro conjI exI [of _ "(unat index, d) # ps"]) (simp_all add: segment_Cons)
  qed
qed

lemma indirect_complete:
  "desc_path (desc_at m (d_addr table)) (unat count) i ps \<Longrightarrow> i = unat index \<Longrightarrow>
   segment m writing (map snd ps) \<Longrightarrow> length seen = unat count \<Longrightarrow> unat index < unat count \<Longrightarrow>
   \<forall>j \<in> fst ` set ps. \<not> seen ! j \<Longrightarrow> length ps \<le> n \<Longrightarrow>
   walk_indirect_loop n m q table count index seen writing r w =
     Some (q, Some (r @ reads (map snd ps), w @ writes (map snd ps)))"
proof (induction arbitrary: n index seen writing r w rule: desc_path.induct)
  case (path_end i d)
  then obtain k where "n = Suc k" by (cases n) auto
  with path_end show ?case by (simp add: walk_indirect_loop_Suc segment_Cons)
next
  case (path_next i d ps)
  then obtain k where n: "n = Suc k" by (cases n) auto
  have idx: "unat (d_next d) = unat (ucast (d_next d) :: u32)"
    by (simp add: unsigned_ucast_eq take_bit_nat_eq_self less_le_trans [OF unsigned_less])
  have fresh: "i \<notin> fst ` set ps"
    using desc_path_distinct [OF desc_path.path_next [OF path_next.hyps]] by simp
  have "\<forall>j \<in> fst ` set ps. \<not> (seen[unat index := True]) ! j"
    using path_next.prems fresh by (auto simp: nth_list_update split: if_splits)
  then have "walk_indirect_loop k m q table count (ucast (d_next d)) (seen[unat index := True])
      (writing \<or> is_write d) (r @ reads [d]) (w @ writes [d]) =
    Some (q, Some ((r @ reads [d]) @ reads (map snd ps), (w @ writes [d]) @ writes (map snd ps)))"
    using path_next.prems path_next.hyps(3) n idx
    by (intro path_next.IH) (simp_all add: segment_Cons)
  with path_next.prems path_next.hyps n show ?case
    by (simp add: walk_indirect_loop_Suc segment_Cons)
qed

lemma indirect_none_breaks:
  "walk_indirect_loop n m q table count index seen writing r w = Some (q', None) \<Longrightarrow> q' = break_queue q"
  by (induction n arbitrary: index seen writing r w)
    (auto simp: walk_indirect_loop_Suc split: option.splits bool.splits if_splits)

lemma indirect_no_panic:
  "length seen = unat count \<Longrightarrow> unat index < unat count \<Longrightarrow>
   walk_indirect_loop n m q table count index seen writing r w \<noteq> None"
proof (induction n arbitrary: index seen writing r w)
  case (Suc n)
  have idx: "unat (ucast (x :: u16) :: u32) = unat x" for x
    by (simp add: unsigned_ucast_eq take_bit_nat_eq_self less_le_trans [OF unsigned_less])
  from Suc show ?case
    by (auto simp: walk_indirect_loop_Suc idx split: option.splits bool.splits)
qed simp

text \<open>The indirect table as a whole: its length is a positive number of entries, at most the queue size.\<close>

definition table_path :: "guest_memory \<Rightarrow> split_queue \<Rightarrow> desc \<Rightarrow> (nat \<times> desc) list \<Rightarrow> bool" where
  "table_path m q t ps \<longleftrightarrow>
     d_len t \<noteq> 0 \<and> unat (d_len t) mod 16 = 0 \<and> unat (d_len t) div 16 \<le> unat (sq_size q) \<and>
     desc_path (desc_at m (d_addr t)) (unat (d_len t) div 16) 0 ps \<and> segment m False (map snd ps)"

lemma table_path_det: "table_path m q t ps \<Longrightarrow> table_path m q t ps' \<Longrightarrow> ps' = ps"
  by (auto simp: table_path_def intro: desc_path_det)

lemma walk_indirect_spec:
  obtains (accept) ps where "table_path m q t ps"
      and "walk_indirect m q t r w = Some (q, Some (r @ reads (map snd ps), w @ writes (map snd ps)))"
  | (refuse) "\<nexists>ps. table_path m q t ps" and "walk_indirect m q t r w = Some (break_queue q, None)"
proof -
  let ?c = "d_len t div 16"
  have ucount: "unat ?c = unat (d_len t) div 16" and umod: "unat (d_len t mod 16) = unat (d_len t) mod 16"
    by (simp_all add: unat_div unat_mod)
  have usize: "unat (ucast (sq_size q) :: u32) = unat (sq_size q)"
    by (simp add: unsigned_ucast_eq take_bit_nat_eq_self less_le_trans [OF unsigned_less])
  show thesis
  proof (cases "d_len t \<noteq> 0 \<and> unat (d_len t) mod 16 = 0 \<and> unat ?c \<le> unat (sq_size q)")
    case False
    then have "walk_indirect m q t r w = Some (break_queue q, None)"
      by (auto simp: walk_indirect_def Let_def word_less_nat_alt usize umod [symmetric] unat_eq_0)
    moreover have "\<nexists>ps. table_path m q t ps" using False by (auto simp: table_path_def ucount)
    ultimately show thesis by (rule refuse [rotated])
  next
    case True
    then have "d_len t mod 16 = 0" by (metis umod unat_eq_0)
    with True have run: "walk_indirect m q t r w =
      walk_indirect_loop (unat ?c) m q t ?c 0 (replicate (unat ?c) False) False r w"
      by (simp add: walk_indirect_def Let_def word_less_nat_alt usize)
    have pos: "0 < unat ?c"
      using True by (metis ucount div_greater_zero_iff dvd_imp_le mod_0_imp_dvd unat_gt_0 zero_less_numeral)
    show thesis
    proof (cases "\<exists>ps. table_path m q t ps")
      case True
      then obtain ps where ps: "table_path m q t ps" by blast
      then have path: "desc_path (desc_at m (d_addr t)) (unat ?c) 0 ps" "segment m False (map snd ps)"
        by (simp_all add: table_path_def ucount)
      from desc_path_length [OF path(1) pos] desc_path_bound [OF path(1) pos]
      have "walk_indirect m q t r w = Some (q, Some (r @ reads (map snd ps), w @ writes (map snd ps)))"
        unfolding run using pos path by (intro indirect_complete [OF path(1)]) auto
      with ps show thesis by (rule accept)
    next
      case False
      have "walk_indirect m q t r w \<noteq> None"
        unfolding run using pos by (intro indirect_no_panic) simp_all
      moreover have "walk_indirect m q t r w \<noteq> Some (q', Some x)" for q' x
        using False \<open>_ \<and> _\<close> indirect_sound [of "unat ?c" m q t ?c 0 "replicate (unat ?c) False" False r w q' "fst x" "snd x"]
        by (auto simp: run table_path_def ucount)
      ultimately have "walk_indirect m q t r w = Some (break_queue q, None)"
        using indirect_none_breaks by (metis run option.exhaust surj_pair)
      with False show thesis by (rule refuse)
    qed
  qed
qed

text \<open>
  The descriptors a path of the main table stands for: its own, or, when its last entry refers to an
  indirect table, those before it followed by the path of that table.
\<close>

definition expands :: "guest_memory \<Rightarrow> split_queue \<Rightarrow> bool \<Rightarrow> (nat \<times> desc) list \<Rightarrow> desc list \<Rightarrow> bool" where
  "expands m q writing ps ds \<longleftrightarrow> ps \<noteq> [] \<and>
     (segment m writing (map snd ps) \<and> ds = map snd ps \<or>
      indirect q \<and> is_indirect (snd (last ps)) \<and> segment m writing (map snd (butlast ps)) \<and>
      (\<exists>es. table_path m q (snd (last ps)) es \<and> ds = map snd (butlast ps) @ map snd es))"

definition chain_of :: "u16 \<Rightarrow> desc list \<Rightarrow> chain" where
  "chain_of head ds = \<lparr>c_head = head, c_readable = reads ds, c_writable = writes ds\<rparr>"

definition chain_spec :: "guest_memory \<Rightarrow> split_queue \<Rightarrow> u16 \<Rightarrow> chain \<Rightarrow> bool" where
  "chain_spec m q head c \<longleftrightarrow> unat head < unat (sq_size q) \<and>
     (\<exists>ps ds. desc_path (desc_at m (sq_desc q)) (unat (sq_size q)) (unat head) ps \<and>
        expands m q False ps ds \<and> c = chain_of head ds)"

lemma expands_single:
  "expands m q w [(i, d)] ds \<longleftrightarrow>
     \<not> is_indirect d \<and> desc_ok m d \<and> (w \<longrightarrow> is_write d) \<and> ds = [d] \<or>
     indirect q \<and> is_indirect d \<and> (\<exists>es. table_path m q d es \<and> ds = map snd es)"
  by (auto simp: expands_def segment_Cons)

lemma expands_Cons:
  "ps \<noteq> [] \<Longrightarrow> expands m q w ((i, d) # ps) ds \<longleftrightarrow>
     \<not> is_indirect d \<and> desc_ok m d \<and> (w \<longrightarrow> is_write d) \<and>
     (\<exists>es. ds = d # es \<and> expands m q (w \<or> is_write d) ps es)"
  by (auto simp: expands_def segment_Cons)

lemma desc_path_not_Nil: "desc_path rd limit i ps \<Longrightarrow> ps \<noteq> []"
  by (auto elim: desc_path_NilE)

lemma walk_loop_Suc:
  "walk_loop (Suc n) m q head index seen writing r w =
     (case vec_get seen (unat index) of
        None \<Rightarrow> None
      | Some True \<Rightarrow> Some (break_queue q, None)
      | Some False \<Rightarrow>
          (case desc_at m (sq_desc q) (unat index) of
             None \<Rightarrow> Some (break_queue q, None)
           | Some d \<Rightarrow>
               if is_indirect d then
                 (if \<not> indirect q \<or> has_next d then Some (break_queue q, None)
                  else attempt_bind (walk_indirect m q d r w) (\<lambda>q (r, w).
                    Some (q, Some \<lparr>c_head = head, c_readable = r, c_writable = w\<rparr>)))
               else if \<not> desc_ok m d \<or> writing \<and> \<not> is_write d then Some (break_queue q, None)
               else if \<not> has_next d then
                 Some (q, Some \<lparr>c_head = head, c_readable = r @ reads [d], c_writable = w @ writes [d]\<rparr>)
               else if unat (sq_size q) \<le> unat (d_next d) then Some (break_queue q, None)
               else walk_loop n m q head (d_next d) (seen[unat index := True])
                      (writing \<or> is_write d) (r @ reads [d]) (w @ writes [d])))"
  by (auto simp: Let_def read_desc_eq push_desc_eq word_le_nat_alt
      is_indirect_def [symmetric] has_next_def [symmetric] has_next_def [THEN Not_eq_iff [THEN iffD2], simplified, symmetric]
      split: option.splits bool.splits)

declare walk_loop.simps(2) [simp del]

lemma walk_sound:
  "walk_loop n m q head index seen writing r w = Some (q', Some c) \<Longrightarrow>
   q' = q \<and> (\<exists>ps ds. desc_path (desc_at m (sq_desc q)) (unat (sq_size q)) (unat index) ps \<and>
     expands m q writing ps ds \<and>
     c = \<lparr>c_head = head, c_readable = r @ reads ds, c_writable = w @ writes ds\<rparr>)"
proof (induction n arbitrary: index seen writing r w)
  case 0
  then show ?case by simp
next
  case (Suc n)
  from Suc.prems obtain d where d: "desc_at m (sq_desc q) (unat index) = Some d"
    by (auto simp: walk_loop_Suc split: option.splits bool.splits)
  show ?case
  proof (cases "is_indirect d")
    case True
    from Suc.prems d True have ind: "indirect q" "\<not> has_next d"
      and call: "attempt_bind (walk_indirect m q d r w) (\<lambda>q (r, w).
        Some (q, Some \<lparr>c_head = head, c_readable = r, c_writable = w\<rparr>)) = Some (q', Some c)"
      by (auto simp: walk_loop_Suc split: option.splits bool.splits if_splits)
    show ?thesis
    proof (cases rule: walk_indirect_spec [of m q d r w])
      case (accept es)
      with call have "q' = q" "c = \<lparr>c_head = head, c_readable = r @ reads (map snd es),
          c_writable = w @ writes (map snd es)\<rparr>"
        by auto
      with accept(1) True ind desc_path.path_end [of "desc_at m (sq_desc q)", OF d ind(2)] show ?thesis
        by (intro conjI exI [of _ "[(unat index, d)]"] exI [of _ "map snd es"])
          (auto simp: expands_single)
    next
      case refuse
      with call show ?thesis by simp
    qed
  next
    case False
    from Suc.prems d False have ok: "desc_ok m d" "writing \<longrightarrow> is_write d"
      by (auto simp: walk_loop_Suc split: option.splits bool.splits if_splits)
    show ?thesis
    proof (cases "has_next d")
      case no: False
      with Suc.prems d ok False have "q' = q"
        "c = \<lparr>c_head = head, c_readable = r @ reads [d], c_writable = w @ writes [d]\<rparr>"
        by (auto simp: walk_loop_Suc split: option.splits bool.splits)
      with ok False desc_path.path_end [of "desc_at m (sq_desc q)", OF d no] show ?thesis
        by (intro conjI exI [of _ "[(unat index, d)]"] exI [of _ "[d]"]) (simp_all add: expands_single)
    next
      case True
      from Suc.prems d ok False True have bound: "unat (d_next d) < unat (sq_size q)"
        and rest: "walk_loop n m q head (d_next d) (seen[unat index := True])
          (writing \<or> is_write d) (r @ reads [d]) (w @ writes [d]) = Some (q', Some c)"
        by (auto simp: walk_loop_Suc split: option.splits bool.splits if_splits)
      from Suc.IH [OF rest] obtain ps ds
        where ps: "desc_path (desc_at m (sq_desc q)) (unat (sq_size q)) (unat (d_next d)) ps"
          "expands m q (writing \<or> is_write d) ps ds" "q' = q"
          "c = \<lparr>c_head = head, c_readable = (r @ reads [d]) @ reads ds,
              c_writable = (w @ writes [d]) @ writes ds\<rparr>"
        by blast
      with desc_path.path_next [of "desc_at m (sq_desc q)", OF d True bound ps(1)] desc_path_not_Nil [OF ps(1)] ok False show ?thesis
        by (intro conjI exI [of _ "(unat index, d) # ps"] exI [of _ "d # ds"])
          (simp_all add: expands_Cons)
    qed
  qed
qed

lemma walk_complete:
  "desc_path (desc_at m (sq_desc q)) (unat (sq_size q)) i ps \<Longrightarrow> i = unat index \<Longrightarrow>
   expands m q writing ps ds \<Longrightarrow> length seen = unat (sq_size q) \<Longrightarrow> unat index < unat (sq_size q) \<Longrightarrow>
   \<forall>j \<in> fst ` set ps. \<not> seen ! j \<Longrightarrow> length ps \<le> n \<Longrightarrow>
   walk_loop n m q head index seen writing r w =
     Some (q, Some \<lparr>c_head = head, c_readable = r @ reads ds, c_writable = w @ writes ds\<rparr>)"
proof (induction arbitrary: n index seen writing r w ds rule: desc_path.induct)
  case (path_end i d)
  then obtain k where n: "n = Suc k" by (cases n) auto
  show ?case
  proof (cases "is_indirect d")
    case True
    with path_end.prems obtain es where es: "indirect q" "table_path m q d es" "ds = map snd es"
      by (auto simp: expands_single)
    show ?thesis
    proof (cases rule: walk_indirect_spec [of m q d r w])
      case (accept es')
      with table_path_det [OF es(2) accept(1)] es path_end n True show ?thesis
        by (simp add: walk_loop_Suc)
    next
      case refuse
      with es show ?thesis by blast
    qed
  next
    case False
    with path_end n show ?thesis by (auto simp: walk_loop_Suc expands_single)
  qed
next
  case (path_next i d ps)
  then obtain k where n: "n = Suc k" by (cases n) auto
  have fresh: "i \<notin> fst ` set ps"
    using desc_path_distinct [OF desc_path.path_next [OF path_next.hyps]] by simp
  have unseen: "\<forall>j \<in> fst ` set ps. \<not> (seen[unat index := True]) ! j"
    using path_next.prems fresh by (auto simp: nth_list_update split: if_splits)
  from path_next.prems(2) desc_path_not_Nil [OF path_next.hyps(4)] obtain es
    where es: "ds = d # es" "expands m q (writing \<or> is_write d) ps es"
      and ok: "\<not> is_indirect d" "desc_ok m d" "writing \<longrightarrow> is_write d"
    by (auto simp: expands_Cons)
  have "walk_loop k m q head (d_next d) (seen[unat index := True])
      (writing \<or> is_write d) (r @ reads [d]) (w @ writes [d]) =
    Some (q, Some \<lparr>c_head = head, c_readable = (r @ reads [d]) @ reads es,
      c_writable = (w @ writes [d]) @ writes es\<rparr>)"
    using path_next.prems path_next.hyps(3) n unseen es by (intro path_next.IH) simp_all
  with path_next.prems path_next.hyps n es ok show ?case
    by (auto simp: walk_loop_Suc)
qed

lemma walk_none_breaks:
  "walk_loop n m q head index seen writing r w = Some (q', None) \<Longrightarrow> q' = break_queue q"
proof (induction n arbitrary: index seen writing r w)
  case (Suc n)
  have "q' = break_queue q" if "attempt_bind (walk_indirect m q d r w) (\<lambda>q (r, w).
        Some (q, Some \<lparr>c_head = head, c_readable = r, c_writable = w\<rparr>)) = Some (q', None)" for d
    using that by (cases rule: walk_indirect_spec [of m q d r w]) simp_all
  with Suc show ?case
    by (auto simp: walk_loop_Suc split: option.splits bool.splits if_splits)
qed simp

lemma walk_no_panic:
  "length seen = unat (sq_size q) \<Longrightarrow> unat index < unat (sq_size q) \<Longrightarrow>
   walk_loop n m q head index seen writing r w \<noteq> None"
proof (induction n arbitrary: index seen writing r w)
  case (Suc n)
  have "attempt_bind (walk_indirect m q d r w) (\<lambda>q (r, w).
        Some (q, Some \<lparr>c_head = head, c_readable = r, c_writable = w\<rparr>)) \<noteq> None" for d
    by (cases rule: walk_indirect_spec [of m q d r w]) simp_all
  with Suc show ?case by (auto simp: walk_loop_Suc split: option.splits bool.splits)
qed simp

text \<open>The walk accepts exactly the chains of the specification; a refusal breaks the queue.\<close>

lemma walk_spec:
  obtains (accept) c where "chain_spec m q head c" and "walk m q head = Some (q, Some c)"
  | (refuse) "\<nexists>c. chain_spec m q head c" and "walk m q head = Some (break_queue q, None)"
proof (cases "unat head < unat (sq_size q)")
  case False
  then have "walk m q head = Some (break_queue q, None)" by (simp add: walk_def word_le_nat_alt)
  moreover have "\<nexists>c. chain_spec m q head c" using False by (simp add: chain_spec_def)
  ultimately show thesis by (rule refuse [rotated])
next
  case lt: True
  let ?n = "unat (sq_size q)"
  from lt have run: "walk m q head = walk_loop ?n m q head head (replicate ?n False) False [] []"
    by (simp add: walk_def word_le_nat_alt)
  show thesis
  proof (cases "\<exists>c. chain_spec m q head c")
    case True
    then obtain c where c: "chain_spec m q head c" by blast
    then obtain ps ds where c_def: "c = chain_of head ds"
      and path: "desc_path (desc_at m (sq_desc q)) ?n (unat head) ps" "expands m q False ps ds"
      by (auto simp: chain_spec_def)
    from desc_path_length [OF path(1) lt] desc_path_bound [OF path(1) lt]
    have "walk m q head = Some (q, Some \<lparr>c_head = head, c_readable = [] @ reads ds, c_writable = [] @ writes ds\<rparr>)"
      unfolding run using lt path(2) by (intro walk_complete [OF path(1)]) auto
    with c c_def show thesis by (intro accept) (simp_all add: chain_of_def)
  next
    case False
    have "walk m q head \<noteq> None"
      unfolding run using lt by (intro walk_no_panic) simp_all
    moreover have "walk m q head \<noteq> Some (q', Some c)" for q' c
      using False lt walk_sound [of ?n m q head head "replicate ?n False" False "[]" "[]" q' c]
      by (auto simp: run chain_spec_def chain_of_def)
    ultimately have "walk m q head = Some (break_queue q, None)"
      using walk_none_breaks by (metis run option.exhaust surj_pair)
    with False show thesis by (rule refuse)
  qed
qed

section \<open>Taking chains off the available ring\<close>

definition queue_inv :: "split_queue \<Rightarrow> bool" where
  "queue_inv q \<longleftrightarrow> broken q \<or>
     is_power_of_two (sq_size q) \<and> sq_desc q mod 16 = 0 \<and> sq_avail q mod 2 = 0 \<and> sq_used q mod 4 = 0"

lemma queue_inv_size: "queue_inv q \<Longrightarrow> \<not> broken q \<Longrightarrow> sq_size q \<noteq> 0"
  using is_power_of_two_pos [of "sq_size q"] by (auto simp: queue_inv_def)

lemma queue_new_inv: "queue_inv (queue_new sz dsc avail used ind ev)"
  by (auto simp: queue_new_def queue_inv_def Let_def)

lemma queue_inv_break [simp]: "queue_inv (break_queue q)"
  by (simp add: queue_inv_def)

lemma queue_inv_update [simp]:
  "queue_inv (q\<lparr>last_avail := x\<rparr>) = queue_inv q" "queue_inv (q\<lparr>used_idx := x\<rparr>) = queue_inv q"
  by (simp_all add: queue_inv_def)

text \<open>The driver's published index, and entry \<open>k mod size\<close> of its ring.\<close>

definition avail_idx :: "guest_memory \<Rightarrow> split_queue \<Rightarrow> u16 option" where
  "avail_idx m q = (if unat (sq_avail q) + 2 < 2 ^ 64 then res_ok (read_u16 m (sq_avail q + 2)) else None)"

definition avail_entry :: "guest_memory \<Rightarrow> split_queue \<Rightarrow> u16 \<Rightarrow> u16 option" where
  "avail_entry m q k =
     (let at = 4 + 2 * (unat k mod unat (sq_size q)) in
      if unat (sq_avail q) + at < 2 ^ 64 then res_ok (read_u16 m (sq_avail q + of_nat at)) else None)"

lemma pop_eq:
  assumes inv: "queue_inv q" and ok: "\<not> broken q"
  shows "pop m q =
    (case avail_idx m q of
       None \<Rightarrow> Some (break_queue q, None)
     | Some idx \<Rightarrow>
         if last_avail q = idx then Some (q, None)
         else (case avail_entry m q (last_avail q) of
           None \<Rightarrow> Some (break_queue q, None)
         | Some head \<Rightarrow>
             attempt_bind (walk m q head) (\<lambda>q c. Some (q\<lparr>last_avail := last_avail q + 1\<rparr>, Some c))))"
proof -
  let ?slot = "last_avail q mod sq_size q"
  have nz: "sq_size q \<noteq> 0" using inv ok by (rule queue_inv_size)
  have slot: "unat (4 + ucast ?slot * 2 :: u64) = 4 + 2 * (unat (last_avail q) mod unat (sq_size q))"
  proof -
    have "unat ?slot < 2 ^ 16" using unsigned_less [of ?slot] by simp
    then have "unat (4 + ucast ?slot * 2 :: u64) = 4 + 2 * unat ?slot"
      by (simp add: unat_word_ariths unsigned_ucast_eq take_bit_nat_eq_self)
    then show ?thesis by (simp add: unat_mod)
  qed
  then have "(4 + ucast ?slot * 2 :: u64) = of_nat (4 + 2 * (unat (last_avail q) mod unat (sq_size q)))"
    by (metis of_nat_unat ucast_id)
  with nz slot ok show ?thesis
    by (auto simp: pop_def offset_eq avail_idx_def avail_entry_def Let_def res_ok_def
        split: sum.splits option.splits)
qed

lemma pop_spec:
  assumes "queue_inv q" and "\<not> broken q"
  obtains (empty) "avail_idx m q = Some (last_avail q)" and "pop m q = Some (q, None)"
  | (chain) idx head c where "avail_idx m q = Some idx" and "idx \<noteq> last_avail q"
      and "avail_entry m q (last_avail q) = Some head" and "chain_spec m q head c"
      and "pop m q = Some (q\<lparr>last_avail := last_avail q + 1\<rparr>, Some c)"
  | (broken) "pop m q = Some (break_queue q, None)"
      and "\<And>idx head c. avail_idx m q = Some idx \<Longrightarrow> idx \<noteq> last_avail q \<and>
        (avail_entry m q (last_avail q) = Some head \<longrightarrow> \<not> chain_spec m q head c)"
proof (cases "avail_idx m q")
  case None
  then show thesis by (intro broken) (simp_all add: pop_eq [OF assms])
next
  case idx: (Some idx)
  show thesis
  proof (cases "last_avail q = idx")
    case True
    with idx show thesis by (intro empty) (simp_all add: pop_eq [OF assms])
  next
    case ne: False
    show thesis
    proof (cases "avail_entry m q (last_avail q)")
      case None
      with idx ne show thesis by (intro broken) (auto simp: pop_eq [OF assms])
    next
      case (Some head)
      show thesis
      proof (cases rule: walk_spec [of m q head])
        case (accept c)
        with idx ne Some show thesis by (intro chain) (auto simp: pop_eq [OF assms])
      next
        case refuse
        with idx ne Some show thesis by (intro broken) (auto simp: pop_eq [OF assms])
      qed
    qed
  qed
qed

lemma queue_view_last_avail [simp]:
  "chain_spec m (q\<lparr>last_avail := x\<rparr>) = chain_spec m q"
  "avail_idx m (q\<lparr>last_avail := x\<rparr>) = avail_idx m q"
  "avail_entry m (q\<lparr>last_avail := x\<rparr>) = avail_entry m q"
  by (simp_all add: chain_spec_def expands_def table_path_def avail_idx_def avail_entry_def fun_eq_iff)

text \<open>
  Draining: the iterator ends after at most as many chains as the driver published, and the chains are
  those of consecutive ring entries.
\<close>

lemma unat_diff_Suc:
  assumes "(a :: u16) \<noteq> b"
  shows "unat (a - b) = Suc (unat (a - (b + 1)))"
proof -
  have pos: "0 < unat (a - b)" using assms by (simp add: unat_gt_0)
  then have "unat (a - b - 1) = unat (a - b) - unat (1 :: u16)"
    by (intro unat_sub) (simp add: word_le_nat_alt)
  with pos show ?thesis by (simp add: diff_diff_add)
qed

lemma chains_spec:
  assumes "queue_inv q" and "\<not> broken q"
  shows "avail_idx m q = Some idx \<Longrightarrow> unat (idx - last_avail q) < fuel \<Longrightarrow>
    \<exists>q' cs. chains fuel m q = Some (q', cs) \<and> length cs \<le> unat (idx - last_avail q) \<and>
      (q' = q\<lparr>last_avail := idx\<rparr> \<and> length cs = unat (idx - last_avail q) \<or>
       q' = break_queue (q\<lparr>last_avail := last_avail q + of_nat (length cs)\<rparr>)) \<and>
      (\<forall>k < length cs. avail_entry m q (last_avail q + of_nat k) = Some (c_head (cs ! k)) \<and>
         chain_spec m q (c_head (cs ! k)) (cs ! k))"
  using assms
proof (induction fuel arbitrary: q)
  case 0
  then show ?case by simp
next
  case (Suc n)
  show ?case
  proof (cases rule: pop_spec [OF Suc.prems(3,4), of m, case_names empty chain broken])
    case empty
    with Suc.prems show ?thesis by simp
  next
    case (chain idx' head c)
    let ?q = "q\<lparr>last_avail := last_avail q + 1\<rparr>"
    from chain Suc.prems have ne: "idx \<noteq> last_avail q" by simp
    have len: "unat (idx - last_avail q) = Suc (unat (idx - (last_avail q + 1)))"
      using ne by (rule unat_diff_Suc)
    have head: "c_head c = head"
      using chain(4) by (auto simp: chain_spec_def chain_of_def)
    from Suc.IH [of ?q] Suc.prems len obtain q' cs where rest: "chains n m ?q = Some (q', cs)"
      "length cs \<le> unat (idx - (last_avail q + 1))"
      "q' = ?q\<lparr>last_avail := idx\<rparr> \<and> length cs = unat (idx - (last_avail q + 1)) \<or>
       q' = break_queue (?q\<lparr>last_avail := last_avail q + 1 + of_nat (length cs)\<rparr>)"
      and entries: "\<forall>k < length cs. avail_entry m q (last_avail q + 1 + of_nat k) = Some (c_head (cs ! k)) \<and>
         chain_spec m q (c_head (cs ! k)) (cs ! k)"
      by auto
    have "\<forall>k < length (c # cs). avail_entry m q (last_avail q + of_nat k) = Some (c_head ((c # cs) ! k)) \<and>
         chain_spec m q (c_head ((c # cs) ! k)) ((c # cs) ! k)"
    proof (intro allI impI)
      fix k assume "k < length (c # cs)"
      with entries chain(3,4) head show "avail_entry m q (last_avail q + of_nat k) = Some (c_head ((c # cs) ! k)) \<and>
         chain_spec m q (c_head ((c # cs) ! k)) ((c # cs) ! k)"
        by (cases k) (simp_all add: add.assoc)
    qed
    with rest chain(5) len show ?thesis
      by (intro exI [of _ q'] exI [of _ "c # cs"]) (auto simp: add.assoc)
  next
    case broken
    have "q\<lparr>last_avail := last_avail q + of_nat (length ([] :: chain list))\<rparr> = q" by simp
    with broken show ?thesis by auto
  qed
qed

end
