(* ===== verification/Used_Ring.thy ===== *)
theory Used_Ring
  imports Split_Queue
begin

text \<open>
  The used ring: what \<open>add_used\<close> leaves in guest memory, one completion and a batch of them, when
  \<open>notification_needed\<close> asks for an interrupt, and the histories of a queue between a device and a
  driver that may write any byte at any time. The properties of the split virtqueue close the theory.
\<close>

section \<open>One completion\<close>

text \<open>What the driver reads: the published index, and the element in slot \<open>k\<close>.\<close>

definition used_index :: "guest_memory \<Rightarrow> split_queue \<Rightarrow> u16 option" where
  "used_index m q = (if unat (sq_used q) + 2 < 2 ^ 64 then res_ok (read_u16 m (sq_used q + 2)) else None)"

definition used_elem :: "guest_memory \<Rightarrow> split_queue \<Rightarrow> nat \<Rightarrow> (u32 \<times> u32) option" where
  "used_elem m q k =
     (if unat (sq_used q) + 8 * k + 8 < 2 ^ 64 then
        (case (read_u32 m (sq_used q + of_nat (4 + 8 * k)), read_u32 m (sq_used q + of_nat (8 + 8 * k))) of
           (Inr i, Inr len) \<Rightarrow> Some (i, len)
         | _ \<Rightarrow> None)
      else None)"

definition used_slot :: "split_queue \<Rightarrow> nat \<Rightarrow> nat" where
  "used_slot q i = (unat (used_idx q) + i) mod unat (sq_size q)"

definition ring_end :: "split_queue \<Rightarrow> nat" where
  "ring_end q = unat (sq_used q) + 4 + 8 * unat (sq_size q)"

text \<open>The stores a successful \<open>add_used\<close> performs, at addresses read as numbers.\<close>

lemma add_used_stores:
  assumes ok: "add_used m q head len = Some (m', q', True)"
  obtains m1 m2 elem len_at idx_at where
    "unat elem = unat (sq_used q) + 4 + 8 * used_slot q 0"
    "unat len_at = unat (sq_used q) + 8 + 8 * used_slot q 0"
    "unat idx_at = unat (sq_used q) + 2"
    "elem = sq_used q + of_nat (4 + 8 * used_slot q 0)"
    "len_at = sq_used q + of_nat (8 + 8 * used_slot q 0)" "idx_at = sq_used q + 2"
    "write_u32 m elem (ucast head) = Inr m1" "write_u32 m1 len_at len = Inr m2"
    "write_u16 m2 idx_at (used_idx q + 1) = Inr m'"
    "q' = q\<lparr>used_idx := used_idx q + 1\<rparr>" "\<not> broken q" "head < sq_size q"
proof -
  from ok have nz: "sq_size q \<noteq> 0" by (auto simp: add_used_def checked_rem_def split: if_splits)
  let ?slot = "used_idx q mod sq_size q"
  from ok nz obtain m1 m2 elem len_at idx_at where
    elem: "checked_add (sq_used q) (4 + ucast ?slot * 8) = Some elem" and
    len_at: "checked_add elem 4 = Some len_at" and idx_at: "checked_add (sq_used q) 2 = Some idx_at" and
    st: "write_u32 m elem (ucast head) = Inr m1" "write_u32 m1 len_at len = Inr m2"
      "write_u16 m2 idx_at (used_idx q + 1) = Inr m'" and
    q': "q' = q\<lparr>used_idx := used_idx q + 1\<rparr>" "\<not> broken q" "head < sq_size q"
    by (auto simp: add_used_def Let_def not_le split: if_splits option.splits sum.splits)
  have "unat ?slot < 2 ^ 16" using unsigned_less [of ?slot] by simp
  then have "unat (4 + ucast ?slot * 8 :: u64) = 4 + 8 * unat ?slot"
    by (simp add: unat_word_ariths unsigned_ucast_eq take_bit_nat_eq_self)
  then have slot: "unat (4 + ucast ?slot * 8 :: u64) = 4 + 8 * used_slot q 0"
    by (simp add: used_slot_def unat_mod)
  have word: "x = of_nat n" if "unat x = n" for x :: u64 and n
    using that by (metis of_nat_unat ucast_id)
  from elem slot have e: "unat elem = unat (sq_used q) + 4 + 8 * used_slot q 0"
    by (simp add: checked_add_Some)
  moreover from len_at e have l: "unat len_at = unat (sq_used q) + 8 + 8 * used_slot q 0"
    by (simp add: checked_add_Some)
  moreover from idx_at have "unat idx_at = unat (sq_used q) + 2"
    by (simp add: checked_add_Some)
  moreover have "elem = sq_used q + of_nat (4 + 8 * used_slot q 0)"
    "len_at = sq_used q + of_nat (8 + 8 * used_slot q 0)"
    using word [OF e] word [OF l] by (simp_all add: add.assoc)
  moreover from idx_at have "idx_at = sq_used q + 2"
    by (simp add: checked_add_def split: if_splits)
  ultimately show thesis using st q' by (rule that)
qed

lemma unat_used_elem:
  assumes "unat (sq_used q) + 8 * k + 8 < 2 ^ 64"
  shows "unat (sq_used q + of_nat (4 + 8 * k)) = unat (sq_used q) + 4 + 8 * k"
    "unat (sq_used q + of_nat (8 + 8 * k)) = unat (sq_used q) + 8 + 8 * k"
proof -
  have "unat (sq_used q + of_nat n) = unat (sq_used q) + n" if "unat (sq_used q) + n < 2 ^ 64" for n
    using that by (simp add: unat_word_ariths unsigned_of_nat take_bit_eq_mod del: of_nat_add)
  from this [of "4 + 8 * k"] this [of "8 + 8 * k"] assms
  show "unat (sq_used q + of_nat (4 + 8 * k)) = unat (sq_used q) + 4 + 8 * k"
    "unat (sq_used q + of_nat (8 + 8 * k)) = unat (sq_used q) + 8 + 8 * k"
    by simp_all
qed

lemma write_int_bytes:
  "write_u16 m a x = write_bytes m a (to_le 2 x)" "write_u32 m a y = write_bytes m a (to_le 4 y)"
  by (simp_all add: guest_int_defs)

lemma add_used_effect:
  assumes inv: "mem_inv m" and ok: "add_used m q head len = Some (m', q', True)"
  shows "mem_inv m'" "layout m' = layout m" "q' = q\<lparr>used_idx := used_idx q + 1\<rparr>"
    "used_index m' q = Some (used_idx q + 1)"
    "used_elem m' q (used_slot q 0) = Some (ucast head, len)"
    "k \<noteq> used_slot q 0 \<Longrightarrow> used_elem m' q k = used_elem m q k"
    "unat a + n \<le> unat (sq_used q) + 2 \<or> ring_end q \<le> unat a \<Longrightarrow>
     read_bytes m' a n = read_bytes m a n"
proof -
  from ok show "q' = q\<lparr>used_idx := used_idx q + 1\<rparr>" by (rule add_used_stores)
  obtain m1 m2 elem len_at idx_at where
    at: "unat elem = unat (sq_used q) + 4 + 8 * used_slot q 0"
      "unat len_at = unat (sq_used q) + 8 + 8 * used_slot q 0"
      "unat idx_at = unat (sq_used q) + 2" and
    eq: "elem = sq_used q + of_nat (4 + 8 * used_slot q 0)"
      "len_at = sq_used q + of_nat (8 + 8 * used_slot q 0)" "idx_at = sq_used q + 2" and
    st: "write_u32 m elem (ucast head) = Inr m1" "write_u32 m1 len_at len = Inr m2"
      "write_u16 m2 idx_at (used_idx q + 1) = Inr m'" and q: "head < sq_size q"
    by (rule add_used_stores [OF ok])
  note w = st [unfolded write_int_bytes]
  have inv1: "mem_inv m1" using mem.wr_inv [OF inv w(1)] .
  have inv2: "mem_inv m2" using mem.wr_inv [OF inv1 w(2)] .
  show "mem_inv m'" using mem.wr_inv [OF inv2 w(3)] .
  show "layout m' = layout m" using w by (simp add: write_bytes_layout)
  have bound: "unat idx_at < 2 ^ 64" "unat len_at < 2 ^ 64" using unsigned_less [of idx_at] unsigned_less [of len_at] by simp_all
  show "used_index m' q = Some (used_idx q + 1)"
    using read_int_after_write(2) [OF inv2 st(3)] bound at eq by (simp add: used_index_def)
  have frame3: "read_u32 m' b = read_u32 m2 b" if "unat (sq_used q) + 4 \<le> unat b" for b
    using read_int_frame(3) [OF inv2 w(3), of b] that at by simp
  have frame2: "read_u32 m2 b = read_u32 m1 b" if "unat b + 4 \<le> unat len_at \<or> unat len_at + 4 \<le> unat b" for b
    using read_int_frame(3) [OF inv1 w(2), of b] that by simp
  have frame1: "read_u32 m1 b = read_u32 m b" if "unat b + 4 \<le> unat elem \<or> unat elem + 4 \<le> unat b" for b
    using read_int_frame(3) [OF inv w(1), of b] that by simp
  have "read_u32 m' elem = Inr (ucast head)" "read_u32 m' len_at = Inr len"
    using frame3 frame2 [of elem] read_int_after_write(3) [OF inv st(1)]
      read_int_after_write(3) [OF inv1 st(2)] at by simp_all
  with bound at eq show "used_elem m' q (used_slot q 0) = Some (ucast head, len)"
    by (simp add: used_elem_def)
  show "used_elem m' q k = used_elem m q k" if "k \<noteq> used_slot q 0"
  proof (cases "unat (sq_used q) + 8 * k + 8 < 2 ^ 64")
    case True
    note a = unat_used_elem [OF True]
    have same: "read_u32 m' b = read_u32 m b"
      if "unat (sq_used q) + 4 \<le> unat b" "unat b + 4 \<le> unat elem \<or> unat len_at + 4 \<le> unat b" for b
    proof -
      have "read_u32 m' b = read_u32 m2 b" using that(1) by (rule frame3)
      also have "\<dots> = read_u32 m1 b" using that(2) at by (intro frame2) arith
      also have "\<dots> = read_u32 m b" using that(2) at by (intro frame1) arith
      finally show ?thesis .
    qed
    have "read_u32 m' (sq_used q + of_nat (4 + 8 * k)) = read_u32 m (sq_used q + of_nat (4 + 8 * k))"
      using \<open>k \<noteq> used_slot q 0\<close> by (intro same; unfold a at; arith)
    moreover have "read_u32 m' (sq_used q + of_nat (8 + 8 * k)) = read_u32 m (sq_used q + of_nat (8 + 8 * k))"
      using \<open>k \<noteq> used_slot q 0\<close> by (intro same; unfold a at; arith)
    ultimately show ?thesis by (simp add: used_elem_def)
  qed (simp add: used_elem_def)
  assume out: "unat a + n \<le> unat (sq_used q) + 2 \<or> ring_end q \<le> unat a"
  have "used_slot q 0 < unat (sq_size q)" using q by (simp add: used_slot_def word_less_nat_alt)
  then have out': "unat a + n \<le> unat (sq_used q) + 2 \<or> unat (sq_used q) + 12 + 8 * used_slot q 0 \<le> unat a"
    using out by (auto simp: ring_end_def)
  have "read_bytes m' a n = read_bytes m2 a n"
    using out' at by (intro mem.rd_frame [OF inv2 w(3)]) auto
  also have "\<dots> = read_bytes m1 a n" using out' at by (intro mem.rd_frame [OF inv1 w(2)]) auto
  also have "\<dots> = read_bytes m a n" using out' at by (intro mem.rd_frame [OF inv w(1)]) auto
  finally show "read_bytes m' a n = read_bytes m a n" .
qed

section \<open>A batch of completions\<close>

text \<open>A device completing several chains in a row; \<open>None\<close> when one of the calls did not return true.\<close>

primrec add_used_all ::
  "guest_memory \<Rightarrow> split_queue \<Rightarrow> (u16 \<times> u32) list \<Rightarrow> (guest_memory \<times> split_queue) option" where
  "add_used_all m q [] = Some (m, q)"
| "add_used_all m q (x # xs) =
     (case add_used m q (fst x) (snd x) of
        Some (m', q', True) \<Rightarrow> add_used_all m' q' xs
      | _ \<Rightarrow> None)"

lemma add_used_all_Cons:
  "add_used_all m q (x # xs) = Some r \<longleftrightarrow>
     (\<exists>m' q'. add_used m q (fst x) (snd x) = Some (m', q', True) \<and> add_used_all m' q' xs = Some r)"
  by (auto split: option.splits bool.splits)

declare add_used_all.simps(2) [simp del]

lemma used_slot_next:
  assumes "is_power_of_two (sq_size q)"
  shows "used_slot (q\<lparr>used_idx := used_idx q + 1\<rparr>) i = used_slot q (Suc i)"
proof -
  obtain n where n: "unat (sq_size q) = 2 ^ n" "n < 16"
    using is_power_of_two_unat [OF assms] by auto
  have dvd: "(2::nat) ^ n dvd 2 ^ 16" using n(2) by (intro le_imp_power_dvd) simp
  have "(unat (used_idx q + 1) + i) mod 2 ^ n = (unat (used_idx q + 1) mod 2 ^ n + i) mod 2 ^ n"
    by (rule mod_add_left_eq [symmetric])
  also have "unat (used_idx q + 1) mod 2 ^ n = Suc (unat (used_idx q)) mod 2 ^ n"
    using mod_mod_cancel [OF dvd, of "Suc (unat (used_idx q))"] by (simp add: unat_word_ariths)
  also have "(Suc (unat (used_idx q)) mod 2 ^ n + i) mod 2 ^ n = (Suc (unat (used_idx q)) + i) mod 2 ^ n"
    by (rule mod_add_left_eq)
  finally show ?thesis by (simp add: used_slot_def n(1))
qed

lemma used_slot_inj:
  assumes "i < unat (sq_size q)" and "j < unat (sq_size q)" and "used_slot q i = used_slot q j"
  shows "i = j"
proof -
  let ?s = "unat (sq_size q)" and ?r = "unat (used_idx q) mod unat (sq_size q)"
  have "used_slot q k = (if ?r + k < ?s then ?r + k else ?r + k - ?s)" if "k < ?s" for k
  proof -
    have "used_slot q k = (?r + k) mod ?s" by (simp add: used_slot_def mod_add_left_eq)
    moreover have "?r < ?s" using that by simp
    ultimately show ?thesis using that by (cases "?r + k < ?s") (simp_all add: le_mod_geq)
  qed
  moreover have "?r < ?s" using assms(1) by simp
  ultimately show ?thesis using assms by (auto split: if_splits)
qed

lemma used_view_used_idx [simp]:
  "used_elem m (q\<lparr>used_idx := x\<rparr>) = used_elem m q"
  "used_index m (q\<lparr>used_idx := x\<rparr>) = used_index m q" "ring_end (q\<lparr>used_idx := x\<rparr>) = ring_end q"
  by (simp_all add: used_elem_def used_index_def ring_end_def fun_eq_iff)

lemma batch_keeps:
  "mem_inv m \<Longrightarrow> is_power_of_two (sq_size q) \<Longrightarrow> add_used_all m q xs = Some (m', q') \<Longrightarrow>
   mem_inv m' \<and> layout m' = layout m \<and> q' = q\<lparr>used_idx := used_idx q + of_nat (length xs)\<rparr> \<and>
   (\<forall>k. (\<forall>i < length xs. k \<noteq> used_slot q i) \<longrightarrow> used_elem m' q k = used_elem m q k) \<and>
   (\<forall>a n. unat a + n \<le> unat (sq_used q) + 2 \<or> ring_end q \<le> unat a \<longrightarrow>
      read_bytes m' a n = read_bytes m a n)"
proof (induction xs arbitrary: m q)
  case Nil
  then show ?case by simp
next
  case (Cons x xs)
  then obtain m1 q1 where one: "add_used m q (fst x) (snd x) = Some (m1, q1, True)"
    and rest: "add_used_all m1 q1 xs = Some (m', q')"
    by (auto simp: add_used_all_Cons)
  note eff = add_used_effect [OF Cons.prems(1) one]
  have slot: "used_slot q1 i = used_slot q (Suc i)" for i
    using used_slot_next [OF Cons.prems(2)] by (simp add: eff(3))
  have "is_power_of_two (sq_size q1)" using Cons.prems(2) by (simp add: eff(3))
  note ih = Cons.IH [OF eff(1) this rest]
  have "used_elem m' q k = used_elem m q k" if k: "\<forall>i < length (x # xs). k \<noteq> used_slot q i" for k
  proof -
    have "used_elem m' q k = used_elem m1 q k"
      using ih k by (auto simp: slot) (simp add: eff(3))
    also have "\<dots> = used_elem m q k" using k by (intro eff(6)) auto
    finally show ?thesis .
  qed
  moreover have "read_bytes m' a n = read_bytes m a n"
    if "unat a + n \<le> unat (sq_used q) + 2 \<or> ring_end q \<le> unat a" for a n
    using ih that eff(7) [OF that] by (auto simp: eff(3))
  ultimately show ?case using ih eff(2) by (simp add: eff(3) add.assoc add.commute)
qed

lemma batch_entries:
  "mem_inv m \<Longrightarrow> is_power_of_two (sq_size q) \<Longrightarrow> add_used_all m q xs = Some (m', q') \<Longrightarrow>
   length xs \<le> unat (sq_size q) \<Longrightarrow> i < length xs \<Longrightarrow>
   used_elem m' q (used_slot q i) = Some (ucast (fst (xs ! i)), snd (xs ! i))"
proof (induction xs arbitrary: m q i)
  case Nil
  then show ?case by simp
next
  case (Cons x xs)
  then obtain m1 q1 where one: "add_used m q (fst x) (snd x) = Some (m1, q1, True)"
    and rest: "add_used_all m1 q1 xs = Some (m', q')"
    by (auto simp: add_used_all_Cons)
  note eff = add_used_effect [OF Cons.prems(1) one]
  have slot: "used_slot q1 i = used_slot q (Suc i)" for i
    using used_slot_next [OF Cons.prems(2)] by (simp add: eff(3))
  have pow: "is_power_of_two (sq_size q1)" using Cons.prems(2) by (simp add: eff(3))
  show ?case
  proof (cases i)
    case 0
    have "\<forall>j < length xs. used_slot q 0 \<noteq> used_slot q1 j"
      using used_slot_inj [of 0 q "Suc _"] Cons.prems(4) by (force simp: slot)
    with batch_keeps [OF eff(1) pow rest] have "used_elem m' q1 (used_slot q 0) = used_elem m1 q1 (used_slot q 0)"
      by blast
    with 0 eff(5) show ?thesis by (simp add: eff(3))
  next
    case (Suc j)
    with Cons.IH [OF eff(1) pow rest, of j] Cons.prems show ?thesis
      by (simp add: slot) (simp add: eff(3))
  qed
qed

lemma batch_index:
  "mem_inv m \<Longrightarrow> add_used_all m q xs = Some (m', q') \<Longrightarrow> xs \<noteq> [] \<Longrightarrow>
   used_index m' q = Some (used_idx q + of_nat (length xs))"
proof (induction xs arbitrary: m q)
  case (Cons x xs)
  then obtain m1 q1 where one: "add_used m q (fst x) (snd x) = Some (m1, q1, True)"
    and rest: "add_used_all m1 q1 xs = Some (m', q')"
    by (auto simp: add_used_all_Cons)
  note eff = add_used_effect [OF Cons.prems(1) one]
  show ?case
  proof (cases "xs = []")
    case True
    with rest eff(4) show ?thesis by simp
  next
    case False
    with Cons.IH [OF eff(1) rest] show ?thesis by (simp add: eff(3) add.assoc add.commute)
  qed
qed simp

text \<open>A used ring that is mapped takes every completion of a valid head.\<close>

lemma read_bytes_sub:
  assumes inv: "mem_inv m" and whole: "is_ok (read_bytes m a n)"
    and inside: "unat a \<le> unat b" "unat b + k \<le> unat a + n"
  shows "is_ok (read_bytes m b k)"
proof (cases "k = 0")
  case False
  have ok: "is_ok (read_bytes m c l) \<longleftrightarrow> (\<exists>i. find_region m c l = Inr i)" if "0 < l" for c l
    using that by (auto simp: read_bytes_def is_ok_iff res_bind_eq_Inr Let_def)
  from False inside have "0 < n" by simp
  with whole False inside show ?thesis
    by (auto simp: ok find_region_iff [OF inv])
qed (simp add: read_bytes_def)

definition ring_mapped :: "guest_memory \<Rightarrow> split_queue \<Rightarrow> bool" where
  "ring_mapped m q \<longleftrightarrow> ring_end q < 2 ^ 64 \<and> is_ok (read_bytes m (sq_used q) (4 + 8 * unat (sq_size q)))"

lemma checked_add_fits:
  assumes "unat (a :: u64) + unat b < 2 ^ 64"
  obtains c where "checked_add a b = Some c" and "unat c = unat a + unat b"
  using assms by (auto simp: checked_add_def unat_add_no_overflow)

lemma add_used_succeeds:
  assumes inv: "mem_inv m" "queue_inv q" "\<not> broken q" and head: "head < sq_size q" and ring: "ring_mapped m q"
  obtains m' where "add_used m q head len = Some (m', q\<lparr>used_idx := used_idx q + 1\<rparr>, True)"
proof -
  let ?slot = "used_idx q mod sq_size q"
  have nz: "sq_size q \<noteq> 0" using inv(2,3) by (rule queue_inv_size)
  have slot: "unat ?slot < unat (sq_size q)" using nz by (simp add: unat_mod unat_gt_0)
  have "unat ?slot < 2 ^ 16" using unsigned_less [of ?slot] by simp
  then have off: "unat (4 + ucast ?slot * 8 :: u64) = 4 + 8 * unat ?slot"
    by (simp add: unat_word_ariths unsigned_ucast_eq take_bit_nat_eq_self)
  have fit: "unat (sq_used q) + 4 + 8 * unat (sq_size q) < 2 ^ 64"
    using ring by (simp add: ring_mapped_def ring_end_def)
  obtain elem where elem: "checked_add (sq_used q) (4 + ucast ?slot * 8) = Some elem"
    "unat elem = unat (sq_used q) + 4 + 8 * unat ?slot"
    by (rule checked_add_fits [of "sq_used q" "4 + ucast ?slot * 8"]) (use fit slot off in simp_all)
  obtain len_at where len_at: "checked_add elem 4 = Some len_at"
    "unat len_at = unat (sq_used q) + 8 + 8 * unat ?slot"
    by (rule checked_add_fits [of elem 4]) (use fit slot elem(2) in simp_all)
  obtain idx_at where idx_at: "checked_add (sq_used q) 2 = Some idx_at" "unat idx_at = unat (sq_used q) + 2"
    by (rule checked_add_fits [of "sq_used q" 2]) (use fit in simp_all)
  have rd: "is_ok (read_bytes m a n)"
    if "unat (sq_used q) \<le> unat a" "unat a + n \<le> ring_end q" for a n
    by (rule read_bytes_sub [OF inv(1), of "sq_used q" "4 + 8 * unat (sq_size q)"])
      (use ring that in \<open>auto simp: ring_mapped_def ring_end_def\<close>)
  have "is_ok (write_bytes m elem (to_le 4 (ucast head :: u32)))"
    using rd [of elem 4] slot elem(2) by (simp add: mem.wr_ok [OF inv(1)] ring_end_def)
  then obtain m1 where w1: "write_bytes m elem (to_le 4 (ucast head :: u32)) = Inr m1"
    by (auto simp: is_ok_iff)
  note inv1 = mem.wr_inv [OF inv(1) w1]
  have "is_ok (write_bytes m1 len_at (to_le 4 len))"
    using rd [of len_at 4] slot len_at(2)
    by (simp add: mem.wr_ok_after_wr [OF inv(1) w1] mem.wr_ok [OF inv(1)] ring_end_def)
  then obtain m2 where w2: "write_bytes m1 len_at (to_le 4 len) = Inr m2"
    by (auto simp: is_ok_iff)
  have "is_ok (write_bytes m2 idx_at (to_le 2 (used_idx q + 1)))"
    using rd [of idx_at 2] idx_at(2) slot
    by (simp add: mem.wr_ok_after_wr [OF inv1 w2] mem.wr_ok_after_wr [OF inv(1) w1] mem.wr_ok [OF inv(1)]
        ring_end_def)
  then obtain m3 where w3: "write_bytes m2 idx_at (to_le 2 (used_idx q + 1)) = Inr m3"
    by (auto simp: is_ok_iff)
  have "add_used m q head len = Some (m3, q\<lparr>used_idx := used_idx q + 1\<rparr>, True)"
    using inv(3) head nz w1 w2 w3 elem(1) len_at(1) idx_at(1)
    by (simp add: add_used_def Let_def write_int_bytes not_le)
  then show thesis by (rule that)
qed

lemma ring_mapped_keeps:
  assumes "mem_inv m" and "add_used m q head len = Some (m', q', True)" and "ring_mapped m q"
  shows "ring_mapped m' q'"
proof -
  note eff = add_used_effect [OF assms(1,2)]
  have "find_region m' a n = find_region m a n" for a n
    using eff(2) by (rule find_region_layout)
  then have "is_ok (read_bytes m' a n) = is_ok (read_bytes m a n)" for a n
    by (simp add: read_bytes_def is_ok_def res_bind_def Let_def split: sum.splits)
  with assms(3) show ?thesis by (simp add: ring_mapped_def eff(3))
qed

lemma batch_succeeds:
  "mem_inv m \<Longrightarrow> queue_inv q \<Longrightarrow> \<not> broken q \<Longrightarrow> ring_mapped m q \<Longrightarrow>
   \<forall>x \<in> set xs. fst x < sq_size q \<Longrightarrow> \<exists>m' q'. add_used_all m q xs = Some (m', q')"
proof (induction xs arbitrary: m q)
  case (Cons x xs)
  then have "fst x < sq_size q" by simp
  with Cons.prems obtain m1 where one: "add_used m q (fst x) (snd x) =
      Some (m1, q\<lparr>used_idx := used_idx q + 1\<rparr>, True)"
    using add_used_succeeds by metis
  with Cons.prems Cons.IH [OF add_used_effect(1) [OF Cons.prems(1) one]]
    ring_mapped_keeps [OF Cons.prems(1) one] show ?case
    by (simp add: add_used_all.simps)
qed simp

section \<open>Asking for an interrupt\<close>

text \<open>The rule of the virtio specification: the index the driver waits for lies among those just published.\<close>

definition need_event :: "u16 \<Rightarrow> u16 \<Rightarrow> u16 \<Rightarrow> bool" where
  "need_event event new old \<longleftrightarrow> (\<exists>k < unat (new - old). event = old + of_nat k)"

definition used_event :: "guest_memory \<Rightarrow> split_queue \<Rightarrow> u16 option" where
  "used_event m q =
     (let at = 4 + 2 * unat (sq_size q) in
      if unat (sq_avail q) + at < 2 ^ 64 then res_ok (read_u16 m (sq_avail q + of_nat at)) else None)"

lemma notification_event:
  assumes "\<not> broken q" and "event_idx q"
  shows "notification_needed m q =
    (case used_event m q of
       None \<Rightarrow> (break_queue q, False)
     | Some ev \<Rightarrow> (q, ev = used_idx q - 1))"
proof -
  have "unat (sq_size q) < 2 ^ 16" using unsigned_less [of "sq_size q"] by simp
  then have at: "unat (4 + ucast (sq_size q) * 2 :: u64) = 4 + 2 * unat (sq_size q)"
    by (simp add: unat_word_ariths unsigned_ucast_eq take_bit_nat_eq_self)
  then have w: "(4 + ucast (sq_size q) * 2 :: u64) = of_nat (4 + 2 * unat (sq_size q))"
    by (metis of_nat_unat ucast_id)
  have lt: "x < 1 \<longleftrightarrow> x = 0" for x :: u16 by (simp add: word_less_nat_alt unat_eq_0)
  have "used_idx q - (ev + 1) < used_idx q - (used_idx q - 1) \<longleftrightarrow> ev = used_idx q - 1" for ev
    by (auto simp: lt)
  moreover have "used_event m q =
      (if unat (sq_avail q) + unat (4 + ucast (sq_size q) * 2 :: u64) < 2 ^ 64
       then res_ok (read_u16 m (sq_avail q + (4 + ucast (sq_size q) * 2))) else None)"
    unfolding used_event_def Let_def at unfolding w ..
  ultimately show ?thesis
    using assms by (simp add: notification_needed_def checked_add_def Let_def res_ok_def split: sum.splits)
qed

lemma need_event_one: "need_event ev new (new - 1) \<longleftrightarrow> ev = new - 1"
  by (auto simp: need_event_def)

section \<open>Histories of a queue\<close>

text \<open>
  The calls a device makes and the stores a driver may do between them, in any order. The state is
  \<open>None\<close> once a call has panicked.
\<close>

datatype vq_op =
    VqPop
  | VqAddUsed u16 u32
  | VqNotification
  | DriverWrite u64 "u8 list"

fun vq_step :: "(guest_memory \<times> split_queue) option \<Rightarrow> vq_op \<Rightarrow> (guest_memory \<times> split_queue) option" where
  "vq_step None op = None"
| "vq_step (Some (m, q)) VqPop = (case pop m q of None \<Rightarrow> None | Some (q', _) \<Rightarrow> Some (m, q'))"
| "vq_step (Some (m, q)) (VqAddUsed head len) =
     (case add_used m q head len of None \<Rightarrow> None | Some (m', q', _) \<Rightarrow> Some (m', q'))"
| "vq_step (Some (m, q)) VqNotification = Some (m, fst (notification_needed m q))"
| "vq_step (Some (m, q)) (DriverWrite a bs) =
     Some ((case write_bytes m a bs of Inl _ \<Rightarrow> m | Inr m' \<Rightarrow> m'), q)"

definition vq_inv :: "(guest_memory \<times> split_queue) option \<Rightarrow> bool" where
  "vq_inv st \<longleftrightarrow> (case st of None \<Rightarrow> False | Some (m, q) \<Rightarrow> mem_inv m \<and> queue_inv q)"

lemma pop_total:
  assumes "queue_inv q"
  obtains q' r where "pop m q = Some (q', r)" and "queue_inv q'" and "broken q \<Longrightarrow> q' = q \<and> r = None"
proof (cases "broken q")
  case True
  with assms show thesis by (intro that) (auto simp: pop_def)
next
  case False
  show thesis
    by (cases rule: pop_spec [OF assms False, of m]) (use assms False in \<open>auto intro: that\<close>)
qed

lemma add_used_total:
  assumes mem: "mem_inv m" and inv: "queue_inv q"
  obtains m' q' b where "add_used m q head len = Some (m', q', b)" and "mem_inv m'" and "queue_inv q'"
    and "broken q \<Longrightarrow> m' = m \<and> q' = q \<and> \<not> b"
proof -
  have "\<exists>m' q' b. add_used m q head len = Some (m', q', b) \<and> mem_inv m' \<and> queue_inv q' \<and>
    (broken q \<longrightarrow> m' = m \<and> q' = q \<and> \<not> b)"
  proof (cases "broken q \<or> sq_size q \<le> head")
    case True
    with mem inv show ?thesis by (auto simp: add_used_def)
  next
    case False
    with inv have "sq_size q \<noteq> 0" by (auto dest: queue_inv_size)
    with False mem inv show ?thesis
      by (auto simp: add_used_def Let_def write_int_bytes dest: mem.wr_inv [rotated]
          split: option.splits sum.splits)
  qed
  then show thesis using that by blast
qed

lemma notification_inv: "queue_inv q \<Longrightarrow> queue_inv (fst (notification_needed m q))"
  by (auto simp: notification_needed_def Let_def split: option.splits sum.splits)

lemma vq_step_inv: "vq_inv st \<Longrightarrow> vq_inv (vq_step st op)"
proof -
  assume inv: "vq_inv st"
  then obtain m q where st: "st = Some (m, q)" "mem_inv m" "queue_inv q"
    by (auto simp: vq_inv_def split: option.splits)
  show ?thesis
  proof (cases op)
    case VqPop
    with st show ?thesis by (auto simp: vq_inv_def elim: pop_total [of q m])
  next
    case (VqAddUsed head len)
    with st show ?thesis by (auto simp: vq_inv_def elim: add_used_total [of m q head len])
  next
    case VqNotification
    with st show ?thesis by (simp add: vq_inv_def notification_inv)
  next
    case (DriverWrite a bs)
    with st show ?thesis by (auto simp: vq_inv_def dest: mem.wr_inv split: sum.splits)
  qed
qed

interpretation vq: component vq_step vq_inv
  by unfold_locales (rule vq_step_inv)

lemma broken_step:
  assumes "vq_inv (Some (m, q))" and "broken q"
  shows "\<exists>m'. vq_step (Some (m, q)) op = Some (m', q) \<and> ((\<nexists>a bs. op = DriverWrite a bs) \<longrightarrow> m' = m)"
  using assms by (cases op) (auto simp: vq_inv_def pop_def add_used_def notification_needed_def)

section \<open>Chains are unique and bounded\<close>

lemma expands_unique:
  assumes "expands m q w ps ds" and "expands m q w ps es"
  shows "es = ds"
proof -
  have "\<not> is_indirect (snd (last ps))" if "segment m w (map snd ps)"
    using assms(1) that by (auto simp: expands_def segment_def)
  with assms show ?thesis
    by (auto simp: expands_def dest: table_path_det)
qed

lemma chain_spec_unique: "chain_spec m q head c \<Longrightarrow> chain_spec m q head c' \<Longrightarrow> c' = c"
  unfolding chain_spec_def using expands_unique desc_path_det by metis

lemma segment_bufs:
  "segment m w ds \<Longrightarrow> b \<in> set (reads ds) \<union> set (writes ds) \<Longrightarrow>
   b_len b = 0 \<or> span_mapped m (b_addr b) (b_len b)"
  by (auto simp: segment_def reads_def writes_def buf_of_def desc_ok_def)

lemma length_reads_writes: "length (reads ds) + length (writes ds) = length ds"
  using sum_length_filter_compl [of is_write ds] by (simp add: reads_def writes_def add.commute)

lemma chain_spec_bounded:
  assumes "chain_spec m q head c"
  shows "unat (c_head c) < unat (sq_size q) \<and>
    length (c_readable c) + length (c_writable c) < 2 * unat (sq_size q) \<and>
    (\<forall>b \<in> set (c_readable c) \<union> set (c_writable c). b_len b = 0 \<or> span_mapped m (b_addr b) (b_len b))"
proof -
  from assms obtain ps ds where c: "c = chain_of head ds" and head: "unat head < unat (sq_size q)"
    and path: "desc_path (desc_at m (sq_desc q)) (unat (sq_size q)) (unat head) ps"
    and exp: "expands m q False ps ds"
    by (auto simp: chain_spec_def)
  have len: "length ps \<le> unat (sq_size q)" "ps \<noteq> []"
    using desc_path_length [OF path head] desc_path_not_Nil [OF path] by auto
  from exp consider (direct) "segment m False ds" "length ds = length ps"
    | (indirect) es where "table_path m q (snd (last ps)) es" "segment m False (map snd (butlast ps))"
        "ds = map snd (butlast ps) @ map snd es"
    by (auto simp: expands_def)
  then have "length ds < 2 * unat (sq_size q) \<and>
    (\<forall>b \<in> set (reads ds) \<union> set (writes ds). b_len b = 0 \<or> span_mapped m (b_addr b) (b_len b))"
  proof cases
    case direct
    with len head segment_bufs [OF direct(1)] show ?thesis by auto
  next
    case (indirect es)
    let ?t = "snd (last ps)"
    from indirect(1) have es: "desc_path (desc_at m (d_addr ?t)) (unat (d_len ?t) div 16) 0 es"
      "segment m False (map snd es)" "unat (d_len ?t) div 16 \<le> unat (sq_size q)"
      and pos: "0 < unat (d_len ?t) div 16"
      by (auto simp: table_path_def unat_gt_0 div_greater_zero_iff mod_0_imp_dvd dvd_imp_le)
    have "length (butlast ps) < length ps" using len(2) by simp
    then have "length ds < 2 * unat (sq_size q)"
      using desc_path_length [OF es(1) pos] es(3) len(1) by (simp add: indirect(3))
    moreover have "\<forall>b \<in> set (reads ds) \<union> set (writes ds). b_len b = 0 \<or> span_mapped m (b_addr b) (b_len b)"
      using segment_bufs [OF indirect(2)] segment_bufs [OF es(2)] by (auto simp: indirect(3))
    ultimately show ?thesis ..
  qed
  with head length_reads_writes [of ds] show ?thesis by (simp add: c chain_of_def)
qed

section \<open>The order of a chain\<close>

text \<open>
  The descriptors of a published chain whatever their order: those of the main table, and those of the indirect table
  the last entry refers to, if it does. Each is a plain buffer that is empty or mapped at both ends.
\<close>

definition table_descs :: "guest_memory \<Rightarrow> split_queue \<Rightarrow> desc \<Rightarrow> desc list \<Rightarrow> bool" where
  "table_descs m q t ts \<longleftrightarrow> d_len t \<noteq> 0 \<and> unat (d_len t) mod 16 = 0 \<and> unat (d_len t) div 16 \<le> unat (sq_size q) \<and>
     (\<exists>es. ts = map snd es \<and> desc_path (desc_at m (d_addr t)) (unat (d_len t) div 16) 0 es)"

definition chain_descs :: "guest_memory \<Rightarrow> split_queue \<Rightarrow> u16 \<Rightarrow> desc list \<Rightarrow> desc list \<Rightarrow> bool" where
  "chain_descs m q head ds ts \<longleftrightarrow> unat head < unat (sq_size q) \<and> (\<forall>d \<in> set ds \<union> set ts. \<not> is_indirect d \<and> desc_ok m d) \<and>
     (\<exists>ps. desc_path (desc_at m (sq_desc q)) (unat (sq_size q)) (unat head) ps \<and>
        (ds = map snd ps \<and> ts = [] \<or>
         indirect q \<and> ds = map snd (butlast ps) \<and> is_indirect (snd (last ps)) \<and> table_descs m q (snd (last ps)) ts))"

definition in_order :: "desc list \<Rightarrow> bool" where
  "in_order ds \<longleftrightarrow> sorted_wrt (\<lambda>d e. is_write d \<longrightarrow> is_write e) ds"

text \<open>
  A chain as the type \<open>Chain\<close> documents it has its readable buffers before its writable ones. The walk starts an indirect
  table as if nothing writable had been seen, so it also takes chains that are in order within the main table and
  within the indirect table only.
\<close>

definition chain_documented :: "guest_memory \<Rightarrow> split_queue \<Rightarrow> u16 \<Rightarrow> chain \<Rightarrow> bool" where
  "chain_documented m q head c \<longleftrightarrow> (\<exists>ds ts. chain_descs m q head ds ts \<and> in_order (ds @ ts) \<and> c = chain_of head (ds @ ts))"

definition chain_misordered :: "guest_memory \<Rightarrow> split_queue \<Rightarrow> u16 \<Rightarrow> chain \<Rightarrow> bool" where
  "chain_misordered m q head c \<longleftrightarrow>
     (\<exists>ds ts. chain_descs m q head ds ts \<and> in_order ds \<and> in_order ts \<and> \<not> in_order (ds @ ts) \<and> c = chain_of head (ds @ ts))"

lemma segment_in_order: "segment m False ds \<longleftrightarrow> (\<forall>d \<in> set ds. \<not> is_indirect d \<and> desc_ok m d) \<and> in_order ds"
  by (auto simp: segment_def in_order_def)

lemma in_order_append: "in_order (ds @ ts) \<Longrightarrow> in_order ds \<and> in_order ts"
  by (simp add: in_order_def sorted_wrt_append)

lemma table_path_descs:
  "(\<exists>es. table_path m q t es \<and> ts = map snd es) \<longleftrightarrow> table_descs m q t ts \<and> segment m False ts"
  by (auto simp: table_path_def table_descs_def)

lemma chain_spec_descs:
  "chain_spec m q head c \<longleftrightarrow> (\<exists>ds ts. chain_descs m q head ds ts \<and> in_order ds \<and> in_order ts \<and> c = chain_of head (ds @ ts))"
proof
  assume "chain_spec m q head c"
  then obtain ps ds where p: "unat head < unat (sq_size q)" "desc_path (desc_at m (sq_desc q)) (unat (sq_size q)) (unat head) ps"
    "expands m q False ps ds" "c = chain_of head ds" by (auto simp: chain_spec_def)
  from p(3) consider "segment m False (map snd ps)" "ds = map snd ps"
    | es where "indirect q" "is_indirect (snd (last ps))" "segment m False (map snd (butlast ps))"
        "table_path m q (snd (last ps)) es" "ds = map snd (butlast ps) @ map snd es"
    by (auto simp: expands_def)
  then show "\<exists>ds ts. chain_descs m q head ds ts \<and> in_order ds \<and> in_order ts \<and> c = chain_of head (ds @ ts)"
  proof cases
    case 1
    with p(1,2,4) have "chain_descs m q head ds [] \<and> in_order ds \<and> in_order [] \<and> c = chain_of head (ds @ [])"
      unfolding chain_descs_def segment_in_order by (auto simp: in_order_def)
    then show ?thesis by blast
  next
    case (2 es)
    have order: "in_order (map snd (butlast ps))" "in_order (map snd es)"
      "\<forall>d \<in> set (map snd (butlast ps)) \<union> set (map snd es). \<not> is_indirect d \<and> desc_ok m d"
      using 2(3,4) by (auto simp: table_path_def segment_in_order)
    have "table_descs m q (snd (last ps)) (map snd es)" using 2(4) table_path_descs by blast
    then have "chain_descs m q head (map snd (butlast ps)) (map snd es)"
      unfolding chain_descs_def using 2(1,2) by (intro conjI p(1) order(3) exI [of _ ps] p(2) disjI2 refl)
    with order(1,2) p(4) 2(5) show ?thesis by blast
  qed
next
  assume "\<exists>ds ts. chain_descs m q head ds ts \<and> in_order ds \<and> in_order ts \<and> c = chain_of head (ds @ ts)"
  then obtain ds ts where cd: "chain_descs m q head ds ts" and d: "in_order ds" "in_order ts" "c = chain_of head (ds @ ts)"
    by blast
  then have seg: "segment m False ds" "segment m False ts" by (auto simp: segment_in_order chain_descs_def)
  from cd obtain ps where p: "unat head < unat (sq_size q)" "desc_path (desc_at m (sq_desc q)) (unat (sq_size q)) (unat head) ps"
    and "ds = map snd ps \<and> ts = [] \<or>
      indirect q \<and> ds = map snd (butlast ps) \<and> is_indirect (snd (last ps)) \<and> table_descs m q (snd (last ps)) ts"
    unfolding chain_descs_def by blast
  then have "expands m q False ps (ds @ ts)"
  proof (elim disjE)
    assume "ds = map snd ps \<and> ts = []"
    with seg show ?thesis using desc_path_not_Nil [OF p(2)] by (simp add: expands_def)
  next
    assume ind: "indirect q \<and> ds = map snd (butlast ps) \<and> is_indirect (snd (last ps)) \<and> table_descs m q (snd (last ps)) ts"
    with seg(2) obtain es where "ts = map snd es" "table_path m q (snd (last ps)) es"
      using table_path_descs [of m q "snd (last ps)" ts] by blast
    with ind seg(1) show ?thesis using desc_path_not_Nil [OF p(2)] by (auto simp: expands_def)
  qed
  with p d(3) show "chain_spec m q head c" unfolding chain_spec_def by blast
qed

lemma chain_spec_cases: "chain_spec m q head c \<longleftrightarrow> chain_documented m q head c \<or> chain_misordered m q head c"
  unfolding chain_spec_descs chain_documented_def chain_misordered_def using in_order_append by blast

section \<open>A concrete queue\<close>

text \<open>
  A queue of four entries: the descriptor table at \<open>0x40000000\<close>, the available ring at \<open>0x40001000\<close> with one
  published chain, the used ring at \<open>0x40002000\<close>. The chain has a readable buffer of 16 bytes and a
  writable one of 32.
\<close>

definition demo_bytes :: "(nat \<times> u8) list" where
  "demo_bytes = [(1, 0x30), (3, 0x40), (8, 0x10), (12, 1), (14, 1),
                 (17, 0x31), (19, 0x40), (24, 0x20), (28, 2), (0x1002, 1)]"

definition demo_ring :: guest_memory where
  "demo_ring = \<lparr>regions = [\<lparr>r_gpa = 0x40000000, r_size = 0x8000, r_host = 0x200000,
     r_guest_mapped = False,
     r_data = (\<lambda>i. case map_of demo_bytes i of None \<Rightarrow> 0 | Some b \<Rightarrow> b)\<rparr>]\<rparr>"

definition demo_queue :: split_queue where
  "demo_queue = queue_new 4 0x40000000 0x40001000 0x40002000 False True"

definition demo_chain :: chain where
  "demo_chain = \<lparr>c_head = 0, c_readable = [\<lparr>b_addr = 0x40003000, b_len = 16\<rparr>],
                 c_writable = [\<lparr>b_addr = 0x40003100, b_len = 32\<rparr>]\<rparr>"

lemma demo_ring_inv: "mem_inv demo_ring"
  by (simp add: mem_inv_def regions_ok_def region_ok_def region_hi_def demo_ring_def HOST_PAGE_SIZE_def)

lemma demo_queue_eq:
  "demo_queue = \<lparr>sq_size = 4, sq_desc = 0x40000000, sq_avail = 0x40001000, sq_used = 0x40002000,
     last_avail = 0, used_idx = 0, broken = False, indirect = False, event_idx = True\<rparr>"
proof -
  have "is_power_of_two (4 :: u16)" by code_simp
  then show ?thesis by (simp add: demo_queue_def queue_new_def)
qed

lemma demo_queue_inv: "queue_inv demo_queue" "\<not> broken demo_queue"
  by (simp add: demo_queue_def queue_new_inv) (simp add: demo_queue_eq)

lemma demo_read:
  assumes "0x40000000 \<le> unat a" and "unat a + n \<le> 0x40008000"
  shows "read_bytes demo_ring a n =
    Inr (map (\<lambda>k. case map_of demo_bytes (unat a - 0x40000000 + k) of None \<Rightarrow> 0 | Some b \<Rightarrow> b) [0..<n])"
proof (cases "n = 0")
  case False
  have "find_region demo_ring a n = Inr 0"
    using assms False
    by (subst find_region_iff [OF demo_ring_inv]) (simp_all add: demo_ring_def region_lo_def region_hi_def)
  moreover have "unat (a - 0x40000000) = unat a - 0x40000000"
    using assms(1) by (simp add: unat_sub word_le_nat_alt)
  ultimately show ?thesis using False by (simp add: read_bytes_def demo_ring_def)
qed (simp add: read_bytes_def)

lemma upt_widths: "[0..<2] = [0, 1]" "[0..<4] = [0, 1, 2, 3]" "[0..<8] = [0, 1, 2, 3, 4, 5, 6, 7]"
  by code_simp+

lemma demo_avail: "avail_idx demo_ring demo_queue = Some 1" "avail_entry demo_ring demo_queue 0 = Some 0"
  by (simp_all add: avail_idx_def avail_entry_def demo_queue_eq read_u16_def demo_read demo_bytes_def
      upt_widths)

lemma demo_descs:
  "desc_at demo_ring 0x40000000 0 = Some \<lparr>d_addr = 0x40003000, d_len = 16, d_flags = 1, d_next = 1\<rparr>"
  "desc_at demo_ring 0x40000000 1 = Some \<lparr>d_addr = 0x40003100, d_len = 32, d_flags = 2, d_next = 0\<rparr>"
  by (simp_all add: desc_at_def read_u16_def read_u32_def read_u64_def demo_read demo_bytes_def
      upt_widths)

lemma demo_chain_spec: "chain_spec demo_ring demo_queue 0 demo_chain"
proof -
  let ?d0 = "\<lparr>d_addr = 0x40003000, d_len = 16, d_flags = 1, d_next = 1\<rparr>"
  let ?d1 = "\<lparr>d_addr = 0x40003100, d_len = 32, d_flags = 2, d_next = 0\<rparr>"
  have flags: "has_next ?d0" "\<not> has_next ?d1" "\<not> is_write ?d0" "is_write ?d1"
    "\<not> is_indirect ?d0" "\<not> is_indirect ?d1"
    by (simp_all add: has_next_def is_write_def is_indirect_def NEXT_def WRITE_def INDIRECT_def)
  have ok: "desc_ok demo_ring ?d0" "desc_ok demo_ring ?d1"
    by (simp_all add: desc_ok_def span_mapped_def checked_add_def read_u8_def demo_read)
  have "desc_path (desc_at demo_ring 0x40000000) 4 0 [(0, ?d0), (1, ?d1)]"
    using flags demo_descs by (auto intro!: desc_path.intros)
  moreover have "expands demo_ring demo_queue False [(0, ?d0), (1, ?d1)] [?d0, ?d1]"
    using flags ok by (simp add: expands_def segment_Cons)
  moreover have "demo_chain = chain_of 0 [?d0, ?d1]"
    using flags by (simp add: chain_of_def demo_chain_def buf_of_def)
  ultimately show ?thesis
    by (auto simp: chain_spec_def demo_queue_eq)
qed

section \<open>Properties\<close>

text \<open>
  C1. When the driver has published a chain, \<open>pop\<close> returns it exactly when following the descriptors of the
  table from the published head, and of an indirect table where one is allowed, ends, every descriptor is a plain
  buffer that is empty or mapped at both ends, and either the readable descriptors come before the writable ones, as
  the type \<open>Chain\<close> documents, or this holds within the main table and within the indirect table but not for the two
  together; then the queue only advances by one. In every other case, loops included, the queue is marked broken and
  nothing else changes. \<open>pop\<close> does not panic.
\<close>

theorem virtqueue_pop_exact:
  assumes "queue_inv q" and "\<not> broken q" and "avail_idx m q = Some idx" and "idx \<noteq> last_avail q"
    and "avail_entry m q (last_avail q) = Some head"
  shows "(pop m q = Some (q\<lparr>last_avail := last_avail q + 1\<rparr>, Some c) \<longleftrightarrow>
      chain_documented m q head c \<or> chain_misordered m q head c) \<and>
    (pop m q = Some (break_queue q, None) \<longleftrightarrow> (\<forall>c. \<not> chain_documented m q head c \<and> \<not> chain_misordered m q head c)) \<and>
    pop m q \<noteq> None"
proof -
  have "(pop m q = Some (q\<lparr>last_avail := last_avail q + 1\<rparr>, Some c) \<longleftrightarrow> chain_spec m q head c) \<and>
    (pop m q = Some (break_queue q, None) \<longleftrightarrow> (\<forall>c. \<not> chain_spec m q head c)) \<and> pop m q \<noteq> None"
    by (cases rule: walk_spec [of m q head])
      (use assms in \<open>auto simp: pop_eq [OF assms(1,2)] chain_spec_unique\<close>)
  then show ?thesis unfolding chain_spec_cases by blast
qed

theorem virtqueue_pop_exact_witness:
  "queue_inv demo_queue \<and> \<not> broken demo_queue \<and> avail_idx demo_ring demo_queue = Some 1 \<and>
   1 \<noteq> last_avail demo_queue \<and> avail_entry demo_ring demo_queue (last_avail demo_queue) = Some 0 \<and>
   pop demo_ring demo_queue = Some (demo_queue\<lparr>last_avail := 1\<rparr>, Some demo_chain)"
  using virtqueue_pop_exact [of demo_queue demo_ring 1 0 demo_chain] demo_queue_inv demo_avail
    demo_chain_spec [unfolded chain_spec_cases]
  by (simp add: demo_queue_eq)

text \<open>
  The buffers of a chain that \<open>pop\<close> returns are guest memory at their first and last byte or empty, its
  head is an entry of the queue, and a queue of \<open>size\<close> entries gives fewer than \<open>2 * size\<close> buffers, whatever
  the driver wrote.
\<close>

lemma virtqueue_chain_bounded:
  assumes "queue_inv q" and "pop m q = Some (q', Some c)"
  shows "unat (c_head c) < unat (sq_size q) \<and>
    length (c_readable c) + length (c_writable c) < 2 * unat (sq_size q) \<and>
    (\<forall>b \<in> set (c_readable c) \<union> set (c_writable c). b_len b = 0 \<or> span_mapped m (b_addr b) (b_len b))"
proof -
  have ok: "\<not> broken q" using assms(2) by (auto simp: pop_def)
  show ?thesis
    by (cases rule: pop_spec [OF assms(1) ok, of m]) (use assms in \<open>auto dest: chain_spec_bounded\<close>)
qed

text \<open>
  C3. Draining the available ring ends: with fuel above the distance between the driver's index and the
  queue's, the iterator returns the chains of that many consecutive ring entries, in order, and the queue
  has caught up with the driver, or it stops at the first bad chain with the queue broken.
\<close>

theorem virtqueue_drain_terminates:
  assumes "queue_inv q" and "\<not> broken q" and "avail_idx m q = Some idx"
    and "unat (idx - last_avail q) < fuel"
  shows "\<exists>q' cs. chains fuel m q = Some (q', cs) \<and> length cs \<le> unat (idx - last_avail q) \<and>
      (q' = q\<lparr>last_avail := idx\<rparr> \<and> length cs = unat (idx - last_avail q) \<or>
       q' = break_queue (q\<lparr>last_avail := last_avail q + of_nat (length cs)\<rparr>)) \<and>
      (\<forall>k < length cs. avail_entry m q (last_avail q + of_nat k) = Some (c_head (cs ! k)) \<and>
         chain_spec m q (c_head (cs ! k)) (cs ! k))"
  using assms by (intro chains_spec)

theorem virtqueue_drain_terminates_witness:
  "\<exists>q' cs. queue_inv demo_queue \<and> \<not> broken demo_queue \<and> avail_idx demo_ring demo_queue = Some 1 \<and>
     unat (1 - last_avail demo_queue) < 2 \<and> chains 2 demo_ring demo_queue = Some (q', cs) \<and> length cs \<le> 1"
  using virtqueue_drain_terminates [of demo_queue demo_ring 1 2] demo_queue_inv demo_avail
  by (auto simp: demo_queue_eq)

text \<open>
  C2. A batch of at most \<open>size\<close> completions of valid heads into a mapped used ring succeeds. Afterwards the
  driver reads each completed head and length in consecutive slots, in order, and the published index has
  advanced by their number; no other slot changes, and no read outside the ring sees a difference.
\<close>

theorem virtqueue_used_ring_batch:
  assumes "mem_inv m" and "queue_inv q" and "\<not> broken q" and "ring_mapped m q"
    and "\<forall>x \<in> set xs. fst x < sq_size q" and "xs \<noteq> []" and "length xs \<le> unat (sq_size q)"
  shows "\<exists>m' q'. add_used_all m q xs = Some (m', q') \<and>
    q' = q\<lparr>used_idx := used_idx q + of_nat (length xs)\<rparr> \<and> used_index m' q = Some (used_idx q') \<and>
    (\<forall>i < length xs. used_elem m' q (used_slot q i) = Some (ucast (fst (xs ! i)), snd (xs ! i))) \<and>
    (\<forall>k. (\<forall>i < length xs. k \<noteq> used_slot q i) \<longrightarrow> used_elem m' q k = used_elem m q k) \<and>
    (\<forall>a n. unat a + n \<le> unat (sq_used q) + 2 \<or> ring_end q \<le> unat a \<longrightarrow>
       read_bytes m' a n = read_bytes m a n)"
proof -
  have pow: "is_power_of_two (sq_size q)" using assms(2,3) by (simp add: queue_inv_def)
  from batch_succeeds [OF assms(1-5)] obtain m' q' where run: "add_used_all m q xs = Some (m', q')"
    by blast
  with batch_keeps [OF assms(1) pow run] batch_entries [OF assms(1) pow run assms(7)]
    batch_index [OF assms(1) run assms(6)] show ?thesis
    by (intro exI [of _ m'] exI [of _ q']) simp
qed

theorem virtqueue_used_ring_batch_witness:
  "\<exists>m' q'. ring_mapped demo_ring demo_queue \<and>
     add_used_all demo_ring demo_queue [(0, 32), (2, 7)] = Some (m', q') \<and>
     used_index m' demo_queue = Some 2 \<and> used_elem m' demo_queue 1 = Some (2, 7)"
proof -
  have ring: "ring_mapped demo_ring demo_queue"
    by (simp add: ring_mapped_def ring_end_def demo_queue_eq demo_read)
  let ?xs = "[(0, 32), (2, 7)] :: (u16 \<times> u32) list"
  have xs: "\<forall>x \<in> set ?xs. fst x < sq_size demo_queue" "?xs \<noteq> []" "length ?xs \<le> unat (sq_size demo_queue)"
    by (simp_all add: demo_queue_eq)
  from virtqueue_used_ring_batch [OF demo_ring_inv demo_queue_inv ring xs] obtain m' q'
    where r: "add_used_all demo_ring demo_queue ?xs = Some (m', q')"
      "q' = demo_queue\<lparr>used_idx := used_idx demo_queue + of_nat (length ?xs)\<rparr>"
      "used_index m' demo_queue = Some (used_idx q')"
    and elems: "\<forall>i < length ?xs. used_elem m' demo_queue (used_slot demo_queue i) =
       Some (ucast (fst (?xs ! i)), snd (?xs ! i))"
    by blast
  from elems [rule_format, of 1] have "used_elem m' demo_queue (used_slot demo_queue 1) = Some (2, 7)"
    by simp
  moreover have "used_slot demo_queue 1 = 1" by (simp add: used_slot_def demo_queue_eq)
  ultimately show ?thesis using r ring by (auto simp: demo_queue_eq)
qed

text \<open>
  C4. A queue made by \<open>new\<close> on any size and addresses never panics: after any history of calls by the
  device and stores by the driver, the queue is broken or has a power of two of entries and aligned rings,
  and the layout of guest memory is intact.
\<close>

theorem virtqueue_never_panics:
  assumes "mem_inv m"
  shows "vq_inv (run vq_step (Some (m, queue_new sz dsc avail used ind ev)) ops)"
  by (rule vq.run_inv) (simp add: vq_inv_def assms queue_new_inv)

theorem virtqueue_never_panics_witness:
  "mem_inv demo_ring \<and>
   vq_inv (run vq_step (Some (demo_ring, queue_new 4 0x40000000 0x40001000 0x40002000 True True))
     [VqPop, VqAddUsed 0 32, VqNotification, DriverWrite 0x40001002 [9], VqPop])"
  using virtqueue_never_panics [OF demo_ring_inv] demo_ring_inv by blast

text \<open>
  A broken queue is inert: whatever is called and whatever the driver writes afterwards, the queue
  keeps its state, no chain is returned, no completion is recorded and no interrupt is asked for.
\<close>

lemma virtqueue_broken_inert:
  assumes "mem_inv m" and "queue_inv q" and "broken q"
  shows "(\<exists>m'. run vq_step (Some (m, q)) ops = Some (m', q)) \<and> pop m q = Some (q, None) \<and>
    add_used m q head len = Some (m, q, False) \<and> notification_needed m q = (q, False)"
proof -
  have "vq_inv (Some (m, q))" using assms by (simp add: vq_inv_def)
  have "\<exists>m'. run vq_step (Some (m, q)) ops = Some (m', q)"
    using \<open>vq_inv (Some (m, q))\<close>
  proof (induction ops arbitrary: m)
    case Nil
    then show ?case by simp
  next
    case (Cons op ops)
    from broken_step [OF Cons.prems assms(3)] obtain m' where "vq_step (Some (m, q)) op = Some (m', q)"
      by blast
    with vq_step_inv [OF Cons.prems, of op] Cons.IH [of m'] show ?case by simp
  qed
  with assms(3) show ?thesis by (simp add: pop_def add_used_def notification_needed_def)
qed

text \<open>
  C24. With event indices, an interrupt is asked for exactly when the index the driver waits for is that of
  the last completion. After a single completion this is the rule of the virtio specification. After a
  batch of several it is not: an index the driver waits for is passed over, and no interrupt is sent.
\<close>

theorem virtqueue_event_index:
  assumes "\<not> broken q" and "event_idx q" and "used_event m q = Some ev"
  shows "(notification_needed m q = (q, True) \<longleftrightarrow> need_event ev (used_idx q) (used_idx q - 1)) \<and>
    (need_event (used_idx q - 2) (used_idx q) (used_idx q - 2) \<and>
     (ev = used_idx q - 2 \<longrightarrow> notification_needed m q = (q, False)))"
proof -
  have "need_event (used_idx q - 2) (used_idx q) (used_idx q - 2)"
    by (auto simp: need_event_def intro: exI [of _ 0])
  moreover have "used_idx q - 2 \<noteq> used_idx q - 1" by simp
  ultimately show ?thesis
    using assms by (auto simp: notification_event need_event_one)
qed

theorem virtqueue_event_index_witness:
  "\<not> broken demo_queue \<and> event_idx demo_queue \<and> used_event demo_ring demo_queue = Some 0 \<and>
   notification_needed demo_ring (demo_queue\<lparr>used_idx := 2\<rparr>) = (demo_queue\<lparr>used_idx := 2\<rparr>, False)"
proof -
  have ev: "used_event demo_ring (demo_queue\<lparr>used_idx := x\<rparr>) = Some 0" for x
    by (simp add: used_event_def demo_queue_eq read_u16_def demo_read demo_bytes_def upt_widths)
  then show ?thesis
    using virtqueue_event_index [of "demo_queue\<lparr>used_idx := 2\<rparr>" demo_ring 0] ev [of 0]
    by (simp add: demo_queue_eq)
qed

end
