(* ===== verification/Esr.thy ===== *)
theory Esr
  imports Prelude
begin

text \<open>
  The decoder of exception syndromes of \<open>ternvale-vmm/src/esr.rs\<close> and the classes the metrics give an exit
  (\<open>vcpu/exit.rs\<close>). The architecture's layout of a syndrome is the specification: \<open>esr_of\<close> composes a
  syndrome from an exception class and the fields of its event, and the decoder is its inverse.
\<close>

section \<open>Events\<close>

definition EC_WFI :: u64 where "EC_WFI = 0x01"

definition EC_HVC64 :: u64 where "EC_HVC64 = 0x16"

definition EC_SMC64 :: u64 where "EC_SMC64 = 0x17"

definition EC_SYSREG :: u64 where "EC_SYSREG = 0x18"

definition EC_DABT_LOWER :: u64 where "EC_DABT_LOWER = 0x24"

definition EC_DABT_SAME :: u64 where "EC_DABT_SAME = 0x25"

lemmas ec_defs = EC_WFI_def EC_HVC64_def EC_SMC64_def EC_SYSREG_def EC_DABT_LOWER_def EC_DABT_SAME_def

text \<open>\<open>Mmio\<close> has the address, the size in bytes, whether it is a write, and the register.\<close>

datatype exit_event =
    Mmio u64 u8 bool u8
  | Hvc u16
  | Smc u16
  | Wfi bool
  | SysReg (sr_op0: u8) (sr_op1: u8) (sr_crn: u8) (sr_crm: u8) (sr_op2: u8) (sr_reg: u8) (sr_write: bool)
  | UnknownEvent u8 u32

definition decode_sysreg :: "u32 \<Rightarrow> exit_event" where
  "decode_sysreg iss =
     SysReg (ucast (drop_bit 20 iss AND 0x3)) (ucast (drop_bit 14 iss AND 0x7)) (ucast (drop_bit 10 iss AND 0xf))
       (ucast (drop_bit 1 iss AND 0xf)) (ucast (drop_bit 17 iss AND 0x7)) (ucast (drop_bit 5 iss AND 0x1f))
       (iss AND 1 = 0)"

definition decode_data_abort :: "u8 \<Rightarrow> u32 \<Rightarrow> u64 \<Rightarrow> exit_event" where
  "decode_data_abort ec iss gpa =
     (let isv = drop_bit 24 iss AND 1 = 1; sas = drop_bit 22 iss AND 0x3;
          reg = ucast (drop_bit 16 iss AND 0x1f); wr = drop_bit 6 iss AND 1 = 1
      in if \<not> isv then UnknownEvent ec iss
         else Mmio gpa (push_bit (unat sas) 1) wr reg)"

definition decode :: "u64 \<Rightarrow> u64 \<Rightarrow> exit_event" where
  "decode esr gpa =
     (let ec = drop_bit 26 esr AND 0x3f; iss = ucast (esr AND 0x1ffffff) :: u32 in
      if ec = EC_WFI then Wfi (iss AND 1 = 1)
      else if ec = EC_HVC64 then Hvc (ucast (iss AND 0xffff))
      else if ec = EC_SMC64 then Smc (ucast (iss AND 0xffff))
      else if ec = EC_SYSREG then decode_sysreg iss
      else if ec = EC_DABT_LOWER \<or> ec = EC_DABT_SAME then decode_data_abort (ucast ec) iss gpa
      else UnknownEvent (ucast ec) iss)"

datatype exit_kind = KMmio | KWfi | KWfe | KHvc | KSmc | KSysReg | KVtimer | KUnknown | KCanceled | KOther

definition kind_from_esr :: "u64 \<Rightarrow> exit_kind" where
  "kind_from_esr esr =
     (let ec = drop_bit 26 esr AND 0x3f; iss = esr AND 0x1ffffff in
      if ec = 0x01 \<and> iss AND 1 = 1 then KWfe
      else if ec = 0x01 then KWfi
      else if ec = 0x16 then KHvc
      else if ec = 0x17 then KSmc
      else if ec = 0x18 then KSysReg
      else if (ec = 0x24 \<or> ec = 0x25) \<and> drop_bit 24 iss AND 1 = 1 then KMmio
      else KUnknown)"

section \<open>The layout of a syndrome\<close>

text \<open>
  The class is in the bits from 26, the syndrome of the instruction in the 25 low bits. \<open>event_iss\<close> lays the
  fields of an event out as the architecture does; \<open>event_class\<close> are the classes that give the event.
\<close>

fun event_iss :: "exit_event \<Rightarrow> nat" where
  "event_iss (Mmio gpa sz wr reg) =
     2 ^ 24 + (if sz = 1 then 0 else if sz = 2 then 1 else if sz = 4 then 2 else 3) * 2 ^ 22 + unat reg * 2 ^ 16 +
     of_bool wr * 2 ^ 6"
| "event_iss (Hvc imm) = unat imm"
| "event_iss (Smc imm) = unat imm"
| "event_iss (Wfi wfe) = of_bool wfe"
| "event_iss (SysReg op0 op1 crn crm op2 rt wr) =
     unat op0 * 2 ^ 20 + unat op2 * 2 ^ 17 + unat op1 * 2 ^ 14 + unat crn * 2 ^ 10 + unat rt * 2 ^ 5 +
     unat crm * 2 + of_bool (\<not> wr)"
| "event_iss (UnknownEvent ec iss) = unat iss"

fun event_class :: "exit_event \<Rightarrow> nat set" where
  "event_class (Mmio gpa sz wr reg) = {0x24, 0x25}"
| "event_class (Hvc imm) = {0x16}"
| "event_class (Smc imm) = {0x17}"
| "event_class (Wfi wfe) = {0x01}"
| "event_class (SysReg op0 op1 crn crm op2 rt wr) = {0x18}"
| "event_class (UnknownEvent ec iss) = {unat ec}"

fun event_ok :: "exit_event \<Rightarrow> bool" where
  "event_ok (Mmio gpa sz wr reg) \<longleftrightarrow> (sz = 1 \<or> sz = 2 \<or> sz = 4 \<or> sz = 8) \<and> reg < 32"
| "event_ok (Hvc imm) \<longleftrightarrow> True"
| "event_ok (Smc imm) \<longleftrightarrow> True"
| "event_ok (Wfi wfe) \<longleftrightarrow> True"
| "event_ok (SysReg op0 op1 crn crm op2 rt wr) \<longleftrightarrow>
     op0 < 4 \<and> op1 < 8 \<and> crn < 16 \<and> crm < 16 \<and> op2 < 8 \<and> rt < 32"
| "event_ok (UnknownEvent ec iss) \<longleftrightarrow>
     ec < 64 \<and> iss < 0x2000000 \<and> ec \<notin> {0x01, 0x16, 0x17, 0x18} \<and>
     (ec = 0x24 \<or> ec = 0x25 \<longrightarrow> \<not> bit iss 24)"

definition esr_of :: "nat \<Rightarrow> exit_event \<Rightarrow> u64" where
  "esr_of ec event = of_nat (ec * 2 ^ 26 + event_iss event)"

text \<open>
  The bits of a syndrome the fields of an event are in. The others, such as the length of the instruction in bit 25 and
  the fault status of an abort, are the hardware's.
\<close>

fun event_bits :: "exit_event \<Rightarrow> nat set" where
  "event_bits (Mmio gpa sz wr reg) = {26..<32} \<union> {22..<25} \<union> {16..<21} \<union> {6}"
| "event_bits (Hvc imm) = {26..<32} \<union> {0..<16}"
| "event_bits (Smc imm) = {26..<32} \<union> {0..<16}"
| "event_bits (Wfi wfe) = {26..<32} \<union> {0}"
| "event_bits (SysReg op0 op1 crn crm op2 rt wr) = {26..<32} \<union> {0..<22}"
| "event_bits (UnknownEvent ec iss) = {26..<32} \<union> {0..<25}"

section \<open>Fields as numbers\<close>

lemma and_mask_numerals:
  "w AND 1 = take_bit 1 w" "w AND 0x3 = take_bit 2 w" "w AND 0x7 = take_bit 3 w" "w AND 0xf = take_bit 4 w"
  "w AND 0x1f = take_bit 5 w" "w AND 0x3f = take_bit 6 w" "w AND 0xffff = take_bit 16 w"
  "w AND 0x1ffffff = take_bit 25 w"
  for w :: "'a::len word"
  by (simp_all add: take_bit_eq_mask mask_eq_exp_minus_1)

lemma unat_field: "unat (take_bit n (drop_bit p w)) = unat w div 2 ^ p mod 2 ^ n"
  unfolding unsigned_take_bit_eq unsigned_drop_bit_eq
  by (simp add: take_bit_eq_mod drop_bit_eq_div take_bit_nat_eq_self [of _ "LENGTH('a)"])

lemma unat_low_field: "unat (take_bit n w) = unat w mod 2 ^ n"
  using unat_field [of n 0 w] by simp

lemma field_at:
  assumes "N = hi * 2 ^ (p + n) + v * 2 ^ p + lo" and "lo < 2 ^ p" and "v < 2 ^ n"
  shows "N div 2 ^ p mod 2 ^ n = (v :: nat)"
proof -
  have "N = (hi * 2 ^ n + v) * 2 ^ p + lo" using assms(1) by (simp add: power_add algebra_simps)
  then have "N div 2 ^ p = hi * 2 ^ n + v" using assms(2) by simp
  then show ?thesis using assms(3) by simp
qed

lemma byte_field:
  assumes "n < 2 ^ 32" and "m \<le> 8"
  shows "unat (ucast (take_bit m (drop_bit p (of_nat n :: u32))) :: u8) = n div 2 ^ p mod 2 ^ m"
proof -
  have "n div 2 ^ p mod 2 ^ m < 2 ^ m" by simp
  also have "(2 :: nat) ^ m \<le> 2 ^ 8" using assms(2) by (intro power_increasing) auto
  finally have "n div 2 ^ p mod 2 ^ m < 256" by simp
  with assms(1) show ?thesis by (simp add: unsigned_ucast_eq unat_field unat_of_nat_small take_bit_nat_eq_self)
qed

lemma byte_field_eq:
  assumes "n < 2 ^ 32" and "m \<le> 8" and "n = hi * 2 ^ (p + m) + unat v * 2 ^ p + lo" and "lo < 2 ^ p" and "unat v < 2 ^ m"
  shows "ucast (take_bit m (drop_bit p (of_nat n :: u32))) = (v :: u8)"
  using byte_field [OF assms(1,2), of p] field_at [OF assms(3-5)] by (simp add: word_unat_eq_iff)

lemma flag_field:
  assumes "n < 2 ^ 32" and "n = hi * 2 ^ (p + 1) + of_bool b * 2 ^ p + lo" and "lo < 2 ^ p"
  shows "take_bit 1 (drop_bit p (of_nat n :: u32)) = of_bool b"
proof -
  have "unat (take_bit 1 (drop_bit p (of_nat n :: u32))) = n div 2 ^ p mod 2 ^ 1"
    unfolding unat_field using assms(1) by (subst unat_of_nat_small) simp_all
  also have "\<dots> = of_bool b" by (rule field_at [OF assms(2,3)]) simp
  finally show ?thesis by (cases b) (simp_all only: word_unat_eq_iff of_bool_eq unat_0 unat_1)
qed

text \<open>The two halves of a composed syndrome.\<close>

lemma event_iss_less: "event_ok e \<Longrightarrow> event_iss e < 2 ^ 25"
  by (cases e) (auto simp: word_less_nat_alt intro: less_trans [OF unsigned_less])

lemma event_class_less: "event_ok e \<Longrightarrow> ec \<in> event_class e \<Longrightarrow> ec < 64"
  by (cases e) (auto simp: word_less_nat_alt)

lemma esr_of_fields:
  assumes "ec < 64" and "event_iss e < 2 ^ 25"
  shows "drop_bit 26 (esr_of ec e) AND 0x3f = of_nat ec"
    and "ucast (esr_of ec e AND 0x1ffffff) = (of_nat (event_iss e) :: u32)"
proof -
  have x: "unat (esr_of ec e) = ec * 2 ^ 26 + event_iss e"
    unfolding esr_of_def by (rule unat_of_nat_small) (use assms in simp)
  have "unat (take_bit 6 (drop_bit 26 (esr_of ec e))) = ec"
    unfolding unat_field x by (rule field_at [of _ 0]) (use assms in auto)
  then show "drop_bit 26 (esr_of ec e) AND 0x3f = of_nat ec"
    using assms(1) by (simp add: and_mask_numerals word_unat_eq_iff unat_of_nat_small)
  have "unat (take_bit 25 (esr_of ec e)) = event_iss e"
    unfolding unat_low_field x using assms(2) by (simp add: mod_add_eq [symmetric])
  then show "ucast (esr_of ec e AND 0x1ffffff) = (of_nat (event_iss e) :: u32)"
    using assms(2) by (simp add: and_mask_numerals word_unat_eq_iff unat_of_nat_small unsigned_ucast_eq take_bit_nat_eq_self)
qed

section \<open>The decoder inverts the layout\<close>

lemma decode_sysreg_layout:
  assumes "event_ok (SysReg op0 op1 crn crm op2 rt wr)"
  shows "decode_sysreg (of_nat (event_iss (SysReg op0 op1 crn crm op2 rt wr))) = SysReg op0 op1 crn crm op2 rt wr"
proof -
  define n where "n = event_iss (SysReg op0 op1 crn crm op2 rt wr)"
  have b: "unat op0 < 4" "unat op1 < 8" "unat crn < 16" "unat crm < 16" "unat op2 < 8" "unat rt < 32"
    using assms by (simp_all add: word_less_nat_alt)
  have d: "of_bool (\<not> wr) < (2 :: nat)" by simp
  have n: "n < 2 ^ 32" using event_iss_less [OF assms] by (simp add: n_def)
  have "ucast (take_bit 2 (drop_bit 20 (of_nat n :: u32))) = op0"
    by (rule byte_field_eq [OF n, where hi = 0 and lo = "unat op2 * 2 ^ 17 + unat op1 * 2 ^ 14 + unat crn * 2 ^ 10 +
      unat rt * 2 ^ 5 + unat crm * 2 + of_bool (\<not> wr)"]) (use b d in \<open>simp_all add: n_def\<close>)
  moreover have "ucast (take_bit 3 (drop_bit 17 (of_nat n :: u32))) = op2"
    by (rule byte_field_eq [OF n, where hi = "unat op0" and lo = "unat op1 * 2 ^ 14 + unat crn * 2 ^ 10 +
      unat rt * 2 ^ 5 + unat crm * 2 + of_bool (\<not> wr)"]) (use b d in \<open>simp_all add: n_def\<close>)
  moreover have "ucast (take_bit 3 (drop_bit 14 (of_nat n :: u32))) = op1"
    by (rule byte_field_eq [OF n, where hi = "unat op0 * 2 ^ 3 + unat op2" and lo = "unat crn * 2 ^ 10 +
      unat rt * 2 ^ 5 + unat crm * 2 + of_bool (\<not> wr)"]) (use b d in \<open>simp_all add: n_def\<close>)
  moreover have "ucast (take_bit 4 (drop_bit 10 (of_nat n :: u32))) = crn"
    by (rule byte_field_eq [OF n, where hi = "unat op0 * 2 ^ 6 + unat op2 * 2 ^ 3 + unat op1" and lo =
      "unat rt * 2 ^ 5 + unat crm * 2 + of_bool (\<not> wr)"]) (use b d in \<open>simp_all add: n_def\<close>)
  moreover have "ucast (take_bit 5 (drop_bit 5 (of_nat n :: u32))) = rt"
    by (rule byte_field_eq [OF n, where hi = "unat op0 * 2 ^ 10 + unat op2 * 2 ^ 7 + unat op1 * 2 ^ 4 + unat crn"
      and lo = "unat crm * 2 + of_bool (\<not> wr)"]) (use b d in \<open>simp_all add: n_def\<close>)
  moreover have "ucast (take_bit 4 (drop_bit 1 (of_nat n :: u32))) = crm"
    by (rule byte_field_eq [OF n, where hi = "unat op0 * 2 ^ 15 + unat op2 * 2 ^ 12 + unat op1 * 2 ^ 9 +
      unat crn * 2 ^ 5 + unat rt" and lo = "of_bool (\<not> wr)"]) (use b d in \<open>simp_all add: n_def\<close>)
  moreover have "take_bit 1 (drop_bit 0 (of_nat n :: u32)) = of_bool (\<not> wr)"
    by (rule flag_field [OF n, where hi = "unat op0 * 2 ^ 19 + unat op2 * 2 ^ 16 + unat op1 * 2 ^ 13 +
      unat crn * 2 ^ 9 + unat rt * 2 ^ 4 + unat crm" and lo = 0]) (simp_all add: n_def)
  ultimately show ?thesis
    unfolding n_def [symmetric] by (simp add: decode_sysreg_def and_mask_numerals del: take_bit_Suc_0 take_bit_of_Suc_0)
qed

lemma access_size_shift:
  assumes "sz = 1 \<or> sz = 2 \<or> sz = 4 \<or> sz = (8 :: u8)"
  shows "2 ^ (if sz = 1 then 0 else if sz = 2 then 1 else if sz = 4 then 2 else 3) = sz"
  using assms by auto

lemma decode_data_abort_layout:
  assumes "event_ok (Mmio gpa sz wr reg)"
  shows "decode_data_abort ec (of_nat (event_iss (Mmio gpa sz wr reg))) gpa = Mmio gpa sz wr reg"
proof -
  define n where "n = event_iss (Mmio gpa sz wr reg)"
  define k :: nat where "k = (if sz = 1 then 0 else if sz = 2 then 1 else if sz = 4 then 2 else 3)"
  have sz: "2 ^ k = sz" using access_size_shift assms by (simp add: k_def)
  have b: "k < 4" "unat reg < 32" "of_bool wr < (2 :: nat)" using assms by (simp_all add: k_def word_less_nat_alt)
  have n: "n < 2 ^ 32" using event_iss_less [OF assms] by (simp add: n_def)
  have u: "unat (of_nat n :: u32) = n" using n by (intro unat_of_nat_small) simp
  have eq: "n = 2 ^ 24 + k * 2 ^ 22 + unat reg * 2 ^ 16 + of_bool wr * 2 ^ 6" by (simp add: n_def k_def)
  have "take_bit 1 (drop_bit 24 (of_nat n :: u32)) = of_bool True"
    by (rule flag_field [OF n, where hi = 0 and lo = "k * 2 ^ 22 + unat reg * 2 ^ 16 + of_bool wr * 2 ^ 6"])
      (use b in \<open>simp_all add: eq\<close>)
  moreover have "unat (take_bit 2 (drop_bit 22 (of_nat n :: u32))) = k"
    unfolding unat_field u
    by (rule field_at [where hi = 1 and lo = "unat reg * 2 ^ 16 + of_bool wr * 2 ^ 6"]) (use b in \<open>simp_all add: eq\<close>)
  moreover have "ucast (take_bit 5 (drop_bit 16 (of_nat n :: u32))) = reg"
    by (rule byte_field_eq [OF n, where hi = "2 ^ 3 + k * 2" and lo = "of_bool wr * 2 ^ 6"])
      (use b in \<open>simp_all add: eq\<close>)
  moreover have "take_bit 1 (drop_bit 6 (of_nat n :: u32)) = of_bool wr"
    by (rule flag_field [OF n, where hi = "2 ^ 17 + k * 2 ^ 15 + unat reg * 2 ^ 9" and lo = 0]) (simp_all add: eq)
  ultimately show ?thesis
    unfolding n_def [symmetric] by (simp add: decode_data_abort_def and_mask_numerals Let_def sz)
qed

text \<open>What the decoder returns is always a well-formed event of the syndrome's class and the exit's address.\<close>

lemma flag_bit: "drop_bit p w AND 1 = 1 \<longleftrightarrow> bit w p" for w :: "'a::len word"
  by (simp add: bit_iff_odd_drop_bit odd_iff_mod_2_eq_one and_one_eq)

lemma flag_bit_0: "w AND 1 = 1 \<longleftrightarrow> bit w 0" for w :: "'a::len word"
  using flag_bit [of 0 w] by simp

lemma byte_field_less:
  assumes "m < 8"
  shows "ucast (take_bit m (drop_bit p (w :: u32))) < (2 ^ m :: u8)"
proof -
  have "unat (ucast (take_bit m (drop_bit p w)) :: u8) \<le> unat w div 2 ^ p mod 2 ^ m"
    by (simp add: unsigned_ucast_eq unat_field take_bit_nat_less_eq_self)
  also have "\<dots> < 2 ^ m" by simp
  also have "\<dots> = unat (2 ^ m :: u8)" using assms unat_of_nat_small [of "2 ^ m", where 'a = 8]
      power_strict_increasing [of m 8 "2 :: nat"] by simp
  finally show ?thesis by (simp add: word_less_nat_alt)
qed

lemma decode_sysreg_ok: "event_ok (decode_sysreg iss)"
  unfolding decode_sysreg_def and_mask_numerals
  using byte_field_less [of 2 20 iss] byte_field_less [of 3 14 iss] byte_field_less [of 4 10 iss]
    byte_field_less [of 4 1 iss] byte_field_less [of 3 17 iss] byte_field_less [of 5 5 iss]
  by simp

lemma two_bits: "take_bit 2 w \<in> {0, 1, 2, 3}" for w :: u32
proof -
  have "unat (take_bit 2 w) < 4" by (simp add: unat_low_field)
  then have "unat (take_bit 2 w) \<in> {0, 1, 2, 3}" by auto
  then show ?thesis by (auto simp: word_unat_eq_iff)
qed

lemma decode_data_abort_ok:
  assumes "ec = 0x24 \<or> ec = 0x25" and "iss < 0x2000000"
  shows "event_ok (decode_data_abort ec iss gpa)"
proof -
  have "push_bit (unat (take_bit 2 (drop_bit 22 iss))) (1 :: u8) \<in> {1, 2, 4, 8}"
    using two_bits [of "drop_bit 22 iss"] by auto
  moreover have "ucast (take_bit 5 (drop_bit 16 iss)) < (32 :: u8)" using byte_field_less [of 5 16 iss] by simp
  ultimately show ?thesis
    using assms by (auto simp: decode_data_abort_def and_mask_numerals bit_iff_odd_drop_bit Let_def)
qed

lemma iss_less: "ucast (esr AND 0x1ffffff) < (0x2000000 :: u32)" for esr :: u64
proof -
  have "unat (take_bit 25 esr) < 2 ^ 25" by (simp add: unat_low_field)
  then show ?thesis
    by (simp add: and_mask_numerals word_less_nat_alt unsigned_ucast_eq take_bit_nat_eq_self)
qed

lemma class_less: "drop_bit 26 esr AND 0x3f < (64 :: u64)" for esr :: u64
  by (simp add: and_mask_numerals word_less_nat_alt unat_field)

lemma class_byte: "ec < 64 \<Longrightarrow> unat (ucast ec :: u8) = unat ec" for ec :: u64
  by (simp add: word_less_nat_alt unsigned_ucast_eq take_bit_nat_eq_self)

lemma ucast_class_eq: "ec < 64 \<Longrightarrow> (ucast ec = (x :: u8)) = (unat ec = unat x)" for ec :: u64
  by (simp add: word_unat_eq_iff class_byte)

lemma decode_ok: "event_ok (decode esr gpa)"
proof -
  define ec where "ec = drop_bit 26 esr AND 0x3f"
  define iss where "iss = (ucast (esr AND 0x1ffffff) :: u32)"
  have ec: "ec < 64" unfolding ec_def by (rule class_less)
  have iss: "iss < 0x2000000" unfolding iss_def by (rule iss_less)
  have un: "event_ok (UnknownEvent (ucast ec) iss)"
    if "ec \<notin> {EC_WFI, EC_HVC64, EC_SMC64, EC_SYSREG, EC_DABT_LOWER, EC_DABT_SAME}"
    using that ec iss by (simp add: ucast_class_eq word_less_nat_alt class_byte word_unat_eq_iff ec_defs)
  show ?thesis
    unfolding decode_def Let_def ec_def [symmetric] iss_def [symmetric]
    using un decode_sysreg_ok [of iss] decode_data_abort_ok [OF _ iss, of "ucast ec" gpa]
    by (auto simp: ec_defs)
qed

lemma decode_class: "unat (drop_bit 26 esr AND 0x3f) \<in> event_class (decode esr gpa)"
  using class_byte [OF class_less, of esr]
  by (auto simp: decode_def Let_def ec_defs decode_sysreg_def decode_data_abort_def)

lemma decode_gpa: "decode esr gpa = Mmio a sz wr reg \<Longrightarrow> a = gpa"
  by (auto simp: decode_def Let_def decode_sysreg_def decode_data_abort_def split: if_splits)

lemma bit_iss: "n < 25 \<Longrightarrow> bit (ucast (esr AND 0x1ffffff) :: u32) n = bit esr n" for esr :: u64
  by (simp add: and_mask_numerals bit_simps)

lemma bit_iss_low: "n < 25 \<Longrightarrow> bit (esr AND 0x1ffffff) n = bit esr n" for esr :: u64
  by (simp add: and_mask_numerals bit_simps)

section \<open>Bits the decoder does not look at\<close>

lemma decode_esr_of:
  assumes "event_ok e" and "ec \<in> event_class e" and "\<And>a sz wr reg. e = Mmio a sz wr reg \<Longrightarrow> a = gpa"
  shows "decode (esr_of ec e) gpa = e"
proof -
  note small = event_class_less [OF assms(1,2)] and iss = event_iss_less [OF assms(1)]
  define i where "i = (of_nat (event_iss e) :: u32)"
  have eq: "(of_nat ec = (x :: u64)) = (ec = unat x)" for x
    using small by (simp add: word_unat_eq_iff unat_of_nat_small)
  have byte: "ucast (of_nat ec :: u64) = (of_nat ec :: u8)"
    using small by (simp add: word_unat_eq_iff unsigned_ucast_eq unat_of_nat_small take_bit_nat_eq_self)
  have dec: "decode (esr_of ec e) gpa =
     (if ec = 0x01 then Wfi (i AND 1 = 1) else if ec = 0x16 then Hvc (ucast (i AND 0xffff))
      else if ec = 0x17 then Smc (ucast (i AND 0xffff)) else if ec = 0x18 then decode_sysreg i
      else if ec = 0x24 \<or> ec = 0x25 then decode_data_abort (of_nat ec) i gpa
      else UnknownEvent (of_nat ec) i)"
    unfolding decode_def Let_def esr_of_fields [OF small iss] i_def [symmetric] by (simp add: ec_defs eq byte)
  have imm: "ucast ((of_nat (unat imm) :: u32) AND 0xffff) = imm" for imm :: u16
  proof -
    have "unat imm < 65536" by (rule order.strict_trans2 [OF unsigned_less]) simp
    then show ?thesis
      by (simp add: word_unat_eq_iff unsigned_ucast_eq unat_low_field unat_of_nat_small take_bit_nat_eq_self
          and_mask_numerals del: of_nat_unat)
  qed
  show ?thesis
  proof (cases e)
    case (Mmio a sz wr reg)
    with assms have "decode_data_abort (of_nat ec) i gpa = e" "ec = 0x24 \<or> ec = 0x25"
      using decode_data_abort_layout [of a sz wr reg] by (simp_all only: i_def event_class.simps insert_iff empty_iff simp_thms)
    then show ?thesis unfolding dec by auto
  next
    case (SysReg op0 op1 crn crm op2 rt wr)
    with assms have "decode_sysreg i = e" "ec = 0x18"
      using decode_sysreg_layout [of op0 op1 crn crm op2 rt wr] by (simp_all add: i_def del: event_iss.simps event_ok.simps)
    then show ?thesis unfolding dec by simp
  next
    case (UnknownEvent c w)
    with assms have ec: "ec = unat c" and i: "i = w" by (auto simp: i_def)
    then have c: "of_nat ec = c" by simp
    have no: "ec \<notin> {1, 22, 23, 24}" using assms(1) UnknownEvent ec by (auto simp: word_unat_eq_iff)
    have "\<not> bit w 24" if "ec = 0x24 \<or> ec = 0x25"
      using that assms(1) UnknownEvent ec by (auto simp: word_unat_eq_iff)
    then have "decode_data_abort c w gpa = UnknownEvent c w" if "ec = 0x24 \<or> ec = 0x25"
      using that by (simp add: decode_data_abort_def flag_bit)
    then show ?thesis unfolding dec unfolding c i UnknownEvent using no by auto
  next
    case (Hvc imm16)
    then show ?thesis unfolding dec using assms(2) imm [of imm16] by (simp add: i_def)
  next
    case (Smc imm16)
    then show ?thesis unfolding dec using assms(2) imm [of imm16] by (simp add: i_def)
  next
    case (Wfi wfe)
    then show ?thesis unfolding dec using assms(2) by (simp add: i_def)
  qed
qed

lemma class_field_cong:
  assumes "\<And>n. 26 \<le> n \<Longrightarrow> n < 32 \<Longrightarrow> bit x n = bit y n"
  shows "drop_bit 26 x AND 0x3f = drop_bit 26 y AND (0x3f :: u64)"
  unfolding and_mask_numerals by (rule bit_word_eqI) (use assms in \<open>auto simp: bit_simps\<close>)

lemma iss_field_cong:
  fixes x y :: u64
  assumes "\<And>n. p \<le> n \<Longrightarrow> n < p + k \<Longrightarrow> bit x n = bit y n"
  shows "take_bit k (drop_bit p (ucast (x AND 0x1ffffff) :: u32)) = take_bit k (drop_bit p (ucast (y AND 0x1ffffff)))"
  unfolding and_mask_numerals by (rule bit_word_eqI) (use assms in \<open>auto simp: bit_simps\<close>)

lemma iss_low_cong:
  fixes x y :: u64
  assumes "\<And>n. n < k \<Longrightarrow> bit x n = bit y n"
  shows "take_bit k (ucast (x AND 0x1ffffff) :: u32) = take_bit k (ucast (y AND 0x1ffffff))"
  using iss_field_cong [of 0 k x y] assms by simp

lemma iss_cong:
  fixes x y :: u64
  assumes "\<And>n. n < 25 \<Longrightarrow> bit x n = bit y n"
  shows "(ucast (x AND 0x1ffffff) :: u32) = ucast (y AND 0x1ffffff)"
  unfolding and_mask_numerals by (rule bit_word_eqI) (use assms in \<open>auto simp: bit_simps\<close>)

lemma decode_cong:
  assumes "event_ok e" "ec \<in> event_class e" "\<forall>n \<in> event_bits e. bit esr n = bit (esr_of ec e) n"
  shows "decode esr gpa = decode (esr_of ec e) gpa"
proof -
  let ?y = "esr_of ec e"
  have "{26..<32} \<subseteq> event_bits e" by (cases e) auto
  then have "drop_bit 26 esr AND 0x3f = drop_bit 26 ?y AND 0x3f" using assms(3) by (intro class_field_cong) auto
  moreover have "drop_bit 26 ?y AND 0x3f = of_nat ec"
    by (rule esr_of_fields(1) [OF event_class_less [OF assms(1,2)] event_iss_less [OF assms(1)]])
  ultimately have c: "drop_bit 26 esr AND 0x3f = of_nat ec" "drop_bit 26 ?y AND 0x3f = of_nat ec" by simp_all
  let ?i = "ucast (esr AND 0x1ffffff) :: u32" and ?j = "ucast (?y AND 0x1ffffff) :: u32"
  have f: "take_bit k (drop_bit p ?i) = take_bit k (drop_bit p ?j)" if "{p..<p + k} \<subseteq> event_bits e" for p k
    using assms(3) that by (intro iss_field_cong) auto
  show ?thesis
  proof (cases e)
    case (Mmio a sz wr reg)
    have "{24..<24 + 1} \<subseteq> event_bits e" "{22..<22 + 2} \<subseteq> event_bits e" "{16..<16 + 5} \<subseteq> event_bits e" "{6..<6 + 1} \<subseteq> event_bits e"
      by (auto simp: Mmio)
    note f [OF this(1)] f [OF this(2)] f [OF this(3)] f [OF this(4)]
    moreover have "drop_bit 24 ?j AND 1 = 1"
      using esr_of_fields(2) [OF event_class_less [OF assms(1,2)] event_iss_less [OF assms(1)]]
        flag_field [of "event_iss e" 0 24 True "event_iss e - 2 ^ 24"] event_iss_less [OF assms(1)] Mmio assms(1)
      by (simp add: and_mask_numerals word_less_nat_alt)
    ultimately have "decode_data_abort w ?i gpa = decode_data_abort w ?j gpa" for w
      unfolding decode_data_abort_def Let_def and_mask_numerals by (simp only: simp_thms if_False)
    moreover have "ec = 0x24 \<or> ec = 0x25" using assms(2) Mmio by auto
    ultimately show ?thesis unfolding decode_def Let_def c by (auto simp: ec_defs)
  next
    case (Hvc imm)
    then have "take_bit 16 ?i = take_bit 16 ?j" using assms(3) by (auto intro!: iss_low_cong)
    then have "?i AND 0xffff = ?j AND 0xffff" by (simp only: and_mask_numerals(7))
    moreover have "ec = 0x16" using assms(2) Hvc by simp
    ultimately show ?thesis unfolding decode_def Let_def c by (simp add: ec_defs)
  next
    case (Smc imm)
    then have "take_bit 16 ?i = take_bit 16 ?j" using assms(3) by (auto intro!: iss_low_cong)
    then have "?i AND 0xffff = ?j AND 0xffff" by (simp only: and_mask_numerals(7))
    moreover have "ec = 0x17" using assms(2) Smc by simp
    ultimately show ?thesis unfolding decode_def Let_def c by (simp add: ec_defs)
  next
    case (Wfi wfe)
    then have "take_bit 1 ?i = take_bit 1 ?j" using assms(3) by (intro iss_low_cong) auto
    then have "?i AND 1 = ?j AND 1" by (simp only: and_mask_numerals(1))
    moreover have "ec = 0x01" using assms(2) Wfi by simp
    ultimately show ?thesis unfolding decode_def Let_def c by (simp add: ec_defs)
  next
    case (SysReg op0 op1 crn crm op2 rt wr)
    have "{20..<20 + 2} \<subseteq> event_bits e" "{14..<14 + 3} \<subseteq> event_bits e" "{10..<10 + 4} \<subseteq> event_bits e" "{1..<1 + 4} \<subseteq> event_bits e"
      "{17..<17 + 3} \<subseteq> event_bits e" "{5..<5 + 5} \<subseteq> event_bits e" "{0..<0 + 1} \<subseteq> event_bits e"
      by (auto simp: SysReg)
    note fields = f [OF this(1)] f [OF this(2)] f [OF this(3)] f [OF this(4)] f [OF this(5)] f [OF this(6)] f [OF this(7)]
    have "decode_sysreg ?i = decode_sysreg ?j"
      using fields unfolding decode_sysreg_def and_mask_numerals by (simp only: drop_bit_0 id_apply)
    moreover have "ec = 0x18" using assms(2) SysReg by simp
    ultimately show ?thesis unfolding decode_def Let_def c by (simp add: ec_defs)
  next
    case (UnknownEvent k w)
    then have "?i = ?j" using assms(3) by (intro iss_cong) auto
    then show ?thesis unfolding decode_def Let_def c by (simp only:)
  qed
qed

section \<open>Properties\<close>

text \<open>
  C38. The decoder inverts the architecture's layout: the syndrome composed from a class and the fields of
  any well-formed event of that class decodes to the event, with the address the exit record gives, whatever the
  hardware puts in the bits that carry no field of the event.
\<close>

theorem esr_decode_roundtrip:
  assumes "event_ok e" and "ec \<in> event_class e" and "\<And>a sz wr reg. e = Mmio a sz wr reg \<Longrightarrow> a = gpa"
    and "\<forall>n \<in> event_bits e. bit esr n = bit (esr_of ec e) n"
  shows "decode esr gpa = e"
  using decode_cong [OF assms(1,2,4), of gpa] decode_esr_of [OF assms(1-3)] by simp

theorem esr_decode_roundtrip_witness:
  "decode 0x97830007 0x09000018 = Mmio 0x09000018 4 False 3 \<and> esr_of 0x25 (Mmio 0x09000018 4 False 3) = 0x95830000"
proof
  have "bit (0x97830007 :: u64) n = bit (0x95830000 :: u64) n" if "n \<noteq> 0" "n \<noteq> 1" "n \<noteq> 2" "n \<noteq> 25" for n
  proof -
    have "0x97830007 = (0x95830000 :: u64) OR (0x2000000 OR 7)" by simp
    moreover have "bit (0x2000000 :: u64) n \<longleftrightarrow> n = 25" using bit_exp_iff [of 25 n, where 'a = u64] by auto
    moreover have "bit (7 :: u64) n \<longleftrightarrow> n < 3" using bit_mask_iff [of 3 n, where 'a = u64] by (auto simp: mask_eq_exp_minus_1 possible_bit_word)
    ultimately show ?thesis using that by (simp only: bit_or_iff) auto
  qed
  note same = this
  have esr: "esr_of 0x25 (Mmio 0x09000018 4 False 3) = 0x95830000" by (simp add: esr_of_def)
  have "\<forall>n \<in> event_bits (Mmio 0x09000018 4 False 3).
      bit (0x97830007 :: u64) n = bit (esr_of 0x25 (Mmio 0x09000018 4 False 3)) n"
    unfolding esr by (intro ballI same) auto
  then show "decode 0x97830007 0x09000018 = Mmio 0x09000018 4 False 3"
    by (rule esr_decode_roundtrip [rotated -1]) auto
qed (simp add: esr_of_def)

text \<open>
  Every syndrome decodes to a well-formed event of its own class: the size of an access is 1, 2, 4 or 8
  and its register at most 31. The class the metrics count agrees with the event, without decoding twice.
\<close>

lemma esr_decode_well_formed:
  "event_ok (decode esr gpa) \<and> unat (drop_bit 26 esr AND 0x3f) \<in> event_class (decode esr gpa) \<and>
   kind_from_esr esr =
     (case decode esr gpa of Mmio _ _ _ _ \<Rightarrow> KMmio | Hvc _ \<Rightarrow> KHvc | Smc _ \<Rightarrow> KSmc | Wfi wfe \<Rightarrow> if wfe then KWfe else KWfi
      | SysReg _ _ _ _ _ _ _ \<Rightarrow> KSysReg | UnknownEvent _ _ \<Rightarrow> KUnknown)"
proof -
  have a: "(ucast (esr AND 0x1ffffff) AND (1 :: u32) = 1) = ((esr AND 0x1ffffff) AND 1 = 1)"
    unfolding flag_bit_0 using bit_iss [of 0 esr] bit_iss_low [of 0 esr] by simp
  have b: "(drop_bit 24 (ucast (esr AND 0x1ffffff)) AND (1 :: u32) = 1) = (drop_bit 24 (esr AND 0x1ffffff) AND 1 = 1)"
    unfolding flag_bit using bit_iss [of 24 esr] bit_iss_low [of 24 esr] by simp
  show ?thesis
    using decode_ok decode_class
    by (simp add: kind_from_esr_def decode_def decode_sysreg_def decode_data_abort_def Let_def ec_defs a b)
qed

end
