(* ===== verification/Vcpu.thy ===== *)
theory Vcpu
  imports Esr
begin

text \<open>
  One guest vCPU: PSCI calls (\<open>ternvale-vmm/src/psci.rs\<close>), the exits it completes itself
  (\<open>vcpu/exit.rs\<close>, \<open>vcpu/wfi.rs\<close>), the run loop (\<open>vcpu.rs\<close>) and the handle other threads stop it through
  (\<open>vcpu/stop.rs\<close>).

  The hypervisor is a parameter: a state and the calls the code makes on it. \<open>hv_registers\<close> states what the
  code relies on, that a register write is seen by reads of that register and by no other. Counters and
  traces are not modelled.
\<close>

section \<open>PSCI\<close>

definition TRAP_PC_ADVANCE :: u64 where "TRAP_PC_ADVANCE = 4"

definition PSCI_VERSION :: u64 where "PSCI_VERSION = 0x84000000"

definition PSCI_CPU_OFF :: u64 where "PSCI_CPU_OFF = 0x84000002"

definition PSCI_MIGRATE_INFO_TYPE :: u64 where "PSCI_MIGRATE_INFO_TYPE = 0x84000006"

definition PSCI_SYSTEM_OFF :: u64 where "PSCI_SYSTEM_OFF = 0x84000008"

definition PSCI_SYSTEM_RESET :: u64 where "PSCI_SYSTEM_RESET = 0x84000009"

definition PSCI_FEATURES :: u64 where "PSCI_FEATURES = 0x8400000a"

definition PSCI_CPU_ON :: u64 where "PSCI_CPU_ON = 0xc4000003"

definition PSCI_AFFINITY_INFO :: u64 where "PSCI_AFFINITY_INFO = 0xc4000004"

definition SMCCC_FAST_CALL :: u64 where "SMCCC_FAST_CALL = 0x80000000"

lemmas psci_defs = PSCI_VERSION_def PSCI_CPU_OFF_def PSCI_MIGRATE_INFO_TYPE_def PSCI_SYSTEM_OFF_def
  PSCI_SYSTEM_RESET_def PSCI_FEATURES_def PSCI_CPU_ON_def PSCI_AFFINITY_INFO_def SMCCC_FAST_CALL_def

text \<open>Return codes are \<open>i32\<close>.\<close>

definition SUCCESS :: "32 word" where "SUCCESS = 0"

definition NOT_SUPPORTED :: "32 word" where "NOT_SUPPORTED = - 1"

definition INVALID_PARAMS :: "32 word" where "INVALID_PARAMS = - 2"

definition ALREADY_ON :: "32 word" where "ALREADY_ON = - 4"

definition ON_PENDING :: "32 word" where "ON_PENDING = - 5"

definition INVALID_ADDRESS :: "32 word" where "INVALID_ADDRESS = - 9"

definition AFFINITY_ON :: "32 word" where "AFFINITY_ON = 0"

definition AFFINITY_OFF :: "32 word" where "AFFINITY_OFF = 1"

definition AFFINITY_ON_PENDING :: "32 word" where "AFFINITY_ON_PENDING = 2"

definition VERSION_1_1 :: "32 word" where "VERSION_1_1 = 0x00010001"

definition TOS_NOT_PRESENT_MP :: "32 word" where "TOS_NOT_PRESENT_MP = 2"

lemmas code_defs = SUCCESS_def NOT_SUPPORTED_def INVALID_PARAMS_def ALREADY_ON_def ON_PENDING_def INVALID_ADDRESS_def
  AFFINITY_ON_def AFFINITY_OFF_def AFFINITY_ON_PENDING_def VERSION_1_1_def TOS_NOT_PRESENT_MP_def

text \<open>\<open>CpuOn\<close> has the target, the entry point and the context; \<open>AffinityInfo\<close> the target and the level.\<close>

datatype power_request =
    CpuOn u64 u64 u64
  | AffinityInfo u64 u64

datatype psci_action = Return u64 | Power power_request | ActCpuOff | ActSystemOff | ActSystemReset

definition sign :: "32 word \<Rightarrow> u64" where
  "sign c = scast c"

definition features :: "u64 \<Rightarrow> 32 word" where
  "features fid =
     (if fid \<in> {PSCI_VERSION, PSCI_CPU_OFF, PSCI_CPU_ON, PSCI_AFFINITY_INFO, PSCI_SYSTEM_OFF, PSCI_SYSTEM_RESET,
                PSCI_MIGRATE_INFO_TYPE, PSCI_FEATURES}
      then SUCCESS else NOT_SUPPORTED)"

definition is_fast_call :: "u64 \<Rightarrow> bool" where
  "is_fast_call fid \<longleftrightarrow> drop_bit 32 fid = 0 \<and> fid AND SMCCC_FAST_CALL \<noteq> 0"

definition psci_call :: "u64 \<Rightarrow> u64 \<Rightarrow> u64 \<Rightarrow> u64 \<Rightarrow> psci_action option" where
  "psci_call fid x1 x2 x3 =
     (if fid = PSCI_VERSION then Some (Return (sign VERSION_1_1))
      else if fid = PSCI_FEATURES then Some (Return (sign (features x1)))
      else if fid = PSCI_CPU_ON then Some (Power (CpuOn x1 x2 x3))
      else if fid = PSCI_AFFINITY_INFO then Some (Power (AffinityInfo x1 x2))
      else if fid = PSCI_CPU_OFF then Some ActCpuOff
      else if fid = PSCI_SYSTEM_OFF then Some ActSystemOff
      else if fid = PSCI_SYSTEM_RESET then Some ActSystemReset
      else if fid = PSCI_MIGRATE_INFO_TYPE then Some (Return (sign TOS_NOT_PRESENT_MP))
      else if is_fast_call fid then Some (Return (sign NOT_SUPPORTED))
      else None)"

section \<open>How long a WFI parks\<close>

datatype park = Ready | UntilInterrupt | Until u64

definition CNTV_CTL_ENABLE :: u64 where "CNTV_CTL_ENABLE = 1"

definition CNTV_CTL_IMASK :: u64 where "CNTV_CTL_IMASK = 2"

text \<open>The duration is kept in ticks; the conversion with the host's timebase is outside the model.\<close>

definition park_until :: "u64 \<Rightarrow> u64 \<Rightarrow> u64 \<Rightarrow> park" where
  "park_until ctl cval cntvct =
     (if ctl AND CNTV_CTL_ENABLE = 0 \<or> ctl AND CNTV_CTL_IMASK \<noteq> 0 then UntilInterrupt
      else if cval \<le> cntvct then Ready
      else Until (cval - cntvct))"

section \<open>The hypervisor\<close>

datatype reg = X u8 | Pc | Cpsr

datatype sys_reg = CntvCtlEl0 | CntvCvalEl0 | SctlrEl1 | MpidrEl1

text \<open>The record the hypervisor writes at an exit.\<close>

record vcpu_exit =
  ex_reason :: u32
  ex_syndrome :: u64
  ex_virtual_address :: u64
  ex_physical_address :: u64

text \<open>
  Other threads act on the vCPU while the guest runs and while it is parked: they set its stop flag
  (\<open>VcpuStop::request\<close>) or only its pending flag (\<open>VcpuStop::nudge\<close>). The calls that take time report what
  happened meanwhile as a signal.
\<close>

datatype signal = NoSignal | Nudged | StopRequested

record ('h, 'e) hv_ops =
  hv_get_reg :: "'h \<Rightarrow> reg \<Rightarrow> 'e + u64"
  hv_set_reg :: "'h \<Rightarrow> reg \<Rightarrow> u64 \<Rightarrow> 'e + 'h"
  hv_get_sys_reg :: "'h \<Rightarrow> sys_reg \<Rightarrow> 'e + u64"
  hv_set_sys_reg :: "'h \<Rightarrow> sys_reg \<Rightarrow> u64 \<Rightarrow> 'e + 'h"
  hv_get_vtimer_offset :: "'h \<Rightarrow> 'e + u64"
  hv_set_vtimer_offset :: "'h \<Rightarrow> u64 \<Rightarrow> 'e + 'h"
  hv_set_vtimer_mask :: "'h \<Rightarrow> bool \<Rightarrow> 'e + 'h"
  hv_raise_vtimer_ppi :: "'h \<Rightarrow> 'e + 'h"
  hv_host_ticks :: "'h \<Rightarrow> u64"
  hv_vcpu_run :: "'h \<Rightarrow> ('e + vcpu_exit) \<times> 'h \<times> signal"
  hv_wait :: "'h \<Rightarrow> park \<Rightarrow> 'h \<times> signal"

text \<open>Writes are seen by reads of the same register and by no other; a wait leaves the registers alone.\<close>

definition hv_registers :: "('h, 'e) hv_ops \<Rightarrow> bool" where
  "hv_registers H \<longleftrightarrow>
     (\<forall>h r v h'. hv_set_reg H h r v = Inr h' \<longrightarrow> hv_get_reg H h' = (hv_get_reg H h)(r := Inr v)) \<and>
     (\<forall>h r v h'. hv_set_sys_reg H h r v = Inr h' \<longrightarrow> hv_get_reg H h' = hv_get_reg H h) \<and>
     (\<forall>h v h'. hv_set_vtimer_offset H h v = Inr h' \<longrightarrow> hv_get_reg H h' = hv_get_reg H h) \<and>
     (\<forall>h v h'. hv_set_vtimer_mask H h v = Inr h' \<longrightarrow> hv_get_reg H h' = hv_get_reg H h) \<and>
     (\<forall>h h'. hv_raise_vtimer_ppi H h = Inr h' \<longrightarrow> hv_get_reg H h' = hv_get_reg H h) \<and>
     (\<forall>h p. hv_get_reg H (fst (hv_wait H h p)) = hv_get_reg H h)"

section \<open>The vCPU\<close>

datatype 'e vcpu_error = HvFailed 'e | WrongThread

datatype exit_reason =
    Exception u64 u64 u64
  | VtimerActivated
  | CpuOff
  | Psci power_request
  | SystemOff
  | SystemReset
  | WfiExit
  | Canceled
  | UnknownReason u32

datatype loop = Again | Done exit_reason

record 'h vcpu =
  v_hv :: 'h
  v_owner :: nat
  v_stop :: bool
  v_pending :: bool
  timer_masked :: bool

type_synonym ('h, 'e, 'a) vcpu_op = "('h vcpu, 'e vcpu_error, 'a) fallible"

definition vcpu_create :: "'h \<Rightarrow> nat \<Rightarrow> 'h vcpu" where
  "vcpu_create h me = \<lparr>v_hv = h, v_owner = me, v_stop = False, v_pending = False, timer_masked = False\<rparr>"

definition on_owner_thread :: "nat \<Rightarrow> ('h, 'e, unit) vcpu_op" where
  "on_owner_thread me v = (if me \<noteq> v_owner v then (Inl WrongThread, v) else (Inr (), v))"

definition hv_read :: "('h \<Rightarrow> 'e + 'a) \<Rightarrow> ('h, 'e, 'a) vcpu_op" where
  "hv_read f v = (case f (v_hv v) of Inl err \<Rightarrow> (Inl (HvFailed err), v) | Inr x \<Rightarrow> (Inr x, v))"

definition hv_write :: "('h \<Rightarrow> 'e + 'h) \<Rightarrow> ('h, 'e, unit) vcpu_op" where
  "hv_write f v = (case f (v_hv v) of Inl err \<Rightarrow> (Inl (HvFailed err), v) | Inr h \<Rightarrow> (Inr (), v\<lparr>v_hv := h\<rparr>))"

definition get_x :: "('h, 'e) hv_ops \<Rightarrow> nat \<Rightarrow> u8 \<Rightarrow> ('h, 'e, u64) vcpu_op" where
  "get_x H me index = op_bind (on_owner_thread me) (\<lambda>_. hv_read (\<lambda>h. hv_get_reg H h (X index)))"

definition set_x :: "('h, 'e) hv_ops \<Rightarrow> nat \<Rightarrow> u8 \<Rightarrow> u64 \<Rightarrow> ('h, 'e, unit) vcpu_op" where
  "set_x H me index x = op_bind (on_owner_thread me) (\<lambda>_. hv_write (\<lambda>h. hv_set_reg H h (X index) x))"

definition get_pc :: "('h, 'e) hv_ops \<Rightarrow> nat \<Rightarrow> ('h, 'e, u64) vcpu_op" where
  "get_pc H me = op_bind (on_owner_thread me) (\<lambda>_. hv_read (\<lambda>h. hv_get_reg H h Pc))"

definition set_pc :: "('h, 'e) hv_ops \<Rightarrow> nat \<Rightarrow> u64 \<Rightarrow> ('h, 'e, unit) vcpu_op" where
  "set_pc H me x = op_bind (on_owner_thread me) (\<lambda>_. hv_write (\<lambda>h. hv_set_reg H h Pc x))"

definition set_cpsr :: "('h, 'e) hv_ops \<Rightarrow> nat \<Rightarrow> u64 \<Rightarrow> ('h, 'e, unit) vcpu_op" where
  "set_cpsr H me x = op_bind (on_owner_thread me) (\<lambda>_. hv_write (\<lambda>h. hv_set_reg H h Cpsr x))"

definition get_sys_reg :: "('h, 'e) hv_ops \<Rightarrow> nat \<Rightarrow> sys_reg \<Rightarrow> ('h, 'e, u64) vcpu_op" where
  "get_sys_reg H me r = op_bind (on_owner_thread me) (\<lambda>_. hv_read (\<lambda>h. hv_get_sys_reg H h r))"

definition set_sys_reg :: "('h, 'e) hv_ops \<Rightarrow> nat \<Rightarrow> sys_reg \<Rightarrow> u64 \<Rightarrow> ('h, 'e, unit) vcpu_op" where
  "set_sys_reg H me r x = op_bind (on_owner_thread me) (\<lambda>_. hv_write (\<lambda>h. hv_set_sys_reg H h r x))"

definition vtimer_offset :: "('h, 'e) hv_ops \<Rightarrow> nat \<Rightarrow> ('h, 'e, u64) vcpu_op" where
  "vtimer_offset H me = op_bind (on_owner_thread me) (\<lambda>_. hv_read (hv_get_vtimer_offset H))"

definition set_vtimer_offset :: "('h, 'e) hv_ops \<Rightarrow> nat \<Rightarrow> u64 \<Rightarrow> ('h, 'e, unit) vcpu_op" where
  "set_vtimer_offset H me x = op_bind (on_owner_thread me) (\<lambda>_. hv_write (\<lambda>h. hv_set_vtimer_offset H h x))"

text \<open>The handle of other threads.\<close>

definition stop_request :: "'h vcpu \<Rightarrow> 'h vcpu" where
  "stop_request v = v\<lparr>v_stop := True, v_pending := True\<rparr>"

definition stop_nudge :: "'h vcpu \<Rightarrow> 'h vcpu" where
  "stop_nudge v = v\<lparr>v_pending := True\<rparr>"

definition receive :: "signal \<Rightarrow> 'h vcpu \<Rightarrow> 'h vcpu" where
  "receive sig v = (case sig of NoSignal \<Rightarrow> v | Nudged \<Rightarrow> stop_nudge v | StopRequested \<Rightarrow> stop_request v)"

section \<open>Exits\<close>

definition exit_reason_of :: "u32 \<Rightarrow> u64 \<Rightarrow> u64 \<Rightarrow> u64 \<Rightarrow> exit_reason" where
  "exit_reason_of reason syndrome va pa =
     (if reason = 1 then Exception syndrome va pa
      else if reason = 2 then VtimerActivated
      else if reason = 0 then Canceled
      else if reason = 3 then UnknownReason 3
      else UnknownReason reason)"

definition read_exit :: "vcpu_exit \<Rightarrow> exit_reason" where
  "read_exit ex = exit_reason_of (ex_reason ex) (ex_syndrome ex) (ex_virtual_address ex) (ex_physical_address ex)"

definition kind_of_exit :: "exit_reason \<Rightarrow> exit_kind" where
  "kind_of_exit reason =
     (case reason of VtimerActivated \<Rightarrow> KVtimer | Canceled \<Rightarrow> KCanceled | WfiExit \<Rightarrow> KWfi
      | Exception syndrome _ _ \<Rightarrow> kind_from_esr syndrome | UnknownReason _ \<Rightarrow> KUnknown | _ \<Rightarrow> KOther)"

definition advance_pc :: "('h, 'e) hv_ops \<Rightarrow> nat \<Rightarrow> ('h, 'e, unit) vcpu_op" where
  "advance_pc H me = op_bind (get_pc H me) (\<lambda>pc. set_pc H me (pc + TRAP_PC_ADVANCE))"

definition maybe_unmask_vtimer :: "('h, 'e) hv_ops \<Rightarrow> ('h, 'e, unit) vcpu_op" where
  "maybe_unmask_vtimer H v =
     (if \<not> timer_masked v then (Inr (), v)
      else op_bind (hv_read (\<lambda>h. hv_get_sys_reg H h CntvCtlEl0)) (\<lambda>ctl.
        if ctl AND 4 \<noteq> 0 then op_return ()
        else op_bind (hv_write (\<lambda>h. hv_set_vtimer_mask H h False)) (\<lambda>_ v'.
          (Inr (), v'\<lparr>timer_masked := False\<rparr>))) v)"

definition on_vtimer :: "('h, 'e) hv_ops \<Rightarrow> ('h, 'e, unit) vcpu_op" where
  "on_vtimer H =
     op_bind (hv_write (\<lambda>h. hv_set_vtimer_mask H h True)) (\<lambda>_.
     op_bind (hv_write (hv_raise_vtimer_ppi H)) (\<lambda>_ v.
       (Inr (), v\<lparr>timer_masked := True\<rparr>)))"

text \<open>The flags are read under the park lock; what arrives during the sleep is received before \<open>pending\<close> is cleared.\<close>

definition wait_for_interrupt :: "('h, 'e) hv_ops \<Rightarrow> ('h, 'e, unit) vcpu_op" where
  "wait_for_interrupt H =
     op_bind (hv_read (\<lambda>h. hv_get_sys_reg H h CntvCtlEl0)) (\<lambda>ctl.
     op_bind (hv_read (\<lambda>h. hv_get_sys_reg H h CntvCvalEl0)) (\<lambda>cval.
     op_bind (hv_read (hv_get_vtimer_offset H)) (\<lambda>off v.
       let park = park_until ctl cval (saturating_sub (hv_host_ticks H (v_hv v)) off) in
       if park = Ready then (Inr (), v)
       else if v_stop v then (Inr (), v)
       else if v_pending v then (Inr (), v\<lparr>v_pending := False\<rparr>)
       else case hv_wait H (v_hv v) park of (h, sig) \<Rightarrow>
         (Inr (), (receive sig (v\<lparr>v_hv := h\<rparr>))\<lparr>v_pending := False\<rparr>))))"

definition on_psci :: "('h, 'e) hv_ops \<Rightarrow> nat \<Rightarrow> u64 \<Rightarrow> u64 \<Rightarrow> u64 \<Rightarrow> bool \<Rightarrow> ('h, 'e, loop) vcpu_op" where
  "on_psci H me syndrome va pa advance =
     (let skip = (if advance then advance_pc H me else op_return ()) in
      op_bind (get_x H me 0) (\<lambda>x0. op_bind (get_x H me 1) (\<lambda>x1. op_bind (get_x H me 2) (\<lambda>x2.
      op_bind (get_x H me 3) (\<lambda>x3.
        case psci_call x0 x1 x2 x3 of
          None \<Rightarrow> op_return (Done (Exception syndrome va pa))
        | Some (Return r) \<Rightarrow>
            op_bind (set_x H me 0 r) (\<lambda>_. op_bind skip (\<lambda>_. op_return Again))
        | Some (Power request) \<Rightarrow> op_bind skip (\<lambda>_. op_return (Done (Psci request)))
        | Some ActCpuOff \<Rightarrow>
            op_bind (set_x H me 0 0) (\<lambda>_. op_bind skip (\<lambda>_. op_return (Done CpuOff)))
        | Some ActSystemOff \<Rightarrow> (\<lambda>v. (Inr (Done SystemOff), v\<lparr>v_stop := True\<rparr>))
        | Some ActSystemReset \<Rightarrow> (\<lambda>v. (Inr (Done SystemReset), v\<lparr>v_stop := True\<rparr>)))))))"

definition on_exception :: "('h, 'e) hv_ops \<Rightarrow> nat \<Rightarrow> u64 \<Rightarrow> u64 \<Rightarrow> u64 \<Rightarrow> ('h, 'e, loop) vcpu_op" where
  "on_exception H me syndrome va pa =
     (case decode syndrome pa of
        Hvc _ \<Rightarrow> on_psci H me syndrome va pa False
      | Smc _ \<Rightarrow> on_psci H me syndrome va pa True
      | Wfi _ \<Rightarrow>
          op_bind (wait_for_interrupt H) (\<lambda>_. op_bind (advance_pc H me) (\<lambda>_. op_return (Done WfiExit)))
      | _ \<Rightarrow> op_return (Done (Exception syndrome va pa)))"

definition vcpu_dispatch :: "('h, 'e) hv_ops \<Rightarrow> nat \<Rightarrow> exit_reason \<Rightarrow> ('h, 'e, loop) vcpu_op" where
  "vcpu_dispatch H me reason =
     (case reason of
        VtimerActivated \<Rightarrow> op_bind (on_vtimer H) (\<lambda>_. op_return Again)
      | Exception syndrome va pa \<Rightarrow> on_exception H me syndrome va pa
      | other \<Rightarrow> op_return (Done other))"

text \<open>
  One turn of the loop of \<open>run\<close>, and the loop: it may go on as long as the guest makes PSCI calls and takes
  timer exits, so not returning is \<open>None\<close>.
\<close>

definition run_turn :: "('h, 'e) hv_ops \<Rightarrow> nat \<Rightarrow> ('h, 'e, loop) vcpu_op" where
  "run_turn H me v =
     (if v_stop v then (Inr (Done Canceled), v)
      else case hv_vcpu_run H (v_hv v) of (res, h, sig) \<Rightarrow>
        let v' = receive sig (v\<lparr>v_hv := h\<rparr>) in
        case res of
          Inl err \<Rightarrow> (Inl (HvFailed err), v')
        | Inr ex \<Rightarrow> vcpu_dispatch H me (read_exit ex) v')"

partial_function (option) run_turns ::
  "('h, 'e) hv_ops \<Rightarrow> nat \<Rightarrow> 'h vcpu \<Rightarrow> (('e vcpu_error + exit_reason) \<times> 'h vcpu) option" where
  "run_turns H me v =
     (case run_turn H me v of
        (Inl err, v') \<Rightarrow> Some (Inl err, v')
      | (Inr (Done reason), v') \<Rightarrow> Some (Inr reason, v')
      | (Inr Again, v') \<Rightarrow> run_turns H me v')"

definition vcpu_run ::
  "('h, 'e) hv_ops \<Rightarrow> nat \<Rightarrow> 'h vcpu \<Rightarrow> (('e vcpu_error + exit_reason) \<times> 'h vcpu) option" where
  "vcpu_run H me v =
     (case op_bind (on_owner_thread me) (\<lambda>_. maybe_unmask_vtimer H) v of
        (Inl err, v') \<Rightarrow> Some (Inl err, v')
      | (Inr _, v') \<Rightarrow> run_turns H me v')"

section \<open>What the operations do to the registers\<close>

definition regs :: "('h, 'e) hv_ops \<Rightarrow> 'h vcpu \<Rightarrow> reg \<Rightarrow> 'e + u64" where
  "regs H v = hv_get_reg H (v_hv v)"

definition same_flags :: "'h vcpu \<Rightarrow> 'h vcpu \<Rightarrow> bool" where
  "same_flags v v' \<longleftrightarrow> v_owner v' = v_owner v \<and> v_stop v' = v_stop v"

lemma same_flags_refl [simp]: "same_flags v v"
  by (simp add: same_flags_def)

lemma get_x_ok:
  "get_x H me i v = (Inr x, v') \<longleftrightarrow> me = v_owner v \<and> regs H v (X i) = Inr x \<and> v' = v"
  by (auto simp: get_x_def op_bind_def on_owner_thread_def hv_read_def regs_def split: sum.splits)

lemma get_pc_ok:
  "get_pc H me v = (Inr x, v') \<longleftrightarrow> me = v_owner v \<and> regs H v Pc = Inr x \<and> v' = v"
  by (auto simp: get_pc_def op_bind_def on_owner_thread_def hv_read_def regs_def split: sum.splits)

lemma vtimer_offset_ok:
  "vtimer_offset H me v = (Inr x, v') \<longleftrightarrow> me = v_owner v \<and> hv_get_vtimer_offset H (v_hv v) = Inr x \<and> v' = v"
  by (auto simp: vtimer_offset_def op_bind_def on_owner_thread_def hv_read_def split: sum.splits)

lemma set_vtimer_offset_ok:
  "set_vtimer_offset H me x v = (Inr u, v') \<longleftrightarrow>
     me = v_owner v \<and> (\<exists>h. hv_set_vtimer_offset H (v_hv v) x = Inr h \<and> v' = v\<lparr>v_hv := h\<rparr>)"
  by (auto simp: set_vtimer_offset_def op_bind_def on_owner_thread_def hv_write_def split: sum.splits)

lemma hv_write_reg:
  assumes "hv_registers H" and "hv_write (\<lambda>h. hv_set_reg H h r x) v = (Inr u, v')"
  shows "regs H v' = (regs H v)(r := Inr x)" "same_flags v v'"
  using assms by (auto simp: hv_write_def hv_registers_def regs_def same_flags_def split: sum.splits)

lemma set_x_ok:
  assumes "hv_registers H" and "set_x H me i x v = (Inr u, v')"
  shows "regs H v' = (regs H v)(X i := Inr x)" "same_flags v v'"
  using assms hv_write_reg [OF assms(1), of "X i" x v u v']
  by (auto simp: set_x_def op_bind_ok on_owner_thread_def split: if_splits)

lemma set_pc_ok:
  assumes "hv_registers H" and "set_pc H me x v = (Inr u, v')"
  shows "regs H v' = (regs H v)(Pc := Inr x)" "same_flags v v'"
  using assms hv_write_reg [OF assms(1), of Pc x v u v']
  by (auto simp: set_pc_def op_bind_ok on_owner_thread_def split: if_splits)

text \<open>The registers after the PC has moved past the trapped instruction.\<close>

definition skipped :: "(reg \<Rightarrow> 'e + u64) \<Rightarrow> reg \<Rightarrow> 'e + u64" where
  "skipped R = (case R Pc of Inl _ \<Rightarrow> R | Inr pc \<Rightarrow> R(Pc := Inr (pc + 4)))"

lemma advance_pc_ok:
  assumes "hv_registers H" and "advance_pc H me v = (Inr u, v')"
  shows "regs H v' = skipped (regs H v)" "same_flags v v'"
proof -
  from assms(2) obtain pc where "regs H v Pc = Inr pc" "set_pc H me (pc + TRAP_PC_ADVANCE) v = (Inr u, v')"
    by (auto simp: advance_pc_def op_bind_ok get_pc_ok)
  with set_pc_ok [OF assms(1) this(2)] show "regs H v' = skipped (regs H v)" "same_flags v v'"
    by (simp_all add: skipped_def TRAP_PC_ADVANCE_def)
qed

lemma receive_fields [simp]:
  "v_hv (receive sig v) = v_hv v" "v_owner (receive sig v) = v_owner v"
  "v_stop (receive sig v) = (v_stop v \<or> sig = StopRequested)"
  by (simp_all add: receive_def stop_nudge_def stop_request_def split: signal.splits)

lemma wait_for_interrupt_ok:
  assumes "hv_registers H" and "wait_for_interrupt H v = (Inr u, v')"
  shows "regs H v' = regs H v" "v_owner v' = v_owner v" "v_stop v \<Longrightarrow> v_stop v'"
proof -
  have w: "hv_get_reg H (fst (hv_wait H h p)) = hv_get_reg H h" for h p
    using assms(1) by (simp add: hv_registers_def)
  from assms(2) show "regs H v' = regs H v" "v_owner v' = v_owner v" "v_stop v \<Longrightarrow> v_stop v'"
    using w by (auto simp: wait_for_interrupt_def op_bind_ok hv_read_def regs_def Let_def
        split: sum.splits if_splits prod.splits) (metis fst_conv)+
qed

section \<open>The outcome of a trap\<close>

text \<open>What a PSCI call leaves: the answer of the loop and the registers, given how the PC moves.\<close>

definition psci_outcome ::
  "exit_reason \<Rightarrow> ((reg \<Rightarrow> 'e + u64) \<Rightarrow> reg \<Rightarrow> 'e + u64) \<Rightarrow> (reg \<Rightarrow> 'e + u64) \<Rightarrow> psci_action option \<Rightarrow>
   loop \<times> (reg \<Rightarrow> 'e + u64)" where
  "psci_outcome other skip R act =
     (case act of
        None \<Rightarrow> (Done other, R)
      | Some (Return x) \<Rightarrow> (Again, skip (R(X 0 := Inr x)))
      | Some (Power q) \<Rightarrow> (Done (Psci q), skip R)
      | Some ActCpuOff \<Rightarrow> (Done CpuOff, skip (R(X 0 := Inr 0)))
      | Some ActSystemOff \<Rightarrow> (Done SystemOff, R)
      | Some ActSystemReset \<Rightarrow> (Done SystemReset, R))"

text \<open>A readable register's value.\<close>

definition val :: "'e + u64 \<Rightarrow> u64" where
  "val r = (case r of Inl _ \<Rightarrow> 0 | Inr x \<Rightarrow> x)"

lemma skip_ok:
  assumes "hv_registers H" and "(if advance then advance_pc H me else op_return ()) v = (Inr u, v')"
  shows "regs H v' = (if advance then skipped else id) (regs H v)" "same_flags v v'"
  using assms advance_pc_ok [OF assms(1), of me v u v'] by (auto split: if_splits)

lemma on_psci_ok:
  assumes "hv_registers H" and "on_psci H me esr va pa advance v = (Inr r, v')"
  shows "(r, regs H v') = psci_outcome (Exception esr va pa) (if advance then skipped else id) (regs H v)
      (psci_call (val (regs H v (X 0))) (val (regs H v (X 1))) (val (regs H v (X 2))) (val (regs H v (X 3))))"
    and "v_owner v' = v_owner v"
    and "v_stop v' \<longleftrightarrow> v_stop v \<or> r = Done SystemOff \<or> r = Done SystemReset"
proof -
  let ?skip = "if advance then advance_pc H me else op_return ()"
  obtain x0 x1 x2 x3 where x: "regs H v (X 0) = Inr x0" "regs H v (X 1) = Inr x1" "regs H v (X 2) = Inr x2"
      "regs H v (X 3) = Inr x3"
    using assms(2) by (auto simp: on_psci_def Let_def op_bind_ok get_x_ok)
  have a: "(case psci_call x0 x1 x2 x3 of
          None \<Rightarrow> op_return (Done (Exception esr va pa))
        | Some (Return r) \<Rightarrow> op_bind (set_x H me 0 r) (\<lambda>_. op_bind ?skip (\<lambda>_. op_return Again))
        | Some (Power request) \<Rightarrow> op_bind ?skip (\<lambda>_. op_return (Done (Psci request)))
        | Some ActCpuOff \<Rightarrow> op_bind (set_x H me 0 0) (\<lambda>_. op_bind ?skip (\<lambda>_. op_return (Done CpuOff)))
        | Some ActSystemOff \<Rightarrow> (\<lambda>v. (Inr (Done SystemOff), v\<lparr>v_stop := True\<rparr>))
        | Some ActSystemReset \<Rightarrow> (\<lambda>v. (Inr (Done SystemReset), v\<lparr>v_stop := True\<rparr>))) v = (Inr r, v')"
    using assms(2) x by (auto simp: on_psci_def Let_def op_bind_ok get_x_ok)
  have "(r, regs H v') = psci_outcome (Exception esr va pa) (if advance then skipped else id) (regs H v)
      (psci_call x0 x1 x2 x3) \<and> v_owner v' = v_owner v \<and>
      (v_stop v' \<longleftrightarrow> v_stop v \<or> r = Done SystemOff \<or> r = Done SystemReset)"
  proof (cases "psci_call x0 x1 x2 x3")
    case None
    with a show ?thesis by (auto simp: psci_outcome_def)
  next
    case (Some act)
    show ?thesis
    proof (cases act)
      case (Return x)
      with a Some obtain v1 where 1: "set_x H me 0 x v = (Inr (), v1)" and 2: "?skip v1 = (Inr (), v')" and r: "r = Again"
        by (auto simp: op_bind_ok)
      with set_x_ok [OF assms(1) 1] skip_ok [OF assms(1) 2] Return Some show ?thesis
        by (auto simp: psci_outcome_def same_flags_def)
    next
      case ActCpuOff
      with a Some obtain v1 where 1: "set_x H me 0 0 v = (Inr (), v1)" and 2: "?skip v1 = (Inr (), v')" and r: "r = Done CpuOff"
        by (auto simp: op_bind_ok)
      with set_x_ok [OF assms(1) 1] skip_ok [OF assms(1) 2] ActCpuOff Some show ?thesis
        by (auto simp: psci_outcome_def same_flags_def)
    next
      case (Power q)
      with a Some have 2: "?skip v = (Inr (), v')" and r: "r = Done (Psci q)" by (auto simp: op_bind_ok)
      with skip_ok [OF assms(1) 2] Power Some show ?thesis by (auto simp: psci_outcome_def same_flags_def)
    qed (use a Some in \<open>auto simp: psci_outcome_def regs_def\<close>)
  qed
  with x show "(r, regs H v') = psci_outcome (Exception esr va pa) (if advance then skipped else id) (regs H v)
      (psci_call (val (regs H v (X 0))) (val (regs H v (X 1))) (val (regs H v (X 2))) (val (regs H v (X 3))))"
    and "v_owner v' = v_owner v" and "v_stop v' \<longleftrightarrow> v_stop v \<or> r = Done SystemOff \<or> r = Done SystemReset"
    by (simp_all add: val_def)
qed

section \<open>Stopping\<close>

definition again :: "('h, 'e) hv_ops \<Rightarrow> nat \<Rightarrow> 'h vcpu \<Rightarrow> 'h vcpu \<Rightarrow> bool" where
  "again H me v v' \<longleftrightarrow> run_turn H me v = (Inr Again, v')"

lemma run_turns_again: "again H me v v' \<Longrightarrow> run_turns H me v = run_turns H me v'"
  by (subst run_turns.simps) (simp add: again_def)

lemma run_turns_stopped: "v_stop v \<Longrightarrow> run_turns H me v = Some (Inr Canceled, v)"
  by (subst run_turns.simps) (simp add: run_turn_def)

lemma on_psci_shutdown:
  assumes "on_psci H me esr va pa advance v = (Inr (Done r), v')" and "r = SystemOff \<or> r = SystemReset"
  shows "v_stop v'"
proof -
  obtain x0 x1 x2 x3 where x: "regs H v (X 0) = Inr x0" "regs H v (X 1) = Inr x1" "regs H v (X 2) = Inr x2"
      "regs H v (X 3) = Inr x3" and me: "me = v_owner v"
    using assms(1) by (auto simp: on_psci_def Let_def op_bind_ok get_x_ok)
  then have g: "get_x H me 0 v = (Inr x0, v)" "get_x H me 1 v = (Inr x1, v)" "get_x H me 2 v = (Inr x2, v)"
    "get_x H me 3 v = (Inr x3, v)" by (simp_all add: get_x_ok)
  show ?thesis
  proof (cases "psci_call x0 x1 x2 x3")
    case (Some act)
    then show ?thesis using assms g by (cases act) (auto simp: on_psci_def Let_def op_bind_ok)
  qed (use assms g in \<open>auto simp: on_psci_def Let_def op_bind_ok\<close>)
qed

lemma dispatch_shutdown:
  assumes "vcpu_dispatch H me reason v = (Inr (Done r), v')" and "r = SystemOff \<or> r = SystemReset"
    and "reason \<noteq> SystemOff" and "reason \<noteq> SystemReset"
  shows "v_stop v'"
proof (cases reason)
  case (Exception esr va pa)
  show ?thesis
  proof (cases "decode esr pa")
    case (Hvc imm)
    with assms(1) Exception have "on_psci H me esr va pa False v = (Inr (Done r), v')"
      by (simp add: vcpu_dispatch_def on_exception_def)
    then show ?thesis using assms(2) by (rule on_psci_shutdown)
  next
    case (Smc imm)
    with assms(1) Exception have "on_psci H me esr va pa True v = (Inr (Done r), v')"
      by (simp add: vcpu_dispatch_def on_exception_def)
    then show ?thesis using assms(2) by (rule on_psci_shutdown)
  qed (use assms Exception in \<open>auto simp: vcpu_dispatch_def on_exception_def op_bind_ok\<close>)
qed (use assms in \<open>auto simp: vcpu_dispatch_def op_bind_ok\<close>)

lemma read_exit_not_shutdown: "read_exit ex \<noteq> SystemOff" "read_exit ex \<noteq> SystemReset"
  by (simp_all add: read_exit_def exit_reason_of_def)

lemma run_turn_shutdown:
  assumes "run_turn H me v = (Inr (Done r), v')" and "r = SystemOff \<or> r = SystemReset"
  shows "v_stop v'"
proof -
  obtain res h sig where h: "hv_vcpu_run H (v_hv v) = (res, h, sig)" by (rule prod_cases3)
  from assms h obtain ex where "vcpu_dispatch H me (read_exit ex) (receive sig (v\<lparr>v_hv := h\<rparr>)) = (Inr (Done r), v')"
    by (cases res) (auto simp: run_turn_def Let_def split: if_splits)
  then show ?thesis using assms(2) read_exit_not_shutdown by (rule dispatch_shutdown)
qed

lemma run_turns_shutdown:
  fixes H :: "('h, 'e) hv_ops"
  assumes "run_turns H me v = Some (Inr r, v')" and "r = SystemOff \<or> r = SystemReset"
  shows "v_stop v'"
proof -
  define Q where "Q res \<longleftrightarrow> (\<forall>r v'. res = (Inr r, v') \<longrightarrow> r = SystemOff \<or> r = SystemReset \<longrightarrow> v_stop v')"
    for res :: "('e vcpu_error + exit_reason) \<times> 'h vcpu"
  have "Q (Inr r, v')"
  proof (rule run_turns.raw_induct [OF _ assms(1), where P = "\<lambda>_ _ _. Q"])
    fix self :: "('h, 'e) hv_ops \<Rightarrow> nat \<Rightarrow> 'h vcpu \<Rightarrow> (('e vcpu_error + exit_reason) \<times> 'h vcpu) option"
      and H me v res
    assume IH: "\<And>H me v res. self H me v = Some res \<Longrightarrow> Q res"
      and body: "(case run_turn H me v of (Inl err, v') \<Rightarrow> Some (Inl err, v')
         | (Inr Again, v') \<Rightarrow> self H me v' | (Inr (Done reason), v') \<Rightarrow> Some (Inr reason, v')) = Some res"
    obtain out v1 where t: "run_turn H me v = (out, v1)" by fastforce
    show "Q res"
    proof (cases out)
      case (Inr l)
      then show ?thesis
      proof (cases l)
        case Again
        with body t Inr show ?thesis by (intro IH) simp
      next
        case (Done reason)
        with body t Inr run_turn_shutdown [of H me v reason v1] show ?thesis by (auto simp: Q_def)
      qed
    qed (use body t in \<open>auto simp: Q_def\<close>)
  qed
  with assms(2) show ?thesis by (auto simp: Q_def)
qed

lemma unmask_stop: "v_stop (snd (maybe_unmask_vtimer H v)) = v_stop v"
  by (auto simp: maybe_unmask_vtimer_def op_bind_def hv_read_def hv_write_def split: sum.splits prod.splits)

section \<open>A hypervisor for examples\<close>

type_synonym demo_hv = "(reg \<Rightarrow> u64) \<times> vcpu_exit list"

text \<open>Registers in a function and a script of exits; after the script every run is cancelled.\<close>

definition demo_hv :: "(demo_hv, unit) hv_ops" where
  "demo_hv =
     \<lparr>hv_get_reg = (\<lambda>(R, es) r. Inr (R r)), hv_set_reg = (\<lambda>(R, es) r x. Inr (R(r := x), es)),
      hv_get_sys_reg = (\<lambda>_ _. Inr 0), hv_set_sys_reg = (\<lambda>h _ _. Inr h), hv_get_vtimer_offset = (\<lambda>_. Inr 0),
      hv_set_vtimer_offset = (\<lambda>h _. Inr h), hv_set_vtimer_mask = (\<lambda>h _. Inr h), hv_raise_vtimer_ppi = Inr,
      hv_host_ticks = (\<lambda>_. 0),
      hv_vcpu_run = (\<lambda>(R, es). case es of
          [] \<Rightarrow> (Inr \<lparr>ex_reason = 0, ex_syndrome = 0, ex_virtual_address = 0, ex_physical_address = 0\<rparr>, (R, []), NoSignal)
        | ex # es' \<Rightarrow> (Inr ex, (R, es'), NoSignal)),
      hv_wait = (\<lambda>h _. (h, Nudged))\<rparr>"

lemma demo_hv_registers: "hv_registers demo_hv"
  by (auto simp: hv_registers_def demo_hv_def fun_eq_iff)

definition demo_regs0 :: "u64 \<Rightarrow> reg \<Rightarrow> u64" where
  "demo_regs0 fid = (\<lambda>_. 0)(X 0 := fid, Pc := 0x40000008)"

definition demo_smc :: vcpu_exit where
  "demo_smc = \<lparr>ex_reason = 1, ex_syndrome = 0x5e000000, ex_virtual_address = 0, ex_physical_address = 0\<rparr>"

lemma demo_smc_decode: "decode 0x5e000000 0 = Smc 0"
  by (simp add: decode_def ec_defs)

section \<open>Properties\<close>

text \<open>
  C37. A trap that the vCPU completes itself leaves exactly the registers it should: after a PSCI call \<open>x0\<close> has
  the answer and nothing else changes, but for the PC, which moves past an \<open>SMC\<close>, a \<open>WFI\<close> or a \<open>WFE\<close> once and
  is left alone for an \<open>HVC\<close>, whose PC has already moved. Every other exception is returned with the state as
  it was.
\<close>

theorem vcpu_trap_effect:
  assumes "hv_registers H" and "vcpu_dispatch H me (Exception esr va pa) v = (Inr r, v')"
  shows "(r, regs H v') =
     (let call = psci_call (val (regs H v (X 0))) (val (regs H v (X 1))) (val (regs H v (X 2))) (val (regs H v (X 3)))
      in case decode esr pa of
        Hvc _ \<Rightarrow> psci_outcome (Exception esr va pa) id (regs H v) call
      | Smc _ \<Rightarrow> psci_outcome (Exception esr va pa) skipped (regs H v) call
      | Wfi _ \<Rightarrow> (Done WfiExit, skipped (regs H v))
      | _ \<Rightarrow> (Done (Exception esr va pa), regs H v))"
proof (cases "decode esr pa")
  case (Hvc imm)
  with assms(2) have "on_psci H me esr va pa False v = (Inr r, v')"
    by (simp add: vcpu_dispatch_def on_exception_def)
  from on_psci_ok(1) [OF assms(1) this] Hvc show ?thesis by simp
next
  case (Smc imm)
  with assms(2) have "on_psci H me esr va pa True v = (Inr r, v')"
    by (simp add: vcpu_dispatch_def on_exception_def)
  from on_psci_ok(1) [OF assms(1) this] Smc show ?thesis by simp
next
  case (Wfi wfe)
  with assms(2) obtain v1 where 1: "wait_for_interrupt H v = (Inr (), v1)" and 2: "advance_pc H me v1 = (Inr (), v')"
    and r: "r = Done WfiExit"
    by (auto simp: vcpu_dispatch_def on_exception_def op_bind_ok)
  with wait_for_interrupt_ok(1) [OF assms(1) 1] advance_pc_ok(1) [OF assms(1) 2] Wfi show ?thesis by simp
qed (use assms(2) in \<open>simp_all add: vcpu_dispatch_def on_exception_def\<close>)

theorem vcpu_trap_effect_witness:
  "\<exists>v'. vcpu_dispatch demo_hv 3 (Exception 0x5e000000 0 0) (vcpu_create (demo_regs0 0x84000000, []) 3) = (Inr Again, v') \<and>
     regs demo_hv v' = Inr \<circ> (demo_regs0 0x84000000)(X 0 := 0x10001, Pc := 0x4000000c)"
proof -
  let ?v = "vcpu_create (demo_regs0 0x84000000, []) 3"
  obtain r v' where d: "vcpu_dispatch demo_hv 3 (Exception 0x5e000000 0 0) ?v = (Inr r, v')"
    by (simp add: vcpu_dispatch_def on_exception_def demo_smc_decode on_psci_def Let_def op_bind_def get_x_def set_x_def
        on_owner_thread_def hv_read_def hv_write_def demo_hv_def vcpu_create_def demo_regs0_def psci_call_def psci_defs
        advance_pc_def get_pc_def set_pc_def)
  have "regs demo_hv ?v = Inr \<circ> demo_regs0 0x84000000"
    by (simp add: regs_def demo_hv_def vcpu_create_def fun_eq_iff)
  with vcpu_trap_effect [OF demo_hv_registers d]
  have "r = Again" "regs demo_hv v' = Inr \<circ> (demo_regs0 0x84000000)(X 0 := 0x10001, Pc := 0x4000000c)"
    by (auto simp: demo_smc_decode psci_outcome_def psci_call_def psci_defs val_def demo_regs0_def skipped_def sign_def
        VERSION_1_1_def fun_eq_iff)
  with d show ?thesis by blast
qed

text \<open>
  A stop request ends \<open>run\<close>: if the stop flag is set after any number of turns in which the guest was
  resumed, \<open>run\<close> returns and reports the cancellation, whatever the guest would do next.
\<close>

lemma vcpu_stop_returns:
  assumes "(again H me)\<^sup>*\<^sup>* v w" and "v_stop w"
  shows "run_turns H me v = Some (Inr Canceled, w)"
  using assms
proof (induction rule: converse_rtranclp_induct)
  case base
  then show ?case by (rule run_turns_stopped)
next
  case (step v v1)
  then show ?case by (simp add: run_turns_again)
qed

text \<open>
  After \<open>SYSTEM_OFF\<close> or \<open>SYSTEM_RESET\<close> the guest does not run again on this vCPU: every later \<open>run\<close> returns
  a cancellation or an error, and its result does not depend on what the hypervisor would do if entered.
\<close>

lemma vcpu_shutdown_final:
  assumes "vcpu_run H me v = Some (Inr r, v')" and "r = SystemOff \<or> r = SystemReset"
  shows "vcpu_run (H\<lparr>hv_vcpu_run := f\<rparr>) me v' = vcpu_run H me v' \<and>
    (\<exists>x v''. vcpu_run H me v' = Some (x, v'') \<and> v_stop v'' \<and> (\<forall>e. x = Inr e \<longrightarrow> e = Canceled))"
proof -
  from assms(1) obtain v1 where "run_turns H me v1 = Some (Inr r, v')"
    by (auto simp: vcpu_run_def split: prod.splits sum.splits)
  then have stop: "v_stop v'" using assms(2) by (rule run_turns_shutdown)
  have same: "hv_set_vtimer_mask (H\<lparr>hv_vcpu_run := f\<rparr>) = hv_set_vtimer_mask H"
    "hv_get_sys_reg (H\<lparr>hv_vcpu_run := f\<rparr>) = hv_get_sys_reg H" by simp_all
  have eq: "maybe_unmask_vtimer (H\<lparr>hv_vcpu_run := f\<rparr>) = maybe_unmask_vtimer H"
    unfolding maybe_unmask_vtimer_def same by (rule refl)
  obtain x v'' where u: "op_bind (on_owner_thread me) (\<lambda>_. maybe_unmask_vtimer H) v' = (x, v'')" by fastforce
  then have "v_stop v''"
    using stop unmask_stop [of H v'] by (auto simp: op_bind_def on_owner_thread_def split: if_splits)
  with u run_turns_stopped [of v''] show ?thesis
    unfolding vcpu_run_def eq by (auto split: sum.splits)
qed

text \<open>
  \<open>PSCI_FEATURES\<close> tells the truth: it reports a function as supported exactly when calling it does
  something other than answering \<open>NOT_SUPPORTED\<close>; only a value that is no fast call and no PSCI function is
  handed back to the machine.
\<close>

lemma psci_features_exact:
  assumes "fid \<noteq> PSCI_FEATURES"
  shows "(features fid = SUCCESS \<longleftrightarrow>
      psci_call fid x1 x2 x3 \<noteq> None \<and> psci_call fid x1 x2 x3 \<noteq> Some (Return (sign NOT_SUPPORTED))) \<and>
    (psci_call fid x1 x2 x3 = None \<longleftrightarrow> features fid \<noteq> SUCCESS \<and> \<not> is_fast_call fid)"
  using assms by (auto simp: features_def psci_call_def psci_defs sign_def code_defs)

end
