(* ===== verification/Wfi_Park.thy ===== *)
theory Wfi_Park
  imports Vcpu
begin

text \<open>
  The sleep of a vCPU in \<open>WFI\<close> and the threads that end it, as interleaved atomic steps:
  \<open>wait_for_interrupt\<close> of \<open>vcpu/exit.rs\<close> against \<open>VcpuStop::nudge\<close> and \<open>VcpuStop::request\<close> of \<open>vcpu/stop.rs\<close>.

  The vCPU takes the park lock, reads the flags, and waits on the condition variable, which releases the lock
  and sleeps in one step. A host thread stores the flags and then notifies, without the lock. A notification
  wakes a sleeping vCPU and is lost otherwise. Spurious wake-ups, which the platform allows and does not
  promise, are not steps of the model.
\<close>

datatype cpu_pc = InGuest | AtLock park | Checked park | Asleep park | Woken

datatype host_pc = HostIdle | FlagsStored

record park_sys =
  pk_stop :: bool
  pk_pending :: bool
  pk_cpu :: cpu_pc
  pk_host :: "nat \<Rightarrow> host_pc"
  pk_raced :: bool

definition park_init :: park_sys where
  "park_init = \<lparr>pk_stop = False, pk_pending = False, pk_cpu = InGuest, pk_host = (\<lambda>_. HostIdle), pk_raced = False\<rparr>"

text \<open>
  \<open>pk_raced\<close> is an observer: a host thread has stored its flags between the vCPU's check and its sleep.
\<close>

inductive park_step :: "park_sys \<Rightarrow> park_sys \<Rightarrow> bool" where
  trap: "pk_cpu s = InGuest \<Longrightarrow> park \<noteq> Ready \<Longrightarrow> park_step s (s\<lparr>pk_cpu := AtLock park\<rparr>)"
| stopped: "pk_cpu s = AtLock park \<Longrightarrow> pk_stop s \<Longrightarrow> park_step s (s\<lparr>pk_cpu := InGuest\<rparr>)"
| nudged: "pk_cpu s = AtLock park \<Longrightarrow> \<not> pk_stop s \<Longrightarrow> pk_pending s \<Longrightarrow>
    park_step s (s\<lparr>pk_cpu := InGuest, pk_pending := False\<rparr>)"
| check: "pk_cpu s = AtLock park \<Longrightarrow> \<not> pk_stop s \<Longrightarrow> \<not> pk_pending s \<Longrightarrow>
    park_step s (s\<lparr>pk_cpu := Checked park, pk_raced := False\<rparr>)"
| sleep: "pk_cpu s = Checked park \<Longrightarrow> park_step s (s\<lparr>pk_cpu := Asleep park\<rparr>)"
| timeout: "pk_cpu s = Asleep (Until d) \<Longrightarrow> park_step s (s\<lparr>pk_cpu := Woken\<rparr>)"
| wake: "pk_cpu s = Woken \<Longrightarrow> park_step s (s\<lparr>pk_cpu := InGuest, pk_pending := False\<rparr>)"
| nudge_store: "pk_host s t = HostIdle \<Longrightarrow>
    park_step s (s\<lparr>pk_pending := True, pk_host := (pk_host s)(t := FlagsStored),
      pk_raced := (pk_raced s \<or> (\<exists>park. pk_cpu s = Checked park))\<rparr>)"
| stop_store: "pk_host s t = HostIdle \<Longrightarrow>
    park_step s (s\<lparr>pk_stop := True, pk_pending := True, pk_host := (pk_host s)(t := FlagsStored),
      pk_raced := (pk_raced s \<or> (\<exists>park. pk_cpu s = Checked park))\<rparr>)"
| notify: "pk_host s t = FlagsStored \<Longrightarrow>
    park_step s (s\<lparr>pk_host := (pk_host s)(t := HostIdle),
      pk_cpu := (case pk_cpu s of Asleep park \<Rightarrow> Woken | pc \<Rightarrow> pc)\<rparr>)"

definition park_inv :: "park_sys \<Rightarrow> bool" where
  "park_inv s \<longleftrightarrow>
     (\<forall>park. pk_cpu s = Checked park \<longrightarrow> pk_raced s \<or> \<not> pk_pending s \<and> \<not> pk_stop s) \<and>
     (\<forall>park. pk_cpu s = Asleep park \<longrightarrow>
        pk_raced s \<or> \<not> pk_pending s \<and> \<not> pk_stop s \<or> (\<exists>t. pk_host s t = FlagsStored))"

lemma park_inv_step: "park_step s s' \<Longrightarrow> park_inv s \<Longrightarrow> park_inv s'"
proof (induction rule: park_step.induct)
  case (notify s t)
  then show ?case by (cases "pk_cpu s") (auto simp: park_inv_def)
next
  case (nudge_store s t)
  then show ?case by (cases "pk_cpu s") (auto simp: park_inv_def)
next
  case (stop_store s t)
  then show ?case by (cases "pk_cpu s") (auto simp: park_inv_def)
qed (auto simp: park_inv_def)

lemma park_reachable: "park_step\<^sup>*\<^sup>* park_init s \<Longrightarrow> park_inv s"
proof (induction rule: rtranclp_induct)
  case base
  show ?case by (simp add: park_inv_def park_init_def)
next
  case (step s t)
  then show ?case by (blast intro: park_inv_step)
qed

section \<open>The window\<close>

definition lost_nudge :: park_sys where
  "lost_nudge = park_init\<lparr>pk_pending := True, pk_stop := True, pk_cpu := Asleep UntilInterrupt, pk_raced := True\<rparr>"

lemma park_star: "park_step a b \<Longrightarrow> park_step\<^sup>*\<^sup>* b c \<Longrightarrow> park_step\<^sup>*\<^sup>* a c"
  by (rule converse_rtranclp_into_rtranclp)

lemma lost_nudge_reachable: "park_step\<^sup>*\<^sup>* park_init lost_nudge"
proof -
  define s1 where "s1 = park_init\<lparr>pk_cpu := AtLock UntilInterrupt\<rparr>"
  define s2 where "s2 = s1\<lparr>pk_cpu := Checked UntilInterrupt\<rparr>"
  define s3 where "s3 = s2\<lparr>pk_stop := True, pk_pending := True, pk_host := (pk_host s2)(0 := FlagsStored), pk_raced := True\<rparr>"
  define s4 where "s4 = s3\<lparr>pk_host := (pk_host s3)(0 := HostIdle)\<rparr>"
  note defs = s1_def s2_def s3_def s4_def park_init_def lost_nudge_def
  have a: "park_step park_init s1" using park_step.trap [of park_init UntilInterrupt] by (simp add: defs)
  have b: "park_step s1 s2" using park_step.check [of s1 UntilInterrupt] by (simp add: defs)
  have c: "park_step s2 s3" using park_step.stop_store [of s2 0] by (simp add: defs)
  have d: "park_step s3 s4" using park_step.notify [of s3 0] by (simp add: defs)
  have e: "park_step s4 lost_nudge" using park_step.sleep [of s4 UntilInterrupt]
    by (simp add: defs fun_upd_idem)
  show ?thesis
    by (intro park_star [OF a] park_star [OF b] park_star [OF c] park_star [OF d] park_star [OF e]
        rtranclp.rtrancl_refl)
qed

text \<open>
  C39. A vCPU asleep in \<open>WFI\<close> with a nudge or a stop pending that no thread is about to announce is reachable, and
  no step but a further notification takes it out when its timer is not armed. It happens only when a host
  thread stored its flags between the vCPU's check and its sleep.
\<close>

theorem wfi_wakeup_lost_in_window:
  "(\<forall>s. park_step\<^sup>*\<^sup>* park_init s \<and> pk_cpu s = Asleep park \<and> (pk_pending s \<or> pk_stop s) \<and>
        (\<forall>t. pk_host s t = HostIdle) \<longrightarrow> pk_raced s) \<and>
   (\<exists>s. park_step\<^sup>*\<^sup>* park_init s \<and> pk_cpu s = Asleep UntilInterrupt \<and> pk_pending s \<and> pk_stop s \<and>
        (\<forall>t. pk_host s t = HostIdle) \<and> (\<forall>s'. park_step s s' \<longrightarrow> pk_cpu s' = Asleep UntilInterrupt))"
proof
  show "\<forall>s. park_step\<^sup>*\<^sup>* park_init s \<and> pk_cpu s = Asleep park \<and> (pk_pending s \<or> pk_stop s) \<and>
        (\<forall>t. pk_host s t = HostIdle) \<longrightarrow> pk_raced s"
    using park_reachable by (fastforce simp: park_inv_def)
  have "pk_cpu s' = Asleep UntilInterrupt" if "park_step lost_nudge s'" for s'
    using that by (cases rule: park_step.cases) (auto simp: lost_nudge_def park_init_def)
  moreover have "pk_cpu lost_nudge = Asleep UntilInterrupt \<and> pk_pending lost_nudge \<and> pk_stop lost_nudge \<and>
        (\<forall>t. pk_host lost_nudge t = HostIdle)"
    by (simp add: lost_nudge_def park_init_def)
  ultimately show "\<exists>s. park_step\<^sup>*\<^sup>* park_init s \<and> pk_cpu s = Asleep UntilInterrupt \<and> pk_pending s \<and> pk_stop s \<and>
        (\<forall>t. pk_host s t = HostIdle) \<and> (\<forall>s'. park_step s s' \<longrightarrow> pk_cpu s' = Asleep UntilInterrupt)"
    using lost_nudge_reachable by blast
qed

theorem wfi_wakeup_lost_in_window_witness: "pk_raced lost_nudge \<and> pk_stop lost_nudge"
proof -
  have "pk_cpu lost_nudge = Asleep UntilInterrupt \<and> pk_pending lost_nudge \<and> (\<forall>t. pk_host lost_nudge t = HostIdle)"
    by (simp add: lost_nudge_def park_init_def)
  with wfi_wakeup_lost_in_window [of UntilInterrupt] lost_nudge_reachable have "pk_raced lost_nudge" by blast
  then show ?thesis by (simp add: lost_nudge_def)
qed

end
