(* ===== verification/Cpu_Power.thy ===== *)
theory Cpu_Power
  imports Vcpu
begin

text \<open>
  The power state of the guest's CPUs, \<open>ternvale-vmm/src/smp.rs\<close>, and the life of the vCPU threads around it
  (\<open>own_vcpu\<close> of \<open>machine_vcpu.rs\<close>).

  The table is behind one lock, so every method is one step; a method that changes the table also tells
  whether it notifies the threads that wait on the condition variable. One turn of a waiting loop is a
  function that either returns or waits. The handles of the vCPUs are their ids, and the signals sent through
  them are recorded in order.
\<close>

section \<open>Affinities\<close>

definition MPIDR_RES1 :: u64 where "MPIDR_RES1 = 0x80000000"

definition MPIDR_AFFINITY_MASK :: u64 where "MPIDR_AFFINITY_MASK = 0xff00ffffff"

definition CLUSTER :: u32 where "CLUSTER = 16"

definition mpidr :: "u32 \<Rightarrow> u64" where
  "mpidr index = MPIDR_RES1 OR push_bit 8 (ucast (index div CLUSTER)) OR ucast (index mod CLUSTER)"

definition dt_cpu_reg :: "u32 \<Rightarrow> u32" where
  "dt_cpu_reg index = ucast (mpidr index AND 0x00ffffff)"

definition gicr_affinity :: "u64 \<Rightarrow> u64" where
  "gicr_affinity w = push_bit 24 (drop_bit 32 w AND 0xff) OR (w AND 0x00ffffff)"

section \<open>The table\<close>

datatype cpu_state = Off | OnPending u64 u64 | On

record table =
  cpus :: "cpu_state list"
  stops :: "u64 option list"
  ready :: "bool list"
  created :: u32
  stopping :: "exit_reason option"
  sent :: "(signal \<times> u64 list) list"

record cpu_power =
  ram_base :: u64
  ram_end :: u64
  tab :: table

definition power_new :: "u32 \<Rightarrow> u64 \<Rightarrow> u64 \<Rightarrow> cpu_power" where
  "power_new count base sz =
     \<lparr>ram_base = base, ram_end = saturating_add base sz,
      tab = \<lparr>cpus = (replicate (unat count) Off)[0 := On], stops = replicate (unat count) None,
             ready = replicate (unat count) False, created = 0, stopping = None, sent = []\<rparr>\<rparr>"

definition count :: "cpu_power \<Rightarrow> u32" where
  "count p = of_nat (length (cpus (tab p)))"

definition index_of :: "cpu_power \<Rightarrow> u64 \<Rightarrow> nat option" where
  "index_of p t =
     (if t AND NOT MPIDR_AFFINITY_MASK \<noteq> 0 then None
      else find (\<lambda>i. mpidr (of_nat i) AND MPIDR_AFFINITY_MASK = t) [0..<unat (count p)])"

text \<open>A turn of a waiting loop.\<close>

datatype 'a waited = Waits | Returns 'a

definition wait_create_turn :: "cpu_power \<Rightarrow> u32 \<Rightarrow> bool waited" where
  "wait_create_turn p index =
     (if stopping (tab p) \<noteq> None then Returns False
      else if index \<le> created (tab p) then Returns True
      else Waits)"

definition mark_created :: "cpu_power \<Rightarrow> u32 \<Rightarrow> cpu_power \<times> bool" where
  "mark_created p index = (p\<lparr>tab := (tab p)\<lparr>created := max (created (tab p)) (index + 1)\<rparr>\<rparr>, True)"

definition power_register :: "cpu_power \<Rightarrow> nat \<Rightarrow> u64 \<Rightarrow> bool \<times> cpu_power" where
  "power_register p index handle =
     (if stopping (tab p) \<noteq> None then (False, p)
      else (True, p\<lparr>tab := (tab p)\<lparr>stops := (stops (tab p))[index := Some handle]\<rparr>\<rparr>))"

definition deregister :: "cpu_power \<Rightarrow> nat \<Rightarrow> cpu_power" where
  "deregister p index = p\<lparr>tab := (tab p)\<lparr>stops := (stops (tab p))[index := None]\<rparr>\<rparr>"

definition mark_ready :: "cpu_power \<Rightarrow> nat \<Rightarrow> cpu_power \<times> bool" where
  "mark_ready p index = (p\<lparr>tab := (tab p)\<lparr>ready := (ready (tab p))[index := True]\<rparr>\<rparr>, True)"

definition wait_all_ready :: "cpu_power \<Rightarrow> bool waited" where
  "wait_all_ready p =
     (if stopping (tab p) \<noteq> None then Returns False
      else if list_all (\<lambda>r. r) (ready (tab p)) then Returns True
      else Waits)"

definition set_cpu :: "cpu_power \<Rightarrow> nat \<Rightarrow> cpu_state \<Rightarrow> cpu_power" where
  "set_cpu p index st = p\<lparr>tab := (tab p)\<lparr>cpus := (cpus (tab p))[index := st]\<rparr>\<rparr>"

definition wait_for_on :: "cpu_power \<Rightarrow> nat \<Rightarrow> (u64 \<times> u64) option waited \<times> cpu_power" where
  "wait_for_on p index =
     (if stopping (tab p) \<noteq> None then (Returns None, p)
      else case vec_get (cpus (tab p)) index of
        Some (OnPending entry ctx) \<Rightarrow> (Returns (Some (entry, ctx)), set_cpu p index On)
      | _ \<Rightarrow> (Waits, p))"

text \<open>The handles that are registered, and a stop under the lock.\<close>

definition handles :: "table \<Rightarrow> u64 list" where
  "handles t = map the (filter (\<lambda>h. h \<noteq> None) (stops t))"

definition send_all :: "signal \<Rightarrow> table \<Rightarrow> table" where
  "send_all sig t = (if handles t = [] then t else t\<lparr>sent := sent t @ [(sig, handles t)]\<rparr>)"

definition stop_locked :: "table \<Rightarrow> exit_reason \<Rightarrow> table" where
  "stop_locked t reason =
     send_all StopRequested (if stopping t = None then t\<lparr>stopping := Some reason\<rparr> else t)"

definition cpu_off :: "cpu_power \<Rightarrow> nat \<Rightarrow> cpu_power \<times> bool" where
  "cpu_off p index =
     (let p1 = set_cpu p index Off in
      (if list_all (\<lambda>st. st = Off) (cpus (tab p1))
       then p1\<lparr>tab := stop_locked (tab p1) CpuOff\<rparr> else p1, True))"

definition request_stop :: "cpu_power \<Rightarrow> exit_reason \<Rightarrow> cpu_power \<times> bool" where
  "request_stop p reason = (p\<lparr>tab := stop_locked (tab p) reason\<rparr>, True)"

definition power_nudge :: "cpu_power \<Rightarrow> nat \<Rightarrow> cpu_power" where
  "power_nudge p index =
     (case vec_get (stops (tab p)) index of
        Some (Some handle) \<Rightarrow> p\<lparr>tab := (tab p)\<lparr>sent := sent (tab p) @ [(Nudged, [handle])]\<rparr>\<rparr>
      | _ \<Rightarrow> p)"

definition power_nudge_all :: "cpu_power \<Rightarrow> cpu_power" where
  "power_nudge_all p = p\<lparr>tab := send_all Nudged (tab p)\<rparr>"

definition stop_reason :: "cpu_power \<Rightarrow> exit_reason option" where
  "stop_reason p = stopping (tab p)"

text \<open>\<open>cpu_on\<close> and \<open>affinity_info\<close> index the table with what \<open>index_of\<close> returned; a bad index would panic.\<close>

definition cpu_on :: "cpu_power \<Rightarrow> u64 \<Rightarrow> u64 \<Rightarrow> u64 \<Rightarrow> (32 word \<times> cpu_power \<times> bool) option" where
  "cpu_on p t entry ctx =
     (case index_of p t of
        None \<Rightarrow> Some (INVALID_PARAMS, p, False)
      | Some index \<Rightarrow>
          if entry mod 4 \<noteq> 0 \<or> entry < ram_base p \<or> ram_end p \<le> entry then Some (INVALID_ADDRESS, p, False)
          else case vec_get (cpus (tab p)) index of
            None \<Rightarrow> None
          | Some On \<Rightarrow> Some (ALREADY_ON, p, False)
          | Some (OnPending _ _) \<Rightarrow> Some (ON_PENDING, p, False)
          | Some Off \<Rightarrow> Some (SUCCESS, set_cpu p index (OnPending entry ctx), True))"

definition affinity_info :: "cpu_power \<Rightarrow> u64 \<Rightarrow> u64 \<Rightarrow> 32 word option" where
  "affinity_info p t lvl =
     (if lvl \<noteq> 0 then Some INVALID_PARAMS
      else case index_of p t of
        None \<Rightarrow> Some INVALID_PARAMS
      | Some index \<Rightarrow>
          (case vec_get (cpus (tab p)) index of
             None \<Rightarrow> None
           | Some On \<Rightarrow> Some AFFINITY_ON
           | Some Off \<Rightarrow> Some AFFINITY_OFF
           | Some (OnPending _ _) \<Rightarrow> Some AFFINITY_ON_PENDING))"

definition power_handle :: "cpu_power \<Rightarrow> power_request \<Rightarrow> (u64 \<times> cpu_power \<times> bool) option" where
  "power_handle p request =
     (case request of
        CpuOn t entry ctx \<Rightarrow>
          (case cpu_on p t entry ctx of None \<Rightarrow> None | Some (c, p', n) \<Rightarrow> Some (sign c, p', n))
      | AffinityInfo t lvl \<Rightarrow>
          (case affinity_info p t lvl of None \<Rightarrow> None | Some c \<Rightarrow> Some (sign c, p, False)))"

section \<open>The vCPU threads\<close>

text \<open>
  The body of a vCPU thread: it creates its vCPU when its turn comes, registers it and marks it ready; CPU 0
  then waits for all, the others wait to be powered on. A running thread answers power requests, powers off,
  or leaves; a thread that fails stops the machine. \<open>Gone\<close> threads have deregistered their vCPU.

  The system also records in which order vCPUs were created, the accepted \<open>CPU_ON\<close> calls of each CPU and the
  starts its thread made of them.
\<close>

datatype life = Turn | Creating | Setup | AllReady | Parked | Running | Gone

record smp =
  power :: cpu_power
  life :: "nat \<Rightarrow> life"
  made :: "nat list"
  granted :: "nat \<Rightarrow> (u64 \<times> u64) list"
  started :: "nat \<Rightarrow> (u64 \<times> u64) list"

definition smp_init :: "u32 \<Rightarrow> u64 \<Rightarrow> u64 \<Rightarrow> smp" where
  "smp_init n base sz =
     \<lparr>power = power_new n base sz, life = (\<lambda>_. Turn), made = [], granted = (\<lambda>_. []), started = (\<lambda>_. [])\<rparr>"

definition alive :: "smp \<Rightarrow> nat \<Rightarrow> bool" where
  "alive s i \<longleftrightarrow> i < length (cpus (tab (power s)))"

definition goto :: "smp \<Rightarrow> nat \<Rightarrow> life \<Rightarrow> cpu_power \<Rightarrow> smp" where
  "goto s i pc p = s\<lparr>life := (life s)(i := pc), power := p\<rparr>"

text \<open>The accepted calls after a request from a running CPU.\<close>

definition grant :: "cpu_power \<Rightarrow> power_request \<Rightarrow> (nat \<Rightarrow> (u64 \<times> u64) list) \<Rightarrow> nat \<Rightarrow> (u64 \<times> u64) list" where
  "grant p request g =
     (case request of
        CpuOn t entry ctx \<Rightarrow>
          (case cpu_on p t entry ctx of
             Some (c, p', n) \<Rightarrow>
               (case index_of p t of
                  Some j \<Rightarrow> if c = SUCCESS then g(j := g j @ [(entry, ctx)]) else g
                | None \<Rightarrow> g)
           | None \<Rightarrow> g)
      | AffinityInfo _ _ \<Rightarrow> g)"

inductive smp_step :: "smp \<Rightarrow> smp \<Rightarrow> bool" where
  turn: "\<lbrakk>alive s i; life s i = Turn; wait_create_turn (power s) (of_nat i) = Returns True\<rbrakk> \<Longrightarrow>
    smp_step s ((goto s i Creating (power s))\<lparr>made := made s @ [i]\<rparr>)"
| turn_stop: "\<lbrakk>alive s i; life s i = Turn; wait_create_turn (power s) (of_nat i) = Returns False\<rbrakk> \<Longrightarrow>
    smp_step s (goto s i Gone (power s))"
| announce: "\<lbrakk>alive s i; life s i = Creating\<rbrakk> \<Longrightarrow>
    smp_step s (goto s i Setup (fst (mark_created (power s) (of_nat i))))"
| enlist: "\<lbrakk>alive s i; life s i = Setup; power_register (power s) i handle = (True, p)\<rbrakk> \<Longrightarrow>
    smp_step s (goto s i (if i = 0 then AllReady else Parked) (fst (mark_ready p i)))"
| enlist_stop: "\<lbrakk>alive s i; life s i = Setup; power_register (power s) i handle = (False, p)\<rbrakk> \<Longrightarrow>
    smp_step s (goto s i Gone (deregister p i))"
| all_ready: "\<lbrakk>alive s i; life s i = AllReady; wait_all_ready (power s) = Returns ok\<rbrakk> \<Longrightarrow>
    smp_step s (if ok then goto s i Running (power s) else goto s i Gone (deregister (power s) i))"
| power_on: "\<lbrakk>alive s i; life s i = Parked; wait_for_on (power s) i = (Returns (Some (entry, ctx)), p)\<rbrakk> \<Longrightarrow>
    smp_step s ((goto s i Running p)\<lparr>started := (started s)(i := started s i @ [(entry, ctx)])\<rparr>)"
| power_stop: "\<lbrakk>alive s i; life s i = Parked; wait_for_on (power s) i = (Returns None, p)\<rbrakk> \<Longrightarrow>
    smp_step s (goto s i Gone (deregister p i))"
| request: "\<lbrakk>alive s i; life s i = Running; power_handle (power s) req = Some (x0, p, n)\<rbrakk> \<Longrightarrow>
    smp_step s (s\<lparr>power := p, granted := grant (power s) req (granted s)\<rparr>)"
| off: "\<lbrakk>alive s i; life s i = Running\<rbrakk> \<Longrightarrow>
    smp_step s (goto s i Parked (fst (cpu_off (power s) i)))"
| leave: "\<lbrakk>alive s i; life s i = Running; stop_reason (power s) \<noteq> None\<rbrakk> \<Longrightarrow>
    smp_step s (goto s i Gone (deregister (power s) i))"
| fail: "\<lbrakk>alive s i; life s i = Setup \<or> life s i = Running\<rbrakk> \<Longrightarrow>
    smp_step s (goto s i Gone (fst (request_stop (deregister (power s) i) reason)))"
| shutdown: "\<lbrakk>alive s i; life s i = Running\<rbrakk> \<Longrightarrow>
    smp_step s (goto s i Gone (deregister (fst (request_stop (power s) reason)) i))"
| outside: "smp_step s (s\<lparr>power := fst (request_stop (power s) reason)\<rparr>)"
| nudge: "smp_step s (s\<lparr>power := power_nudge (power s) i\<rparr>)"

section \<open>What the operations leave alone\<close>

lemma send_all_fields [simp]:
  "cpus (send_all sig t) = cpus t" "stopping (send_all sig t) = stopping t" "created (send_all sig t) = created t"
  "ready (send_all sig t) = ready t" "stops (send_all sig t) = stops t"
  by (simp_all add: send_all_def)

lemma stop_locked_fields [simp]:
  "cpus (stop_locked t r) = cpus t" "created (stop_locked t r) = created t" "ready (stop_locked t r) = ready t"
  "stops (stop_locked t r) = stops t"
  "stopping (stop_locked t r) = (if stopping t = None then Some r else stopping t)"
  by (simp_all add: stop_locked_def)

lemma request_stop_fields [simp]:
  "cpus (tab (fst (request_stop p r))) = cpus (tab p)" "created (tab (fst (request_stop p r))) = created (tab p)"
  "ram_base (fst (request_stop p r)) = ram_base p" "ram_end (fst (request_stop p r)) = ram_end p"
  "stopping (tab (fst (request_stop p r))) = (if stopping (tab p) = None then Some r else stopping (tab p))"
  by (simp_all add: request_stop_def)

lemma deregister_fields [simp]:
  "cpus (tab (deregister p i)) = cpus (tab p)" "created (tab (deregister p i)) = created (tab p)"
  "stopping (tab (deregister p i)) = stopping (tab p)"
  "ram_base (deregister p i) = ram_base p" "ram_end (deregister p i) = ram_end p"
  by (simp_all add: deregister_def)

lemma mark_created_fields [simp]:
  "cpus (tab (fst (mark_created p i))) = cpus (tab p)" "stopping (tab (fst (mark_created p i))) = stopping (tab p)"
  "created (tab (fst (mark_created p i))) = max (created (tab p)) (i + 1)"
  "ram_base (fst (mark_created p i)) = ram_base p" "ram_end (fst (mark_created p i)) = ram_end p"
  by (simp_all add: mark_created_def)

lemma mark_ready_fields [simp]:
  "cpus (tab (fst (mark_ready p i))) = cpus (tab p)" "stopping (tab (fst (mark_ready p i))) = stopping (tab p)"
  "created (tab (fst (mark_ready p i))) = created (tab p)"
  "ram_base (fst (mark_ready p i)) = ram_base p" "ram_end (fst (mark_ready p i)) = ram_end p"
  by (simp_all add: mark_ready_def)

lemma power_nudge_fields [simp]:
  "cpus (tab (power_nudge p i)) = cpus (tab p)" "stopping (tab (power_nudge p i)) = stopping (tab p)"
  "created (tab (power_nudge p i)) = created (tab p)"
  "ram_base (power_nudge p i) = ram_base p" "ram_end (power_nudge p i) = ram_end p"
  by (simp_all add: power_nudge_def split: option.splits)

lemma set_cpu_fields [simp]:
  "cpus (tab (set_cpu p i st)) = (cpus (tab p))[i := st]" "stopping (tab (set_cpu p i st)) = stopping (tab p)"
  "created (tab (set_cpu p i st)) = created (tab p)" "ready (tab (set_cpu p i st)) = ready (tab p)"
  "ram_base (set_cpu p i st) = ram_base p" "ram_end (set_cpu p i st) = ram_end p"
  by (simp_all add: set_cpu_def)

lemma cpu_off_fields [simp]:
  "cpus (tab (fst (cpu_off p i))) = (cpus (tab p))[i := Off]" "created (tab (fst (cpu_off p i))) = created (tab p)"
  "ram_base (fst (cpu_off p i)) = ram_base p" "ram_end (fst (cpu_off p i)) = ram_end p"
  by (simp_all add: cpu_off_def Let_def)

lemma power_register_fields:
  assumes "power_register p i h = (ok, p')"
  shows "cpus (tab p') = cpus (tab p)" "created (tab p') = created (tab p)" "stopping (tab p') = stopping (tab p)"
    "ram_base p' = ram_base p" "ram_end p' = ram_end p"
  using assms by (auto simp: power_register_def split: if_splits)

lemma wait_for_on_cases:
  assumes "wait_for_on p i = (Returns r, p')"
  shows "r = None \<and> p' = p \<and> stopping (tab p) \<noteq> None \<or>
    (\<exists>entry ctx. r = Some (entry, ctx) \<and> i < length (cpus (tab p)) \<and> cpus (tab p) ! i = OnPending entry ctx \<and>
       p' = set_cpu p i On \<and> stopping (tab p) = None)"
  using assms by (auto simp: wait_for_on_def vec_get_def split: if_splits cpu_state.splits)

lemma index_of_less: "index_of p t = Some i \<Longrightarrow> i < unat (count p)"
  by (auto simp: index_of_def find_Some_iff split: if_splits)

lemma power_handle_cases:
  assumes "power_handle p req = Some (x0, p', n)"
  shows "p' = p \<and> grant p req g = g \<or>
    (\<exists>t entry ctx j. req = CpuOn t entry ctx \<and> index_of p t = Some j \<and> j < length (cpus (tab p)) \<and>
       cpus (tab p) ! j = Off \<and> entry mod 4 = 0 \<and> ram_base p \<le> entry \<and> entry < ram_end p \<and>
       p' = set_cpu p j (OnPending entry ctx) \<and> n \<and> x0 = sign SUCCESS \<and> grant p req g = g(j := g j @ [(entry, ctx)]))"
  using assms
  by (auto simp: power_handle_def cpu_on_def grant_def vec_get_def code_defs
      split: power_request.splits option.splits if_splits cpu_state.splits)

lemma power_handle_state:
  assumes "power_handle p req = Some (x0, p', n)"
  shows "p' = p \<or> (\<exists>j entry ctx. p' = set_cpu p j (OnPending entry ctx) \<and> n)"
  using power_handle_cases [OF assms, of "\<lambda>_. []"] by blast

section \<open>Every accepted start happens once\<close>

definition pending_start :: "cpu_state \<Rightarrow> (u64 \<times> u64) list" where
  "pending_start st = (case st of OnPending entry ctx \<Rightarrow> [(entry, ctx)] | _ \<Rightarrow> [])"

definition entry_ok :: "cpu_power \<Rightarrow> u64 \<Rightarrow> bool" where
  "entry_ok p entry \<longleftrightarrow> entry mod 4 = 0 \<and> ram_base p \<le> entry \<and> entry < ram_end p"

text \<open>The CPU is on while its thread runs, and CPU 0 from the beginning.\<close>

definition powered :: "nat \<Rightarrow> life \<Rightarrow> bool" where
  "powered i pc \<longleftrightarrow> pc = Running \<or> i = 0 \<and> pc \<noteq> Parked \<and> pc \<noteq> Gone"

definition cpu_inv :: "smp \<Rightarrow> nat \<Rightarrow> bool" where
  "cpu_inv s i \<longleftrightarrow>
     (powered i (life s i) \<longrightarrow> cpus (tab (power s)) ! i = On) \<and> (life s i = AllReady \<longrightarrow> i = 0) \<and>
     granted s i = started s i @ pending_start (cpus (tab (power s)) ! i) \<and>
     (\<forall>(entry, ctx) \<in> set (granted s i). entry_ok (power s) entry)"

definition start_inv :: "smp \<Rightarrow> bool" where
  "start_inv s \<longleftrightarrow> (\<forall>i < length (cpus (tab (power s))). cpu_inv s i)"

lemma pending_start_simps [simp]:
  "pending_start Off = []" "pending_start On = []" "pending_start (OnPending e c) = [(e, c)]"
  by (simp_all add: pending_start_def)

lemma start_inv_init: "start_inv (smp_init n base sz)"
proof -
  have "(replicate (unat n) Off)[0 := On] ! i = (if i = 0 then On else Off)" if "i < unat n" for i
    using that by simp
  then show ?thesis
    by (auto simp: start_inv_def cpu_inv_def smp_init_def power_new_def powered_def)
qed

text \<open>A step that keeps the table, or changes the state of one CPU only.\<close>

lemma start_inv_goto:
  assumes "start_inv s" and "cpus (tab p) = cpus (tab (power s))" and "ram_base p = ram_base (power s)"
    and "ram_end p = ram_end (power s)" and "i < length (cpus (tab (power s)))"
    and "powered i pc \<Longrightarrow> powered i (life s i)" and "pc = AllReady \<Longrightarrow> i = 0"
  shows "start_inv (goto s i pc p)"
  using assms by (auto simp: start_inv_def cpu_inv_def goto_def entry_ok_def)

lemma start_inv_power:
  assumes "start_inv s" and "cpus (tab p) = cpus (tab (power s))" and "ram_base p = ram_base (power s)"
    and "ram_end p = ram_end (power s)"
  shows "start_inv (s\<lparr>power := p\<rparr>)"
  using assms by (auto simp: start_inv_def cpu_inv_def entry_ok_def)

lemma start_inv_made [simp]: "start_inv (s\<lparr>made := m\<rparr>) = start_inv s"
  by (simp add: start_inv_def cpu_inv_def)

lemma start_inv_set_cpu:
  assumes "start_inv s" and "cpus (tab (power s')) = (cpus (tab (power s)))[i := st]"
    and "ram_base (power s') = ram_base (power s)" and "ram_end (power s') = ram_end (power s)"
    and "\<And>j. j \<noteq> i \<Longrightarrow> life s' j = life s j \<and> granted s' j = granted s j \<and> started s' j = started s j"
    and "i < length (cpus (tab (power s))) \<Longrightarrow> cpu_inv s' i"
  shows "start_inv s'"
  unfolding start_inv_def
proof (intro allI impI)
  fix j assume j: "j < length (cpus (tab (power s')))"
  show "cpu_inv s' j"
  proof (cases "j = i")
    case False
    with assms(1,2) j have "cpu_inv s j" by (simp add: start_inv_def)
    with assms(2-4) assms(5) [OF False] False show ?thesis by (simp add: cpu_inv_def entry_ok_def)
  qed (use assms(2,6) j in simp)
qed

lemma start_inv_step: "smp_step s s' \<Longrightarrow> start_inv s \<Longrightarrow> start_inv s'"
proof (induction rule: smp_step.induct)
  case (power_on s i entry ctx p)
  then have c: "cpus (tab (power s)) ! i = OnPending entry ctx" "p = set_cpu (power s) i On"
    using wait_for_on_cases by fastforce+
  have "cpu_inv s i" using power_on by (simp add: start_inv_def alive_def)
  with c power_on show ?case
    by (intro start_inv_set_cpu [OF power_on.prems, where i = i and st = On])
      (simp_all add: goto_def cpu_inv_def alive_def entry_ok_def)
next
  case (request s i req x0 p n)
  from power_handle_cases [OF request(3), of "granted s"] show ?case
  proof (elim disjE exE conjE)
    fix t entry ctx j
    assume a: "index_of (power s) t = Some j" "j < length (cpus (tab (power s)))" "cpus (tab (power s)) ! j = Off"
      "p = set_cpu (power s) j (OnPending entry ctx)" "entry mod 4 = 0" "ram_base (power s) \<le> entry"
      "entry < ram_end (power s)"
      "grant (power s) req (granted s) = (granted s)(j := granted s j @ [(entry, ctx)])"
    have "cpu_inv s j" using request.prems a(2) by (simp add: start_inv_def)
    with a show ?thesis
      by (intro start_inv_set_cpu [OF request.prems, where i = j and st = "OnPending entry ctx"])
        (simp_all add: cpu_inv_def entry_ok_def)
  qed (use request.prems in \<open>simp add: start_inv_def cpu_inv_def\<close>)
next
  case (off s i)
  have "cpu_inv s i" using off by (simp add: start_inv_def alive_def)
  with off show ?case
    by (intro start_inv_set_cpu [OF off.prems, where i = i and st = Off])
      (simp_all add: goto_def cpu_inv_def alive_def powered_def entry_ok_def)
next
  case (enlist s i handle p)
  note f = power_register_fields [OF enlist(3)]
  from enlist show ?case by (intro start_inv_goto) (auto simp: f alive_def powered_def split: if_splits)
next
  case (enlist_stop s i handle p)
  note f = power_register_fields [OF enlist_stop(3)]
  from enlist_stop show ?case by (intro start_inv_goto) (auto simp: f alive_def powered_def)
next
  case (all_ready s i ok)
  then have "i = 0" by (auto simp: start_inv_def cpu_inv_def alive_def)
  with all_ready show ?case by (auto intro!: start_inv_goto simp: alive_def powered_def)
next
  case (power_stop s i p)
  with wait_for_on_cases [OF power_stop(3)] show ?case
    by (intro start_inv_goto) (auto simp: alive_def powered_def)
qed (auto intro!: start_inv_goto start_inv_power simp: alive_def powered_def)

section \<open>vCPUs are created in order\<close>

text \<open>
  The hypervisor numbers vCPUs in the order of their creation. Threads that have not created theirs come after
  those that have; one thread at most is between the creation and its announcement, and it is the last.
\<close>

definition in_order :: "nat list \<Rightarrow> bool" where
  "in_order xs \<longleftrightarrow> xs = [0..<length xs]"

lemma in_order_Nil [simp]: "in_order []"
  by (simp add: in_order_def)

lemma in_order_snoc: "in_order xs \<Longrightarrow> in_order (xs @ [length xs])"
  by (simp add: in_order_def)

definition make_inv :: "smp \<Rightarrow> bool" where
  "make_inv s \<longleftrightarrow>
     length (cpus (tab (power s))) < 2 ^ 32 \<and> in_order (made s) \<and>
     length (made s) \<le> length (cpus (tab (power s))) \<and>
     (\<forall>i < length (cpus (tab (power s))). life s i = Turn \<longrightarrow> length (made s) \<le> i) \<and>
     (\<forall>i < length (cpus (tab (power s))). life s i = Creating \<longrightarrow>
        Suc i = length (made s) \<and> unat (created (tab (power s))) = i) \<and>
     unat (created (tab (power s))) \<le> length (made s)"

lemma make_inv_init: "make_inv (smp_init n base sz)"
proof -
  have "unat n < 2 ^ 32" by (rule order.strict_trans2 [OF unsigned_less]) simp
  then show ?thesis by (simp add: make_inv_def smp_init_def power_new_def)
qed

lemma make_inv_keep:
  assumes "make_inv s" and "length (cpus (tab (power s'))) = length (cpus (tab (power s)))"
    and "created (tab (power s')) = created (tab (power s))" and "made s' = made s"
    and "\<And>j. life s' j = life s j \<or> life s' j \<notin> {Turn, Creating}"
  shows "make_inv s'"
proof -
  have "life s j = pc" if "life s' j = pc" "pc = Turn \<or> pc = Creating" for j pc
    using assms(5) [of j] that by auto
  with assms(1) show ?thesis unfolding make_inv_def assms(2-4) by blast
qed

lemma make_inv_step: "smp_step s s' \<Longrightarrow> make_inv s \<Longrightarrow> make_inv s'"
proof (induction rule: smp_step.induct)
  case (turn s i)
  let ?k = "unat (created (tab (power s)))"
  have i: "i < length (cpus (tab (power s)))" "i < 2 ^ 32" using turn by (auto simp: alive_def make_inv_def)
  have "i \<le> ?k" using turn(3) i
    by (auto simp: wait_create_turn_def word_le_nat_alt unat_of_nat_small split: if_splits)
  moreover have "length (made s) \<le> i" "?k \<le> length (made s)" using turn i by (auto simp: make_inv_def)
  ultimately have eq: "length (made s) = i" "?k = i" by auto
  moreover have "life s j \<noteq> Creating" if "j < length (cpus (tab (power s)))" for j
  proof
    assume "life s j = Creating"
    with turn.prems that have "Suc j = length (made s)" "?k = j" by (auto simp: make_inv_def)
    with eq show False by simp
  qed
  ultimately show ?case using turn i in_order_snoc [of "made s"] by (auto simp: make_inv_def goto_def)
next
  case (announce s i)
  note inv = announce.prems [unfolded make_inv_def]
  have i: "i < length (cpus (tab (power s)))" using announce(1) by (simp add: alive_def)
  have lt: "Suc i < 2 ^ 32" using inv i by linarith
  have k: "Suc i = length (made s)" "unat (created (tab (power s))) = i" using announce(2) inv i by blast+
  have "of_nat i + 1 = (of_nat (Suc i) :: u32)" by simp
  moreover have "unat (of_nat (Suc i) :: u32) = Suc i" by (rule unat_of_nat_small) (use lt in simp)
  ultimately have "unat (of_nat i + 1 :: u32) = Suc i" by metis
  then have c: "unat (max (created (tab (power s))) (of_nat i + 1)) = Suc i"
    using k by (simp add: max_def word_le_nat_alt)
  have "j = i" if "j < length (cpus (tab (power s)))" "life s j = Creating" for j
  proof -
    have "Suc j = length (made s)" using inv that by blast
    with k(1) show ?thesis by simp
  qed
  then have none: "((life s)(i := Setup)) j \<noteq> Creating" if "j < length (cpus (tab (power s)))" for j
    using that by auto
  have turns: "length (made s) \<le> j" if "j < length (cpus (tab (power s)))" "((life s)(i := Setup)) j = Turn" for j
  proof -
    have "life s j = Turn" using that(2) by (simp split: if_splits)
    with inv that(1) show ?thesis by blast
  qed
  let ?t = "goto s i Setup (fst (mark_created (power s) (of_nat i)))"
  have f: "cpus (tab (power ?t)) = cpus (tab (power s))" "made ?t = made s" "life ?t = (life s)(i := Setup)"
    "created (tab (power ?t)) = max (created (tab (power s))) (of_nat i + 1)"
    by (simp_all add: goto_def)
  show ?case
    unfolding make_inv_def f c
  proof (intro conjI allI impI)
    show "length (cpus (tab (power s))) < 2 ^ 32" "in_order (made s)"
      "length (made s) \<le> length (cpus (tab (power s)))"
      using inv by simp_all
    show "Suc i \<le> length (made s)" using k(1) by simp
  next
    fix j assume "j < length (cpus (tab (power s)))" "((life s)(i := Setup)) j = Turn"
    then show "length (made s) \<le> j" by (rule turns)
  next
    fix j assume "j < length (cpus (tab (power s)))" "((life s)(i := Setup)) j = Creating"
    then have False using none [of j] by simp
    then show "Suc j = length (made s)" "Suc i = j" by (rule FalseE)+
  qed
next
  case (enlist s i handle p)
  from power_register_fields [OF enlist(3)] show ?case
    by (intro make_inv_keep [OF enlist.prems]) (auto simp: goto_def)
next
  case (enlist_stop s i handle p)
  from power_register_fields [OF enlist_stop(3)] show ?case
    by (intro make_inv_keep [OF enlist_stop.prems]) (auto simp: goto_def)
next
  case (power_on s i entry ctx p)
  from wait_for_on_cases [OF power_on(3)] show ?case
    by (intro make_inv_keep [OF power_on.prems]) (auto simp: goto_def)
next
  case (power_stop s i p)
  from wait_for_on_cases [OF power_stop(3)] show ?case
    by (intro make_inv_keep [OF power_stop.prems]) (auto simp: goto_def)
next
  case (request s i req x0 p n)
  have "length (cpus (tab p)) = length (cpus (tab (power s)))" "created (tab p) = created (tab (power s))"
    using power_handle_cases [OF request(3), of "granted s"] by auto
  then show ?case by (intro make_inv_keep [OF request.prems]) auto
qed (erule make_inv_keep; auto simp: goto_def)+

lemma smp_reachable:
  assumes "smp_step\<^sup>*\<^sup>* (smp_init n base sz) s"
  shows "start_inv s" "make_inv s"
  using assms by (induction rule: rtranclp_induct)
    (auto intro: start_inv_init make_inv_init start_inv_step make_inv_step)

section \<open>Affinities identify CPUs\<close>

text \<open>
  For up to $2^{20}$ CPUs the fields of an \<open>MPIDR\<close> do not overlap and lie under the affinity mask, so the
  masked value is a sum that determines the index.
\<close>

definition affinity :: "nat \<Rightarrow> u64" where
  "affinity i = push_bit 8 (of_nat (i div 16)) OR of_nat (i mod 16)"

lemma mpidr_affinity:
  assumes "i < 2 ^ 20"
  shows "mpidr (of_nat i) = MPIDR_RES1 OR affinity i"
proof -
  have u: "unat (of_nat i :: u32) = i" using assms by (intro unat_of_nat_small) simp
  have "unat (ucast (of_nat i div CLUSTER :: u32) :: u64) = i div 16"
    "unat (ucast (of_nat i mod CLUSTER :: u32) :: u64) = i mod 16"
    using assms by (simp_all add: unsigned_ucast_eq u CLUSTER_def unat_div unat_mod take_bit_nat_eq_self)
  moreover have "unat (of_nat (i div 16) :: u64) = i div 16" "unat (of_nat (i mod 16) :: u64) = i mod 16"
    using assms by (simp_all add: unat_of_nat_small)
  ultimately have "ucast (of_nat i div CLUSTER :: u32) = (of_nat (i div 16) :: u64)"
    "ucast (of_nat i mod CLUSTER :: u32) = (of_nat (i mod 16) :: u64)"
    by (simp_all add: word_unat_eq_iff)
  then show ?thesis by (simp add: mpidr_def affinity_def or.assoc)
qed

lemma unat_affinity:
  assumes "i < 2 ^ 20"
  shows "unat (affinity i) = i div 16 * 256 + i mod 16"
proof -
  have "push_bit 8 (of_nat (i div 16) :: u64) OR of_nat (i mod 16) = push_bit 8 (of_nat (i div 16)) + of_nat (i mod 16)"
  proof (rule disjunctive_add [symmetric])
    fix n
    have "\<not> bit (i mod 16) n" if "8 \<le> n"
    proof -
      have "i mod 16 < 2 ^ n" using power_increasing [OF that, of "2 :: nat"] by (simp add: order.strict_trans2)
      then show ?thesis by (simp add: bit_iff_odd)
    qed
    then show "\<not> bit (push_bit 8 (of_nat (i div 16) :: u64)) n \<or> \<not> bit (of_nat (i mod 16) :: u64) n"
      by (auto simp: bit_push_bit_iff bit_of_nat_iff)
  qed
  also have "\<dots> = of_nat (i div 16 * 256 + i mod 16)" by (simp add: push_bit_eq_mult)
  finally have "affinity i = of_nat (i div 16 * 256 + i mod 16)" by (simp add: affinity_def)
  moreover have "i div 16 * 256 + i mod 16 < 2 ^ 64" using assms by auto
  ultimately show ?thesis using unat_of_nat_small [of "i div 16 * 256 + i mod 16", where 'a = 64] by simp
qed

lemma affinity_inj: "affinity i = affinity j \<Longrightarrow> i < 2 ^ 20 \<Longrightarrow> j < 2 ^ 20 \<Longrightarrow> i = j"
proof -
  assume "affinity i = affinity j" "i < 2 ^ 20" "j < 2 ^ 20"
  then have eq: "i div 16 * 256 + i mod 16 = j div 16 * 256 + j mod 16" using unat_affinity by metis
  have split: "a = c \<and> b = d" if "a * 256 + b = c * 256 + d" "b < 16" "d < 16" for a b c d :: nat
  proof -
    have "(a * 256 + b) div 256 = a" "(c * 256 + d) div 256 = c" using that by simp_all
    then have "a = c" using that(1) by metis
    with that show ?thesis by simp
  qed
  have "i div 16 = j div 16 \<and> i mod 16 = j mod 16" by (rule split [OF eq]) simp_all
  then show "i = j" by (metis div_mult_mod_eq)
qed

lemma affinity_low:
  assumes "i < 2 ^ 20"
  shows "take_bit 24 (affinity i) = affinity i"
proof -
  have "unat (affinity i) < 2 ^ 24" using assms by (auto simp: unat_affinity)
  then show ?thesis by (simp add: word_unat_eq_iff unsigned_take_bit_eq take_bit_nat_eq_self)
qed

lemma masked_low:
  assumes "take_bit 24 w = (w :: u64)" and "take_bit 24 m = mask 24" and "take_bit 24 r = (0 :: u64)" and "r AND m = 0"
  shows "(r OR w) AND m = w"
proof -
  have "bit m n" if "bit w n" for n
  proof -
    have n: "n < 24" using assms(1) that by (metis bit_take_bit_iff)
    have "bit (take_bit 24 m) n" unfolding assms(2) using n by (simp add: bit_mask_iff)
    then show ?thesis by (simp add: bit_take_bit_iff)
  qed
  then have "w AND m = w" by (auto intro!: bit_eqI simp: bit_and_iff)
  with assms(4) show ?thesis by (simp add: bit.conj_disj_distrib2)
qed

lemma mpidr_views:
  assumes "i < 2 ^ 20"
  shows "mpidr (of_nat i) AND MPIDR_AFFINITY_MASK = affinity i" "mpidr (of_nat i) AND 0x00ffffff = affinity i"
  unfolding mpidr_affinity [OF assms]
  by (rule masked_low [OF affinity_low [OF assms]];
      simp add: MPIDR_AFFINITY_MASK_def MPIDR_RES1_def mask_eq_exp_minus_1 take_bit_eq_mask)+

lemma affinity_masked: "i < 2 ^ 20 \<Longrightarrow> affinity i AND NOT MPIDR_AFFINITY_MASK = 0"
  unfolding mpidr_views(1) [symmetric] by (simp add: and.assoc)

lemma count_small: "length (cpus (tab p)) < 2 ^ 32 \<Longrightarrow> unat (count p) = length (cpus (tab p))"
  unfolding count_def by (rule unat_of_nat_small) simp

lemma index_of_iff:
  assumes "length (cpus (tab p)) \<le> 2 ^ 20"
  shows "index_of p t = Some i \<longleftrightarrow> i < length (cpus (tab p)) \<and> t = affinity i"
proof -
  define n where "n = length (cpus (tab p))"
  have n: "unat (count p) = n" "\<And>j. j < n \<Longrightarrow> j < 2 ^ 20" using assms by (auto simp: n_def count_small)
  have idx: "index_of p t = (if t AND NOT MPIDR_AFFINITY_MASK \<noteq> 0 then None else find (\<lambda>j. affinity j = t) [0..<n])"
    unfolding index_of_def n(1) by (intro if_cong refl find_cong) (auto simp: mpidr_views(1) [OF n(2)])
  show ?thesis
  proof
    assume "index_of p t = Some i"
    then show "i < length (cpus (tab p)) \<and> t = affinity i"
      unfolding idx by (auto simp: find_Some_iff n_def split: if_splits)
  next
    assume a: "i < length (cpus (tab p)) \<and> t = affinity i"
    then have i: "i < n" "t = affinity i" by (auto simp: n_def)
    obtain j where j: "find (\<lambda>j. affinity j = t) [0..<n] = Some j"
      using i by (cases "find (\<lambda>j. affinity j = t) [0..<n]") (auto simp: find_None_iff)
    then have "j < n" "affinity j = affinity i" using i by (auto simp: find_Some_iff)
    then have "j = i" using affinity_inj n(2) i by blast
    with j i affinity_masked [OF n(2) [OF i(1)]] show "index_of p t = Some i" unfolding idx by simp
  qed
qed

section \<open>Waking and stopping\<close>

text \<open>The operations as steps; the flag tells whether the waiting threads are notified.\<close>

datatype power_op =
    MarkCreated u32
  | Register nat u64
  | Deregister nat
  | MarkReady nat
  | WaitForOn nat
  | CpuOffOp nat
  | RequestStop exit_reason
  | Nudge nat
  | NudgeAll
  | Handle power_request

fun power_step :: "cpu_power \<Rightarrow> power_op \<Rightarrow> cpu_power \<times> bool" where
  "power_step p (MarkCreated i) = mark_created p i"
| "power_step p (Register i h) = (snd (power_register p i h), False)"
| "power_step p (Deregister i) = (deregister p i, False)"
| "power_step p (MarkReady i) = mark_ready p i"
| "power_step p (WaitForOn i) = (snd (wait_for_on p i), False)"
| "power_step p (CpuOffOp i) = cpu_off p i"
| "power_step p (RequestStop r) = request_stop p r"
| "power_step p (Nudge i) = (power_nudge p i, False)"
| "power_step p NudgeAll = (power_nudge_all p, False)"
| "power_step p (Handle req) = (case power_handle p req of None \<Rightarrow> (p, False) | Some (x0, p', n) \<Rightarrow> (p', n))"

definition told_to_stop :: "table \<Rightarrow> u64 \<Rightarrow> bool" where
  "told_to_stop t h \<longleftrightarrow> (\<exists>ids. (StopRequested, ids) \<in> set (sent t) \<and> h \<in> set ids)"

definition stop_inv :: "cpu_power \<Rightarrow> bool" where
  "stop_inv p \<longleftrightarrow> (stopping (tab p) \<noteq> None \<longrightarrow> (\<forall>h \<in> set (handles (tab p)). told_to_stop (tab p) h))"

lemma handles_mem: "h \<in> set (handles t) \<longleftrightarrow> Some h \<in> set (stops t)"
  by (force simp: handles_def)

lemma told_stop_locked: "h \<in> set (handles t) \<Longrightarrow> told_to_stop (stop_locked t r) h"
proof -
  assume "h \<in> set (handles t)"
  moreover have "handles (t\<lparr>stopping := x\<rparr>) = handles t" for x by (simp add: handles_def)
  ultimately have "(StopRequested, handles t) \<in> set (sent (stop_locked t r))"
    by (auto simp: stop_locked_def send_all_def)
  with \<open>h \<in> set (handles t)\<close> show ?thesis unfolding told_to_stop_def by blast
qed

lemma handles_stop_locked [simp]: "handles (stop_locked t r) = handles t"
  by (simp add: handles_def)

lemma told_mono: "told_to_stop t h \<Longrightarrow> set (sent t) \<subseteq> set (sent t') \<Longrightarrow> told_to_stop t' h"
  unfolding told_to_stop_def by blast

lemma stop_inv_keep:
  assumes "stop_inv p" and "stopping (tab p') = stopping (tab p)" and "set (handles (tab p')) \<subseteq> set (handles (tab p))"
    and "set (sent (tab p)) \<subseteq> set (sent (tab p'))"
  shows "stop_inv p'"
  unfolding stop_inv_def
proof (intro impI ballI)
  fix h assume "stopping (tab p') \<noteq> None" "h \<in> set (handles (tab p'))"
  then have "told_to_stop (tab p) h" using assms(1-3) by (auto simp: stop_inv_def)
  then show "told_to_stop (tab p') h" using assms(4) by (rule told_mono)
qed

lemma stop_inv_stop: "stop_inv (p\<lparr>tab := stop_locked t r\<rparr>)"
  by (simp add: stop_inv_def told_stop_locked)

lemma stop_inv_step: "stop_inv p \<Longrightarrow> stop_inv (fst (power_step p op))"
proof (cases op)
  case (Register i h)
  assume inv: "stop_inv p"
  show ?thesis
  proof (cases "stopping (tab p)")
    case None
    then show ?thesis using Register by (simp add: stop_inv_def power_register_def)
  qed (use Register inv in \<open>simp add: power_register_def\<close>)
next
  case (Deregister i)
  assume "stop_inv p"
  then show ?thesis unfolding Deregister
    by (rule stop_inv_keep) (auto simp: deregister_def handles_mem dest: set_update_subset_insert [THEN subsetD])
next
  case (WaitForOn i)
  assume "stop_inv p"
  then show ?thesis unfolding WaitForOn
    by (rule stop_inv_keep)
      (auto simp: wait_for_on_def set_cpu_def handles_def split: option.splits cpu_state.splits)
next
  case (CpuOffOp i)
  assume inv: "stop_inv p"
  then have "stop_inv (set_cpu p i Off)"
    by (rule stop_inv_keep) (auto simp: set_cpu_def handles_def)
  then show ?thesis using CpuOffOp by (simp add: cpu_off_def Let_def stop_inv_stop)
next
  case (Handle req)
  assume inv: "stop_inv p"
  have "stop_inv p'" if "power_handle p req = Some (x0, p', n)" for x0 p' n
    using power_handle_state [OF that] inv
    by (auto intro!: stop_inv_keep [OF inv] simp: set_cpu_def handles_def)
  with inv Handle show ?thesis by (auto split: option.splits)
next
  case (RequestStop r)
  then show ?thesis by (simp add: request_stop_def stop_inv_stop)
next
  case (Nudge i)
  assume "stop_inv p"
  then show ?thesis unfolding Nudge
    by (rule stop_inv_keep) (auto simp: power_nudge_def handles_def split: option.splits)
next
  case NudgeAll
  assume "stop_inv p"
  then show ?thesis unfolding NudgeAll
    by (rule stop_inv_keep) (auto simp: power_nudge_all_def send_all_def handles_def)
next
  case (MarkCreated i)
  assume "stop_inv p"
  then show ?thesis unfolding MarkCreated by (rule stop_inv_keep) (auto simp: mark_created_def handles_def)
next
  case (MarkReady i)
  assume "stop_inv p"
  then show ?thesis unfolding MarkReady by (rule stop_inv_keep) (auto simp: mark_ready_def handles_def)
qed

lemma stopping_step:
  assumes "stopping (tab p) = Some r"
  shows "stopping (tab (fst (power_step p op))) = Some r"
proof (cases op)
  case (Handle req)
  have "stopping (tab p') = Some r" if "power_handle p req = Some (x0, p', n)" for x0 p' n
    using power_handle_state [OF that] assms by auto
  with assms Handle show ?thesis by (auto split: option.splits)
next
  case (Register i h)
  then show ?thesis using assms by (simp add: power_register_def)
next
  case (WaitForOn i)
  then show ?thesis using assms by (simp add: wait_for_on_def)
next
  case (CpuOffOp i)
  then show ?thesis using assms by (simp add: cpu_off_def Let_def)
next
  case NudgeAll
  then show ?thesis using assms by (simp add: power_nudge_all_def)
qed (use assms in simp_all)

interpretation power_stop: component "\<lambda>p op. fst (power_step p op)" stop_inv
  by unfold_locales (rule stop_inv_step)

interpretation power_reason: component "\<lambda>p op. fst (power_step p op)" "\<lambda>p. stopping (tab p) = Some r" for r
  by unfold_locales (rule stopping_step)

lemma power_new_stop_inv: "stop_inv (power_new n base sz)"
  by (simp add: stop_inv_def power_new_def)

text \<open>A run of two CPUs in which CPU 0 starts CPU 1.\<close>

definition demo_smp :: "life \<Rightarrow> life \<Rightarrow> cpu_state \<Rightarrow> u64 option list \<Rightarrow> bool list \<Rightarrow> u32 \<Rightarrow> nat list \<Rightarrow>
    (u64 \<times> u64) list \<Rightarrow> (u64 \<times> u64) list \<Rightarrow> smp" where
  "demo_smp l0 l1 c1 st rd cr mk g sd =
     \<lparr>power = \<lparr>ram_base = 0x40000000, ram_end = 0x40010000,
        tab = \<lparr>cpus = [On, c1], stops = st, ready = rd, created = cr, stopping = None, sent = []\<rparr>\<rparr>,
      life = (\<lambda>_. Turn)(0 := l0, 1 := l1), made = mk, granted = (\<lambda>_. [])(1 := g), started = (\<lambda>_. [])(1 := sd)\<rparr>"

lemmas demo_smp_simps = demo_smp_def goto_def alive_def fun_eq_iff wait_create_turn_def mark_created_def
  power_register_def mark_ready_def wait_all_ready_def wait_for_on_def set_cpu_def vec_get_def

lemma replicate_2: "replicate 2 x = [x, x]"
  by (simp add: numeral_2_eq_2)

lemma smp_step_eq: "smp_step a b \<Longrightarrow> b = c \<Longrightarrow> smp_step a c"
  by simp

lemma smp_star: "smp_step a b \<Longrightarrow> smp_step\<^sup>*\<^sup>* b c \<Longrightarrow> smp_step\<^sup>*\<^sup>* a c"
  by (rule converse_rtranclp_into_rtranclp)

lemma demo_smp_start:
  "smp_init 2 0x40000000 0x10000 = demo_smp Turn Turn Off [None, None] [False, False] 0 [] [] []"
  by (simp add: smp_init_def power_new_def demo_smp_def fun_eq_iff saturating_add_def checked_add_def replicate_2)

lemma demo_smp_create:
  "smp_step (demo_smp Turn Turn Off [None, None] [False, False] 0 [] [] [])
     (demo_smp Creating Turn Off [None, None] [False, False] 0 [0] [] [])"
  "smp_step (demo_smp Creating Turn Off [None, None] [False, False] 0 [0] [] [])
     (demo_smp Setup Turn Off [None, None] [False, False] 1 [0] [] [])"
  "smp_step (demo_smp Setup Turn Off [None, None] [False, False] 1 [0] [] [])
     (demo_smp Setup Creating Off [None, None] [False, False] 1 [0, 1] [] [])"
  "smp_step (demo_smp Setup Creating Off [None, None] [False, False] 1 [0, 1] [] [])
     (demo_smp Setup Setup Off [None, None] [False, False] 2 [0, 1] [] [])"
proof -
  show "smp_step (demo_smp Turn Turn Off [None, None] [False, False] 0 [] [] [])
     (demo_smp Creating Turn Off [None, None] [False, False] 0 [0] [] [])"
    by (rule smp_step_eq [OF smp_step.turn [of "demo_smp Turn Turn Off [None, None] [False, False] 0 [] [] []" 0]]) (simp_all add: demo_smp_simps)
  show "smp_step (demo_smp Creating Turn Off [None, None] [False, False] 0 [0] [] [])
     (demo_smp Setup Turn Off [None, None] [False, False] 1 [0] [] [])"
    by (rule smp_step_eq [OF smp_step.announce [of "demo_smp Creating Turn Off [None, None] [False, False] 0 [0] [] []" 0]]) (simp_all add: demo_smp_simps)
  show "smp_step (demo_smp Setup Turn Off [None, None] [False, False] 1 [0] [] [])
     (demo_smp Setup Creating Off [None, None] [False, False] 1 [0, 1] [] [])"
    by (rule smp_step_eq [OF smp_step.turn [of "demo_smp Setup Turn Off [None, None] [False, False] 1 [0] [] []" 1]]) (simp_all add: demo_smp_simps)
  show "smp_step (demo_smp Setup Creating Off [None, None] [False, False] 1 [0, 1] [] [])
     (demo_smp Setup Setup Off [None, None] [False, False] 2 [0, 1] [] [])"
    by (rule smp_step_eq [OF smp_step.announce [of "demo_smp Setup Creating Off [None, None] [False, False] 1 [0, 1] [] []" 1]]) (simp_all add: demo_smp_simps max_def)
qed

lemma demo_smp_ready:
  "smp_step (demo_smp Setup Setup Off [None, None] [False, False] 2 [0, 1] [] [])
     (demo_smp AllReady Setup Off [Some 5, None] [True, False] 2 [0, 1] [] [])"
  "smp_step (demo_smp AllReady Setup Off [Some 5, None] [True, False] 2 [0, 1] [] [])
     (demo_smp AllReady Parked Off [Some 5, Some 6] [True, True] 2 [0, 1] [] [])"
  "smp_step (demo_smp AllReady Parked Off [Some 5, Some 6] [True, True] 2 [0, 1] [] [])
     (demo_smp Running Parked Off [Some 5, Some 6] [True, True] 2 [0, 1] [] [])"
proof -
  show "smp_step (demo_smp Setup Setup Off [None, None] [False, False] 2 [0, 1] [] [])
     (demo_smp AllReady Setup Off [Some 5, None] [True, False] 2 [0, 1] [] [])"
    by (rule smp_step_eq [OF smp_step.enlist [of "demo_smp Setup Setup Off [None, None] [False, False] 2 [0, 1] [] []" 0 5
      "snd (power_register (power (demo_smp Setup Setup Off [None, None] [False, False] 2 [0, 1] [] [])) 0 5)"]]) (simp_all add: demo_smp_simps)
  show "smp_step (demo_smp AllReady Setup Off [Some 5, None] [True, False] 2 [0, 1] [] [])
     (demo_smp AllReady Parked Off [Some 5, Some 6] [True, True] 2 [0, 1] [] [])"
    by (rule smp_step_eq [OF smp_step.enlist [of "demo_smp AllReady Setup Off [Some 5, None] [True, False] 2 [0, 1] [] []" 1 6
      "snd (power_register (power (demo_smp AllReady Setup Off [Some 5, None] [True, False] 2 [0, 1] [] [])) 1 6)"]]) (simp_all add: demo_smp_simps)
  show "smp_step (demo_smp AllReady Parked Off [Some 5, Some 6] [True, True] 2 [0, 1] [] [])
     (demo_smp Running Parked Off [Some 5, Some 6] [True, True] 2 [0, 1] [] [])"
    by (rule smp_step_eq [OF smp_step.all_ready [of "demo_smp AllReady Parked Off [Some 5, Some 6] [True, True] 2 [0, 1] [] []" 0 True]]) (simp_all add: demo_smp_simps)
qed

lemma demo_smp_on:
  "smp_step (demo_smp Running Parked Off [Some 5, Some 6] [True, True] 2 [0, 1] [] [])
     (demo_smp Running Parked (OnPending 0x40000100 7) [Some 5, Some 6] [True, True] 2 [0, 1] [(0x40000100, 7)] [])"
  "smp_step
     (demo_smp Running Parked (OnPending 0x40000100 7) [Some 5, Some 6] [True, True] 2 [0, 1] [(0x40000100, 7)] [])
     (demo_smp Running Running On [Some 5, Some 6] [True, True] 2 [0, 1] [(0x40000100, 7)] [(0x40000100, 7)])"
proof -
  let ?s = "demo_smp Running Parked Off [Some 5, Some 6] [True, True] 2 [0, 1] [] []"
  have "affinity 1 = 1" by (simp add: affinity_def)
  then have i: "index_of (power ?s) 1 = Some 1"
    using index_of_iff [of "power ?s" 1 1] by (simp add: demo_smp_def)
  have "power_handle (power ?s) (CpuOn 1 0x40000100 7) = Some (sign SUCCESS, set_cpu (power ?s) 1 (OnPending 0x40000100 7), True)"
    unfolding power_handle_def cpu_on_def power_request.case i by (simp add: demo_smp_simps)
  moreover have "grant (power ?s) (CpuOn 1 0x40000100 7) (granted ?s) = (granted ?s)(1 := [(0x40000100, 7)])"
    unfolding grant_def cpu_on_def power_request.case i by (simp add: demo_smp_simps)
  ultimately show "smp_step ?s
     (demo_smp Running Parked (OnPending 0x40000100 7) [Some 5, Some 6] [True, True] 2 [0, 1] [(0x40000100, 7)] [])"
    by (intro smp_step_eq [OF smp_step.request [of ?s 0 "CpuOn 1 0x40000100 7"]]) (simp_all add: demo_smp_simps)
  show "smp_step
     (demo_smp Running Parked (OnPending 0x40000100 7) [Some 5, Some 6] [True, True] 2 [0, 1] [(0x40000100, 7)] [])
     (demo_smp Running Running On [Some 5, Some 6] [True, True] 2 [0, 1] [(0x40000100, 7)] [(0x40000100, 7)])"
    by (rule smp_step_eq [OF smp_step.power_on [of "demo_smp Running Parked (OnPending 0x40000100 7) [Some 5, Some 6] [True, True] 2 [0, 1]
      [(0x40000100, 7)] []" 1 "0x40000100" 7]]) (simp_all add: demo_smp_simps)
qed

lemma demo_smp_reachable:
  "smp_step\<^sup>*\<^sup>* (smp_init 2 0x40000000 0x10000)
     (demo_smp Running Running On [Some 5, Some 6] [True, True] 2 [0, 1] [(0x40000100, 7)] [(0x40000100, 7)])"
  unfolding demo_smp_start
  by (intro smp_star [OF demo_smp_create(1)] smp_star [OF demo_smp_create(2)]
      smp_star [OF demo_smp_create(3)] smp_star [OF demo_smp_create(4)]
      smp_star [OF demo_smp_ready(1)] smp_star [OF demo_smp_ready(2)]
      smp_star [OF demo_smp_ready(3)] smp_star [OF demo_smp_on(1)]
      smp_star [OF demo_smp_on(2)] rtranclp.rtrancl_refl)

section \<open>Properties\<close>

text \<open>
  For up to $2^{20}$ CPUs the affinity value names the CPU: a target selects CPU \<open>i\<close> exactly when it is
  the masked \<open>MPIDR\<close> of \<open>i\<close>; every other target selects none. The device tree and the redistributor give the
  same value.
\<close>

lemma smp_affinity_roundtrip:
  assumes "length (cpus (tab p)) \<le> 2 ^ 20"
  shows "(index_of p t = Some i \<longleftrightarrow>
      i < length (cpus (tab p)) \<and> t = mpidr (of_nat i) AND MPIDR_AFFINITY_MASK) \<and>
    (i < length (cpus (tab p)) \<longrightarrow>
      ucast (dt_cpu_reg (of_nat i)) = mpidr (of_nat i) AND MPIDR_AFFINITY_MASK \<and>
      gicr_affinity (mpidr (of_nat i)) = mpidr (of_nat i) AND MPIDR_AFFINITY_MASK)"
proof -
  have low: "i < 2 ^ 20" if "i < length (cpus (tab p))" using that assms by simp
  have dt: "ucast (dt_cpu_reg (of_nat i)) = affinity i" if "i < 2 ^ 20"
  proof -
    have "unat (affinity i) < 2 ^ 32" using that by (auto simp: unat_affinity)
    then show ?thesis
      using that by (simp add: dt_cpu_reg_def mpidr_views word_unat_eq_iff unsigned_ucast_eq unsigned_take_bit_eq
          take_bit_nat_eq_self)
  qed
  have gicr: "gicr_affinity (mpidr (of_nat i)) = affinity i" if "i < 2 ^ 20"
  proof -
    have "drop_bit 32 (affinity i) = 0"
      by (subst affinity_low [OF that, symmetric]) (auto intro!: bit_eqI simp: bit_drop_bit_eq bit_take_bit_iff)
    then have "drop_bit 32 (mpidr (of_nat i)) = 0"
      using that by (simp add: mpidr_affinity drop_bit_or MPIDR_RES1_def)
    then show ?thesis using that by (simp add: gicr_affinity_def mpidr_views)
  qed
  show ?thesis using index_of_iff [OF assms, of t i] low dt gicr mpidr_views(1) [of i] by auto
qed

text \<open>
  C35. Under every interleaving of the vCPU threads, the starts a CPU makes are exactly the accepted \<open>CPU_ON\<close>
  calls for it, each once and in order, but for one that may still be pending; and every entry point is
  aligned guest memory.
\<close>

theorem smp_cpu_on_exactly_once:
  assumes "smp_step\<^sup>*\<^sup>* (smp_init n base sz) s" and "alive s i"
  shows "granted s i = started s i @ pending_start (cpus (tab (power s)) ! i) \<and>
    (\<forall>(entry, ctx) \<in> set (started s i). entry_ok (power s) entry) \<and>
    (life s i = Running \<longrightarrow> cpus (tab (power s)) ! i = On)"
proof -
  have "cpu_inv s i" using smp_reachable(1) [OF assms(1)] assms(2) by (simp add: start_inv_def alive_def)
  then show ?thesis by (auto simp: cpu_inv_def powered_def)
qed

theorem smp_cpu_on_exactly_once_witness:
  "\<exists>s. smp_step\<^sup>*\<^sup>* (smp_init 2 0x40000000 0x10000) s \<and> started s 1 = [(0x40000100, 7)] \<and>
     granted s 1 = [(0x40000100, 7)]"
proof -
  let ?s = "demo_smp Running Running On [Some 5, Some 6] [True, True] 2 [0, 1] [(0x40000100, 7)] [(0x40000100, 7)]"
  have "alive ?s 1" by (simp add: demo_smp_def alive_def)
  from smp_cpu_on_exactly_once [OF demo_smp_reachable this]
  have "granted ?s 1 = started ?s 1" by (simp add: demo_smp_def)
  moreover have "started ?s 1 = [(0x40000100, 7)]" by (simp add: demo_smp_def)
  ultimately show ?thesis using demo_smp_reachable by auto
qed

text \<open>
  The vCPUs are created in the order of their CPUs whatever the order their threads run in, so the ids the
  hypervisor hands out in creation order are the CPU numbers.
\<close>

lemma smp_creation_order:
  assumes "smp_step\<^sup>*\<^sup>* (smp_init n base sz) s"
  shows "made s = [0..<length (made s)]"
  using smp_reachable(2) [OF assms] by (simp add: make_inv_def in_order_def)

text \<open>
  The first reason to stop wins: whatever is called afterwards, it stays, every waiting loop returns at its
  next turn, and every vCPU that is still registered has been told to stop.
\<close>

lemma power_stop_final:
  assumes "stop_reason (run (\<lambda>p op. fst (power_step p op)) (power_new n base sz) ops) = Some r"
  shows "let p = run (\<lambda>p op. fst (power_step p op)) (power_new n base sz) (ops @ rest) in
    stop_reason p = Some r \<and> wait_create_turn p i = Returns False \<and> wait_all_ready p = Returns False \<and>
    fst (wait_for_on p j) = Returns None \<and> (\<forall>h \<in> set (handles (tab p)). told_to_stop (tab p) h)"
proof -
  define p where "p = run (\<lambda>p op. fst (power_step p op)) (power_new n base sz) (ops @ rest)"
  have r: "stopping (tab p) = Some r"
    using assms unfolding p_def run_append stop_reason_def by (rule power_reason.run_inv)
  have "stop_inv p" unfolding p_def by (rule power_stop.run_inv) (rule power_new_stop_inv)
  with r show ?thesis
    unfolding p_def [symmetric] Let_def
    by (auto simp: stop_inv_def stop_reason_def wait_create_turn_def wait_all_ready_def wait_for_on_def)
qed

text \<open>
  C40. No wake-up is missed: an operation that lets a waiting thread go on, one that waits for its turn to
  create a vCPU, for all vCPUs or for its power-on, notifies the waiting threads.
\<close>

theorem power_no_missed_wakeup:
  assumes "power_step p op = (p', notified)"
    and "wait_create_turn p i = Waits \<and> wait_create_turn p' i \<noteq> Waits \<or>
      wait_all_ready p = Waits \<and> wait_all_ready p' \<noteq> Waits \<or>
      fst (wait_for_on p j) = Waits \<and> fst (wait_for_on p' j) \<noteq> Waits"
  shows notified
proof -
  have same: "False" if "stopping (tab p') = stopping (tab p)" "created (tab p') = created (tab p)"
    "ready (tab p') = ready (tab p)" "cpus (tab p') = cpus (tab p)"
    using assms(2) that by (simp add: wait_create_turn_def wait_all_ready_def wait_for_on_def split: option.splits cpu_state.splits if_splits)
  show ?thesis
  proof (cases op)
    case (WaitForOn k)
    then have p': "p' = snd (wait_for_on p k)" using assms(1) by simp
    have "p' = p \<or> p' = set_cpu p k On"
      unfolding p' wait_for_on_def by (auto split: option.splits cpu_state.splits)
    then show ?thesis
    proof
      assume "p' = set_cpu p k On"
      moreover from this have "fst (wait_for_on p' j) = Waits" if "fst (wait_for_on p j) = Waits"
        using that by (cases "j = k") (auto simp: wait_for_on_def vec_get_def split: option.splits cpu_state.splits if_splits)
      moreover have "wait_create_turn (set_cpu p k On) i = wait_create_turn p i"
        "wait_all_ready (set_cpu p k On) = wait_all_ready p"
        unfolding wait_create_turn_def wait_all_ready_def set_cpu_fields by (rule refl)+
      ultimately show ?thesis using assms(2) by auto
    qed (use same in simp)
  next
    case (Handle req)
    show ?thesis
    proof (cases "power_handle p req")
      case (Some r)
      then obtain x0 where "power_handle p req = Some (x0, p', notified)"
        using assms(1) Handle by (cases r) auto
      from power_handle_state [OF this] same show ?thesis by auto
    qed (use same assms(1) Handle in simp)
  qed (use assms(1) same in \<open>auto simp: mark_created_def power_register_def deregister_def mark_ready_def cpu_off_def
      request_stop_def power_nudge_all_def Let_def power_nudge_def split: if_splits option.splits\<close>)
qed

theorem power_no_missed_wakeup_witness:
  "snd (power_step (power_new 2 0 0x1000) (RequestStop SystemOff))"
proof (rule power_no_missed_wakeup)
  show "power_step (power_new 2 0 0x1000) (RequestStop SystemOff) =
     (fst (power_step (power_new 2 0 0x1000) (RequestStop SystemOff)),
      snd (power_step (power_new 2 0 0x1000) (RequestStop SystemOff)))"
    by simp
  show "wait_create_turn (power_new 2 0 0x1000) 1 = Waits \<and>
      wait_create_turn (fst (power_step (power_new 2 0 0x1000) (RequestStop SystemOff))) 1 \<noteq> Waits \<or>
    wait_all_ready (power_new 2 0 0x1000) = Waits \<and>
      wait_all_ready (fst (power_step (power_new 2 0 0x1000) (RequestStop SystemOff))) \<noteq> Waits \<or>
    fst (wait_for_on (power_new 2 0 0x1000) 1) = Waits \<and>
      fst (wait_for_on (fst (power_step (power_new 2 0 0x1000) (RequestStop SystemOff))) 1) \<noteq> Waits"
    by (simp add: wait_create_turn_def power_new_def)
qed

end
