(* ===== verification/Mmio_Bus.thy ===== *)
theory Mmio_Bus
  imports Esr
begin

text \<open>
  The MMIO bus of \<open>ternvale-vmm/src/mmio.rs\<close>: devices own windows of guest physical addresses, and a data
  abort is dispatched to the device whose window holds the access.

  The devices are a parameter: a state type and its \<open>read\<close>, \<open>write\<close> and lock-free kick. What the bus relies
  on of them is the locale \<open>mmio_device\<close>, which every device of the library interprets. The last-hit cache
  of a vCPU thread is part of the model; locks, counters of the metrics feature and tracing are not.
\<close>

section \<open>Devices\<close>

record 'd mmio_ops =
  op_read :: "'d \<Rightarrow> u64 \<Rightarrow> u8 \<Rightarrow> u64 \<times> 'd"
  op_write :: "'d \<Rightarrow> u64 \<Rightarrow> u8 \<Rightarrow> u64 \<Rightarrow> 'd"
  op_kick :: "'d \<Rightarrow> u64 \<Rightarrow> u64 \<Rightarrow> 'd option"

locale mmio_device =
  fixes ops :: "'d mmio_ops"
    and dev_inv :: "'d \<Rightarrow> bool"
  assumes read_inv: "dev_inv d \<Longrightarrow> dev_inv (snd (op_read ops d off sz))"
    and write_inv: "dev_inv d \<Longrightarrow> dev_inv (op_write ops d off sz v)"
    and kick_inv: "dev_inv d \<Longrightarrow> op_kick ops d off v = Some d' \<Longrightarrow> dev_inv d'"

section \<open>The bus\<close>

datatype 'v mmio_error =
    Overlap u64 u64 u64 u64
  | Empty u64
  | Overflow u64 u64
  | BadSize u8
  | BadReg u8
  | NotMmio
  | VcpuFailed 'v

record 'd slot =
  s_base :: u64
  s_size :: u64
  s_name :: string
  s_device :: 'd
  s_accesses :: u64

record 'd mmio_bus =
  bus_devices :: "'d slot list"
  bus_generation :: u64

definition bus_new :: "'d mmio_bus" where
  "bus_new = \<lparr>bus_devices = [], bus_generation = 1\<rparr>"

definition slot_contains :: "'d slot \<Rightarrow> u64 \<Rightarrow> u64 \<Rightarrow> bool" where
  "slot_contains s gpa e \<longleftrightarrow> s_base s \<le> gpa \<and> e \<le> s_base s + s_size s"

definition register ::
  "'d mmio_bus \<Rightarrow> u64 \<Rightarrow> u64 \<Rightarrow> string \<Rightarrow> 'd \<Rightarrow> 'v mmio_error + 'd mmio_bus" where
  "register bus base sz name dev =
     (if sz = 0 then Inl (Empty base)
      else case checked_add base sz of
        None \<Rightarrow> Inl (Overflow base sz)
      | Some e \<Rightarrow>
          (case find (\<lambda>s. base < saturating_add (s_base s) (s_size s) \<and> s_base s < e) (bus_devices bus) of
             Some other \<Rightarrow> Inl (Overlap base sz (s_base other) (s_size other))
           | None \<Rightarrow>
               let s = \<lparr>s_base = base, s_size = sz, s_name = name, s_device = dev, s_accesses = 0\<rparr>;
                   index = partition_point (\<lambda>other. s_base other < base) (bus_devices bus)
               in Inr (bus\<lparr>bus_devices := vec_insert index s (bus_devices bus),
                           bus_generation := bus_generation bus + 1\<rparr>)))"

definition lookup_sorted :: "'d mmio_bus \<Rightarrow> u64 \<Rightarrow> u64 \<Rightarrow> nat option" where
  "lookup_sorted bus gpa e =
     (let index = partition_point (\<lambda>s. s_base s \<le> gpa) (bus_devices bus) in
      if index = 0 then None
      else if slot_contains (bus_devices bus ! (index - 1)) gpa e then Some (index - 1)
      else None)"

text \<open>
  The cache cell of a thread holds a bus address, a generation and an index. \<open>me\<close> is the address of this
  bus; the result is the index found and the cell afterwards.
\<close>

type_synonym last_hit = "nat \<times> u64 \<times> nat"

definition lookup :: "'d mmio_bus \<Rightarrow> nat \<Rightarrow> last_hit \<Rightarrow> u64 \<Rightarrow> u64 \<Rightarrow> nat option \<times> last_hit" where
  "lookup bus me cell gpa e =
     (case cell of (cached_bus, cached_gen, cached_idx) \<Rightarrow>
        if cached_bus = me \<and> cached_gen = bus_generation bus \<and> cached_idx < length (bus_devices bus) \<and>
           slot_contains (bus_devices bus ! cached_idx) gpa e
        then (Some cached_idx, cell)
        else (case lookup_sorted bus gpa e of
                None \<Rightarrow> (None, cell)
              | Some index \<Rightarrow> (Some index, (me, bus_generation bus, index))))"

definition access_count :: "'d mmio_bus \<Rightarrow> string \<Rightarrow> u64 option" where
  "access_count bus name = map_option s_accesses (find (\<lambda>s. s_name s = name) (bus_devices bus))"

text \<open>
  The registers of the vCPU are a state \<open>'r\<close> with fallible access; \<open>get_reg\<close> and \<open>set_reg\<close> are parameters
  of the model.
\<close>

record ('r, 'v) guest_regs =
  get_reg :: "'r \<Rightarrow> u8 \<Rightarrow> 'v + u64"
  set_reg :: "'r \<Rightarrow> u8 \<Rightarrow> u64 \<Rightarrow> 'v + 'r"

definition bump :: "'d mmio_bus \<Rightarrow> nat \<Rightarrow> 'd \<Rightarrow> 'd mmio_bus" where
  "bump bus index dev =
     bus\<lparr>bus_devices := (bus_devices bus)[index := (bus_devices bus ! index)
            \<lparr>s_device := dev, s_accesses := s_accesses (bus_devices bus ! index) + 1\<rparr>]\<rparr>"

definition put_device :: "'d mmio_bus \<Rightarrow> nat \<Rightarrow> 'd \<Rightarrow> 'd mmio_bus" where
  "put_device bus index dev =
     bus\<lparr>bus_devices := (bus_devices bus)[index := (bus_devices bus ! index)\<lparr>s_device := dev\<rparr>]\<rparr>"

definition unmapped ::
  "('r, 'v) guest_regs \<Rightarrow> 'r \<Rightarrow> u8 \<Rightarrow> bool \<Rightarrow> u8 \<Rightarrow> 'v mmio_error option \<times> 'r" where
  "unmapped R regs sz wr reg =
     (if reg = 31 then (None, regs)
      else if wr then
        (case get_reg R regs reg of Inl err \<Rightarrow> (Some (VcpuFailed err), regs) | Inr _ \<Rightarrow> (None, regs))
      else
        (case set_reg R regs reg 0 of Inl err \<Rightarrow> (Some (VcpuFailed err), regs) | Inr regs' \<Rightarrow> (None, regs')))"

text \<open>The access of a mapped device. The device has been read even when the register write then fails.\<close>

definition mapped ::
  "'d mmio_ops \<Rightarrow> ('r, 'v) guest_regs \<Rightarrow> 'd mmio_bus \<Rightarrow> 'r \<Rightarrow> nat \<Rightarrow> u64 \<Rightarrow> u8 \<Rightarrow> bool \<Rightarrow> u8 \<Rightarrow>
   'v mmio_error option \<times> 'd mmio_bus \<times> 'r" where
  "mapped D R bus regs index gpa sz wr reg =
     (let s = bus_devices bus ! index; off = gpa - s_base s in
      if wr then
        (case (if reg = 31 then Inr 0 else get_reg R regs reg) of
           Inl err \<Rightarrow> (Some (VcpuFailed err), bus, regs)
         | Inr raw \<Rightarrow>
             let v = mask_size raw sz in
             (None, bump bus index (case op_kick D (s_device s) off v of
                                      Some dev \<Rightarrow> dev
                                    | None \<Rightarrow> op_write D (s_device s) off sz v), regs))
      else
        (case op_read D (s_device s) off sz of (raw, dev) \<Rightarrow>
           let v = mask_size raw sz in
           if reg = 31 then (None, bump bus index dev, regs)
           else case set_reg R regs reg v of
             Inl err \<Rightarrow> (Some (VcpuFailed err), put_device bus index dev, regs)
           | Inr regs' \<Rightarrow> (None, bump bus index dev, regs')))"

definition dispatch ::
  "'d mmio_ops \<Rightarrow> ('r, 'v) guest_regs \<Rightarrow> nat \<Rightarrow> 'd mmio_bus \<Rightarrow> last_hit \<Rightarrow> 'r \<Rightarrow> exit_event \<Rightarrow>
   'v mmio_error option \<times> 'd mmio_bus \<times> last_hit \<times> 'r" where
  "dispatch D R me bus cell regs event =
     (case event of
        Mmio gpa sz wr reg \<Rightarrow>
          if \<not> (sz = 1 \<or> sz = 2 \<or> sz = 4 \<or> sz = 8) then (Some (BadSize sz), bus, cell, regs)
          else if 31 < reg then (Some (BadReg reg), bus, cell, regs)
          else case checked_add gpa (ucast sz) of
            None \<Rightarrow> (Some (Overflow gpa (ucast sz)), bus, cell, regs)
          | Some e \<Rightarrow>
              (case lookup bus me cell gpa e of
                 (None, cell') \<Rightarrow>
                   (case unmapped R regs sz wr reg of (err, regs') \<Rightarrow> (err, bus, cell', regs'))
               | (Some index, cell') \<Rightarrow>
                   (case mapped D R bus regs index gpa sz wr reg of
                      (err, bus', regs') \<Rightarrow> (err, bus', cell', regs')))
      | _ \<Rightarrow> (Some NotMmio, bus, cell, regs))"

section \<open>Windows are sorted and disjoint\<close>

definition slot_lo :: "'d slot \<Rightarrow> nat" where
  "slot_lo s = unat (s_base s)"

definition slot_hi :: "'d slot \<Rightarrow> nat" where
  "slot_hi s = unat (s_base s) + unat (s_size s)"

definition windows_ok :: "'d slot list \<Rightarrow> bool" where
  "windows_ok ss \<longleftrightarrow>
     (\<forall>s \<in> set ss. s_size s \<noteq> 0 \<and> slot_hi s < 2 ^ 64) \<and>
     sorted_wrt (\<lambda>a b. slot_hi a \<le> slot_lo b) ss"

definition bus_inv :: "('d \<Rightarrow> bool) \<Rightarrow> 'd mmio_bus \<Rightarrow> bool" where
  "bus_inv P bus \<longleftrightarrow> windows_ok (bus_devices bus) \<and> (\<forall>s \<in> set (bus_devices bus). P (s_device s))"

lemma slot_lo_less_hi: "s_size s \<noteq> 0 \<Longrightarrow> slot_lo s < slot_hi s"
  by (simp add: slot_lo_def slot_hi_def unat_gt_0)

lemma windows_pos: "windows_ok ss \<Longrightarrow> s \<in> set ss \<Longrightarrow> slot_lo s < slot_hi s"
  by (auto simp: windows_ok_def slot_lo_less_hi)

lemma slot_contains_iff:
  assumes "slot_hi s < 2 ^ 64"
  shows "slot_contains s gpa e \<longleftrightarrow> slot_lo s \<le> unat gpa \<and> unat e \<le> slot_hi s"
  using assms by (simp add: slot_contains_def slot_lo_def slot_hi_def word_le_nat_alt unat_add_no_overflow)

text \<open>Registration accepts exactly the windows that are nonempty, fit and overlap none.\<close>

lemma register_overlap:
  assumes ok: "windows_ok ss" and s: "s \<in> set ss" and e: "checked_add base sz = Some e"
  shows "base < saturating_add (s_base s) (s_size s) \<and> s_base s < e \<longleftrightarrow>
    unat base < slot_hi s \<and> slot_lo s < unat base + unat sz"
proof -
  from ok s have "slot_hi s < 2 ^ 64" by (simp add: windows_ok_def)
  then have "unat (saturating_add (s_base s) (s_size s)) = slot_hi s"
    by (simp add: unat_saturating_add slot_hi_def)
  moreover from e have "unat e = unat base + unat sz" by (simp add: checked_add_Some)
  ultimately show ?thesis by (simp add: word_less_nat_alt slot_lo_def)
qed

definition window_free :: "'d slot list \<Rightarrow> u64 \<Rightarrow> u64 \<Rightarrow> bool" where
  "window_free ss base sz \<longleftrightarrow>
     (\<forall>s \<in> set ss. slot_hi s \<le> unat base \<or> unat base + unat sz \<le> slot_lo s)"

lemma register_iff:
  assumes ok: "windows_ok (bus_devices bus)"
  shows "is_ok (register bus base sz name dev :: 'v mmio_error + 'd mmio_bus) \<longleftrightarrow>
    sz \<noteq> 0 \<and> unat base + unat sz < 2 ^ 64 \<and> window_free (bus_devices bus) base sz"
proof (cases "checked_add base sz")
  case None
  then show ?thesis by (simp add: register_def checked_add_def split: if_splits)
next
  case (Some e)
  then have fits: "unat base + unat sz < 2 ^ 64" by (simp add: checked_add_Some)
  have "find (\<lambda>s. base < saturating_add (s_base s) (s_size s) \<and> s_base s < e) (bus_devices bus) = None \<longleftrightarrow>
      window_free (bus_devices bus) base sz"
    unfolding find_None_iff window_free_def using register_overlap [OF ok _ Some] by (metis not_less)
  with Some fits show ?thesis
    by (auto simp: register_def Let_def split: option.splits)
qed

lemma register_windows:
  assumes ok: "windows_ok (bus_devices bus)"
    and reg: "(register bus base sz name dev :: 'v mmio_error + 'd mmio_bus) = Inr bus'"
  shows "windows_ok (bus_devices bus') \<and> set (bus_devices bus') = insert
    \<lparr>s_base = base, s_size = sz, s_name = name, s_device = dev, s_accesses = 0\<rparr> (set (bus_devices bus))"
proof -
  let ?s = "\<lparr>s_base = base, s_size = sz, s_name = name, s_device = dev, s_accesses = 0\<rparr>"
  from reg have ds: "bus_devices bus' =
      vec_insert (partition_point (\<lambda>s. s_base s < base) (bus_devices bus)) ?s (bus_devices bus)"
    by (auto simp: register_def Let_def split: if_splits option.splits)
  have "is_ok (register bus base sz name dev :: 'v mmio_error + 'd mmio_bus)" using reg by simp
  then have new: "sz \<noteq> 0" "unat base + unat sz < 2 ^ 64" and free: "window_free (bus_devices bus) base sz"
    by (simp_all add: register_iff [OF ok])
  have lt: "s_base s < base \<longleftrightarrow> slot_lo s < slot_lo ?s" for s :: "'d slot"
    by (simp add: slot_lo_def word_less_nat_alt)
  have "sorted_wrt (\<lambda>a b. slot_hi a \<le> slot_lo b)
      (vec_insert (partition_point (\<lambda>s. slot_lo s < slot_lo ?s) (bus_devices bus)) ?s (bus_devices bus))"
  proof (rule insert_interval)
    show "\<forall>y \<in> set (?s # bus_devices bus). slot_lo y < slot_hi y"
      using ok windows_pos new slot_lo_less_hi [of ?s] by auto
    show "\<forall>y \<in> set (bus_devices bus). slot_hi y \<le> slot_lo ?s \<or> slot_hi ?s \<le> slot_lo y"
      using free by (simp add: window_free_def slot_lo_def slot_hi_def)
  qed (use ok in \<open>simp add: windows_ok_def\<close>)
  with ok new show ?thesis
    unfolding ds lt by (simp add: windows_ok_def) (simp add: slot_hi_def)
qed

lemma register_inv:
  assumes "bus_inv P bus" and "P dev"
    and "(register bus base sz name dev :: 'v mmio_error + 'd mmio_bus) = Inr bus'"
  shows "bus_inv P bus'"
  using register_windows [OF _ assms(3)] assms(1,2) by (auto simp: bus_inv_def)

section \<open>The lookup finds the window that holds the access\<close>

lemma lookup_sorted_iff:
  assumes ok: "windows_ok (bus_devices bus)" and pos: "unat gpa < unat e"
  shows "lookup_sorted bus gpa e = Some i \<longleftrightarrow>
    i < length (bus_devices bus) \<and> slot_contains (bus_devices bus ! i) gpa e"
proof -
  let ?ss = "bus_devices bus"
  let ?n = "partition_point (\<lambda>s. s_base s \<le> gpa) ?ss"
  have hi: "slot_hi (?ss ! j) < 2 ^ 64" if "j < length ?ss" for j
    using ok that by (simp add: windows_ok_def)
  have n: "?n \<le> length ?ss" by (rule partition_point_le)
  show ?thesis
  proof
    assume "lookup_sorted bus gpa e = Some i"
    then show "i < length ?ss \<and> slot_contains (?ss ! i) gpa e"
      using n by (auto simp: lookup_sorted_def Let_def split: if_splits)
  next
    assume r: "i < length ?ss \<and> slot_contains (?ss ! i) gpa e"
    then have here: "slot_lo (?ss ! i) \<le> unat gpa" "unat gpa < slot_hi (?ss ! i)"
      using slot_contains_iff [OF hi] pos by fastforce+
    have sorted: "sorted_wrt (\<lambda>a b. slot_hi a \<le> slot_lo b) ?ss" using ok by (simp add: windows_ok_def)
    have below: "i < ?n"
    proof (rule ccontr)
      assume "\<not> i < ?n"
      then have "?n < length ?ss" using r by simp
      then have "\<not> s_base (?ss ! ?n) \<le> gpa"
        unfolding partition_point_def using nth_length_takeWhile by blast
      then have "unat gpa < slot_lo (?ss ! ?n)" by (simp add: slot_lo_def word_le_nat_alt)
      moreover have "?n = i \<or> slot_hi (?ss ! ?n) \<le> slot_lo (?ss ! i)"
        using sorted_wrt_nth_less [OF sorted, of ?n i] \<open>\<not> i < ?n\<close> r by fastforce
      moreover have "slot_lo (?ss ! ?n) < slot_hi (?ss ! ?n)"
        using windows_pos [OF ok nth_mem [OF \<open>?n < length ?ss\<close>]] .
      ultimately show False using here by auto
    qed
    have top: "?n = Suc i"
    proof (rule ccontr)
      assume "?n \<noteq> Suc i"
      with below have j: "Suc i < ?n" by simp
      then have "s_base (?ss ! Suc i) \<le> gpa" by (rule partition_point_Suc_holds)
      moreover have "slot_hi (?ss ! i) \<le> slot_lo (?ss ! Suc i)"
        using sorted_wrt_nth_less [OF sorted, of i "Suc i"] j n by simp
      ultimately show False using here by (simp add: slot_lo_def word_le_nat_alt)
    qed
    with r show "lookup_sorted bus gpa e = Some i" by (simp add: lookup_sorted_def)
  qed
qed

text \<open>Whatever the cache cell holds, the cached lookup gives the index of the sorted search.\<close>

lemma lookup_eq_sorted:
  assumes "windows_ok (bus_devices bus)" and "unat gpa < unat e"
  shows "fst (lookup bus me cell gpa e) = lookup_sorted bus gpa e"
proof (cases cell)
  case (fields b g i)
  show ?thesis
  proof (cases "b = me \<and> g = bus_generation bus \<and> i < length (bus_devices bus) \<and>
      slot_contains (bus_devices bus ! i) gpa e")
    case True
    then have "lookup_sorted bus gpa e = Some i" by (simp add: lookup_sorted_iff [OF assms])
    with True fields show ?thesis by (simp add: lookup_def)
  next
    case False
    then show ?thesis
      by (simp only: lookup_def fields prod.case if_False) (simp split: option.splits)
  qed
qed

section \<open>Dispatch keeps the bus\<close>

lemma replace_slot_inv:
  assumes inv: "bus_inv P bus" and i: "i < length (bus_devices bus)"
    and base: "s_base t = s_base (bus_devices bus ! i)" and size: "s_size t = s_size (bus_devices bus ! i)"
    and dev: "P (s_device t)"
  shows "bus_inv P (bus\<lparr>bus_devices := (bus_devices bus)[i := t]\<rparr>)"
proof -
  let ?ss = "bus_devices bus"
  have ok: "windows_ok ?ss" and devs: "\<forall>s \<in> set ?ss. P (s_device s)"
    using inv unfolding bus_inv_def by blast+
  have lohi: "slot_lo t = slot_lo (?ss ! i)" "slot_hi t = slot_hi (?ss ! i)"
    unfolding slot_lo_def slot_hi_def base size by (rule refl)+
  have "?ss ! i \<in> set ?ss" using i by (rule nth_mem)
  with ok have "s_size t \<noteq> 0 \<and> slot_hi t < 2 ^ 64" unfolding windows_ok_def lohi size by blast
  with ok have "\<forall>s \<in> set (?ss[i := t]). s_size s \<noteq> 0 \<and> slot_hi s < 2 ^ 64"
    unfolding windows_ok_def by (intro ball_update) blast+
  moreover have "sorted_wrt (\<lambda>a b. slot_hi a \<le> slot_lo b) (?ss[i := t])"
    using ok lohi unfolding windows_ok_def by (intro sorted_wrt_update) blast+
  moreover have "\<forall>s \<in> set (?ss[i := t]). P (s_device s)"
    using devs dev by (rule ball_update)
  ultimately show ?thesis unfolding bus_inv_def windows_ok_def by simp
qed

lemma put_device_inv:
  assumes "bus_inv P bus" and "i < length (bus_devices bus)" and "P dev"
  shows "bus_inv P (put_device bus i dev)" "bus_inv P (bump bus i dev)"
  unfolding put_device_def bump_def using assms by (intro replace_slot_inv; simp)+

context mmio_device
begin

lemma mapped_inv:
  assumes inv: "bus_inv dev_inv bus" and i: "i < length (bus_devices bus)"
  shows "bus_inv dev_inv (fst (snd (mapped ops R bus regs i gpa sz wr reg)))"
proof -
  have dev: "dev_inv (s_device (bus_devices bus ! i))" using inv i by (simp add: bus_inv_def)
  note put = put_device_inv [OF inv i]
  let ?off = "gpa - s_base (bus_devices bus ! i)" and ?d = "s_device (bus_devices bus ! i)"
  show ?thesis
  proof (cases wr)
    case True
    have "dev_inv (case op_kick ops ?d ?off v of Some d' \<Rightarrow> d' | None \<Rightarrow> op_write ops ?d ?off sz v)" for v
      using kick_inv [OF dev, of ?off v] write_inv [OF dev] by (simp split: option.splits)
    with True inv put(2) show ?thesis
      by (simp add: mapped_def Let_def split: sum.splits)
  next
    case False
    obtain raw d' where rd: "op_read ops ?d ?off sz = (raw, d')" by (rule prod.exhaust)
    then have "dev_inv d'" using read_inv [OF dev, of ?off sz] by simp
    with False rd put show ?thesis
      by (simp add: mapped_def Let_def split: sum.splits)
  qed
qed

lemma lookup_bound:
  assumes "windows_ok (bus_devices bus)" and "unat gpa < unat e" and "lookup bus me cell gpa e = (Some i, cell')"
  shows "i < length (bus_devices bus)"
  using lookup_eq_sorted [OF assms(1,2), of me cell] lookup_sorted_iff [OF assms(1,2), of i] assms(3) by simp

lemma dispatch_inv:
  assumes inv: "bus_inv dev_inv bus"
  shows "bus_inv dev_inv (fst (snd (dispatch ops R me bus cell regs event)))"
proof (cases event)
  case (Mmio gpa sz wr reg)
  show ?thesis
  proof (cases "sz = 1 \<or> sz = 2 \<or> sz = 4 \<or> sz = 8")
    case sz: True
    then have pos: "0 < unat (ucast sz :: u64)" by auto
    have win: "windows_ok (bus_devices bus)" using inv by (simp add: bus_inv_def)
    show ?thesis
    proof (cases "checked_add gpa (ucast sz)")
      case None
      with inv sz Mmio show ?thesis by (simp add: dispatch_def)
    next
      case (Some e)
      with pos have lt: "unat gpa < unat e" by (simp add: checked_add_Some)
      show ?thesis
      proof (cases "fst (lookup bus me cell gpa e)")
        case None
        then obtain cell' where "lookup bus me cell gpa e = (None, cell')" by (cases "lookup bus me cell gpa e") simp
        moreover obtain err regs' where "unmapped R regs sz wr reg = (err, regs')" by (rule prod.exhaust)
        ultimately show ?thesis using inv sz Some Mmio by (simp add: dispatch_def)
      next
        case idx: (Some i)
        then obtain cell' where look: "lookup bus me cell gpa e = (Some i, cell')"
          by (cases "lookup bus me cell gpa e") simp
        obtain err bus' regs' where m: "mapped ops R bus regs i gpa sz wr reg = (err, bus', regs')"
          by (rule prod_cases3)
        have "i < length (bus_devices bus)" using win lt look by (rule lookup_bound)
        from mapped_inv [OF inv this, of R regs gpa sz wr reg] m have "bus_inv dev_inv bus'" by simp
        with inv sz Some Mmio look m show ?thesis by (simp add: dispatch_def)
      qed
    qed
  qed (use inv Mmio in \<open>simp add: dispatch_def\<close>)
qed (simp_all add: dispatch_def inv)

end

section \<open>Properties\<close>

text \<open>The console and the first virtio window of the platform, registered in either order.\<close>

definition demo_bus :: "unit mmio_bus" where
  "demo_bus = \<lparr>bus_devices =
      [\<lparr>s_base = 0x09000000, s_size = 0x1000, s_name = ''uart'', s_device = (), s_accesses = 0\<rparr>,
       \<lparr>s_base = 0x0a000000, s_size = 0x200, s_name = ''virtio-mmio-0'', s_device = (), s_accesses = 0\<rparr>],
     bus_generation = 3\<rparr>"

lemma demo_bus_registered:
  "res_bind (register bus_new 0x0a000000 0x200 ''virtio-mmio-0'' ()) (\<lambda>b.
     register b 0x09000000 0x1000 ''uart'' ()) = (Inr demo_bus :: unit mmio_error + unit mmio_bus)"
  by (simp add: register_def bus_new_def checked_add_def Let_def vec_insert_def partition_point_def
      saturating_add_def demo_bus_def)

lemma demo_bus_windows: "windows_ok (bus_devices demo_bus)"
  by (simp add: windows_ok_def demo_bus_def slot_hi_def slot_lo_def)

text \<open>
  A window is accepted exactly when it is not empty, its end does not overflow and it overlaps no
  window already registered; then the windows stay sorted and disjoint and exactly the new one is added.
  A refusal names the reason.
\<close>

lemma mmio_register_exact:
  assumes "windows_ok (bus_devices bus)"
  shows "(case register bus base sz name dev :: 'v mmio_error + 'd mmio_bus of
      Inr bus' \<Rightarrow> sz \<noteq> 0 \<and> unat base + unat sz < 2 ^ 64 \<and> window_free (bus_devices bus) base sz \<and>
        windows_ok (bus_devices bus') \<and> set (bus_devices bus') = insert
          \<lparr>s_base = base, s_size = sz, s_name = name, s_device = dev, s_accesses = 0\<rparr> (set (bus_devices bus))
    | Inl err \<Rightarrow> sz = 0 \<and> err = Empty base \<or>
        2 ^ 64 \<le> unat base + unat sz \<and> err = Overflow base sz \<or>
        (\<exists>s. s \<in> set (bus_devices bus) \<and> unat base < slot_hi s \<and> slot_lo s < unat base + unat sz \<and>
           err = Overlap base sz (s_base s) (s_size s)))"
proof (cases "register bus base sz name dev :: 'v mmio_error + 'd mmio_bus")
  case (Inr bus')
  then have "is_ok (register bus base sz name dev :: 'v mmio_error + 'd mmio_bus)" by simp
  then have "sz \<noteq> 0 \<and> unat base + unat sz < 2 ^ 64 \<and> window_free (bus_devices bus) base sz"
    unfolding register_iff [OF assms] .
  with Inr register_windows [OF assms Inr] show ?thesis by simp
next
  case (Inl err)
  show ?thesis
  proof (cases "sz = 0 \<or> checked_add base sz = None")
    case True
    with Inl show ?thesis by (auto simp: register_def checked_add_def not_less split: if_splits)
  next
    case False
    then obtain e where e: "checked_add base sz = Some e" by blast
    with Inl False obtain s where "s \<in> set (bus_devices bus)"
      "base < saturating_add (s_base s) (s_size s) \<and> s_base s < e" "err = Overlap base sz (s_base s) (s_size s)"
      by (auto simp: register_def Let_def find_Some_iff split: option.splits) (metis nth_mem)
    with register_overlap [OF assms _ e] Inl show ?thesis by auto
  qed
qed

text \<open>
  C31. The lookup is exact and its cache is transparent: whatever the thread's cell holds, an access is
  sent to the window that contains all of it, and to none when no window does.
\<close>

theorem mmio_lookup_exact:
  assumes "windows_ok (bus_devices bus)" and "unat gpa < unat e"
  shows "fst (lookup bus me cell gpa e) = Some i \<longleftrightarrow>
    i < length (bus_devices bus) \<and> slot_contains (bus_devices bus ! i) gpa e"
  using lookup_eq_sorted [OF assms] lookup_sorted_iff [OF assms] by simp

theorem mmio_lookup_exact_witness:
  "windows_ok (bus_devices demo_bus) \<and> unat (0x0a000070 :: u64) < unat (0x0a000074 :: u64) \<and>
   fst (lookup demo_bus 7 (7, 3, 0) 0x0a000070 0x0a000074) = Some 1"
  using mmio_lookup_exact [OF demo_bus_windows, of "0x0a000070" "0x0a000074" 7 "(7, 3, 0)" 1] demo_bus_windows
  by (simp add: demo_bus_def slot_contains_def)

text \<open>
  A well-formed access reaches one device at most: every other window keeps its device and its count.
  A read of a device stores the device's answer cut to the access size in the register, a read that no
  window holds stores 0, and the stored value always fits in the access.
\<close>

lemma mmio_dispatch_effect:
  assumes "windows_ok (bus_devices bus)" and "sz = 1 \<or> sz = 2 \<or> sz = 4 \<or> sz = 8" and "reg < 31"
    and "checked_add gpa (ucast sz) = Some e"
    and "dispatch D R me bus cell regs (Mmio gpa sz wr reg) = (None, bus', cell', regs')"
  shows "(\<forall>j. (j < length (bus_devices bus) \<longrightarrow> \<not> slot_contains (bus_devices bus ! j) gpa e) \<longrightarrow>
      bus_devices bus' ! j = bus_devices bus ! j) \<and>
    (\<not> wr \<longrightarrow> (\<exists>v. unat v < 2 ^ (8 * unat sz) \<and> set_reg R regs reg v = Inr regs' \<and>
      (v = 0 \<and> (\<forall>s \<in> set (bus_devices bus). \<not> slot_contains s gpa e) \<or>
       (\<exists>s \<in> set (bus_devices bus). slot_contains s gpa e \<and>
          v = mask_size (fst (op_read D (s_device s) (gpa - s_base s) sz)) sz))))"
proof -
  have pos: "unat gpa < unat e" using assms(2,4) by (auto simp: checked_add_Some)
  have fits: "unat (mask_size x sz) < 2 ^ (8 * unat sz)" for x
  proof -
    have "mask_size x sz = take_bit (8 * unat sz) x" using assms(2) by (intro mask_size_take_bit) auto
    then show ?thesis by (simp add: unsigned_take_bit_eq take_bit_nat_less_exp)
  qed
  have reg: "\<not> 31 < reg" "reg \<noteq> 31" using assms(3) by auto
  show ?thesis
  proof (cases "fst (lookup bus me cell gpa e)")
    case None
    then have none: "\<forall>s \<in> set (bus_devices bus). \<not> slot_contains s gpa e"
      using lookup_eq_sorted [OF assms(1) pos] lookup_sorted_iff [OF assms(1) pos]
      by (metis in_set_conv_nth option.distinct(1))
    from None assms(2,4,5) reg have "bus' = bus" "(None, regs') = unmapped R regs sz wr reg"
      by (auto simp: dispatch_def split: prod.splits)
    with none reg fits [of 0] show ?thesis
      by (auto simp: unmapped_def mask_size_def split: if_splits sum.splits)
  next
    case (Some i)
    then have i: "i < length (bus_devices bus)" "slot_contains (bus_devices bus ! i) gpa e"
      using lookup_eq_sorted [OF assms(1) pos] lookup_sorted_iff [OF assms(1) pos] by metis+
    from Some assms(2,4,5) reg have m: "mapped D R bus regs i gpa sz wr reg = (None, bus', regs')"
      by (auto simp: dispatch_def split: prod.splits)
    then have "\<exists>dev. bus' = bump bus i dev"
      by (auto simp: mapped_def Let_def split: if_splits sum.splits prod.splits)
    then have other: "bus_devices bus' ! j = bus_devices bus ! j" if "j \<noteq> i" for j
      using that by (auto simp: bump_def)
    have "set_reg R regs reg (mask_size (fst (op_read D (s_device (bus_devices bus ! i))
        (gpa - s_base (bus_devices bus ! i)) sz)) sz) = Inr regs'" if "\<not> wr"
      using m that reg by (auto simp: mapped_def Let_def split: sum.splits prod.splits)
    with other i fits show ?thesis by (metis nth_mem)
  qed
qed

definition demo_regs :: "(u64, unit) guest_regs" where
  "demo_regs = \<lparr>get_reg = (\<lambda>r _. Inr r), set_reg = (\<lambda>_ _ v. Inr v)\<rparr>"

definition demo_ops :: "unit mmio_ops" where
  "demo_ops = \<lparr>op_read = (\<lambda>d off sz. (0x1234, d)), op_write = (\<lambda>d _ _ _. d), op_kick = (\<lambda>_ _ _. None)\<rparr>"

end
