(* ===== verification/Machine_Vcpu.thy ===== *)
theory Machine_Vcpu
  imports Cpu_Power Mmio_Bus
begin

text \<open>
  What a vCPU thread does with the exits that \<open>run\<close> hands back, \<open>ternvale-vmm/src/machine_vcpu.rs\<close>: MMIO through
  the bus, trapped system registers, power requests, and the ways a guest ends. It puts the vCPU, the bus and
  the power table together.

  Additions on the PC are those of a release build, which wrap. The watchdog, the control gate and snapshots
  are not modelled.
\<close>

section \<open>The vCPU as the bus sees it\<close>

definition vcpu_regs :: "('h, 'e) hv_ops \<Rightarrow> nat \<Rightarrow> ('h vcpu, 'e vcpu_error) guest_regs" where
  "vcpu_regs H me =
     \<lparr>get_reg = (\<lambda>v index. fst (get_x H me index v)),
      set_reg = (\<lambda>v index x. case set_x H me index x v of (Inl err, _) \<Rightarrow> Inl err | (Inr _, v') \<Rightarrow> Inr v')\<rparr>"

datatype 'e machine_error =
    MachineVcpu "'e vcpu_error"
  | VcpuOp string "'e vcpu_error"
  | MachineMmio "'e vcpu_error mmio_error"

record ('h, 'd) machine =
  m_vcpu :: "'h vcpu"
  m_bus :: "'d mmio_bus"
  m_cell :: last_hit

definition on_vcpu ::
  "('e vcpu_error \<Rightarrow> 'e machine_error) \<Rightarrow> ('h, 'e, 'a) vcpu_op \<Rightarrow> (('h, 'd) machine, 'e machine_error, 'a) fallible" where
  "on_vcpu err f m =
     (case f (m_vcpu m) of
        (Inl x, v) \<Rightarrow> (Inl (err x), m\<lparr>m_vcpu := v\<rparr>)
      | (Inr y, v) \<Rightarrow> (Inr y, m\<lparr>m_vcpu := v\<rparr>))"

section \<open>Exits\<close>

definition step_pc :: "('h, 'e) hv_ops \<Rightarrow> nat \<Rightarrow> (('h, 'd) machine, 'e machine_error, unit) fallible" where
  "step_pc H me =
     op_bind (on_vcpu MachineVcpu (get_pc H me)) (\<lambda>pc. on_vcpu MachineVcpu (set_pc H me (pc + 4)))"

definition bus_dispatch ::
  "'d mmio_ops \<Rightarrow> ('h, 'e) hv_ops \<Rightarrow> nat \<Rightarrow> nat \<Rightarrow> exit_event \<Rightarrow> (('h, 'd) machine, 'e machine_error, unit) fallible" where
  "bus_dispatch D H me addr event m =
     (case dispatch D (vcpu_regs H me) addr (m_bus m) (m_cell m) (m_vcpu m) event of
        (err, bus, cell, v) \<Rightarrow>
          ((case err of None \<Rightarrow> Inr () | Some x \<Rightarrow> Inl (MachineMmio x)), m\<lparr>m_vcpu := v, m_bus := bus, m_cell := cell\<rparr>))"

definition dispatch_exit ::
  "'d mmio_ops \<Rightarrow> ('h, 'e) hv_ops \<Rightarrow> nat \<Rightarrow> nat \<Rightarrow> u64 \<Rightarrow> u64 \<Rightarrow> (('h, 'd) machine, 'e machine_error, bool) fallible" where
  "dispatch_exit D H me addr syndrome pa =
     (case decode syndrome pa of
        Mmio gpa sz wr reg \<Rightarrow>
          op_bind (bus_dispatch D H me addr (Mmio gpa sz wr reg)) (\<lambda>_.
          op_bind (step_pc H me) (\<lambda>_. op_return True))
      | SysReg _ _ _ _ _ reg wr \<Rightarrow>
          op_bind (if \<not> wr \<and> reg \<le> 30 then on_vcpu MachineVcpu (set_x H me reg 0) else op_return ()) (\<lambda>_.
          op_bind (step_pc H me) (\<lambda>_. op_return True))
      | _ \<Rightarrow> op_return False)"

datatype leave = LeaveCpuOff | LeaveStop

text \<open>
  The end of a turn of \<open>run_loop\<close>: the match on the reason. \<open>None\<close> in the result is the next turn; a panic is
  \<open>None\<close> for the whole.
\<close>

definition handle_exit ::
  "'d mmio_ops \<Rightarrow> ('h, 'e) hv_ops \<Rightarrow> nat \<Rightarrow> nat \<Rightarrow> exit_reason \<Rightarrow> ('h, 'd) machine \<Rightarrow> cpu_power \<Rightarrow>
   (('e machine_error + leave option) \<times> ('h, 'd) machine \<times> cpu_power) option" where
  "handle_exit D H me addr reason m p =
     (case reason of
        Exception syndrome va pa \<Rightarrow>
          (case dispatch_exit D H me addr syndrome pa m of
             (Inl err, m') \<Rightarrow> Some (Inl err, m', p)
           | (Inr True, m') \<Rightarrow> Some (Inr None, m', p)
           | (Inr False, m') \<Rightarrow> Some (Inr (Some LeaveStop), m', fst (request_stop p reason)))
      | WfiExit \<Rightarrow> Some (Inr None, m, p)
      | Canceled \<Rightarrow> Some (Inr (if stop_reason p = None then None else Some LeaveStop), m, p)
      | Psci request \<Rightarrow>
          (case power_handle p request of
             None \<Rightarrow> None
           | Some (x0, p', n) \<Rightarrow>
               (case on_vcpu (VcpuOp ''write psci status'') (set_x H me 0 x0) m of
                  (Inl err, m') \<Rightarrow> Some (Inl err, m', p')
                | (Inr _, m') \<Rightarrow> Some (Inr None, m', p')))
      | CpuOff \<Rightarrow> Some (Inr (Some LeaveCpuOff), m, p)
      | other \<Rightarrow> Some (Inr (Some LeaveStop), m, fst (request_stop p other)))"

text \<open>The state a powered-on CPU starts in, and the time of pauses hidden from the guest.\<close>

definition SCTLR_M :: u64 where "SCTLR_M = 1"

definition SCTLR_C :: u64 where "SCTLR_C = 4"

definition CPSR_EL1H_MASKED :: u64 where "CPSR_EL1H_MASKED = 0x3c5"

definition enter_at ::
  "('h, 'e) hv_ops \<Rightarrow> nat \<Rightarrow> u64 option \<Rightarrow> u64 \<Rightarrow> u64 \<Rightarrow> (('h, 'd) machine, 'e machine_error, unit) fallible" where
  "enter_at H me boot_offset entry ctx =
     op_bind (case boot_offset of
                Some off \<Rightarrow> on_vcpu (VcpuOp ''set vtimer offset'') (set_vtimer_offset H me off)
              | None \<Rightarrow> op_return ()) (\<lambda>_.
     op_bind (on_vcpu (VcpuOp ''read SCTLR_EL1'') (get_sys_reg H me SctlrEl1)) (\<lambda>sctlr.
     let cleared = sctlr AND NOT (SCTLR_M OR SCTLR_C) in
     op_bind (if cleared \<noteq> sctlr
              then on_vcpu (VcpuOp ''clear SCTLR_EL1.M/C'') (set_sys_reg H me SctlrEl1 cleared)
              else op_return ()) (\<lambda>_.
     op_bind (on_vcpu (VcpuOp ''set x0 context'') (set_x H me 0 ctx)) (\<lambda>_.
     op_bind (on_vcpu (VcpuOp ''set entry pc'') (set_pc H me entry)) (\<lambda>_.
     on_vcpu (VcpuOp ''set entry cpsr'') (set_cpsr H me CPSR_EL1H_MASKED))))))"

definition hide_pauses ::
  "('h, 'e) hv_ops \<Rightarrow> nat \<Rightarrow> u64 \<Rightarrow> u64 \<Rightarrow> (('h, 'd) machine, 'e machine_error, u64) fallible" where
  "hide_pauses H me paused applied =
     (let delta = saturating_sub paused applied in
      if delta = 0 then op_return applied
      else op_bind (on_vcpu (VcpuOp ''read vtimer offset'') (vtimer_offset H me)) (\<lambda>off.
        op_bind (on_vcpu (VcpuOp ''advance vtimer offset past a pause'') (set_vtimer_offset H me (off + delta))) (\<lambda>_.
          op_return paused)))"

section \<open>Registers through the bus\<close>

lemma on_vcpu_ok:
  "on_vcpu err f m = (Inr y, m') \<longleftrightarrow> (\<exists>v. f (m_vcpu m) = (Inr y, v) \<and> m' = m\<lparr>m_vcpu := v\<rparr>)"
  by (auto simp: on_vcpu_def split: prod.splits sum.splits)

lemma on_vcpu_err:
  "on_vcpu err f m = (Inl x, m') \<longleftrightarrow> (\<exists>e v. f (m_vcpu m) = (Inl e, v) \<and> x = err e \<and> m' = m\<lparr>m_vcpu := v\<rparr>)"
  by (auto simp: on_vcpu_def split: prod.splits sum.splits)

lemma step_pc_ok:
  assumes "hv_registers H" and "step_pc H me m = (Inr u, m')"
  shows "regs H (m_vcpu m') = skipped (regs H (m_vcpu m))" "m_bus m' = m_bus m"
proof -
  from assms(2) obtain pc v where pc: "regs H (m_vcpu m) Pc = Inr pc"
    and s: "set_pc H me (pc + 4) (m_vcpu m) = (Inr u, v)" and m': "m' = m\<lparr>m_vcpu := v\<rparr>"
    by (auto simp: step_pc_def op_bind_ok on_vcpu_ok get_pc_ok)
  from set_pc_ok(1) [OF assms(1) s] pc m' show "regs H (m_vcpu m') = skipped (regs H (m_vcpu m))" "m_bus m' = m_bus m"
    by (simp_all add: skipped_def)
qed

text \<open>What an MMIO access may change of the registers: the destination of a read.\<close>

lemma set_reg_vcpu:
  assumes "hv_registers H" and "set_reg (vcpu_regs H me) v i x = Inr v'"
  shows "regs H v' = (regs H v)(X i := Inr x)"
  using assms set_x_ok(1) [OF assms(1), of me i x v _ v']
  by (auto simp: vcpu_regs_def split: prod.splits sum.splits)

lemma dispatch_registers:
  assumes "hv_registers H"
    and "dispatch D (vcpu_regs H me) addr bus cell v (Mmio gpa sz wr reg) = (None, bus', cell', v')"
  shows "regs H v' = regs H v \<or> (\<not> wr \<and> reg \<le> 30 \<and> (\<exists>x. regs H v' = (regs H v)(X reg := Inr x)))"
proof -
  have le: "\<not> 31 < reg \<Longrightarrow> reg \<noteq> 31 \<Longrightarrow> reg \<le> 30"
    by (simp add: word_le_nat_alt word_less_nat_alt word_unat_eq_iff)
  have b: "\<not> 31 < reg" using assms(2) by (auto simp: dispatch_def split: if_splits)
  have "v' = v \<or> (\<not> wr \<and> reg \<noteq> 31 \<and> (\<exists>x. set_reg (vcpu_regs H me) v reg x = Inr v'))"
    using assms(2)
    by (auto simp: dispatch_def unmapped_def mapped_def Let_def split: if_splits option.splits prod.splits sum.splits)
  with set_reg_vcpu [OF assms(1)] le b show ?thesis by blast
qed

text \<open>The errors of the bus on a decoded access.\<close>

lemma dispatch_errors:
  assumes "event_ok (Mmio gpa sz wr reg)"
    and "dispatch D R addr bus cell v (Mmio gpa sz wr reg) = (Some err, bus', cell', v')"
  shows "(\<exists>e. err = VcpuFailed e) \<or> err = Overflow gpa (ucast sz) \<and> 2 ^ 64 \<le> unat gpa + unat sz"
proof -
  have "\<not> 31 < reg" "sz = 1 \<or> sz = 2 \<or> sz = 4 \<or> sz = 8"
    using assms(1) by (auto simp: word_less_nat_alt)
  moreover have "unat (ucast sz :: u64) = unat sz" if "sz = 1 \<or> sz = 2 \<or> sz = 4 \<or> sz = 8" using that by auto
  ultimately show ?thesis
    using assms(2)
    by (auto simp: dispatch_def unmapped_def mapped_def Let_def checked_add_None
        split: if_splits option.splits prod.splits sum.splits)
qed

section \<open>Properties\<close>

text \<open>
  C36. An exception the machine completes is an MMIO access or a trapped system register, and the instruction is
  completed once: the PC moves past it and no other register changes, except the destination of a read, which
  is a register the hypervisor has. A trapped system register reads as 0 and leaves the bus alone.
\<close>

theorem machine_exception_effect:
  assumes "hv_registers H" and "dispatch_exit D H me addr esr pa m = (Inr True, m')"
  shows "(\<exists>gpa sz wr reg. decode esr pa = Mmio gpa sz wr reg \<and>
      (regs H (m_vcpu m') = skipped (regs H (m_vcpu m)) \<or>
       (\<not> wr \<and> reg \<le> 30 \<and> (\<exists>x. regs H (m_vcpu m') = skipped ((regs H (m_vcpu m))(X reg := Inr x)))))) \<or>
    (\<exists>op0 op1 crn crm op2 reg wr. decode esr pa = SysReg op0 op1 crn crm op2 reg wr \<and> m_bus m' = m_bus m \<and>
      regs H (m_vcpu m') =
        skipped (if \<not> wr \<and> reg \<le> 30 then (regs H (m_vcpu m))(X reg := Inr 0) else regs H (m_vcpu m)))"
proof (cases "decode esr pa")
  case (Mmio gpa sz wr reg)
  with assms(2) obtain m1 where b: "bus_dispatch D H me addr (Mmio gpa sz wr reg) m = (Inr (), m1)"
    and p: "step_pc H me m1 = (Inr (), m')"
    by (auto simp: dispatch_exit_def op_bind_ok)
  from b obtain bus cell where
    "dispatch D (vcpu_regs H me) addr (m_bus m) (m_cell m) (m_vcpu m) (Mmio gpa sz wr reg) =
      (None, bus, cell, m_vcpu m1)"
    by (auto simp: bus_dispatch_def split: prod.splits option.splits)
  from dispatch_registers [OF assms(1) this] step_pc_ok(1) [OF assms(1) p] Mmio show ?thesis by auto
next
  case (SysReg op0 op1 crn crm op2 reg wr)
  with assms(2) obtain m1 where
    w: "(if \<not> wr \<and> reg \<le> 30 then on_vcpu MachineVcpu (set_x H me reg 0) else op_return ()) m = (Inr (), m1)"
    and p: "step_pc H me m1 = (Inr (), m')"
    by (auto simp: dispatch_exit_def op_bind_ok)
  have "regs H (m_vcpu m1) = (if \<not> wr \<and> reg \<le> 30 then (regs H (m_vcpu m))(X reg := Inr 0) else regs H (m_vcpu m)) \<and>
      m_bus m1 = m_bus m"
  proof (cases "\<not> wr \<and> reg \<le> 30")
    case True
    with w obtain v where "set_x H me reg 0 (m_vcpu m) = (Inr (), v)" "m1 = m\<lparr>m_vcpu := v\<rparr>"
      by (auto simp: on_vcpu_ok)
    with set_x_ok(1) [OF assms(1) this(1)] True show ?thesis by simp
  next
    case False
    with w have "m1 = m" by auto
    with False show ?thesis by auto
  qed
  with step_pc_ok [OF assms(1) p] SysReg show ?thesis by auto
qed (use assms(2) in \<open>simp_all add: dispatch_exit_def\<close>)

definition demo_machine :: "(demo_hv, unit) machine" where
  "demo_machine = \<lparr>m_vcpu = vcpu_create (demo_regs0 7, []) 3, m_bus = demo_bus, m_cell = (0, 0, 0)\<rparr>"

lemma demo_abort_decode: "decode 0x91030000 0x09000000 = Mmio 0x09000000 1 False 3"
  by (simp add: decode_def decode_data_abort_def ec_defs Let_def)

theorem machine_exception_effect_witness:
  "\<exists>m'. dispatch_exit demo_ops demo_hv 3 7 0x91030000 0x09000000 demo_machine = (Inr True, m') \<and>
     regs demo_hv (m_vcpu m') Pc = Inr 0x4000000c \<and> regs demo_hv (m_vcpu m') (X 0) = Inr 7"
proof -
  have "\<exists>m'. dispatch_exit demo_ops demo_hv 3 7 0x91030000 0x09000000 demo_machine = (Inr True, m')"
    by (simp add: dispatch_exit_def demo_abort_decode bus_dispatch_def dispatch_def checked_add_def lookup_def
        lookup_sorted_def partition_point_def demo_bus_def slot_contains_def mapped_def demo_ops_def op_bind_def
        vcpu_regs_def set_x_def on_owner_thread_def hv_write_def hv_read_def demo_hv_def demo_machine_def vcpu_create_def
        step_pc_def on_vcpu_def get_pc_def set_pc_def)
  then obtain m' where d: "dispatch_exit demo_ops demo_hv 3 7 0x91030000 0x09000000 demo_machine = (Inr True, m')" ..
  have R: "regs demo_hv (m_vcpu demo_machine) = Inr \<circ> demo_regs0 7"
    by (simp add: regs_def demo_hv_def demo_machine_def vcpu_create_def fun_eq_iff)
  from machine_exception_effect [OF demo_hv_registers d] have
    "regs demo_hv (m_vcpu m') Pc = Inr 0x4000000c \<and> regs demo_hv (m_vcpu m') (X 0) = Inr 7"
    unfolding demo_abort_decode R by (auto simp: skipped_def demo_regs0_def)
  with d show ?thesis by blast
qed

text \<open>
  No guest access can make the bus refuse its size, its register or its kind: when completing an exception
  fails, the hypervisor failed, or the access runs past the end of the address space.
\<close>

lemma machine_exception_errors:
  assumes "dispatch_exit D H me addr esr pa m = (Inl err, m')"
  shows "(\<exists>e. err = MachineVcpu e \<or> err = MachineMmio (VcpuFailed e)) \<or>
    (\<exists>sz wr reg. decode esr pa = Mmio pa sz wr reg \<and> err = MachineMmio (Overflow pa (ucast sz)) \<and>
      2 ^ 64 \<le> unat pa + unat sz)"
proof (cases "decode esr pa")
  case (Mmio gpa sz wr reg)
  have gpa: "gpa = pa" using Mmio by (rule decode_gpa)
  have ok: "event_ok (Mmio gpa sz wr reg)" using decode_ok [of esr pa] Mmio by simp
  from assms Mmio consider
    "bus_dispatch D H me addr (Mmio gpa sz wr reg) m = (Inl err, m')" | m1 where "step_pc H me m1 = (Inl err, m')"
    by (auto simp: dispatch_exit_def op_bind_err)
  then show ?thesis
  proof cases
    case 1
    then obtain x bus cell v where "err = MachineMmio x"
      "dispatch D (vcpu_regs H me) addr (m_bus m) (m_cell m) (m_vcpu m) (Mmio gpa sz wr reg) = (Some x, bus, cell, v)"
      by (auto simp: bus_dispatch_def split: prod.splits option.splits)
    with dispatch_errors [OF ok this(2)] Mmio gpa show ?thesis by auto
  next
    case 2
    then show ?thesis by (auto simp: step_pc_def op_bind_err on_vcpu_err)
  qed
qed (use assms in \<open>auto simp: dispatch_exit_def op_bind_err step_pc_def on_vcpu_err split: if_splits\<close>)

fun hide_all :: "('h, 'e) hv_ops \<Rightarrow> nat \<Rightarrow> u64 list \<Rightarrow> u64 \<Rightarrow> (('h, 'd) machine, 'e machine_error, u64) fallible" where
  "hide_all H me [] applied = op_return applied"
| "hide_all H me (t # ts) applied = op_bind (hide_pauses H me t applied) (hide_all H me ts)"

lemma hide_pauses_ok:
  assumes "\<forall>h x h'. hv_set_vtimer_offset H h x = Inr h' \<longrightarrow> hv_get_vtimer_offset H h' = Inr x"
    and "applied \<le> t" and "hv_get_vtimer_offset H (v_hv (m_vcpu m)) = Inr (boot + applied)"
    and "hide_pauses H me t applied m = (Inr a, m')"
  shows "a = t \<and> hv_get_vtimer_offset H (v_hv (m_vcpu m')) = Inr (boot + t)"
proof -
  have sub: "saturating_sub t applied = t - applied" using assms(2) by (simp add: saturating_sub_def)
  show ?thesis
  proof (cases "t = applied")
    case False
    then have "t - applied \<noteq> 0" by simp
    with assms(4) sub obtain off v where "vtimer_offset H me (m_vcpu m) = (Inr off, v)" "a = t"
      and w: "set_vtimer_offset H me (off + (t - applied)) v = (Inr (), m_vcpu m')"
      by (auto simp: hide_pauses_def Let_def op_bind_ok on_vcpu_ok)
    with assms(3) have "off = boot + applied" "v = m_vcpu m" by (simp_all add: vtimer_offset_ok)
    with w assms(1) \<open>a = t\<close> show ?thesis by (auto simp: set_vtimer_offset_ok)
  qed (use assms sub in \<open>simp add: hide_pauses_def Let_def\<close>)
qed

text \<open>
  The guest's counter does not see pauses: whatever the machine's paused time was at each entry, the offset
  of the virtual timer is its boot value plus the paused time at the last entry.
\<close>

lemma machine_pauses_hidden:
  assumes "\<forall>h x h'. hv_set_vtimer_offset H h x = Inr h' \<longrightarrow> hv_get_vtimer_offset H h' = Inr x"
    and "sorted (0 # ts)" and "hv_get_vtimer_offset H (v_hv (m_vcpu m)) = Inr boot"
    and "hide_all H me ts 0 m = (Inr a, m')"
  shows "hv_get_vtimer_offset H (v_hv (m_vcpu m')) = Inr (boot + last (0 # ts))"
proof -
  have "hv_get_vtimer_offset H (v_hv (m_vcpu m')) = Inr (boot + last (applied # ts))"
    if "sorted (applied # ts)" "hv_get_vtimer_offset H (v_hv (m_vcpu m)) = Inr (boot + applied)"
      "hide_all H me ts applied m = (Inr a, m')" for applied
    using that
  proof (induction ts arbitrary: applied m)
    case (Cons t ts)
    from Cons.prems(3) obtain b m1 where h: "hide_pauses H me t applied m = (Inr b, m1)"
      and r: "hide_all H me ts b m1 = (Inr a, m')"
      by (auto simp: op_bind_ok)
    from Cons.prems(1) have "applied \<le> t" by simp
    from hide_pauses_ok [OF assms(1) this Cons.prems(2) h] Cons.IH [of t m1] Cons.prems(1) r
    show ?case by auto
  qed simp
  from this [of 0] assms show ?thesis by simp
qed

definition demo_timer :: "(u64, unit) hv_ops" where
  "demo_timer =
     \<lparr>hv_get_reg = (\<lambda>_ _. Inr 0), hv_set_reg = (\<lambda>h _ _. Inr h), hv_get_sys_reg = (\<lambda>_ _. Inr 0),
      hv_set_sys_reg = (\<lambda>h _ _. Inr h), hv_get_vtimer_offset = Inr, hv_set_vtimer_offset = (\<lambda>_ x. Inr x),
      hv_set_vtimer_mask = (\<lambda>h _. Inr h), hv_raise_vtimer_ppi = Inr, hv_host_ticks = (\<lambda>_. 0),
      hv_vcpu_run = undefined, hv_wait = (\<lambda>h _. (h, NoSignal))\<rparr>"

end
