(* ===== verification/Pci_Config.thy ===== *)
theory Pci_Config
  imports Prelude
begin

text \<open>
  PCI configuration space, \<open>ternvale-vmm/src/pci/config.rs\<close> and \<open>pci/capability.rs\<close>: a type 0 header of 256 bytes
  with a write mask per byte, memory BARs and the capability list.

  The space is the code's two byte arrays, slot table and two capability cursors. The lemmas read it by byte
  (\<open>cfg_byte\<close>, \<open>mask_byte\<close>) and by register (\<open>u32_at\<close>, \<open>mask_u32\<close>); two invariants, one for the BAR registers
  and one for the capability list, hold of a new space and are kept by every operation on it.
\<close>

section \<open>The space\<close>

definition CONFIG_SPACE_SIZE :: nat where "CONFIG_SPACE_SIZE = 256"

definition COMMAND :: nat where "COMMAND = 0x04"

definition STATUS :: nat where "STATUS = 0x06"

definition CAP_PTR :: nat where "CAP_PTR = 0x34"

definition INTERRUPT_LINE :: nat where "INTERRUPT_LINE = 0x3c"

definition INTERRUPT_PIN :: nat where "INTERRUPT_PIN = 0x3d"

definition COMMAND_MEMORY :: u16 where "COMMAND_MEMORY = 2"

definition COMMAND_INTX_DISABLE :: u16 where "COMMAND_INTX_DISABLE = 0x400"

definition STATUS_CAP_LIST :: u16 where "STATUS_CAP_LIST = 0x10"

definition BAR0 :: nat where "BAR0 = 0x10"

definition BARS :: nat where "BARS = 6"

definition FIRST_CAP :: nat where "FIRST_CAP = 0x40"

definition COMMAND_WRITABLE :: u16 where "COMMAND_WRITABLE = 0x0546"

lemmas config_defs = CONFIG_SPACE_SIZE_def COMMAND_def STATUS_def CAP_PTR_def INTERRUPT_LINE_def INTERRUPT_PIN_def
  BAR0_def BARS_def FIRST_CAP_def

record header =
  hdr_vendor_id :: u16
  hdr_device_id :: u16
  class_code :: u32
  revision :: u8
  subsystem_vendor_id :: u16
  subsystem_id :: u16
  interrupt_pin :: u8

datatype bar_kind = Mem32 | Mem64

record bar =
  bar_size :: u64
  bar_kind :: bar_kind
  prefetchable :: bool

datatype bar_slot = EmptySlot | BarSlot bar | Upper

record config_space =
  c_data :: "u8 list"
  c_wmask :: "u8 list"
  c_bars :: "bar_slot list"
  next_cap :: nat
  last_cap :: "nat option"

datatype pci_error =
    BarIndex nat bar_kind
  | BarSize u64 bar_kind
  | BarTaken nat
  | CapabilitySpace u8 nat
  | CapabilityList u8 string

text \<open>Overwrite bytes of an array from an offset, cut at its end: \<open>put\<close> for the data, slice copies for the masks.\<close>

definition splice :: "'a list \<Rightarrow> nat \<Rightarrow> 'a list \<Rightarrow> 'a list" where
  "splice xs off ys =
     (let e = min (off + length ys) (length xs) in
      if off < e then take off xs @ take (e - off) ys @ drop e xs else xs)"

definition put :: "config_space \<Rightarrow> nat \<Rightarrow> u8 list \<Rightarrow> config_space" where
  "put c off bytes = c\<lparr>c_data := splice (c_data c) off bytes\<rparr>"

definition put_mask :: "config_space \<Rightarrow> nat \<Rightarrow> u8 list \<Rightarrow> config_space" where
  "put_mask c off bytes = c\<lparr>c_wmask := splice (c_wmask c) off bytes\<rparr>"

definition config_new :: "header \<Rightarrow> config_space" where
  "config_new h =
     (let c = \<lparr>c_data = replicate CONFIG_SPACE_SIZE 0, c_wmask = replicate CONFIG_SPACE_SIZE 0,
               c_bars = replicate BARS EmptySlot, next_cap = FIRST_CAP, last_cap = None\<rparr>;
          c = put c 0x00 (to_le 2 (hdr_vendor_id h)); c = put c 0x02 (to_le 2 (hdr_device_id h));
          c = put c 0x08 [revision h]; c = put c 0x09 (to_le 3 (class_code h));
          c = put c 0x2c (to_le 2 (subsystem_vendor_id h)); c = put c 0x2e (to_le 2 (subsystem_id h));
          c = put c INTERRUPT_PIN [interrupt_pin h];
          c = put_mask c COMMAND (to_le 2 COMMAND_WRITABLE);
          c = put_mask c 0x0c [0xff]; c = put_mask c 0x0d [0xff]
      in put_mask c INTERRUPT_LINE [0xff])"

text \<open>A guest read: bytes beyond the array are 0, and at most four are read.\<close>

definition cfg_byte :: "config_space \<Rightarrow> nat \<Rightarrow> u8" where
  "cfg_byte c i = (if i < length (c_data c) then c_data c ! i else 0)"

definition config_read :: "config_space \<Rightarrow> nat \<Rightarrow> nat \<Rightarrow> u32" where
  "config_read c off sz = from_le (map (\<lambda>i. cfg_byte c (off + i)) [0..<min sz 4])"

text \<open>A guest write goes through the masks byte by byte and returns at the end of the array.\<close>

fun write_bytes_from :: "config_space \<Rightarrow> nat \<Rightarrow> nat \<Rightarrow> nat \<Rightarrow> u32 \<Rightarrow> config_space" where
  "write_bytes_from c start i 0 v = c"
| "write_bytes_from c start i (Suc n) v =
     (if start + i < length (c_wmask c) then
        let m = c_wmask c ! (start + i); byte = ucast (drop_bit (8 * i) v); old = c_data c ! (start + i)
        in write_bytes_from (c\<lparr>c_data := (c_data c)[start + i := (old AND NOT m) OR (byte AND m)]\<rparr>) start (Suc i) n v
      else c)"

definition config_write :: "config_space \<Rightarrow> nat \<Rightarrow> nat \<Rightarrow> u32 \<Rightarrow> config_space" where
  "config_write c off sz v = write_bytes_from c off 0 (min sz 4) v"

definition u16_at :: "config_space \<Rightarrow> nat \<Rightarrow> u16" where
  "u16_at c off = ucast (config_read c off 2)"

definition u32_at :: "config_space \<Rightarrow> nat \<Rightarrow> u32" where
  "u32_at c off = config_read c off 4"

definition command :: "config_space \<Rightarrow> u16" where
  "command c = u16_at c COMMAND"

definition memory_enabled :: "config_space \<Rightarrow> bool" where
  "memory_enabled c \<longleftrightarrow> command c AND COMMAND_MEMORY \<noteq> 0"

definition intx_disabled :: "config_space \<Rightarrow> bool" where
  "intx_disabled c \<longleftrightarrow> command c AND COMMAND_INTX_DISABLE \<noteq> 0"

text \<open>Raw access for functions that keep dynamic fields in a capability; no masks.\<close>

definition config_bytes :: "config_space \<Rightarrow> nat \<Rightarrow> nat \<Rightarrow> u8 list" where
  "config_bytes c off len =
     (let e = min (off + len) CONFIG_SPACE_SIZE; o' = min off e in take (e - o') (drop o' (c_data c)))"

definition set_bytes :: "config_space \<Rightarrow> nat \<Rightarrow> u8 list \<Rightarrow> config_space" where
  "set_bytes c off bytes = put c off bytes"

section \<open>BARs\<close>

definition bar_regs :: "bar_kind \<Rightarrow> nat" where
  "bar_regs k = (if k = Mem64 then 2 else 1)"

definition bar_flags :: "bar \<Rightarrow> u32" where
  "bar_flags b = (if bar_kind b = Mem64 then 4 else 0) OR (if prefetchable b then 8 else 0)"

definition add_bar :: "config_space \<Rightarrow> nat \<Rightarrow> bar \<Rightarrow> pci_error + config_space" where
  "add_bar c index b =
     (let kind = bar_kind b; n = bar_regs kind; mx = (if kind = Mem64 then 2 ^ 63 else 2 ^ 31) in
      if BARS < index + n then Inl (BarIndex index kind)
      else if bar_size b < 16 \<or> mx < bar_size b \<or> \<not> is_power_of_two (bar_size b) then Inl (BarSize (bar_size b) kind)
      else case find (\<lambda>i. c_bars c ! i \<noteq> EmptySlot) [index..<index + n] of
        Some taken \<Rightarrow> Inl (BarTaken taken)
      | None \<Rightarrow>
          let address_mask = NOT (bar_size b - 1); r = BAR0 + index * 4;
              c = put c r (to_le 4 (bar_flags b));
              c = put_mask c r (to_le 4 ((ucast address_mask :: u32) AND NOT 0xf));
              c = c\<lparr>c_bars := (c_bars c)[index := BarSlot b]\<rparr>
          in Inr (if kind = Mem64
                  then (put_mask c (r + 4) (to_le 4 (ucast (drop_bit 32 address_mask) :: u32)))
                         \<lparr>c_bars := (c_bars c)[Suc index := Upper]\<rparr>
                  else c))"

definition bar_at :: "config_space \<Rightarrow> nat \<Rightarrow> bar option" where
  "bar_at c index =
     (if index < length (c_bars c) then case c_bars c ! index of BarSlot b \<Rightarrow> Some b | _ \<Rightarrow> None else None)"

definition bar_address :: "config_space \<Rightarrow> nat \<Rightarrow> u64 option" where
  "bar_address c index =
     (case bar_at c index of
        None \<Rightarrow> None
      | Some b \<Rightarrow>
          let r = BAR0 + index * 4; low = ucast (u32_at c r AND NOT 0xf) :: u64;
              high = (case bar_kind b of Mem32 \<Rightarrow> 0 | Mem64 \<Rightarrow> ucast (u32_at c (r + 4)))
          in Some (push_bit 32 high OR low))"

definition set_bar_address :: "config_space \<Rightarrow> nat \<Rightarrow> u64 \<Rightarrow> config_space" where
  "set_bar_address c index address =
     (case bar_at c index of
        None \<Rightarrow> c
      | Some b \<Rightarrow>
          let a = address AND NOT (bar_size b - 1); r = BAR0 + index * 4; flags = u32_at c r AND 0xf;
              c1 = put c r (to_le 4 ((ucast a :: u32) OR flags))
          in if bar_kind b = Mem64 then put c1 (r + 4) (to_le 4 (ucast (drop_bit 32 a) :: u32)) else c1)"

definition decoded_bars :: "config_space \<Rightarrow> (nat \<times> u64 \<times> u64) list" where
  "decoded_bars c =
     (if \<not> memory_enabled c then []
      else List.map_filter (\<lambda>index.
        case bar_at c index of
          None \<Rightarrow> None
        | Some b \<Rightarrow>
            (case bar_address c index of
               None \<Rightarrow> None
             | Some base \<Rightarrow> if base \<noteq> 0 then Some (index, base, bar_size b) else None)) [0..<BARS])"

section \<open>Capabilities\<close>

definition add_capability :: "config_space \<Rightarrow> u8 \<Rightarrow> u8 list \<Rightarrow> u8 list \<Rightarrow> pci_error + u8 \<times> config_space" where
  "add_capability c cid body body_wmask =
     (let len = 2 + length body; off = next_cap c in
      if CONFIG_SPACE_SIZE < off + len \<or> length body < length body_wmask then Inl (CapabilitySpace cid len)
      else
        let c = put c off [cid, 0];
            c = put c (off + 2) body;
            c = put_mask c (off + 2) body_wmask;
            c = (case last_cap c of
                   Some prev \<Rightarrow> put c (prev + 1) [of_nat off]
                 | None \<Rightarrow> put c CAP_PTR [of_nat off]);
            c = put c STATUS (to_le 2 (u16_at c STATUS OR STATUS_CAP_LIST))
        in Inr (of_nat off, c\<lparr>last_cap := Some off, next_cap := (off + len + 3) div 4 * 4\<rparr>))"

record capability =
  cap_offset :: u8
  cap_id :: u8
  cap_next :: u8

definition CAP_SPACE_START :: u8 where "CAP_SPACE_START = 0x40"

text \<open>
  The walk. Every pointer is a multiple of 4 from \<open>0x40\<close> that has not been visited, so it ends; \<open>seen\<close> is the list
  built so far.
\<close>

definition cap_ptr :: "config_space \<Rightarrow> nat \<Rightarrow> u8" where
  "cap_ptr c i = ucast (config_read c i 1) AND NOT 3"

function cap_walk :: "config_space \<Rightarrow> u8 \<Rightarrow> capability list \<Rightarrow> pci_error + capability list" where
  "cap_walk c at seen =
     (if at = 0 then Inr seen
      else if at < CAP_SPACE_START then Inl (CapabilityList at ''pointer into the type 0 header'')
      else if at \<in> cap_offset ` set seen
        then Inl (CapabilityList at ''pointer loops back to an earlier capability'')
      else
        let nxt = cap_ptr c (unat at + 1)
        in cap_walk c nxt (seen @ [\<lparr>cap_offset = at, cap_id = ucast (config_read c (unat at) 1), cap_next = nxt\<rparr>]))"
  by pat_completeness auto
termination
proof (relation "measure (\<lambda>(c, at, seen). card (- (cap_offset ` set seen)))")
  fix c at and seen :: "capability list" and nxt
  assume "at \<notin> cap_offset ` set seen"
  then have "- (cap_offset ` set (seen @ [\<lparr>cap_offset = at, cap_id = i, cap_next = n\<rparr>])) \<subset> - (cap_offset ` set seen)" for i n
    by auto
  then show "((c, nxt, seen @ [\<lparr>cap_offset = at, cap_id = ucast (config_read c (unat at) 1), cap_next = nxt\<rparr>]), c, at, seen)
      \<in> measure (\<lambda>(c, at, seen). card (- (cap_offset ` set seen)))"
    by (auto intro!: psubset_card_mono)
qed simp

declare cap_walk.simps [simp del]

definition capabilities :: "config_space \<Rightarrow> pci_error + capability list" where
  "capabilities c =
     (if u16_at c STATUS AND STATUS_CAP_LIST = 0 then Inr [] else cap_walk c (cap_ptr c CAP_PTR) [])"

section \<open>Operations on a function's space\<close>

text \<open>
  What happens to a space in its life: a device builder declares BARs and capabilities, the host assigns addresses and
  the guest writes. A rejected declaration leaves the space as it was: both return before the first change.
\<close>

datatype config_op =
    AddBar nat bar
  | AddCapability u8 "u8 list" "u8 list"
  | SetBarAddress nat u64
  | GuestWrite nat nat u32

fun config_step :: "config_op \<Rightarrow> config_space \<Rightarrow> config_space" where
  "config_step (AddBar i b) c = (case add_bar c i b of Inl _ \<Rightarrow> c | Inr c' \<Rightarrow> c')"
| "config_step (AddCapability cid body wm) c = (case add_capability c cid body wm of Inl _ \<Rightarrow> c | Inr (_, c') \<Rightarrow> c')"
| "config_step (SetBarAddress i a) c = set_bar_address c i a"
| "config_step (GuestWrite off sz v) c = config_write c off sz v"

section \<open>Bytes\<close>

definition mask_byte :: "config_space \<Rightarrow> nat \<Rightarrow> u8" where
  "mask_byte c i = (if i < length (c_wmask c) then c_wmask c ! i else 0)"

definition sized :: "config_space \<Rightarrow> bool" where
  "sized c \<longleftrightarrow> length (c_data c) = CONFIG_SPACE_SIZE \<and> length (c_wmask c) = CONFIG_SPACE_SIZE \<and> length (c_bars c) = BARS"

lemma length_splice [simp]: "length (splice xs off ys) = length xs"
  by (simp add: splice_def Let_def)

lemma nth_splice:
  "j < length xs \<Longrightarrow> splice xs off ys ! j = (if off \<le> j \<and> j < off + length ys then ys ! (j - off) else xs ! j)"
  by (auto simp: splice_def Let_def nth_append min_def)

lemma put_fields [simp]:
  "c_wmask (put c off bs) = c_wmask c" "c_bars (put c off bs) = c_bars c" "next_cap (put c off bs) = next_cap c"
  "last_cap (put c off bs) = last_cap c" "length (c_data (put c off bs)) = length (c_data c)"
  "c_data (put_mask c off bs) = c_data c" "c_bars (put_mask c off bs) = c_bars c"
  "next_cap (put_mask c off bs) = next_cap c" "last_cap (put_mask c off bs) = last_cap c"
  "length (c_wmask (put_mask c off bs)) = length (c_wmask c)"
  by (simp_all add: put_def put_mask_def)

lemma sized_put [simp]: "sized (put c off bs) = sized c" "sized (put_mask c off bs) = sized c"
  by (simp_all add: sized_def)

lemma cfg_byte_put:
  "cfg_byte (put c off bs) j =
     (if off \<le> j \<and> j < off + length bs \<and> j < length (c_data c) then bs ! (j - off) else cfg_byte c j)"
  by (auto simp: cfg_byte_def put_def nth_splice)

lemma mask_byte_put_mask:
  "mask_byte (put_mask c off bs) j =
     (if off \<le> j \<and> j < off + length bs \<and> j < length (c_wmask c) then bs ! (j - off) else mask_byte c j)"
  by (auto simp: mask_byte_def put_mask_def nth_splice)

lemma byte_frames [simp]:
  "mask_byte (put c off bs) j = mask_byte c j"
  "cfg_byte (put_mask c off bs) j = cfg_byte c j"
  "cfg_byte (c\<lparr>c_bars := bars\<rparr>) j = cfg_byte c j" "mask_byte (c\<lparr>c_bars := bars\<rparr>) j = mask_byte c j"
  "cfg_byte (c\<lparr>last_cap := l, next_cap := n\<rparr>) j = cfg_byte c j"
  "mask_byte (c\<lparr>last_cap := l, next_cap := n\<rparr>) j = mask_byte c j"
  by (simp_all add: cfg_byte_def mask_byte_def)

text \<open>A guest write changes exactly the writable bits of the bytes it covers.\<close>

lemma write_bytes_from_fields [simp]:
  "c_wmask (write_bytes_from c st i n v) = c_wmask c" "c_bars (write_bytes_from c st i n v) = c_bars c"
  "next_cap (write_bytes_from c st i n v) = next_cap c" "last_cap (write_bytes_from c st i n v) = last_cap c"
  "length (c_data (write_bytes_from c st i n v)) = length (c_data c)"
  by (induction c st i n v rule: write_bytes_from.induct) (simp_all add: Let_def)

lemma cfg_byte_write_bytes_from:
  assumes "length (c_data c) = length (c_wmask c)"
  shows "cfg_byte (write_bytes_from c st i n v) j =
    (if st + i \<le> j \<and> j < st + i + n
     then (cfg_byte c j AND NOT (mask_byte c j)) OR (ucast (drop_bit (8 * (j - st)) v) AND mask_byte c j)
     else cfg_byte c j)"
  using assms
proof (induction c st i n v rule: write_bytes_from.induct)
  case (1 c st i v)
  then show ?case by auto
next
  case (2 c st i n v)
  show ?case
  proof (cases "st + i < length (c_wmask c)")
    case True
    let ?m = "c_wmask c ! (st + i)" and ?old = "c_data c ! (st + i)"
    let ?c = "c\<lparr>c_data := (c_data c)[st + i := (?old AND NOT ?m) OR (ucast (drop_bit (8 * i) v) AND ?m)]\<rparr>"
    from 2 True have IH: "cfg_byte (write_bytes_from ?c st (Suc i) n v) j =
      (if st + Suc i \<le> j \<and> j < st + Suc i + n
       then (cfg_byte ?c j AND NOT (mask_byte ?c j)) OR (ucast (drop_bit (8 * (j - st)) v) AND mask_byte ?c j)
       else cfg_byte ?c j)"
      by simp
    have mb: "mask_byte ?c j = mask_byte c j" by (simp add: mask_byte_def)
    have cb: "cfg_byte ?c j = (if j = st + i then (?old AND NOT ?m) OR (ucast (drop_bit (8 * i) v) AND ?m) else cfg_byte c j)"
      using True 2 by (simp add: cfg_byte_def nth_list_update)
    have here: "j = st + i \<Longrightarrow> mask_byte c j = ?m \<and> cfg_byte c j = ?old"
      using True 2 by (simp add: cfg_byte_def mask_byte_def)
    show ?thesis
    proof (cases "j = st + i")
      case j: True
      with IH cb have "cfg_byte (write_bytes_from ?c st (Suc i) n v) j =
          (?old AND NOT ?m) OR (ucast (drop_bit (8 * i) v) AND ?m)"
        by simp
      with True j here show ?thesis by (simp add: Let_def)
    next
      case False
      with IH cb mb True show ?thesis by (auto simp: Let_def)
    qed
  next
    case False
    then have "\<And>j. st + i \<le> j \<Longrightarrow> mask_byte c j = 0" by (simp add: mask_byte_def)
    with False show ?thesis by auto
  qed
qed

lemma config_write_fields [simp]:
  "c_wmask (config_write c off sz v) = c_wmask c" "c_bars (config_write c off sz v) = c_bars c"
  "next_cap (config_write c off sz v) = next_cap c" "last_cap (config_write c off sz v) = last_cap c"
  "sized (config_write c off sz v) = sized c" "mask_byte (config_write c off sz v) j = mask_byte c j"
  by (simp_all add: config_write_def sized_def mask_byte_def)

lemma cfg_byte_config_write:
  "sized c \<Longrightarrow> cfg_byte (config_write c off sz v) j =
    (if off \<le> j \<and> j < off + min sz 4
     then (cfg_byte c j AND NOT (mask_byte c j)) OR (ucast (drop_bit (8 * (j - off)) v) AND mask_byte c j)
     else cfg_byte c j)"
  unfolding config_write_def using cfg_byte_write_bytes_from [of c off 0 "min sz 4" v j] by (simp add: sized_def)

lemma config_write_keeps_read_only:
  "sized c \<Longrightarrow> cfg_byte (config_write c off sz v) j AND NOT (mask_byte c j) = cfg_byte c j AND NOT (mask_byte c j)"
  by (rule bit_word_eqI) (auto simp: cfg_byte_config_write bit_simps)

section \<open>Registers\<close>

definition mask_u32 :: "config_space \<Rightarrow> nat \<Rightarrow> u32" where
  "mask_u32 c r = from_le (map (\<lambda>i. mask_byte c (r + i)) [0..<4])"

lemma bit_u32_at: "bit (u32_at c r) n \<longleftrightarrow> n < 32 \<and> bit (cfg_byte c (r + n div 8)) (n mod 8)"
  by (auto simp: u32_at_def config_read_def bit_from_le)

lemma bit_mask_u32: "bit (mask_u32 c r) n \<longleftrightarrow> n < 32 \<and> bit (mask_byte c (r + n div 8)) (n mod 8)"
  by (auto simp: mask_u32_def bit_from_le)

lemma u32_at_cong: "(\<And>j. r \<le> j \<Longrightarrow> j < r + 4 \<Longrightarrow> cfg_byte c j = cfg_byte c' j) \<Longrightarrow> u32_at c r = u32_at c' r"
  by (rule bit_word_eqI) (auto simp: bit_u32_at)

lemma mask_u32_cong: "(\<And>j. r \<le> j \<Longrightarrow> j < r + 4 \<Longrightarrow> mask_byte c j = mask_byte c' j) \<Longrightarrow> mask_u32 c r = mask_u32 c' r"
  by (rule bit_word_eqI) (auto simp: bit_mask_u32)

lemma bit_le_byte: "n < 32 \<Longrightarrow> bit (to_le 4 w ! (n div 8)) (n mod 8) = bit (w :: u32) n"
  by (simp add: nth_to_le bit_simps)

lemma u32_at_put [simp]: "sized c \<Longrightarrow> r + 4 \<le> 256 \<Longrightarrow> u32_at (put c r (to_le 4 w)) r = (w :: u32)"
  by (rule bit_word_eqI) (auto simp: bit_u32_at cfg_byte_put sized_def config_defs bit_le_byte)

lemma mask_u32_put_mask [simp]:
  "sized c \<Longrightarrow> r + 4 \<le> 256 \<Longrightarrow> mask_u32 (put_mask c r (to_le 4 w)) r = (w :: u32)"
  by (rule bit_word_eqI) (auto simp: bit_mask_u32 mask_byte_put_mask sized_def config_defs bit_le_byte)

lemma u32_at_frames [simp]:
  "u32_at (put_mask c off bs) r = u32_at c r" "u32_at (c\<lparr>c_bars := bars\<rparr>) r = u32_at c r"
  "mask_u32 (put c off bs) r = mask_u32 c r" "mask_u32 (c\<lparr>c_bars := bars\<rparr>) r = mask_u32 c r"
  by (rule u32_at_cong mask_u32_cong, simp)+

lemma u32_at_put_other: "r + 4 \<le> off \<or> off + length bs \<le> r \<Longrightarrow> u32_at (put c off bs) r = u32_at c r"
  by (rule u32_at_cong) (auto simp: cfg_byte_put)

lemma mask_u32_put_other: "r + 4 \<le> off \<or> off + length bs \<le> r \<Longrightarrow> mask_u32 (put_mask c off bs) r = mask_u32 c r"
  by (rule mask_u32_cong) (auto simp: mask_byte_put_mask)

lemma config_write_mask_u32 [simp]: "mask_u32 (config_write c off sz v) r = mask_u32 c r"
  by (rule mask_u32_cong) simp

lemma config_write_register_read_only:
  assumes "sized c"
  shows "u32_at (config_write c off sz v) r AND NOT (mask_u32 c r) = u32_at c r AND NOT (mask_u32 c r)"
proof (rule bit_word_eqI)
  fix n
  assume "n < LENGTH(32)"
  then show "bit (u32_at (config_write c off sz v) r AND NOT (mask_u32 c r)) n = bit (u32_at c r AND NOT (mask_u32 c r)) n"
    using config_write_keeps_read_only [OF assms, of off sz v "r + n div 8"]
    by (auto simp: bit_u32_at bit_mask_u32 bit_simps cfg_byte_config_write assms)
qed

lemma config_write_register:
  assumes "sized c" "r + 4 \<le> 256"
  shows "u32_at (config_write c r 4 v) r = (u32_at c r AND NOT (mask_u32 c r)) OR (v AND mask_u32 c r)"
proof (rule bit_word_eqI)
  fix n
  assume "n < LENGTH(32)"
  moreover from this have "n div 8 < 4" by simp
  ultimately show "bit (u32_at (config_write c r 4 v) r) n = bit ((u32_at c r AND NOT (mask_u32 c r)) OR (v AND mask_u32 c r)) n"
    by (auto simp: bit_u32_at bit_mask_u32 bit_simps cfg_byte_config_write assms)
qed

lemma config_write_other_register: "sized c \<Longrightarrow> r + 4 \<le> off \<or> off + 4 \<le> r \<Longrightarrow> u32_at (config_write c off 4 v) r = u32_at c r"
  by (rule u32_at_cong) (auto simp: cfg_byte_config_write)

text \<open>The two bits of the command register the bus looks at.\<close>

lemma bit_command: "bit (command c) n \<longleftrightarrow> n < 16 \<and> bit (cfg_byte c (4 + n div 8)) (n mod 8)"
  by (auto simp: command_def u16_at_def config_read_def COMMAND_def bit_simps bit_from_le)

lemma and_bit_nonzero: "w AND m \<noteq> 0 \<longleftrightarrow> bit w k" if "\<And>n. bit m n \<longleftrightarrow> n = k" for w m :: "'a::len word"
proof -
  have "bit (w AND m) n \<longleftrightarrow> n = k \<and> bit w k" for n using that [of n] by (auto simp: bit_and_iff)
  then show ?thesis by (metis bit_0_eq bot_apply bot_bool_def bit_word_eqI)
qed

lemma memory_enabled_bit: "memory_enabled c \<longleftrightarrow> bit (cfg_byte c 4) 1"
proof -
  have "bit COMMAND_MEMORY n \<longleftrightarrow> n = 1" for n
    using bit_exp_iff [of 1 n, where 'a = u16] by (auto simp: COMMAND_MEMORY_def possible_bit_word)
  then show ?thesis by (simp add: memory_enabled_def and_bit_nonzero [of _ 1] bit_command)
qed

lemma intx_disabled_bit: "intx_disabled c \<longleftrightarrow> bit (cfg_byte c 5) 2"
proof -
  have "bit COMMAND_INTX_DISABLE n \<longleftrightarrow> n = 10" for n
    using bit_exp_iff [of 10 n, where 'a = u16] by (auto simp: COMMAND_INTX_DISABLE_def possible_bit_word)
  then show ?thesis by (simp add: intx_disabled_def and_bit_nonzero [of _ 10] bit_command)
qed

section \<open>BAR registers\<close>

definition bar_reg :: "nat \<Rightarrow> nat" where
  "bar_reg i = BAR0 + i * 4"

definition address_mask :: "bar \<Rightarrow> u64" where
  "address_mask b = NOT (bar_size b - 1)"

definition low_mask :: "bar \<Rightarrow> u32" where
  "low_mask b = ucast (address_mask b) AND NOT 0xf"

definition high_mask :: "bar \<Rightarrow> u32" where
  "high_mask b = ucast (drop_bit 32 (address_mask b))"

definition bar_ok :: "bar \<Rightarrow> bool" where
  "bar_ok b \<longleftrightarrow> \<not> bar_size b < 16 \<and> \<not> (if bar_kind b = Mem64 then 2 ^ 63 else 2 ^ 31) < bar_size b
     \<and> is_power_of_two (bar_size b)"

text \<open>
  What the registers of a slot hold: a BAR's read-only bits are its flags, an undeclared register is zero and
  read-only, and a 64-bit BAR owns the next register.
\<close>

definition slot_inv :: "config_space \<Rightarrow> nat \<Rightarrow> bool" where
  "slot_inv c i \<longleftrightarrow>
     (case c_bars c ! i of
        EmptySlot \<Rightarrow> u32_at c (bar_reg i) = 0 \<and> mask_u32 c (bar_reg i) = 0
      | BarSlot b \<Rightarrow> bar_ok b \<and> i + bar_regs (bar_kind b) \<le> BARS
          \<and> mask_u32 c (bar_reg i) = low_mask b \<and> u32_at c (bar_reg i) AND NOT (low_mask b) = bar_flags b
          \<and> (bar_kind b = Mem64 \<longrightarrow> c_bars c ! Suc i = Upper \<and> mask_u32 c (bar_reg (Suc i)) = high_mask b
               \<and> u32_at c (bar_reg (Suc i)) AND NOT (high_mask b) = 0)
      | Upper \<Rightarrow> True)"

definition bars_inv :: "config_space \<Rightarrow> bool" where
  "bars_inv c \<longleftrightarrow> sized c \<and> (\<forall>i < BARS. slot_inv c i)"

lemma bar_ok_size:
  assumes "bar_ok b"
  shows "\<exists>k. bar_size b = push_bit k 1 \<and> 4 \<le> k \<and> k < 64 \<and> (bar_kind b = Mem32 \<longrightarrow> k < 32)"
proof -
  from assms obtain k where k: "k < 64" "bar_size b = push_bit k 1"
    using is_power_of_two_unique_bit [of "bar_size b"] by (auto simp: bar_ok_def)
  then have u: "unat (bar_size b) = 2 ^ k"
    by (simp only: unsigned_push_bit_eq) (simp add: take_bit_push_bit unsigned_1)
  have "4 \<le> k"
  proof (rule ccontr)
    assume "\<not> 4 \<le> k"
    then have "(2 :: nat) ^ k \<le> 2 ^ 3" by (intro power_increasing) auto
    with u assms show False by (simp add: bar_ok_def word_less_nat_alt)
  qed
  moreover have "k < 32" if "bar_kind b = Mem32"
  proof (rule ccontr)
    assume "\<not> k < 32"
    then have "(2 :: nat) ^ 32 \<le> 2 ^ k" by (intro power_increasing) auto
    with u assms that show False by (simp add: bar_ok_def word_less_nat_alt)
  qed
  ultimately show ?thesis using k by blast
qed

lemma bit_size_minus_1: "bar_size b = push_bit k 1 \<Longrightarrow> k < 64 \<Longrightarrow> bit (bar_size b - 1) n \<longleftrightarrow> n < k"
proof -
  assume k: "bar_size b = push_bit k 1" "k < 64"
  then have "bar_size b - 1 = mask k" by (simp add: mask_eq_exp_minus_1 push_bit_eq_mult)
  then show ?thesis using k by (auto simp: bit_simps)
qed

lemma bit_address_mask: "bar_size b = push_bit k 1 \<Longrightarrow> k < 64 \<Longrightarrow> bit (address_mask b) n \<longleftrightarrow> k \<le> n \<and> n < 64"
  unfolding address_mask_def bit_not_iff by (subst bit_size_minus_1 [of b k]) (auto simp: possible_bit_word)

lemma bit_flags: "4 \<le> n \<Longrightarrow> \<not> bit (bar_flags b) n"
proof -
  have "bit (4 :: u32) n \<longleftrightarrow> n = 2" and "bit (8 :: u32) n \<longleftrightarrow> n = 3"
    using bit_exp_iff [of 2 n, where 'a = u32] bit_exp_iff [of 3 n, where 'a = u32] by (auto simp: possible_bit_word)
  then show "4 \<le> n \<Longrightarrow> \<not> bit (bar_flags b) n"
    by (auto simp: bar_flags_def bit_simps split: if_splits)
qed

lemma bit_nibble: "bit (0xf :: u32) n \<longleftrightarrow> n < 4" "bit (0xf :: u64) n \<longleftrightarrow> n < 4"
  using bit_mask_iff [of 4 n, where 'a = u32] bit_mask_iff [of 4 n, where 'a = u64]
  by (auto simp: mask_eq_exp_minus_1 possible_bit_word)

text \<open>The address a pair of registers holds, and its alignment when the read-only bits are as declared.\<close>

definition joined :: "u32 \<Rightarrow> u32 \<Rightarrow> u64" where
  "joined hi lo = push_bit 32 (ucast hi) OR ucast (lo AND NOT 0xf)"

lemma bit_joined: "bit (joined hi lo) n \<longleftrightarrow> (if n < 32 then 4 \<le> n \<and> bit lo n else n < 64 \<and> bit hi (n - 32))"
proof -
  have "bit (lo AND NOT 0xf) n \<longleftrightarrow> n < 32 \<and> 4 \<le> n \<and> bit lo n"
    unfolding bit_and_iff bit_not_iff bit_nibble by (auto simp: possible_bit_word)
  then show ?thesis
    unfolding joined_def by (auto simp: bit_or_iff bit_push_bit_iff bit_unsigned_iff dest: bit_imp_le_length)
qed

lemma and_not_bit: "a AND NOT m = f \<Longrightarrow> \<not> bit m n \<Longrightarrow> n < LENGTH('a) \<Longrightarrow> bit a n = bit f n" for a m f :: "'a::len word"
  by (auto simp: bit_simps)

lemma joined_aligned:
  assumes "bar_ok b" "lo AND NOT (low_mask b) = bar_flags b"
    and "if bar_kind b = Mem64 then hi AND NOT (high_mask b) = 0 else hi = 0"
  shows "joined hi lo AND (bar_size b - 1) = 0"
proof -
  obtain k where k: "bar_size b = push_bit k 1" "4 \<le> k" "k < 64" "bar_kind b = Mem32 \<longrightarrow> k < 32"
    using bar_ok_size [OF assms(1)] by blast
  show ?thesis
  proof (rule bit_word_eqI)
    fix n
    assume n: "n < LENGTH(64)"
    have lo: "\<not> bit lo n" if "4 \<le> n" "n < 32" "n < k"
      using and_not_bit [OF assms(2), of n] that k bit_flags [of n b] bit_address_mask [OF k(1,3), of n]
      by (auto simp: low_mask_def bit_simps)
    have hi: "\<not> bit hi (n - 32)" if "32 \<le> n" "n < k"
    proof (cases "bar_kind b")
      case Mem32
      with assms(3) show ?thesis by simp
    next
      case Mem64
      with and_not_bit [of hi "high_mask b" 0 "n - 32"] assms(3) that k n show ?thesis
        by (auto simp: high_mask_def bit_simps bit_address_mask [OF k(1,3)])
    qed
    from lo hi show "bit (joined hi lo AND (bar_size b - 1)) n = bit 0 n"
      unfolding bit_and_iff bit_joined bit_size_minus_1 [OF k(1,3)] by auto
  qed
qed

lemma joined_of_address:
  assumes "bar_ok b" "f = bar_flags b"
  shows "joined (ucast (drop_bit 32 (a AND address_mask b))) (ucast (a AND address_mask b) OR f) = a AND address_mask b"
proof -
  obtain k where k: "bar_size b = push_bit k 1" "4 \<le> k" "k < 64" "bar_kind b = Mem32 \<longrightarrow> k < 32"
    using bar_ok_size [OF assms(1)] by blast
  show ?thesis
    using k(2) by (intro bit_word_eqI) (auto simp: assms(2) bit_joined bit_simps bit_flags bit_address_mask [OF k(1,3)])
qed

lemma bar_address_joined:
  "bar_at c i = Some b \<Longrightarrow>
     bar_address c i = Some (joined (if bar_kind b = Mem64 then u32_at c (bar_reg (Suc i)) else 0) (u32_at c (bar_reg i)))"
  by (cases "bar_kind b") (simp_all add: bar_address_def joined_def bar_reg_def Let_def algebra_simps)

lemma bar_at_slot: "bar_at c i = Some b \<longleftrightarrow> i < length (c_bars c) \<and> c_bars c ! i = BarSlot b"
  by (auto simp: bar_at_def split: bar_slot.split)

lemma bars_invD:
  assumes "bars_inv c" "bar_at c i = Some b"
  shows "sized c" "i + bar_regs (bar_kind b) \<le> BARS" "bar_ok b"
    "mask_u32 c (bar_reg i) = low_mask b" "u32_at c (bar_reg i) AND NOT (low_mask b) = bar_flags b"
    "bar_kind b = Mem64 \<Longrightarrow> mask_u32 c (bar_reg (Suc i)) = high_mask b"
    "bar_kind b = Mem64 \<Longrightarrow> u32_at c (bar_reg (Suc i)) AND NOT (high_mask b) = 0"
    "bar_kind b = Mem64 \<Longrightarrow> c_bars c ! Suc i = Upper" "i < BARS" "c_bars c ! i = BarSlot b"
  using assms by (auto simp: bars_inv_def slot_inv_def bar_at_slot sized_def)

lemma bar_address_aligned:
  assumes "bars_inv c" "bar_at c i = Some b" "bar_address c i = Some a"
  shows "a AND (bar_size b - 1) = 0"
  using assms(3) bars_invD [OF assms(1,2)]
  by (auto simp: bar_address_joined [OF assms(2)] intro!: joined_aligned)

section \<open>BARs through every operation\<close>

text \<open>The slots only depend on the six BAR registers and the slot table.\<close>

lemma bars_inv_cong:
  assumes "bars_inv c" "sized c'" "c_bars c' = c_bars c"
    "\<And>i. i < BARS \<Longrightarrow> mask_u32 c' (bar_reg i) = mask_u32 c (bar_reg i)"
    "\<And>i. i < BARS \<Longrightarrow> u32_at c' (bar_reg i) AND NOT (mask_u32 c (bar_reg i)) = u32_at c (bar_reg i) AND NOT (mask_u32 c (bar_reg i))"
  shows "bars_inv c'"
  unfolding bars_inv_def
proof (intro conjI allI impI)
  fix i
  assume i: "i < BARS"
  with assms(1) have old: "slot_inv c i" by (simp add: bars_inv_def)
  show "slot_inv c' i"
  proof (cases "c_bars c ! i")
    case EmptySlot
    with old assms(3) assms(4,5) [OF i] show ?thesis by (simp add: slot_inv_def)
  next
    case (BarSlot b)
    show ?thesis
    proof (cases "bar_kind b")
      case Mem32
      with BarSlot old assms(3) assms(4,5) [OF i] show ?thesis by (simp add: slot_inv_def)
    next
      case Mem64
      with BarSlot old have "Suc i < BARS" by (simp add: slot_inv_def bar_regs_def)
      from assms(4,5) [OF this] Mem64 BarSlot old assms(3) assms(4,5) [OF i] show ?thesis by (simp add: slot_inv_def)
    qed
  next
    case Upper
    with assms(3) show ?thesis by (simp add: slot_inv_def)
  qed
qed (rule assms(2))

lemma config_write_bars_inv: "bars_inv c \<Longrightarrow> bars_inv (config_write c off sz v)"
  by (rule bars_inv_cong [of c]) (simp_all add: config_write_register_read_only bars_inv_def)

lemma put_bars_inv:
  "bars_inv c \<Longrightarrow> off + length bs \<le> 0x10 \<or> 0x28 \<le> off \<Longrightarrow> bars_inv (put c off bs)"
  by (rule bars_inv_cong [of c]) (auto simp: bars_inv_def bar_reg_def config_defs u32_at_put_other)

lemma put_mask_bars_inv:
  "bars_inv c \<Longrightarrow> off + length bs \<le> 0x10 \<or> 0x28 \<le> off \<Longrightarrow> bars_inv (put_mask c off bs)"
  by (rule bars_inv_cong [of c]) (auto simp: bars_inv_def bar_reg_def config_defs mask_u32_put_other)

lemma links_bars_inv: "bars_inv c \<Longrightarrow> bars_inv (c\<lparr>last_cap := l, next_cap := n\<rparr>)"
  by (rule bars_inv_cong [of c]) (auto simp: bars_inv_def sized_def intro!: mask_u32_cong arg_cong2 [where f = "(AND)"] u32_at_cong)

lemma slot_inv_frame:
  assumes "slot_inv c i" "c_bars c' ! i = c_bars c ! i"
    "u32_at c' (bar_reg i) = u32_at c (bar_reg i)" "mask_u32 c' (bar_reg i) = mask_u32 c (bar_reg i)"
    "\<And>b. c_bars c ! i = BarSlot b \<Longrightarrow> bar_kind b = Mem64 \<Longrightarrow> c_bars c' ! Suc i = c_bars c ! Suc i
       \<and> u32_at c' (bar_reg (Suc i)) = u32_at c (bar_reg (Suc i)) \<and> mask_u32 c' (bar_reg (Suc i)) = mask_u32 c (bar_reg (Suc i))"
  shows "slot_inv c' i"
  using assms by (simp add: slot_inv_def split: bar_slot.splits)

lemma bar_reg_apart: "i \<noteq> j \<Longrightarrow> bar_reg i + 4 \<le> bar_reg j \<or> bar_reg j + 4 \<le> bar_reg i"
  by (auto simp: bar_reg_def)

lemma bar_reg_Suc: "bar_reg (Suc i) = bar_reg i + 4"
  by (simp add: bar_reg_def)

lemma bar_reg_fits: "i < BARS \<Longrightarrow> bar_reg i + 4 \<le> 256"
  by (simp add: bar_reg_def config_defs)

text \<open>Bits outside the mask of a register that holds an address.\<close>

lemma flags_read_only: "x AND NOT (low_mask b) = bar_flags b \<Longrightarrow> bar_ok b \<Longrightarrow> x AND 0xf = bar_flags b"
proof (rule bit_word_eqI)
  fix n
  assume x: "x AND NOT (low_mask b) = bar_flags b" "n < LENGTH(32)"
  have "n < 4 \<Longrightarrow> \<not> bit (low_mask b) n"
    unfolding low_mask_def bit_and_iff bit_not_iff bit_nibble by simp
  with and_not_bit [OF x(1), of n] x(2) show "bit (x AND 0xf) n = bit (bar_flags b) n"
    unfolding bit_and_iff bit_nibble using bit_flags [of n b] by (cases "n < 4") auto
qed

lemma low_of_address:
  assumes "bar_ok b"
  shows "(ucast (a AND address_mask b) OR bar_flags b) AND NOT (low_mask b) = bar_flags b"
proof -
  obtain k where k: "bar_size b = push_bit k 1" "4 \<le> k" "k < 64"
    using bar_ok_size [OF assms] by blast
  have "bit (low_mask b) n \<longleftrightarrow> k \<le> n \<and> n < 32" for n
    unfolding low_mask_def bit_and_iff bit_not_iff bit_nibble bit_unsigned_iff bit_address_mask [OF k(1,3)]
    using k(2) by (auto simp: possible_bit_word)
  note low = this
  have a: "bit (ucast (a AND address_mask b) OR bar_flags b :: u32) n \<longleftrightarrow>
      bit a n \<and> k \<le> n \<and> n < 32 \<or> bit (bar_flags b) n" for n
    unfolding bit_or_iff bit_unsigned_iff bit_and_iff bit_address_mask [OF k(1,3)] by (auto simp: possible_bit_word)
  show ?thesis
  proof (rule bit_word_eqI)
    fix n
    assume "n < LENGTH(32)"
    then show "bit ((ucast (a AND address_mask b) OR bar_flags b) AND NOT (low_mask b)) n = bit (bar_flags b) n"
      unfolding bit_and_iff [of "ucast (a AND address_mask b) OR bar_flags b"] bit_not_iff low a
      using k(2) bit_flags [of n b] by (auto simp: possible_bit_word)
  qed
qed

lemma high_of_address: "(ucast (drop_bit 32 (a AND address_mask b)) :: u32) AND NOT (high_mask b) = 0"
  "(ucast (drop_bit 32 a AND drop_bit 32 (address_mask b)) :: u32) AND NOT (high_mask b) = 0"
  by (rule bit_word_eqI, auto simp: high_mask_def bit_simps)+

lemma set_bar_address_fields [simp]:
  "c_wmask (set_bar_address c i a) = c_wmask c" "c_bars (set_bar_address c i a) = c_bars c"
  "next_cap (set_bar_address c i a) = next_cap c" "last_cap (set_bar_address c i a) = last_cap c"
  "sized (set_bar_address c i a) = sized c" "mask_u32 (set_bar_address c i a) r = mask_u32 c r"
  by (simp_all add: set_bar_address_def Let_def split: option.split)

lemma set_bar_address_other:
  "r + 4 \<le> bar_reg i \<or> bar_reg i + 8 \<le> r \<or> (\<exists>b. bar_at c i = Some b \<and> bar_kind b = Mem32 \<and> bar_reg i + 4 \<le> r) \<Longrightarrow>
     u32_at (set_bar_address c i a) r = u32_at c r"
  by (auto simp: set_bar_address_def Let_def u32_at_put_other bar_reg_def split: option.split)

lemma set_bar_address_low:
  assumes "bars_inv c" "bar_at c i = Some b"
  shows "u32_at (set_bar_address c i a) (bar_reg i) = ucast (a AND address_mask b) OR bar_flags b"
proof -
  note d = bars_invD [OF assms]
  from d(2) have i: "i < BARS" by (simp add: bar_regs_def split: if_splits)
  have f: "u32_at c (bar_reg i) AND 0xf = bar_flags b" using d(5,3) by (rule flags_read_only)
  show ?thesis
    using d(1) bar_reg_fits [OF i] f assms(2)
    by (simp add: set_bar_address_def Let_def u32_at_put_other address_mask_def bar_reg_def)
qed

lemma set_bar_address_high:
  assumes "bars_inv c" "bar_at c i = Some b" "bar_kind b = Mem64"
  shows "u32_at (set_bar_address c i a) (bar_reg (Suc i)) = ucast (drop_bit 32 (a AND address_mask b))"
proof -
  note d = bars_invD [OF assms(1,2)]
  from d(2) assms(3) have "Suc i < BARS" by (simp add: bar_regs_def)
  from bar_reg_fits [OF this] d(1) assms(2,3) show ?thesis
    by (simp add: set_bar_address_def Let_def address_mask_def bar_reg_def add.commute add.left_commute)
qed

lemma set_bar_address_bars_inv:
  assumes "bars_inv c"
  shows "bars_inv (set_bar_address c i a)"
proof (cases "bar_at c i")
  case None
  with assms show ?thesis by (simp add: set_bar_address_def)
next
  case (Some b)
  note d = bars_invD [OF assms Some]
  show ?thesis
    unfolding bars_inv_def
  proof (intro conjI allI impI)
    fix j
    assume j: "j < BARS"
    then have old: "slot_inv c j" using assms by (simp add: bars_inv_def)
    show "slot_inv (set_bar_address c i a) j"
    proof (cases "j = i")
      case True
      with old Some d show ?thesis
        by (auto simp: slot_inv_def bar_at_slot set_bar_address_low [OF assms Some] set_bar_address_high [OF assms Some]
            low_of_address high_of_address)
    next
      case j_i: False
      show ?thesis
      proof (cases "bar_kind b = Mem64 \<and> j = Suc i")
        case True
        with d(8) have "c_bars c ! j = Upper" by simp
        then show ?thesis by (simp add: slot_inv_def)
      next
        case False
        have far: "u32_at (set_bar_address c i a) (bar_reg n) = u32_at c (bar_reg n)"
          if "n \<noteq> i" "\<not> (bar_kind b = Mem64 \<and> n = Suc i)" for n
          using that Some by (intro set_bar_address_other) (cases "bar_kind b", auto simp: bar_reg_def)
        show ?thesis
        proof (rule slot_inv_frame [OF old])
          fix b'
          assume b': "c_bars c ! j = BarSlot b'" "bar_kind b' = Mem64"
          with old have "c_bars c ! Suc j = Upper" by (simp add: slot_inv_def)
          with Some have "Suc j \<noteq> i" by (auto simp: bar_at_slot)
          with j_i show "c_bars (set_bar_address c i a) ! Suc j = c_bars c ! Suc j \<and>
            u32_at (set_bar_address c i a) (bar_reg (Suc j)) = u32_at c (bar_reg (Suc j)) \<and>
            mask_u32 (set_bar_address c i a) (bar_reg (Suc j)) = mask_u32 c (bar_reg (Suc j))"
            by (simp add: far)
        qed (use False j_i far in simp_all)
      qed
    qed
  qed (use d(1) in simp)
qed

text \<open>The address a BAR takes when \<open>x\<close> is programmed: rounded down to its size, in the bits the BAR has.\<close>

definition bar_rounded :: "bar \<Rightarrow> u64 \<Rightarrow> u64" where
  "bar_rounded b x =
     (if bar_kind b = Mem64 then x AND NOT (bar_size b - 1) else ucast (ucast (x AND NOT (bar_size b - 1)) :: u32))"

lemma bar_address_rounded:
  assumes "bar_at c i = Some b" "bar_ok b" "u32_at c (bar_reg i) = ucast (a AND address_mask b) OR bar_flags b"
    and "bar_kind b = Mem64 \<Longrightarrow> u32_at c (bar_reg (Suc i)) = ucast (drop_bit 32 (a AND address_mask b))"
  shows "bar_address c i = Some (bar_rounded b a)"
proof (cases "bar_kind b")
  case Mem64
  then show ?thesis
    using assms(4) joined_of_address [OF assms(2) refl, of a]
    by (simp add: bar_address_joined [OF assms(1)] assms(3) bar_rounded_def address_mask_def)
next
  case Mem32
  obtain k where k: "bar_size b = push_bit k 1" "4 \<le> k" "k < 64"
    using bar_ok_size [OF assms(2)] by blast
  have "joined 0 (ucast (a AND address_mask b) OR bar_flags b) = ucast (ucast (a AND address_mask b) :: u32)"
    using k(2) by (intro bit_word_eqI) (auto simp: bit_joined bit_simps bit_flags bit_address_mask [OF k(1,3)])
  with Mem32 show ?thesis
    by (simp add: bar_address_joined [OF assms(1)] assms(3) bar_rounded_def address_mask_def)
qed

lemma set_bar_address_roundtrip:
  assumes "bars_inv c" "bar_at c i = Some b"
  shows "bar_address (set_bar_address c i a) i =
    Some (if bar_kind b = Mem64 then a AND address_mask b else ucast (ucast (a AND address_mask b) :: u32))"
proof -
  have "bar_at (set_bar_address c i a) i = Some b" using assms(2) by (simp add: bar_at_slot)
  from bar_address_rounded [OF this bars_invD(3) [OF assms] set_bar_address_low [OF assms] set_bar_address_high [OF assms]]
  show ?thesis by (simp add: bar_rounded_def address_mask_def)
qed

text \<open>
  A guest programs a BAR with one 32-bit write to its register, and one to the next register when the BAR has 64 bits.
  The registers then hold what the host would have stored.
\<close>

definition guest_program :: "config_space \<Rightarrow> nat \<Rightarrow> bar \<Rightarrow> u64 \<Rightarrow> config_space" where
  "guest_program c i b x =
     (let c' = config_write c (bar_reg i) 4 (ucast x) in
      if bar_kind b = Mem64 then config_write c' (bar_reg (Suc i)) 4 (ucast (drop_bit 32 x)) else c')"

lemma low_mask_plain: "bar_ok b \<Longrightarrow> low_mask b = ucast (address_mask b)"
proof -
  assume "bar_ok b"
  then obtain k where k: "bar_size b = push_bit k 1" "4 \<le> k" "k < 64" using bar_ok_size by blast
  have "bit (low_mask b) n \<longleftrightarrow> bit (ucast (address_mask b) :: u32) n" for n
    unfolding low_mask_def bit_and_iff bit_not_iff bit_nibble bit_unsigned_iff bit_address_mask [OF k(1,3)]
    using k(2) by (auto simp: possible_bit_word)
  then show ?thesis by (simp add: bit_eq_iff)
qed

lemma guest_program_registers:
  assumes "bars_inv c" "bar_at c i = Some b"
  shows "u32_at (guest_program c i b x) (bar_reg i) = ucast (x AND address_mask b) OR bar_flags b"
    and "bar_kind b = Mem64 \<Longrightarrow> u32_at (guest_program c i b x) (bar_reg (Suc i)) = ucast (drop_bit 32 (x AND address_mask b))"
    and "bar_at (guest_program c i b x) i = Some b"
    and "memory_enabled (guest_program c i b x) \<longleftrightarrow> memory_enabled c"
proof -
  note d = bars_invD [OF assms]
  have "u32_at (config_write c (bar_reg i) 4 (ucast x)) (bar_reg i) = ucast (x AND address_mask b) OR bar_flags b"
    using config_write_register [OF d(1) bar_reg_fits [OF d(9)], of "ucast x"] d(4,5)
    by (simp add: low_mask_plain [OF d(3)] or.commute unsigned_and_eq)
  then show "u32_at (guest_program c i b x) (bar_reg i) = ucast (x AND address_mask b) OR bar_flags b"
    using d(1) by (simp add: guest_program_def Let_def config_write_other_register bar_reg_Suc)
  show "u32_at (guest_program c i b x) (bar_reg (Suc i)) = ucast (drop_bit 32 (x AND address_mask b))" if k: "bar_kind b = Mem64"
  proof -
    from k d(2) have i: "Suc i < BARS" by (simp add: bar_regs_def)
    let ?c = "config_write c (bar_reg i) 4 (ucast x)"
    have "u32_at ?c (bar_reg (Suc i)) AND NOT (high_mask b) = 0"
      using d(1) d(7) [OF k] by (simp add: config_write_other_register bar_reg_Suc)
    moreover have "mask_u32 ?c (bar_reg (Suc i)) = high_mask b" using d(6) [OF k] by simp
    ultimately have "u32_at (config_write ?c (bar_reg (Suc i)) 4 (ucast (drop_bit 32 x))) (bar_reg (Suc i)) =
        ucast (drop_bit 32 x) AND high_mask b"
      using config_write_register [of ?c "bar_reg (Suc i)" "ucast (drop_bit 32 x)"] d(1) bar_reg_fits [OF i] by simp
    then show ?thesis
      using k by (simp add: guest_program_def Let_def high_mask_def unsigned_and_eq)
  qed
  show "bar_at (guest_program c i b x) i = Some b"
    using assms(2) by (simp add: guest_program_def Let_def bar_at_slot)
  show "memory_enabled (guest_program c i b x) \<longleftrightarrow> memory_enabled c"
    using d(1) by (simp add: guest_program_def Let_def memory_enabled_bit cfg_byte_config_write bar_reg_def config_defs)
qed

lemma guest_program_address:
  "bars_inv c \<Longrightarrow> bar_at c i = Some b \<Longrightarrow> bar_address (guest_program c i b x) i = Some (bar_rounded b x)"
  by (rule bar_address_rounded) (simp_all add: guest_program_registers bars_invD(3))

lemma set_decoded_bars:
  "(i, base, len) \<in> set (decoded_bars c) \<longleftrightarrow>
     memory_enabled c \<and> i < 6 \<and> base \<noteq> 0 \<and> (\<exists>b. bar_at c i = Some b \<and> bar_address c i = Some base \<and> len = bar_size b)"
proof (cases "memory_enabled c")
  case True
  let ?f = "\<lambda>index. case bar_at c index of None \<Rightarrow> None | Some b \<Rightarrow>
    (case bar_address c index of None \<Rightarrow> None | Some base \<Rightarrow> if base \<noteq> 0 then Some (index, base, bar_size b) else None)"
  have f: "?f j = Some (i, base, len) \<longleftrightarrow>
      j = i \<and> base \<noteq> 0 \<and> (\<exists>b. bar_at c i = Some b \<and> bar_address c i = Some base \<and> len = bar_size b)" for j
    by (auto split: option.splits if_splits)
  have "(i, base, len) \<in> set (List.map_filter ?f [0..<BARS]) \<longleftrightarrow> (\<exists>j < BARS. ?f j = Some (i, base, len))"
    by (force simp: List.map_filter_def)
  with True f show ?thesis by (auto simp: decoded_bars_def BARS_def)
next
  case False
  then show ?thesis by (simp add: decoded_bars_def)
qed

text \<open>Declaring a BAR.\<close>

definition bar_declared :: "config_space \<Rightarrow> nat \<Rightarrow> bar \<Rightarrow> config_space" where
  "bar_declared c i b =
     (let c1 = (put_mask (put c (bar_reg i) (to_le 4 (bar_flags b))) (bar_reg i) (to_le 4 (low_mask b)))
                 \<lparr>c_bars := (c_bars c)[i := BarSlot b]\<rparr>
      in if bar_kind b = Mem64
         then (put_mask c1 (bar_reg (Suc i)) (to_le 4 (high_mask b)))\<lparr>c_bars := (c_bars c)[i := BarSlot b, Suc i := Upper]\<rparr>
         else c1)"

lemma add_bar_cases:
  assumes "add_bar c i b = Inr c'"
  shows "c' = bar_declared c i b" "i + bar_regs (bar_kind b) \<le> BARS" "bar_ok b"
    "\<And>j. i \<le> j \<Longrightarrow> j < i + bar_regs (bar_kind b) \<Longrightarrow> c_bars c ! j = EmptySlot"
proof -
  show "i + bar_regs (bar_kind b) \<le> BARS"
    using assms by (auto simp: add_bar_def Let_def split: if_splits)
  show "bar_ok b"
    using assms by (auto simp: add_bar_def bar_ok_def Let_def split: if_splits)
  have none: "find (\<lambda>j. c_bars c ! j \<noteq> EmptySlot) [i..<i + bar_regs (bar_kind b)] = None"
    using assms by (auto simp: add_bar_def Let_def split: if_splits option.splits)
  then show "c_bars c ! j = EmptySlot" if "i \<le> j" "j < i + bar_regs (bar_kind b)" for j
    using that by (auto simp: find_None_iff)
  show "c' = bar_declared c i b"
    using assms none
    by (auto simp: add_bar_def bar_declared_def bar_reg_def low_mask_def high_mask_def address_mask_def Let_def
        add.commute add.left_commute split: if_splits)
qed

lemma bar_declared_fields [simp]:
  "next_cap (bar_declared c i b) = next_cap c" "last_cap (bar_declared c i b) = last_cap c"
  "sized (bar_declared c i b) = sized c"
  "c_bars (bar_declared c i b) = (if bar_kind b = Mem64 then (c_bars c)[i := BarSlot b, Suc i := Upper] else (c_bars c)[i := BarSlot b])"
  by (simp_all add: bar_declared_def Let_def sized_def)

lemma bar_declared_registers:
  assumes "sized c" "i + bar_regs (bar_kind b) \<le> BARS"
  shows "u32_at (bar_declared c i b) (bar_reg j) = (if j = i then bar_flags b else u32_at c (bar_reg j))"
    and "mask_u32 (bar_declared c i b) (bar_reg j) =
      (if j = i then low_mask b else if bar_kind b = Mem64 \<and> j = Suc i then high_mask b else mask_u32 c (bar_reg j))"
proof -
  from assms(2) have i: "bar_reg i + 4 \<le> 256" "bar_kind b = Mem64 \<Longrightarrow> bar_reg (Suc i) + 4 \<le> 256"
    by (auto simp: bar_regs_def bar_reg_def config_defs split: if_splits)
  show "u32_at (bar_declared c i b) (bar_reg j) = (if j = i then bar_flags b else u32_at c (bar_reg j))"
    using assms(1) i bar_reg_apart [of i j] by (auto simp: bar_declared_def Let_def u32_at_put_other)
  show "mask_u32 (bar_declared c i b) (bar_reg j) =
      (if j = i then low_mask b else if bar_kind b = Mem64 \<and> j = Suc i then high_mask b else mask_u32 c (bar_reg j))"
    using assms(1) i bar_reg_apart [of i j] bar_reg_apart [of "Suc i" j] bar_reg_apart [of "Suc i" i]
    by (auto simp: bar_declared_def Let_def mask_u32_put_other sized_def)
qed

lemma flags_not_low: "bar_ok b \<Longrightarrow> bar_flags b AND NOT (low_mask b) = bar_flags b"
  using low_of_address [of b 0] by simp

lemma add_bar_bars_inv:
  assumes "bars_inv c" "add_bar c i b = Inr c'"
  shows "bars_inv c'"
proof -
  note a = add_bar_cases [OF assms(2)]
  from assms(1) have sz: "sized c" by (simp add: bars_inv_def)
  note r = bar_declared_registers [OF sz a(2)]
  have i: "i < length (c_bars c)" "bar_kind b = Mem64 \<Longrightarrow> Suc i < length (c_bars c)"
    using a(2) sz by (auto simp: bar_regs_def sized_def split: if_splits)
  have empty: "c_bars c ! i = EmptySlot" "bar_kind b = Mem64 \<Longrightarrow> c_bars c ! Suc i = EmptySlot"
    using a(4) [of i] a(4) [of "Suc i"] by (auto simp: bar_regs_def)
  have high: "u32_at c (bar_reg (Suc i)) = 0" if "bar_kind b = Mem64"
    using assms(1) empty(2) i(2) sz that by (auto simp: bars_inv_def slot_inv_def sized_def)
  show ?thesis
    unfolding a(1) bars_inv_def
  proof (intro conjI allI impI)
    fix j
    assume "j < BARS"
    then have old: "slot_inv c j" using assms(1) by (simp add: bars_inv_def)
    show "slot_inv (bar_declared c i b) j"
    proof (cases "j = i \<or> bar_kind b = Mem64 \<and> j = Suc i")
      case True
      then show ?thesis
        using i high a(2,3) by (auto simp: slot_inv_def r flags_not_low)
    next
      case False
      show ?thesis
      proof (rule slot_inv_frame [OF old])
        fix b'
        assume "c_bars c ! j = BarSlot b'" "bar_kind b' = Mem64"
        with old have "c_bars c ! Suc j = Upper" by (simp add: slot_inv_def)
        with empty have "Suc j \<noteq> i" "bar_kind b = Mem64 \<Longrightarrow> Suc j \<noteq> Suc i" using False by auto
        then show "c_bars (bar_declared c i b) ! Suc j = c_bars c ! Suc j \<and>
            u32_at (bar_declared c i b) (bar_reg (Suc j)) = u32_at c (bar_reg (Suc j)) \<and>
            mask_u32 (bar_declared c i b) (bar_reg (Suc j)) = mask_u32 c (bar_reg (Suc j))"
          by (auto simp: r)
      qed (use False in \<open>auto simp: r\<close>)
    qed
  qed (use sz in simp)
qed

section \<open>The capability list\<close>

text \<open>\<open>cap_chain c es at\<close>: from pointer \<open>at\<close> the bytes of \<open>c\<close> link exactly the entries \<open>es\<close> (offset, id).\<close>

fun cap_chain :: "config_space \<Rightarrow> (u8 \<times> u8) list \<Rightarrow> u8 \<Rightarrow> bool" where
  "cap_chain c [] at \<longleftrightarrow> at = 0"
| "cap_chain c ((off, cid) # es) at \<longleftrightarrow>
     at = off \<and> cfg_byte c (unat off) = cid \<and> cap_chain c es (cfg_byte c (Suc (unat off)))"

fun cap_entries :: "(u8 \<times> u8) list \<Rightarrow> capability list" where
  "cap_entries [] = []"
| "cap_entries ((off, cid) # es) =
     \<lparr>cap_offset = off, cap_id = cid, cap_next = (case es of [] \<Rightarrow> 0 | e # _ \<Rightarrow> fst e)\<rparr> # cap_entries es"

definition caps_inv :: "config_space \<Rightarrow> (u8 \<times> u8) list \<Rightarrow> bool" where
  "caps_inv c es \<longleftrightarrow> sized c \<and> cap_chain c es (cfg_byte c CAP_PTR)
     \<and> (\<forall>(off, cid) \<in> set es. 64 \<le> unat off \<and> unat off + 2 \<le> next_cap c \<and> unat off mod 4 = 0
          \<and> mask_byte c (unat off) = 0 \<and> mask_byte c (Suc (unat off)) = 0)
     \<and> sorted_wrt (\<lambda>e e'. unat (fst e) + 2 \<le> unat (fst e')) es
     \<and> last_cap c = (if es = [] then None else Some (unat (fst (last es))))
     \<and> 64 \<le> next_cap c \<and> next_cap c mod 4 = 0 \<and> next_cap c \<le> 256
     \<and> (\<forall>j \<ge> next_cap c. mask_byte c j = 0) \<and> mask_byte c CAP_PTR = 0 \<and> mask_byte c STATUS = 0
     \<and> (bit (cfg_byte c STATUS) 4 \<longleftrightarrow> es \<noteq> [])"

lemma cap_chain_cong:
  assumes "\<forall>e \<in> set es. cfg_byte c' (unat (fst e)) = cfg_byte c (unat (fst e))
    \<and> cfg_byte c' (Suc (unat (fst e))) = cfg_byte c (Suc (unat (fst e)))"
  shows "cap_chain c' es at = cap_chain c es at"
  using assms by (induction es arbitrary: at) auto

lemma cap_chain_snoc:
  assumes "cap_chain c es at" "es \<noteq> []" "sorted_wrt (\<lambda>e e'. unat (fst e) + 2 \<le> unat (fst e')) es"
    and "\<And>j. j \<noteq> Suc (unat (fst (last es))) \<Longrightarrow> j < 256 \<Longrightarrow> (\<exists>e \<in> set es. j = unat (fst e) \<or> j = Suc (unat (fst e)))
      \<Longrightarrow> cfg_byte c' j = cfg_byte c j"
    and "cfg_byte c' (Suc (unat (fst (last es)))) = off" "cfg_byte c' (unat off) = cid" "cfg_byte c' (Suc (unat off)) = 0"
    and "\<And>e. e \<in> set es \<Longrightarrow> unat (fst e) + 1 < 256"
  shows "cap_chain c' (es @ [(off, cid)]) at"
  using assms
proof (induction es arbitrary: at)
  case Nil
  then show ?case by simp
next
  case (Cons e es)
  obtain o1 c1 where e: "e = (o1, c1)" by (cases e)
  have first: "cfg_byte c' (unat o1) = c1"
  proof -
    have "unat o1 \<noteq> Suc (unat (fst (last (e # es))))"
      using Cons.prems(3) e by (cases "es = []") (auto dest: bspec [of _ _ "last es"])
    then show ?thesis using Cons.prems(1) Cons.prems(8) [of e] Cons.prems(4) [of "unat o1"] e by simp
  qed
  show ?case
  proof (cases "es = []")
    case True
    with Cons.prems e first show ?thesis by simp
  next
    case False
    have "Suc (unat o1) \<noteq> Suc (unat (fst (last es)))"
      using Cons.prems(3) e False by (auto dest: bspec [of _ _ "last es"])
    then have "cfg_byte c' (Suc (unat o1)) = cfg_byte c (Suc (unat o1))"
      using Cons.prems(8) [of e] Cons.prems(4) [of "Suc (unat o1)"] e False by simp
    moreover have "cap_chain c' (es @ [(off, cid)]) (cfg_byte c (Suc (unat o1)))"
      by (rule Cons.IH) (use Cons.prems e False in \<open>auto\<close>)
    ultimately show ?thesis using e first Cons.prems(1) by simp
  qed
qed

text \<open>The guest's walk of a well linked list returns its entries.\<close>

lemma pointer_mask: "unat (w :: u8) mod 4 = 0 \<Longrightarrow> w AND NOT 3 = w"
proof -
  assume "unat w mod 4 = 0"
  then have "take_bit 2 w = 0"
    by (simp only: word_unat_eq_iff unsigned_take_bit_eq) (simp add: take_bit_eq_mod)
  then have "bit (take_bit 2 w) n = bit 0 n" for n by simp
  then have "n < 2 \<Longrightarrow> \<not> bit w n" for n by (simp add: bit_take_bit_iff)
  moreover have "bit (3 :: u8) n \<longleftrightarrow> n < 2" for n
    using bit_mask_iff [of 2 n, where 'a = u8] by (auto simp: mask_eq_exp_minus_1 possible_bit_word)
  ultimately show ?thesis
    by (intro bit_word_eqI) (auto simp only: bit_and_iff bit_not_iff possible_bit_word)
qed

lemma config_read_byte: "ucast (config_read c i 1) = cfg_byte c i"
  by (rule bit_word_eqI) (simp add: config_read_def bit_simps)

lemma cap_ptr_byte: "unat (cfg_byte c i) mod 4 = 0 \<Longrightarrow> cap_ptr c i = cfg_byte c i"
  unfolding cap_ptr_def config_read_byte by (rule pointer_mask)

lemma cap_walk_chain:
  assumes "cap_chain c es at" "\<forall>e \<in> set es. 64 \<le> unat (fst e) \<and> unat (fst e) mod 4 = 0"
    "distinct (map fst es)" "cap_offset ` set seen \<inter> fst ` set es = {}"
  shows "cap_walk c at seen = Inr (seen @ cap_entries es)"
  using assms
proof (induction es arbitrary: at seen)
  case Nil
  then show ?case by (simp add: cap_walk.simps [of c 0])
next
  case (Cons e es)
  obtain off cid where e: "e = (off, cid)" by (cases e)
  let ?next = "cfg_byte c (Suc (unat off))"
  from Cons.prems(1) e have at: "at = off" "cfg_byte c (unat off) = cid" "cap_chain c es ?next" by auto
  have nxt: "?next = (case es of [] \<Rightarrow> 0 | e # _ \<Rightarrow> fst e)" "unat ?next mod 4 = 0"
    using at(3) Cons.prems(2) by (cases es; force)+
  have off: "off \<noteq> 0" "\<not> off < CAP_SPACE_START" "off \<notin> cap_offset ` set seen"
    using Cons.prems(2,4) e by (auto simp: CAP_SPACE_START_def word_less_nat_alt)
  have ptr: "cap_ptr c (unat off + 1) = ?next"
    using nxt(2) by (simp add: cap_ptr_byte)
  let ?entry = "\<lparr>cap_offset = off, cap_id = cid, cap_next = ?next\<rparr>"
  have "cap_walk c at seen = cap_walk c ?next (seen @ [?entry])"
    using off at by (subst cap_walk.simps) (simp only: Let_def ptr config_read_byte if_False at)
  also have "\<dots> = Inr ((seen @ [?entry]) @ cap_entries es)"
    using Cons.prems at(3) e by (intro Cons.IH) auto
  finally show ?case by (simp add: e nxt(1))
qed

lemma sorted_caps_distinct:
  "sorted_wrt (\<lambda>e e'. unat (fst e) + 2 \<le> unat (fst e')) es \<Longrightarrow> distinct (map fst (es :: (u8 \<times> u8) list))"
  by (induction es) force+

lemma status_cap_bit: "u16_at c STATUS AND STATUS_CAP_LIST = 0 \<longleftrightarrow> \<not> bit (cfg_byte c STATUS) 4"
proof -
  have s: "bit (u16_at c STATUS) n \<longleftrightarrow> n < 16 \<and> bit (cfg_byte c (STATUS + n div 8)) (n mod 8)" for n
    by (auto simp: u16_at_def config_read_def bit_simps bit_from_le)
  have "bit (STATUS_CAP_LIST) n \<longleftrightarrow> n = 4" for n
    using bit_exp_iff [of 4 n, where 'a = u16] by (auto simp: STATUS_CAP_LIST_def possible_bit_word)
  then have "bit (u16_at c STATUS AND STATUS_CAP_LIST) n \<longleftrightarrow> n = 4 \<and> bit (u16_at c STATUS) 4" for n
    by (auto simp: bit_and_iff)
  then have "u16_at c STATUS AND STATUS_CAP_LIST = 0 \<longleftrightarrow> \<not> bit (u16_at c STATUS) 4"
    by (metis bit_0_eq bot_apply bot_bool_def bit_word_eqI)
  then show ?thesis by (simp add: s)
qed

lemma caps_inv_capabilities:
  assumes "caps_inv c es"
  shows "capabilities c = Inr (cap_entries es)"
proof -
  have d: "distinct (map fst es)" using assms by (auto simp: caps_inv_def intro: sorted_caps_distinct)
  have p: "unat (cfg_byte c CAP_PTR) mod 4 = 0" using assms by (cases es) (auto simp: caps_inv_def)
  have "cap_walk c (cfg_byte c CAP_PTR) [] = Inr ([] @ cap_entries es)"
    using assms d by (intro cap_walk_chain) (auto simp: caps_inv_def)
  with p assms show ?thesis
    by (cases "es = []") (simp_all add: capabilities_def status_cap_bit cap_ptr_byte caps_inv_def)
qed

text \<open>Guest writes and BAR operations leave the list alone.\<close>

lemma caps_inv_frame:
  assumes "caps_inv c es" "sized c'" "last_cap c' = last_cap c" "next_cap c' = next_cap c"
    "\<And>j. mask_byte c j = 0 \<Longrightarrow> j < 0x10 \<or> 0x28 \<le> j \<Longrightarrow> cfg_byte c' j = cfg_byte c j \<and> mask_byte c' j = 0"
  shows "caps_inv c' es"
proof -
  have "cap_chain c' es (cfg_byte c CAP_PTR) = cap_chain c es (cfg_byte c CAP_PTR)"
    using assms(1,5) by (intro cap_chain_cong) (force simp: caps_inv_def)
  moreover have "cfg_byte c' CAP_PTR = cfg_byte c CAP_PTR" "cfg_byte c' STATUS = cfg_byte c STATUS"
    "mask_byte c' CAP_PTR = 0" "mask_byte c' STATUS = 0"
    using assms(1,5) by (auto simp: caps_inv_def config_defs)
  moreover have "\<forall>j \<ge> next_cap c. mask_byte c' j = 0"
    using assms(1,5) by (auto simp: caps_inv_def)
  moreover have "\<forall>(off, cid) \<in> set es. mask_byte c' (unat off) = 0 \<and> mask_byte c' (Suc (unat off)) = 0"
    using assms(1,5) by (force simp: caps_inv_def)
  ultimately show ?thesis
    using assms(1-4) unfolding caps_inv_def by auto
qed

lemma config_write_caps_inv: "caps_inv c es \<Longrightarrow> caps_inv (config_write c off sz v) es"
  by (rule caps_inv_frame [of c es]) (auto simp: caps_inv_def cfg_byte_config_write)

lemma set_bar_address_caps_inv:
  assumes "caps_inv c es" "bars_inv c"
  shows "caps_inv (set_bar_address c i a) es"
proof (cases "bar_at c i")
  case None
  with assms(1) show ?thesis by (simp add: set_bar_address_def)
next
  case (Some b)
  then have i: "i + bar_regs (bar_kind b) \<le> BARS" using assms(2) by (rule bars_invD(2) [rotated])
  have "mask_byte (set_bar_address c i a) j = mask_byte c j" for j by (simp add: mask_byte_def)
  moreover have "cfg_byte (set_bar_address c i a) j = cfg_byte c j" if "j < 0x10 \<or> 0x28 \<le> j" for j
    using that i Some by (auto simp: set_bar_address_def Let_def cfg_byte_put config_defs bar_regs_def split: if_splits)
  ultimately show ?thesis
    using assms(1) by (intro caps_inv_frame [OF assms(1)]) (auto simp: caps_inv_def)
qed

lemma add_bar_caps_inv:
  assumes "caps_inv c es" "add_bar c i b = Inr c'"
  shows "caps_inv c' es"
proof -
  note a = add_bar_cases [OF assms(2)]
  have "cfg_byte c' j = cfg_byte c j \<and> mask_byte c' j = mask_byte c j" if "j < 0x10 \<or> 0x28 \<le> j" for j
    using that a(2) unfolding a(1)
    by (auto simp: bar_declared_def Let_def cfg_byte_put mask_byte_put_mask bar_reg_def bar_regs_def config_defs split: if_splits)
  then show ?thesis
    using assms(1) by (intro caps_inv_frame [OF assms(1)]) (auto simp: caps_inv_def a(1))
qed

text \<open>Appending a capability.\<close>

definition cap_fits :: "nat \<Rightarrow> u8 list \<Rightarrow> u8 list \<Rightarrow> bool" where
  "cap_fits off body wm \<longleftrightarrow> off + 2 + length body \<le> 256 \<and> length wm \<le> length body"

definition cap_after :: "nat \<Rightarrow> u8 list \<Rightarrow> nat" where
  "cap_after off body = (off + 2 + length body + 3) div 4 * 4"

lemma cap_after_bounds:
  "off + 2 + length body \<le> cap_after off body" "cap_after off body mod 4 = 0"
  "off + 2 + length body \<le> 256 \<Longrightarrow> cap_after off body \<le> 256"
  unfolding cap_after_def by (presburger, simp, presburger)

lemma add_capability_result:
  "add_capability c cid body wm =
     (if cap_fits (next_cap c) body wm then Inr (of_nat (next_cap c), snd (projr (add_capability c cid body wm)))
      else Inl (CapabilitySpace cid (2 + length body)))"
  by (auto simp: add_capability_def cap_fits_def Let_def config_defs)

lemma u16_byte_or: "to_le 2 (u16_at c STATUS OR STATUS_CAP_LIST) ! 0 = cfg_byte c STATUS OR 0x10"
  "to_le 2 (u16_at c STATUS OR STATUS_CAP_LIST) ! 1 = cfg_byte c (Suc STATUS)"
proof -
  have s: "bit (u16_at c STATUS) n \<longleftrightarrow> n < 16 \<and> bit (cfg_byte c (STATUS + n div 8)) (n mod 8)" for n
    by (auto simp: u16_at_def config_read_def bit_simps bit_from_le)
  have c: "bit (STATUS_CAP_LIST) n \<longleftrightarrow> n = 4" "bit (0x10 :: u8) n \<longleftrightarrow> n = 4" for n
    using bit_exp_iff [of 4 n, where 'a = u16] bit_exp_iff [of 4 n, where 'a = u8]
    by (auto simp: STATUS_CAP_LIST_def possible_bit_word)
  show "to_le 2 (u16_at c STATUS OR STATUS_CAP_LIST) ! 0 = cfg_byte c STATUS OR 0x10"
  proof (rule bit_word_eqI)
    fix n
    assume "n < LENGTH(8)"
    then have "bit (to_le 2 (u16_at c STATUS OR STATUS_CAP_LIST) ! 0) n \<longleftrightarrow> bit (cfg_byte c STATUS) n \<or> n = 4"
      by (simp add: nth_to_le bit_unsigned_iff bit_or_iff s c)
    then show "bit (to_le 2 (u16_at c STATUS OR STATUS_CAP_LIST) ! 0) n = bit (cfg_byte c STATUS OR 0x10) n"
      unfolding bit_or_iff [of "cfg_byte c STATUS"] c .
  qed
  show "to_le 2 (u16_at c STATUS OR STATUS_CAP_LIST) ! 1 = cfg_byte c (Suc STATUS)"
  proof (rule bit_word_eqI)
    fix n
    assume "n < LENGTH(8)"
    then have "(8 + n) div 8 = 1" "(8 + n) mod 8 = n" by simp_all
    then show "bit (to_le 2 (u16_at c STATUS OR STATUS_CAP_LIST) ! 1) n = bit (cfg_byte c (Suc STATUS)) n"
      using \<open>n < LENGTH(8)\<close> by (simp add: nth_to_le bit_unsigned_iff bit_drop_bit_eq bit_or_iff s c)
  qed
qed

lemma cfg_byte_status:
  assumes "length (c_data c) = 256"
  shows "cfg_byte (put c STATUS (to_le 2 (u16_at c STATUS OR STATUS_CAP_LIST))) j =
    (if j = STATUS then cfg_byte c j OR 0x10 else cfg_byte c j)"
proof (cases "j = STATUS \<or> j = Suc STATUS")
  case True
  then show ?thesis
    using assms u16_byte_or [of c] by (auto simp: cfg_byte_put STATUS_def)
next
  case False
  then show ?thesis by (auto simp: cfg_byte_put)
qed

definition link_byte :: "config_space \<Rightarrow> nat" where
  "link_byte c = (case last_cap c of Some prev \<Rightarrow> prev + 1 | None \<Rightarrow> CAP_PTR)"

lemma add_capability_bytes:
  assumes "add_capability c cid body wm = Inr (off, c')" "sized c"
    and "link_byte c < next_cap c" "link_byte c > Suc STATUS" "next_cap c \<ge> 64"
  shows "off = of_nat (next_cap c)" "sized c'" "c_bars c' = c_bars c"
    "next_cap c' = cap_after (next_cap c) body" "last_cap c' = Some (next_cap c)"
    "cfg_byte c' j =
       (if j = STATUS then cfg_byte c j OR 0x10 else if j = link_byte c then of_nat (next_cap c)
        else if j = next_cap c then cid else if j = Suc (next_cap c) then 0
        else if next_cap c + 2 \<le> j \<and> j < next_cap c + 2 + length body then body ! (j - (next_cap c + 2)) else cfg_byte c j)"
    "mask_byte c' j =
       (if next_cap c + 2 \<le> j \<and> j < next_cap c + 2 + length wm then wm ! (j - (next_cap c + 2)) else mask_byte c j)"
proof -
  let ?off = "next_cap c"
  let ?c1 = "put_mask (put (put c ?off [cid, 0]) (?off + 2) body) (?off + 2) wm"
  let ?c2 = "put ?c1 (link_byte c) [of_nat ?off]"
  let ?c3 = "put ?c2 STATUS (to_le 2 (u16_at ?c2 STATUS OR STATUS_CAP_LIST))"
  from assms(1) have fit: "cap_fits ?off body wm" by (subst (asm) add_capability_result) (simp split: if_splits)
  have c': "c' = ?c3\<lparr>last_cap := Some ?off, next_cap := cap_after ?off body\<rparr>" "off = of_nat ?off"
    using assms(1) fit
    by (auto simp: add_capability_def cap_fits_def cap_after_def link_byte_def Let_def config_defs add.assoc split: if_splits option.splits)
  then show "off = of_nat (next_cap c)" by simp
  have len: "length (c_data c) = 256" "length (c_wmask c) = 256" using assms(2) by (auto simp: sized_def config_defs)
  show "sized c'" using assms(2) by (simp add: c' sized_def)
  show "c_bars c' = c_bars c" "next_cap c' = cap_after (next_cap c) body" "last_cap c' = Some (next_cap c)"
    by (simp_all add: c')
  have b2: "cfg_byte ?c2 j =
     (if j = link_byte c then of_nat ?off else if j = ?off then cid else if j = Suc ?off then 0
      else if ?off + 2 \<le> j \<and> j < ?off + 2 + length body then body ! (j - (?off + 2)) else cfg_byte c j)" for j
    using assms(3) fit by (simp add: cfg_byte_put len cap_fits_def nth_Cons')
  have "cfg_byte c' j = cfg_byte ?c3 j" by (simp add: c')
  also have "\<dots> = (if j = STATUS then cfg_byte c j OR 0x10 else if j = link_byte c then of_nat ?off
        else if j = ?off then cid else if j = Suc ?off then 0
        else if ?off + 2 \<le> j \<and> j < ?off + 2 + length body then body ! (j - (?off + 2)) else cfg_byte c j)"
    using assms(4,5) by (subst cfg_byte_status) (simp_all only: put_fields len b2, auto simp: STATUS_def)
  finally show "cfg_byte c' j = \<dots>" .
  show "mask_byte c' j =
       (if next_cap c + 2 \<le> j \<and> j < next_cap c + 2 + length wm then wm ! (j - (next_cap c + 2)) else mask_byte c j)"
    using fit by (auto simp: c' mask_byte_put_mask len cap_fits_def)
qed

lemma caps_inv_link:
  assumes "caps_inv c es"
  shows "link_byte c < next_cap c" "link_byte c > Suc STATUS" "next_cap c \<ge> 64" "sized c" "next_cap c \<le> 256"
    "link_byte c = CAP_PTR \<or> 64 < link_byte c"
proof -
  have "e \<in> set es \<Longrightarrow> 64 \<le> unat (fst e) \<and> unat (fst e) + 2 \<le> next_cap c" for e
    using assms by (cases e) (auto simp: caps_inv_def)
  from this [of "last es"] assms show "link_byte c < next_cap c" "link_byte c > Suc STATUS" "next_cap c \<ge> 64" "sized c"
    "next_cap c \<le> 256" "link_byte c = CAP_PTR \<or> 64 < link_byte c"
    by (cases "es = []"; simp add: caps_inv_def link_byte_def config_defs)+
qed

lemma add_capability_bars_inv:
  assumes "bars_inv c" "caps_inv c es" "add_capability c cid body wm = Inr (off, c')"
  shows "bars_inv c'"
proof -
  note l = caps_inv_link [OF assms(2)]
  note b = add_capability_bytes [OF assms(3) l(4,1,2,3)]
  have "cfg_byte c' j = cfg_byte c j" "mask_byte c' j = mask_byte c j" if "0x10 \<le> j" "j < 0x28" for j
    using that l(3,6) by (auto simp: b(6,7) config_defs)
  then have "u32_at c' (bar_reg i) = u32_at c (bar_reg i) \<and> mask_u32 c' (bar_reg i) = mask_u32 c (bar_reg i)" if "i < BARS" for i
    using that by (intro conjI u32_at_cong mask_u32_cong) (auto simp: bar_reg_def config_defs)
  then show ?thesis
    using b(2,3) by (intro bars_inv_cong [OF assms(1)]) auto
qed

lemma add_capability_caps_inv:
  assumes "caps_inv c es" "add_capability c cid body wm = Inr (off, c')"
  shows "caps_inv c' (es @ [(off, cid)])"
proof -
  note l = caps_inv_link [OF assms(1)]
  note b = add_capability_bytes [OF assms(2) l(4,1,2,3)]
  have fit: "cap_fits (next_cap c) body wm"
    using assms(2) by (subst (asm) add_capability_result) (simp split: if_splits)
  then have n: "next_cap c < 256" by (simp add: cap_fits_def)
  then have off: "unat off = next_cap c" using b(1) by (simp add: unat_of_nat)
  have es: "64 \<le> unat (fst e)" "unat (fst e) + 2 \<le> next_cap c" "unat (fst e) mod 4 = 0"
      "mask_byte c (unat (fst e)) = 0" "mask_byte c (Suc (unat (fst e))) = 0" if "e \<in> set es" for e
    using assms(1) that by (cases e; auto simp: caps_inv_def)+
  have same: "cfg_byte c' j = cfg_byte c j" if "j \<noteq> link_byte c" "64 \<le> j" "j < next_cap c" for j
    using that by (simp add: b(6,7) STATUS_def)
  have new: "cfg_byte c' (unat off) = cid" "cfg_byte c' (Suc (unat off)) = 0"
    using l(1,3) by (auto simp: b(6,7) off STATUS_def)
  have link: "cfg_byte c' (link_byte c) = off" using l(2) by (simp add: b(6) b(1))
  have chain: "cap_chain c' (es @ [(off, cid)]) (cfg_byte c' CAP_PTR)"
  proof (cases "es = []")
    case True
    then have "link_byte c = CAP_PTR" using assms(1) by (simp add: link_byte_def caps_inv_def)
    with True new link show ?thesis by simp
  next
    case False
    then have lb: "link_byte c = Suc (unat (fst (last es)))" using assms(1) by (simp add: link_byte_def caps_inv_def)
    have "cfg_byte c' CAP_PTR = cfg_byte c CAP_PTR"
      using lb es(1) [of "last es"] False l(3) by (simp add: b(6,7) config_defs)
    moreover have "cap_chain c' (es @ [(off, cid)]) (cfg_byte c CAP_PTR)"
    proof (rule cap_chain_snoc [of c])
      fix j
      assume "j \<noteq> Suc (unat (fst (last es)))" "\<exists>e \<in> set es. j = unat (fst e) \<or> j = Suc (unat (fst e))"
      then show "cfg_byte c' j = cfg_byte c j"
        using lb es(1,2) by (intro same) force+
    qed (use assms(1) False new link lb es(2) n in \<open>auto simp: caps_inv_def\<close>, fastforce)
    ultimately show ?thesis by simp
  qed
  have masks: "mask_byte c' j = mask_byte c j" if "j < next_cap c + 2" for j using that by (simp add: b(6,7))
  have beyond: "mask_byte c' j = 0" if "cap_after (next_cap c) body \<le> j" for j
  proof -
    have "next_cap c + 2 + length wm \<le> j" "next_cap c \<le> j"
      using that cap_after_bounds(1) [of "next_cap c" body] fit unfolding cap_fits_def by linarith+
    then show ?thesis using assms(1) by (simp add: b(6,7) caps_inv_def)
  qed
  have sorted: "sorted_wrt (\<lambda>e e'. unat (fst e) + 2 \<le> unat (fst e')) (es @ [(off, cid)])"
    using assms(1) es(2) off by (simp add: caps_inv_def sorted_wrt_append)
  have entries: "\<forall>(o', i) \<in> set (es @ [(off, cid)]). 64 \<le> unat o' \<and> unat o' + 2 \<le> cap_after (next_cap c) body
      \<and> unat o' mod 4 = 0 \<and> mask_byte c' (unat o') = 0 \<and> mask_byte c' (Suc (unat o')) = 0"
  proof (intro ballI, clarify)
    fix o' i
    assume e: "(o', i) \<in> set (es @ [(off, cid)])"
    show "64 \<le> unat o' \<and> unat o' + 2 \<le> cap_after (next_cap c) body
      \<and> unat o' mod 4 = 0 \<and> mask_byte c' (unat o') = 0 \<and> mask_byte c' (Suc (unat o')) = 0"
      using e es [of "(o', i)"] cap_after_bounds(1) [of "next_cap c" body] l(3) off masks assms(1)
      by (auto simp: caps_inv_def)
  qed
  have "64 \<le> cap_after (next_cap c) body" "cap_after (next_cap c) body \<le> 256"
    using cap_after_bounds(1,3) [of "next_cap c" body] l(3) fit unfolding cap_fits_def by linarith+
  moreover have "mask_byte c' CAP_PTR = 0" "mask_byte c' STATUS = 0"
    using assms(1) masks l(3) by (simp_all add: caps_inv_def config_defs)
  moreover have "bit (cfg_byte c' STATUS) 4" by (simp add: b(6,7) bit_or_iff)
  ultimately show ?thesis
    unfolding caps_inv_def b(4,5) using b(2) chain entries sorted beyond off cap_after_bounds(2) [of "next_cap c" body] by auto
qed

lemma blank_bytes:
  "cfg_byte \<lparr>c_data = replicate n 0, c_wmask = m, c_bars = b, next_cap = k, last_cap = l\<rparr> j = 0"
  "mask_byte \<lparr>c_data = d, c_wmask = replicate n 0, c_bars = b, next_cap = k, last_cap = l\<rparr> j = 0"
  by (simp_all add: cfg_byte_def mask_byte_def)

lemma config_new_masks: "mask_byte (config_new h) j =
  (if j = 4 then 0x46 else if j = 5 then 5 else if j = 0x0c \<or> j = 0x0d \<or> j = 0x3c then 0xff else 0)"
proof -
  have "to_le 2 COMMAND_WRITABLE = [0x46, 5]" by (simp add: COMMAND_WRITABLE_def to_le_def upt_conv_Cons)
  then show ?thesis
    by (auto simp: config_new_def Let_def mask_byte_put_mask config_defs blank_bytes nth_Cons')
qed

lemma config_new_bytes:
  "sized (config_new h)" "next_cap (config_new h) = 64" "last_cap (config_new h) = None"
  "c_bars (config_new h) = replicate 6 EmptySlot"
  "0x10 \<le> j \<and> j < 0x28 \<or> j = CAP_PTR \<or> j = STATUS \<Longrightarrow> cfg_byte (config_new h) j = 0"
proof -
  show "sized (config_new h)" by (simp add: config_new_def Let_def) (simp add: sized_def)
  show "next_cap (config_new h) = 64" "last_cap (config_new h) = None" "c_bars (config_new h) = replicate 6 EmptySlot"
    by (simp_all add: config_new_def Let_def config_defs)
  show "0x10 \<le> j \<and> j < 0x28 \<or> j = CAP_PTR \<or> j = STATUS \<Longrightarrow> cfg_byte (config_new h) j = 0"
    by (auto simp: config_new_def Let_def cfg_byte_put config_defs blank_bytes)
qed

lemma config_new_inv: "bars_inv (config_new h)" "caps_inv (config_new h) []"
proof -
  have "u32_at (config_new h) (bar_reg i) = 0 \<and> mask_u32 (config_new h) (bar_reg i) = 0" if "i < BARS" for i
  proof (intro conjI bit_word_eqI)
    fix n
    assume "n < LENGTH(32)"
    then have "n div 8 < 4" by simp
    with that have "cfg_byte (config_new h) (bar_reg i + n div 8) = 0" "mask_byte (config_new h) (bar_reg i + n div 8) = 0"
      by (intro config_new_bytes, simp add: bar_reg_def config_defs, simp add: config_new_masks bar_reg_def config_defs)
    then show "bit (u32_at (config_new h) (bar_reg i)) n = bit 0 n" "bit (mask_u32 (config_new h) (bar_reg i)) n = bit 0 n"
      by (simp_all add: bit_u32_at bit_mask_u32)
  qed
  then show "bars_inv (config_new h)"
    by (simp add: bars_inv_def slot_inv_def config_new_bytes config_defs)
  show "caps_inv (config_new h) []"
  proof -
    have "mask_byte (config_new h) CAP_PTR = 0" "mask_byte (config_new h) STATUS = 0"
      by (simp_all add: config_new_masks config_defs)
    moreover have "cfg_byte (config_new h) CAP_PTR = 0" "cfg_byte (config_new h) STATUS = 0"
      by (simp_all add: config_new_bytes)
    moreover have "\<forall>j \<ge> 64. mask_byte (config_new h) j = 0" by (simp add: config_new_masks)
    ultimately show ?thesis
      by (simp add: caps_inv_def config_new_bytes(1-4))
  qed
qed

section \<open>Every life of a space\<close>

text \<open>The capabilities a sequence of operations declares: each at the next aligned offset, if it fits.\<close>

fun declared_caps :: "config_op list \<Rightarrow> nat \<Rightarrow> (u8 \<times> u8) list" where
  "declared_caps [] n = []"
| "declared_caps (AddCapability cid body wm # ops) n =
     (if cap_fits n body wm then (of_nat n, cid) # declared_caps ops (cap_after n body) else declared_caps ops n)"
| "declared_caps (_ # ops) n = declared_caps ops n"

lemma config_step_inv:
  assumes "bars_inv c" "caps_inv c es"
  shows "bars_inv (config_step op c) \<and>
    caps_inv (config_step op c) (es @ declared_caps [op] (next_cap c)) \<and>
    declared_caps (op # ops) (next_cap c) = declared_caps [op] (next_cap c) @ declared_caps ops (next_cap (config_step op c))"
proof (cases op)
  case (AddBar i b)
  then show ?thesis
    using assms by (cases "add_bar c i b") (auto intro: add_bar_bars_inv add_bar_caps_inv dest: add_bar_cases(1))
next
  case (AddCapability cid body wm)
  show ?thesis
  proof (cases "cap_fits (next_cap c) body wm")
    case True
    then have "add_capability c cid body wm = Inr (of_nat (next_cap c), snd (projr (add_capability c cid body wm)))"
      by (subst add_capability_result) simp
    then obtain c' where c': "add_capability c cid body wm = Inr (of_nat (next_cap c), c')" by blast
    from add_capability_bars_inv [OF assms c'] add_capability_caps_inv [OF assms(2) c']
      add_capability_bytes(4) [OF c' caps_inv_link(4,1,2,3) [OF assms(2)]]
    show ?thesis using True c' AddCapability by simp
  next
    case False
    then have "add_capability c cid body wm = Inl (CapabilitySpace cid (2 + length body))"
      by (subst add_capability_result) simp
    with False AddCapability assms show ?thesis by simp
  qed
next
  case (SetBarAddress i a)
  with assms show ?thesis by (simp add: set_bar_address_bars_inv set_bar_address_caps_inv)
next
  case (GuestWrite off sz v)
  with assms show ?thesis by (simp add: config_write_bars_inv config_write_caps_inv)
qed

lemma config_steps_inv:
  assumes "bars_inv c" "caps_inv c es"
  shows "bars_inv (fold config_step ops c) \<and> caps_inv (fold config_step ops c) (es @ declared_caps ops (next_cap c))"
  using assms
proof (induction ops arbitrary: c es)
  case Nil
  then show ?case by simp
next
  case (Cons op ops)
  from config_step_inv [OF Cons.prems, of op ops] Cons.IH show ?case by fastforce
qed

definition space_after :: "header \<Rightarrow> config_op list \<Rightarrow> config_space" where
  "space_after h ops = fold config_step ops (config_new h)"

lemma space_after_inv: "bars_inv (space_after h ops)" "caps_inv (space_after h ops) (declared_caps ops 64)"
  using config_steps_inv [OF config_new_inv [of h], of ops] by (simp_all add: space_after_def config_new_bytes)

text \<open>
  C30. The capability list a guest walks is exactly the list of capabilities the device declared, in order, at the
  offsets \<open>add_capability\<close> returned, with the last one ending the list: whatever sequence of declarations, host BAR
  assignments and guest writes of any width at any offset the space has been through. The walk never reports a
  malformed list and never loops.
\<close>

theorem pci_capability_list: "capabilities (space_after h ops) = Inr (cap_entries (declared_caps ops 64))"
  using space_after_inv(2) by (rule caps_inv_capabilities)

text \<open>
  C29. BAR decoding stays sound through every sequence of declarations, host assignments and guest writes. A declared
  BAR always holds an address that is a multiple of its size. An address programmed by the host, or by the guest with
  one write to each of the BAR's registers, is held rounded down to the size (in 32 bits for a 32-bit BAR), and the
  function then decodes exactly that window of the declared size at that index, provided memory decode is on and the
  address is not zero. The sizing protocol (all ones written to each register) reads back the size mask with the type
  flags in the low register and, for a 64-bit BAR, the upper half of the mask in the next one.
\<close>

theorem pci_bar_decoding:
  assumes "bar_at (space_after h ops) i = Some b"
  shows "(\<exists>a. bar_address (space_after h ops) i = Some a \<and> a AND (bar_size b - 1) = 0)
    \<and> bar_address (set_bar_address (space_after h ops) i x) i = Some (bar_rounded b x)
    \<and> bar_address (guest_program (space_after h ops) i b x) i = Some (bar_rounded b x)
    \<and> ((i, base, len) \<in> set (decoded_bars (guest_program (space_after h ops) i b x)) \<longleftrightarrow>
         memory_enabled (space_after h ops) \<and> base = bar_rounded b x \<and> base \<noteq> 0 \<and> len = bar_size b)
    \<and> u32_at (guest_program (space_after h ops) i b (- 1)) (bar_reg i) = ucast (NOT (bar_size b - 1)) OR bar_flags b
    \<and> (bar_kind b = Mem64 \<longrightarrow>
         u32_at (guest_program (space_after h ops) i b (- 1)) (bar_reg (Suc i)) = ucast (drop_bit 32 (NOT (bar_size b - 1))))"
proof (intro conjI impI)
  note inv = space_after_inv(1) [of h ops]
  note regs = guest_program_registers [OF inv assms]
  show "\<exists>a. bar_address (space_after h ops) i = Some a \<and> a AND (bar_size b - 1) = 0"
    using bar_address_aligned [OF inv assms] bar_address_joined [OF assms] by blast
  show "bar_address (set_bar_address (space_after h ops) i x) i = Some (bar_rounded b x)"
    using set_bar_address_roundtrip [OF inv assms] by (simp only: address_mask_def bar_rounded_def)
  show a: "bar_address (guest_program (space_after h ops) i b x) i = Some (bar_rounded b x)"
    by (rule guest_program_address [OF inv assms])
  show "(i, base, len) \<in> set (decoded_bars (guest_program (space_after h ops) i b x)) \<longleftrightarrow>
      memory_enabled (space_after h ops) \<and> base = bar_rounded b x \<and> base \<noteq> 0 \<and> len = bar_size b"
    using bars_invD(9) [OF inv assms] by (auto simp: set_decoded_bars regs(3,4) a BARS_def)
  show "u32_at (guest_program (space_after h ops) i b (- 1)) (bar_reg i) = ucast (NOT (bar_size b - 1)) OR bar_flags b"
    using regs(1) [of "- 1"] by (simp add: address_mask_def)
  show "u32_at (guest_program (space_after h ops) i b (- 1)) (bar_reg (Suc i)) = ucast (drop_bit 32 (NOT (bar_size b - 1)))"
    if "bar_kind b = Mem64"
    using regs(2) [OF that, of "- 1"] by (simp add: address_mask_def)
qed

definition demo_header :: header where
  "demo_header = \<lparr>hdr_vendor_id = 0x1af4, hdr_device_id = 0x1042, class_code = 0x018000, revision = 1,
     subsystem_vendor_id = 0x1af4, subsystem_id = 2, interrupt_pin = 1\<rparr>"

definition demo_config_ops :: "config_op list" where
  "demo_config_ops = [AddBar 0 \<lparr>bar_size = 0x200000000, bar_kind = Mem64, prefetchable = True\<rparr>, GuestWrite 4 2 2]"

theorem pci_bar_decoding_witness:
  "bar_at (space_after demo_header demo_config_ops) 0 = Some \<lparr>bar_size = 0x200000000, bar_kind = Mem64, prefetchable = True\<rparr>
   \<and> (0, 0x600000000, 0x200000000) \<in> set (decoded_bars (guest_program (space_after demo_header demo_config_ops) 0
         \<lparr>bar_size = 0x200000000, bar_kind = Mem64, prefetchable = True\<rparr> 0x700000123))
   \<and> u32_at (guest_program (space_after demo_header demo_config_ops) 0
         \<lparr>bar_size = 0x200000000, bar_kind = Mem64, prefetchable = True\<rparr> (- 1)) (bar_reg 1) = 0xfffffffe"
proof -
  have b: "bar_at (space_after demo_header demo_config_ops) 0 = Some \<lparr>bar_size = 0x200000000, bar_kind = Mem64, prefetchable = True\<rparr>"
    by code_simp
  have m: "memory_enabled (space_after demo_header demo_config_ops)" by code_simp
  show ?thesis
    using b m pci_bar_decoding [OF b, of "0x700000123" "0x600000000" "0x200000000"] by (simp add: bar_rounded_def)
qed

end
