(* ===== verification/Pci_Intx.thy ===== *)
theory Pci_Intx
  imports Prelude
begin

text \<open>
  Legacy PCI interrupts, \<open>ternvale-vmm/src/pci/intx.rs\<close>: every function has a pin, pins are swizzled onto four shared
  lines, a line counts the pins that drive it and runs its hook when the count leaves or reaches zero.

  \<open>IntxPin::update\<close> takes the pin lock, changes the pin and, still holding it, takes the line lock inside
  \<open>IntxLine::adjust\<close>. Other pins may run between the two, so an update is two steps here: \<open>begin_update\<close> leaves the
  adjustment it owes in \<open>owes\<close> (the pin lock is held while it is set), \<open>adjust\<close> is one step under the line lock.
\<close>

section \<open>Pins and lines\<close>

definition PCI_INTX_LINES :: nat where "PCI_INTX_LINES = 4"

definition PCI_INTX_SPI0 :: u32 where "PCI_INTX_SPI0 = 3"

definition swizzle :: "u8 \<Rightarrow> u8 \<Rightarrow> nat" where
  "swizzle device pin = (unat device + unat (max pin 1) - 1) mod PCI_INTX_LINES"

text \<open>\<open>hook_calls\<close> are the levels the hook was called with, the latest first.\<close>

record intx_line =
  line_spi :: u32
  asserted_count :: u32
  hook_calls :: "bool list"

definition line_new :: "u32 \<Rightarrow> intx_line" where
  "line_new s = \<lparr>line_spi = s, asserted_count = 0, hook_calls = []\<rparr>"

definition adjust :: "bool \<Rightarrow> intx_line \<Rightarrow> intx_line" where
  "adjust up l =
     (let before = asserted_count l; count = (if up then saturating_add before 1 else saturating_sub before 1)
      in l\<lparr>asserted_count := count,
           hook_calls := (if (before = 0) \<noteq> (count = 0) then (count \<noteq> 0) # hook_calls l else hook_calls l)\<rparr>)"

record intx_pin =
  requested :: bool
  disabled :: bool
  driving :: bool
  pin_line :: nat
  owes :: "bool option"

definition pin_new :: "nat \<Rightarrow> intx_pin" where
  "pin_new l = \<lparr>requested = False, disabled = False, driving = False, pin_line = l, owes = None\<rparr>"

text \<open>The changes of \<open>set\<close>, \<open>refresh\<close> (the level read inside the lock) and \<open>set_disabled\<close>.\<close>

datatype pin_change = SetLevel bool | Refresh "unit \<Rightarrow> bool" | SetDisabled bool

fun change_pin :: "pin_change \<Rightarrow> intx_pin \<Rightarrow> intx_pin" where
  "change_pin (SetLevel level) p = p\<lparr>requested := level\<rparr>"
| "change_pin (Refresh level) p = p\<lparr>requested := level ()\<rparr>"
| "change_pin (SetDisabled d) p = p\<lparr>disabled := d\<rparr>"

definition wants :: "intx_pin \<Rightarrow> bool" where
  "wants p \<longleftrightarrow> requested p \<and> \<not> disabled p"

definition begin_update :: "pin_change \<Rightarrow> intx_pin \<Rightarrow> intx_pin" where
  "begin_update ch p =
     (let p' = change_pin ch p in if wants p' \<noteq> driving p' then p'\<lparr>driving := wants p', owes := Some (wants p')\<rparr> else p')"

text \<open>A whole update that nothing interleaves with.\<close>

definition pin_update :: "pin_change \<Rightarrow> intx_pin \<Rightarrow> intx_line list \<Rightarrow> intx_pin \<times> intx_line list" where
  "pin_update ch p lines =
     (let p' = begin_update ch p in
      case owes p' of
        None \<Rightarrow> (p', lines)
      | Some up \<Rightarrow> (p'\<lparr>owes := None\<rparr>, lines[pin_line p' := adjust up (lines ! pin_line p')]))"

section \<open>The threads\<close>

type_synonym intx_system = "intx_pin list \<times> intx_line list"

inductive intx_step :: "intx_system \<Rightarrow> intx_system \<Rightarrow> bool" where
  change: "i < length pins \<Longrightarrow> owes (pins ! i) = None \<Longrightarrow>
     intx_step (pins, lines) (pins[i := begin_update ch (pins ! i)], lines)"
| adjusted: "i < length pins \<Longrightarrow> owes (pins ! i) = Some up \<Longrightarrow> pin_line (pins ! i) = l \<Longrightarrow>
     intx_step (pins, lines) (pins[i := (pins ! i)\<lparr>owes := None\<rparr>], lines[l := adjust up (lines ! l)])"

inductive_cases intx_stepE: "intx_step (pins, lines) s'"

text \<open>A root complex with functions at the given device numbers, each on INTA.\<close>

definition intx_start :: "u8 list \<Rightarrow> intx_system" where
  "intx_start devices =
     (map (\<lambda>d. pin_new (swizzle d 1)) devices, map (\<lambda>i. line_new (PCI_INTX_SPI0 + of_nat i)) [0..<PCI_INTX_LINES])"

abbreviation intx_star :: "intx_system \<Rightarrow> intx_system \<Rightarrow> bool" where
  "intx_star \<equiv> intx_step\<^sup>*\<^sup>*"

section \<open>The count\<close>

text \<open>What a pin currently contributes to the count of its line: not yet what it owes.\<close>

definition contributes :: "intx_pin \<Rightarrow> bool" where
  "contributes p \<longleftrightarrow> (case owes p of None \<Rightarrow> driving p | Some up \<Rightarrow> \<not> up)"

definition drivers :: "nat \<Rightarrow> intx_pin list \<Rightarrow> nat" where
  "drivers l pins = length (filter (\<lambda>p. pin_line p = l \<and> contributes p) pins)"

definition pin_inv :: "intx_pin \<Rightarrow> bool" where
  "pin_inv p \<longleftrightarrow> driving p = wants p \<and> pin_line p < PCI_INTX_LINES \<and> (\<forall>up. owes p = Some up \<longrightarrow> driving p = up)"

fun alternating :: "bool \<Rightarrow> bool list \<Rightarrow> bool" where
  "alternating level [] \<longleftrightarrow> \<not> level"
| "alternating level (c # cs) \<longleftrightarrow> c = level \<and> alternating (\<not> level) cs"

definition intx_line_inv :: "nat \<Rightarrow> intx_line \<Rightarrow> bool" where
  "intx_line_inv n line \<longleftrightarrow> unat (asserted_count line) = n \<and> alternating (n \<noteq> 0) (hook_calls line)"

definition intx_inv :: "intx_system \<Rightarrow> bool" where
  "intx_inv s \<longleftrightarrow> length (fst s) < 2 ^ 32 \<and> length (snd s) = PCI_INTX_LINES \<and> (\<forall>p \<in> set (fst s). pin_inv p)
     \<and> (\<forall>l < PCI_INTX_LINES. intx_line_inv (drivers l (fst s)) (snd s ! l))"

lemma swizzle_bound: "swizzle device pin < PCI_INTX_LINES"
  by (simp add: swizzle_def PCI_INTX_LINES_def)

lemma drivers_update:
  assumes "i < length pins"
  shows "drivers l (pins[i := p]) + (if pin_line (pins ! i) = l \<and> contributes (pins ! i) then 1 else 0) =
    drivers l pins + (if pin_line p = l \<and> contributes p then 1 else 0)"
proof -
  have split: "pins = take i pins @ pins ! i # drop (Suc i) pins" using assms by (rule id_take_nth_drop)
  have upd: "pins[i := p] = take i pins @ p # drop (Suc i) pins" using assms by (rule upd_conv_take_nth_drop)
  show ?thesis
    by (subst (3) split, unfold upd) (simp add: drivers_def)
qed

lemma drivers_bound: "drivers l pins \<le> length pins"
  by (simp add: drivers_def)

lemma begin_update_pin:
  assumes "owes p = None" "pin_inv p"
  shows "pin_inv (begin_update ch p)" "contributes (begin_update ch p) = contributes p"
    "pin_line (begin_update ch p) = pin_line p"
  using assms by (cases ch; auto simp: begin_update_def Let_def pin_inv_def contributes_def wants_def)+

lemma adjust_up: "intx_line_inv n line \<Longrightarrow> Suc n < 2 ^ 32 \<Longrightarrow> intx_line_inv (Suc n) (adjust True line)"
  by (auto simp: intx_line_inv_def adjust_def Let_def rust_arith word_unat_eq_iff [of _ 0])

lemma adjust_down: "intx_line_inv (Suc n) line \<Longrightarrow> intx_line_inv n (adjust False line)"
  by (auto simp: intx_line_inv_def adjust_def Let_def rust_arith word_unat_eq_iff [of _ 0])

lemma intx_inv_step:
  assumes "intx_step s s'" "intx_inv s"
  shows "intx_inv s'"
  using assms
proof cases
  case (change i pins lines ch)
  with assms(2) have p: "pin_inv (pins ! i)" by (simp add: intx_inv_def)
  note b = begin_update_pin [OF change(4) p, of ch]
  have "drivers l (pins[i := begin_update ch (pins ! i)]) = drivers l pins" for l
    using drivers_update [OF change(3), of l "begin_update ch (pins ! i)"] b(2,3) by (simp split: if_splits)
  with change b(1) assms(2) show ?thesis
    by (auto simp: intx_inv_def dest!: set_update_subset_insert [THEN subsetD])
next
  case (adjusted i pins up l lines)
  let ?p = "(pins ! i)\<lparr>owes := None\<rparr>"
  from adjusted assms(2) have p: "pin_inv (pins ! i)" by (simp add: intx_inv_def)
  then have l: "l < PCI_INTX_LINES" and pin: "pin_inv ?p" and contr: "contributes ?p = up" "contributes (pins ! i) = (\<not> up)"
    using adjusted by (auto simp: pin_inv_def contributes_def wants_def)
  have d: "drivers m (pins[i := ?p]) + (if l = m \<and> \<not> up then 1 else 0) = drivers m pins + (if l = m \<and> up then 1 else 0)" for m
    using drivers_update [OF adjusted(3), of m ?p] contr adjusted(5) by simp
  have bound: "drivers l (pins[i := ?p]) < 2 ^ 32"
    using drivers_bound [of l "pins[i := ?p]"] assms(2) adjusted(1) by (simp add: intx_inv_def)
  have line: "intx_line_inv (drivers l pins) (lines ! l)" using assms(2) adjusted(1) l by (simp add: intx_inv_def)
  have here: "intx_line_inv (drivers l (pins[i := ?p])) (adjust up (lines ! l))"
  proof (cases up)
    case True
    with d [of l] bound adjust_up [OF line] show ?thesis by simp
  next
    case False
    with d [of l] line have "intx_line_inv (Suc (drivers l (pins[i := ?p]))) (lines ! l)" by simp
    with False show ?thesis by (simp add: adjust_down)
  qed
  have "intx_line_inv (drivers m (pins[i := ?p])) (lines[l := adjust up (lines ! l)] ! m)" if "m < PCI_INTX_LINES" for m
    using that here d [of m] assms(2) adjusted(1) l by (cases "m = l") (auto simp: intx_inv_def)
  with assms(2) adjusted pin show ?thesis
    by (auto simp: intx_inv_def dest!: set_update_subset_insert [THEN subsetD])
qed

lemma intx_inv_start: "length devices < 2 ^ 32 \<Longrightarrow> intx_inv (intx_start devices)"
  by (auto simp: intx_inv_def intx_start_def pin_inv_def pin_new_def wants_def swizzle_bound intx_line_inv_def line_new_def
      drivers_def contributes_def filter_empty_conv)

lemma intx_inv_reachable: "intx_star s s' \<Longrightarrow> intx_inv s \<Longrightarrow> intx_inv s'"
  by (induction rule: rtranclp_induct) (auto intro: intx_inv_step)

lemma quiet_drivers:
  assumes "\<forall>p \<in> set pins. pin_inv p" "\<forall>p \<in> set pins. pin_line p = l \<longrightarrow> owes p = None"
  shows "drivers l pins = length (filter (\<lambda>p. pin_line p = l \<and> wants p) pins)"
  unfolding drivers_def
  by (intro arg_cong [where f = length] filter_cong refl) (use assms in \<open>auto simp: contributes_def pin_inv_def\<close>)

text \<open>
  However the updates of different functions interleave, a shared line never loses or invents an interrupt: once
  no pin routed to line \<open>l\<close> is in the middle of an update, the line's count is the number of its pins that are
  requested and not disabled, the last level handed to the interrupt controller is high exactly when there is such a
  pin, and the calls strictly alternate between high and low, starting high.
\<close>

lemma intx_line_level:
  assumes "intx_star (intx_start devices) (pins, lines)" "length devices < 2 ^ 32" "l < PCI_INTX_LINES"
    and "\<forall>p \<in> set pins. pin_line p = l \<longrightarrow> owes p = None"
  shows "unat (asserted_count (lines ! l)) = length (filter (\<lambda>p. pin_line p = l \<and> requested p \<and> \<not> disabled p) pins)
    \<and> alternating (\<exists>p \<in> set pins. pin_line p = l \<and> requested p \<and> \<not> disabled p) (hook_calls (lines ! l))"
proof -
  have inv: "intx_inv (pins, lines)" using intx_inv_reachable [OF assms(1) intx_inv_start [OF assms(2)]] .
  then have d: "drivers l pins = length (filter (\<lambda>p. pin_line p = l \<and> wants p) pins)"
    using assms(4) by (intro quiet_drivers) (simp_all add: intx_inv_def)
  then have some: "drivers l pins \<noteq> 0 \<longleftrightarrow> (\<exists>p \<in> set pins. pin_line p = l \<and> wants p)"
    by (auto simp: filter_empty_conv)
  from inv assms(3) have "intx_line_inv (drivers l pins) (lines ! l)" by (simp add: intx_inv_def)
  then show ?thesis
    unfolding intx_line_inv_def some unfolding d wants_def by simp
qed

text \<open>Two functions on the same line: the second update begins before the first has adjusted the line.\<close>

definition demo_pins :: "intx_pin list" where
  "demo_pins = map (\<lambda>_. (pin_new 1)\<lparr>requested := True, driving := True\<rparr>) [0, 1 :: nat]"

lemma demo_reachable: "intx_star (intx_start [1, 5]) (demo_pins, (map (\<lambda>i. line_new (PCI_INTX_SPI0 + of_nat i)) [0..<4])
    [1 := adjust True (adjust True (line_new 4))])"
proof -
  let ?p = "(pin_new 1)\<lparr>requested := True, driving := True\<rparr>"
  let ?q = "?p\<lparr>owes := Some True\<rparr>"
  let ?ls = "map (\<lambda>i. line_new (PCI_INTX_SPI0 + of_nat i)) [0..<4]"
  have b: "begin_update (SetLevel True) (pin_new 1) = ?q" by (simp add: begin_update_def wants_def pin_new_def)
  have q: "owes ?q = Some True" "pin_line ?q = 1" "?q\<lparr>owes := None\<rparr> = ?p" "owes (pin_new 1) = None" by (simp_all add: pin_new_def)
  have l1: "?ls ! 1 = line_new 4" by (simp add: PCI_INTX_SPI0_def)
  have s0: "intx_start [1, 5] = ([pin_new 1, pin_new 1], ?ls)"
    by (simp add: intx_start_def swizzle_def PCI_INTX_LINES_def max_def)
  have s1: "intx_step ([pin_new 1, pin_new 1], ?ls) ([?q, pin_new 1], ?ls)"
    using intx_step.change [of 0 "[pin_new 1, pin_new 1]" ?ls "SetLevel True"] b q by simp
  have s2: "intx_step ([?q, pin_new 1], ?ls) ([?q, ?q], ?ls)"
    using intx_step.change [of 1 "[?q, pin_new 1]" ?ls "SetLevel True"] b q by simp
  have s3: "intx_step ([?q, ?q], ?ls) ([?p, ?q], ?ls[1 := adjust True (line_new 4)])"
    using intx_step.adjusted [of 0 "[?q, ?q]" True 1 ?ls] q l1 by simp
  have s4: "intx_step ([?p, ?q], ?ls[1 := adjust True (line_new 4)]) ([?p, ?p], ?ls[1 := adjust True (adjust True (line_new 4))])"
    using intx_step.adjusted [of 1 "[?p, ?q]" True 1 "?ls[1 := adjust True (line_new 4)]"] q by simp
  from s1 s2 s3 s4 show ?thesis
    unfolding s0 demo_pins_def by (auto intro: converse_rtranclp_into_rtranclp)
qed

end
