(* ===== verification/Pci_Bus.thy ===== *)
theory Pci_Bus
  imports Pci_Config Pci_Intx "HOL-Library.Product_Lexorder"
begin

text \<open>
  Bus 0 and the root complex, \<open>ternvale-vmm/src/pci/bus.rs\<close>, \<open>pci/root.rs\<close> and \<open>pci/host_bridge.rs\<close>: function slots,
  config access through the ECAM window, routing of the memory window by the programmed BARs, and the host's BAR
  assignment.

  Functions are a parameter, the record \<open>pci_ops\<close> of the methods of the trait \<open>PciFunction\<close>; the locale
  \<open>pci_function\<close> states what the bus relies on, and it is interpreted on the host bridge here and on every function
  of the machine in \<open>Virtio_Pci\<close>. A function that raises INTx does so through a hook that refreshes its pin; the
  hook runs inside the methods. \<open>fn_hooks\<close> counts the calls of the hook so far, and storing a function back
  (\<open>settle\<close>) refreshes the pin exactly when the method called it: a method that changes the level without calling
  the hook leaves the pin where it was. Logging is not modelled.
\<close>

section \<open>Functions\<close>

record 'd pci_ops =
  fn_config :: "'d \<Rightarrow> config_space"
  fn_set_config :: "config_space \<Rightarrow> 'd \<Rightarrow> 'd"
  fn_read_config :: "'d \<Rightarrow> nat \<Rightarrow> u8 \<Rightarrow> u32 \<times> 'd"
  fn_write_config :: "'d \<Rightarrow> nat \<Rightarrow> u8 \<Rightarrow> u32 \<Rightarrow> 'd"
  fn_read_bar :: "'d \<Rightarrow> nat \<Rightarrow> u64 \<Rightarrow> u8 \<Rightarrow> u64 \<times> 'd"
  fn_write_bar :: "'d \<Rightarrow> nat \<Rightarrow> u64 \<Rightarrow> u8 \<Rightarrow> u64 \<Rightarrow> 'd"
  fn_level :: "'d \<Rightarrow> bool option"
  fn_hooks :: "'d \<Rightarrow> nat"

text \<open>The default methods of the trait, over a function that is only a config space.\<close>

definition default_read_config :: "config_space \<Rightarrow> nat \<Rightarrow> u8 \<Rightarrow> u32 \<times> config_space" where
  "default_read_config c off sz = (config_read c off (unat sz), c)"

definition default_write_config :: "config_space \<Rightarrow> nat \<Rightarrow> u8 \<Rightarrow> u32 \<Rightarrow> config_space" where
  "default_write_config c off sz v = config_write c off (unat sz) v"

definition default_read_bar :: "config_space \<Rightarrow> nat \<Rightarrow> u64 \<Rightarrow> u8 \<Rightarrow> u64 \<times> config_space" where
  "default_read_bar c bar off sz = (- 1, c)"

definition default_write_bar :: "config_space \<Rightarrow> nat \<Rightarrow> u64 \<Rightarrow> u8 \<Rightarrow> u64 \<Rightarrow> config_space" where
  "default_write_bar c bar off sz v = c"

definition default_ops :: "config_space pci_ops" where
  "default_ops = \<lparr>fn_config = (\<lambda>c. c), fn_set_config = (\<lambda>c _. c), fn_read_config = default_read_config,
     fn_write_config = default_write_config, fn_read_bar = default_read_bar, fn_write_bar = default_write_bar,
     fn_level = (\<lambda>_. None), fn_hooks = (\<lambda>_. 0)\<rparr>"

definition host_bridge_new :: config_space where
  "host_bridge_new = config_new \<lparr>hdr_vendor_id = 0x1b36, hdr_device_id = 0x0008, class_code = 0x060000, revision = 0,
     subsystem_vendor_id = 0x1b36, subsystem_id = 0x1100, interrupt_pin = 0\<rparr>"

section \<open>The bus\<close>

record bdf =
  bdf_bus :: u8
  bdf_device :: u8
  bdf_function :: u8

definition bdf_new :: "u8 \<Rightarrow> bdf" where
  "bdf_new device = \<lparr>bdf_bus = 0, bdf_device = device, bdf_function = 0\<rparr>"

definition devfn :: "bdf \<Rightarrow> u8" where
  "devfn b = push_bit 3 (bdf_device b) OR (bdf_function b AND 7)"

record 'd pci_slot =
  slot_fn :: 'd
  slot_pin :: "intx_pin option"

record 'd pci_root =
  slots :: "'d pci_slot option list"
  window_base :: u64
  window_size :: u64
  intx_lines :: "intx_line list"

definition DEVICES :: nat where "DEVICES = 32"

definition PCIE_MMIO_BASE :: u64 where "PCIE_MMIO_BASE = 0x10000000"

definition PCIE_MMIO_SIZE :: u64 where "PCIE_MMIO_SIZE = 0x2f000000"

definition bus_empty :: "u64 \<Rightarrow> u64 \<Rightarrow> intx_line list \<Rightarrow> 'd pci_root" where
  "bus_empty base sz lines = \<lparr>slots = replicate DEVICES None, window_base = base, window_size = sz, intx_lines = lines\<rparr>"

fun position :: "('a \<Rightarrow> bool) \<Rightarrow> 'a list \<Rightarrow> nat option" where
  "position P [] = None"
| "position P (x # xs) = (if P x then Some 0 else map_option Suc (position P xs))"

definition free_device :: "'d pci_root \<Rightarrow> nat option" where
  "free_device r = position (\<lambda>s. s = None) (slots r)"

definition bus_insert :: "nat \<Rightarrow> 'd \<Rightarrow> intx_pin option \<Rightarrow> 'd pci_root \<Rightarrow> 'd pci_root" where
  "bus_insert device f pin r = r\<lparr>slots := (slots r)[device := Some \<lparr>slot_fn = f, slot_pin = pin\<rparr>]\<rparr>"

definition bus_slot :: "'d pci_root \<Rightarrow> bdf \<Rightarrow> 'd pci_slot option" where
  "bus_slot r b =
     (if bdf_bus b \<noteq> 0 \<or> bdf_function b \<noteq> 0 then None
      else if unat (bdf_device b) < length (slots r) then slots r ! unat (bdf_device b) else None)"

text \<open>
  Store a function back; if its interrupt hook was called since it was in the slot (or since it was built), the hook
  refreshes the pin with the level the function then requests, and the line follows.
\<close>

definition hooks_before :: "'d pci_ops \<Rightarrow> nat \<Rightarrow> 'd pci_root \<Rightarrow> nat" where
  "hooks_before ops device r = (case slots r ! device of None \<Rightarrow> 0 | Some s \<Rightarrow> fn_hooks ops (slot_fn s))"

definition settle :: "'d pci_ops \<Rightarrow> nat \<Rightarrow> 'd pci_slot \<Rightarrow> 'd pci_root \<Rightarrow> 'd pci_root" where
  "settle ops device s r =
     (case (fn_level ops (slot_fn s), slot_pin s) of
        (Some level, Some p) \<Rightarrow>
          if hooks_before ops device r < fn_hooks ops (slot_fn s) then
            let (p', lines') = pin_update (Refresh (\<lambda>_. level)) p (intx_lines r)
            in r\<lparr>slots := (slots r)[device := Some (s\<lparr>slot_pin := Some p'\<rparr>)], intx_lines := lines'\<rparr>
          else r\<lparr>slots := (slots r)[device := Some s]\<rparr>
      | _ \<Rightarrow> r\<lparr>slots := (slots r)[device := Some s]\<rparr>)"

definition STATUS_INTERRUPT :: u32 where "STATUS_INTERRUPT = 8"

definition pin_asserted :: "'d pci_slot \<Rightarrow> bool" where
  "pin_asserted s \<longleftrightarrow> (case slot_pin s of None \<Rightarrow> False | Some p \<Rightarrow> requested p)"

definition bus_config_read :: "'d pci_ops \<Rightarrow> 'd pci_root \<Rightarrow> bdf \<Rightarrow> nat \<Rightarrow> u8 \<Rightarrow> u32 option \<times> 'd pci_root" where
  "bus_config_read ops r b reg sz =
     (case bus_slot r b of
        None \<Rightarrow> (None, r)
      | Some s \<Rightarrow>
          let (v, f) = fn_read_config ops (slot_fn s) reg sz; device = unat (bdf_device b);
              r' = settle ops device (s\<lparr>slot_fn := f\<rparr>) r;
              asserted = (case slots r' ! device of None \<Rightarrow> False | Some s' \<Rightarrow> pin_asserted s')
          in (Some (if reg \<le> STATUS \<and> STATUS < reg + unat sz \<and> asserted
                    then v OR push_bit (8 * (STATUS - reg)) STATUS_INTERRUPT else v), r'))"

text \<open>A config write also mirrors the INTx disable bit into the pin. The result is the register read back.\<close>

definition mirror_disable :: "'d pci_ops \<Rightarrow> nat \<Rightarrow> 'd pci_root \<Rightarrow> 'd pci_root" where
  "mirror_disable ops device r =
     (case slots r ! device of
        None \<Rightarrow> r
      | Some s \<Rightarrow>
          (case slot_pin s of
             None \<Rightarrow> r
           | Some p \<Rightarrow>
               let (p', lines') = pin_update (SetDisabled (intx_disabled (fn_config ops (slot_fn s)))) p (intx_lines r)
               in r\<lparr>slots := (slots r)[device := Some (s\<lparr>slot_pin := Some p'\<rparr>)], intx_lines := lines'\<rparr>))"

definition bus_config_write :: "'d pci_ops \<Rightarrow> 'd pci_root \<Rightarrow> bdf \<Rightarrow> nat \<Rightarrow> u8 \<Rightarrow> u32 \<Rightarrow> u32 option \<times> 'd pci_root" where
  "bus_config_write ops r b reg sz v =
     (case bus_slot r b of
        None \<Rightarrow> (None, r)
      | Some s \<Rightarrow>
          let f = fn_write_config ops (slot_fn s) reg sz v; device = unat (bdf_device b)
          in (Some (config_read (fn_config ops f) reg (unat sz)),
              mirror_disable ops device (settle ops device (s\<lparr>slot_fn := f\<rparr>) r)))"

text \<open>\<open>route\<close>: the first function, in device order, one of whose decoded BARs holds the whole access.\<close>

definition in_bar :: "u64 \<Rightarrow> u64 \<Rightarrow> nat \<times> u64 \<times> u64 \<Rightarrow> bool" where
  "in_bar gpa e d \<longleftrightarrow> (case d of (_, base, len) \<Rightarrow> base \<le> gpa \<and> e \<le> saturating_add base len)"

fun route_from :: "'d pci_ops \<Rightarrow> 'd pci_slot option list \<Rightarrow> nat \<Rightarrow> u64 \<Rightarrow> u64 \<Rightarrow> (nat \<times> nat \<times> u64) option" where
  "route_from ops [] device gpa e = None"
| "route_from ops (None # ss) device gpa e = route_from ops ss (Suc device) gpa e"
| "route_from ops (Some s # ss) device gpa e =
     (case find (in_bar gpa e) (decoded_bars (fn_config ops (slot_fn s))) of
        Some (bar, base, _) \<Rightarrow> Some (device, bar, gpa - base)
      | None \<Rightarrow> route_from ops ss (Suc device) gpa e)"

definition route :: "'d pci_ops \<Rightarrow> 'd pci_root \<Rightarrow> u64 \<Rightarrow> u8 \<Rightarrow> (nat \<times> nat \<times> u64) option" where
  "route ops r gpa sz =
     (case checked_add gpa (ucast sz) of None \<Rightarrow> None | Some e \<Rightarrow> route_from ops (slots r) 0 gpa e)"

definition bus_mmio_read :: "'d pci_ops \<Rightarrow> 'd pci_root \<Rightarrow> u64 \<Rightarrow> u8 \<Rightarrow> u64 option \<times> 'd pci_root" where
  "bus_mmio_read ops r gpa sz =
     (case route ops r gpa sz of
        None \<Rightarrow> (None, r)
      | Some (device, bar, off) \<Rightarrow>
          (case slots r ! device of
             None \<Rightarrow> (None, r)
           | Some s \<Rightarrow>
               let (v, f) = fn_read_bar ops (slot_fn s) bar off sz in (Some v, settle ops device (s\<lparr>slot_fn := f\<rparr>) r)))"

definition bus_mmio_write :: "'d pci_ops \<Rightarrow> 'd pci_root \<Rightarrow> u64 \<Rightarrow> u8 \<Rightarrow> u64 \<Rightarrow> bool \<times> 'd pci_root" where
  "bus_mmio_write ops r gpa sz v =
     (case route ops r gpa sz of
        None \<Rightarrow> (False, r)
      | Some (device, bar, off) \<Rightarrow>
          (case slots r ! device of
             None \<Rightarrow> (False, r)
           | Some s \<Rightarrow> (True, settle ops device (s\<lparr>slot_fn := fn_write_bar ops (slot_fn s) bar off sz v\<rparr>) r)))"

section \<open>Host BAR assignment\<close>

definition next_multiple_of :: "u64 \<Rightarrow> u64 \<Rightarrow> u64" where
  "next_multiple_of n m = (if n mod m = 0 then n else n + (m - n mod m))"

text \<open>Every declared BAR as (size, device, index), largest first, then by device and index.\<close>

definition wanted_bars :: "'d pci_ops \<Rightarrow> 'd pci_slot option list \<Rightarrow> (u64 \<times> nat \<times> nat) list" where
  "wanted_bars ops ss =
     concat (map (\<lambda>device.
       case ss ! device of
         None \<Rightarrow> []
       | Some s \<Rightarrow> List.map_filter (\<lambda>index. map_option (\<lambda>b. (bar_size b, device, index)) (bar_at (fn_config ops (slot_fn s)) index))
                     [0..<6]) [0..<length ss])"

definition by_size :: "u64 \<times> nat \<times> nat \<Rightarrow> int \<times> nat \<times> nat" where
  "by_size w = (case w of (sz, device, index) \<Rightarrow> (- uint sz, device, index))"

definition set_fn_bar :: "'d pci_ops \<Rightarrow> nat \<Rightarrow> nat \<Rightarrow> u64 \<Rightarrow> 'd pci_root \<Rightarrow> 'd pci_root" where
  "set_fn_bar ops device index base r =
     (case slots r ! device of
        None \<Rightarrow> r
      | Some s \<Rightarrow>
          r\<lparr>slots := (slots r)[device := Some (s\<lparr>slot_fn :=
             fn_set_config ops (set_bar_address (fn_config ops (slot_fn s)) index base) (slot_fn s)\<rparr>)]\<rparr>)"

definition assign_one ::
  "'d pci_ops \<Rightarrow> u64 \<Rightarrow> u64 \<times> nat \<times> nat \<Rightarrow> 'd pci_root \<times> u64 \<times> nat \<Rightarrow> 'd pci_root \<times> u64 \<times> nat" where
  "assign_one ops e w st =
     (case (w, st) of ((sz, device, index), (r, nxt, assigned)) \<Rightarrow>
        let base = next_multiple_of nxt sz in
        if slots r ! device = None then (r, nxt, assigned)
        else if e < saturating_add base sz then (r, nxt, assigned)
        else (set_fn_bar ops device index base r, base + sz, Suc assigned))"

definition assign_bars :: "'d pci_ops \<Rightarrow> 'd pci_root \<Rightarrow> nat \<times> 'd pci_root" where
  "assign_bars ops r =
     (case fold (assign_one ops (window_base r + window_size r)) (sort_key by_size (wanted_bars ops (slots r)))
             (r, window_base r, 0) of
        (r', _, assigned) \<Rightarrow> (assigned, r'))"

section \<open>The root complex\<close>

datatype add_error = BusFull | Build bdf string | BadCapabilities pci_error

definition root_new :: "'d \<Rightarrow> 'd pci_root" where
  "root_new bridge =
     bus_insert 0 bridge None
       (bus_empty PCIE_MMIO_BASE PCIE_MMIO_SIZE (map (\<lambda>i. line_new (PCI_INTX_SPI0 + of_nat i)) [0..<PCI_INTX_LINES]))"

text \<open>
  \<open>build\<close> is the caller's builder: it gets the address and the pin and may fail. It connects the function's
  interrupt to the pin, so a level that is already requested reaches the pin when the function is inserted.
\<close>

definition root_add ::
  "'d pci_ops \<Rightarrow> (bdf \<Rightarrow> intx_pin \<Rightarrow> string + 'd) \<Rightarrow> 'd pci_root \<Rightarrow> (add_error + bdf) \<times> 'd pci_root" where
  "root_add ops build r =
     (case free_device r of
        None \<Rightarrow> (Inl BusFull, r)
      | Some device \<Rightarrow>
          let b = bdf_new (of_nat device); pin = pin_new (swizzle (of_nat device) 1) in
          (case build b pin of
             Inl reason \<Rightarrow> (Inl (Build b reason), r)
           | Inr f \<Rightarrow>
               (case capabilities (fn_config ops f) of
                  Inl err \<Rightarrow> (Inl (BadCapabilities err), r)
                | Inr _ \<Rightarrow> (Inr b, settle ops device \<lparr>slot_fn = f, slot_pin = Some pin\<rparr> r))))"

definition all_ones :: "u8 \<Rightarrow> u32" where
  "all_ones sz = (if sz = 1 then 0xff else if sz = 2 then 0xffff else 0xffffffff)"

definition ecam_decode :: "u64 \<Rightarrow> u8 \<Rightarrow> string + bdf \<times> nat" where
  "ecam_decode off sz =
     (if sz \<notin> {1, 2, 4} then Inl ''ecam access is not 1, 2, or 4 bytes''
      else if off mod ucast sz \<noteq> 0 then Inl ''ecam access is not naturally aligned''
      else Inr (\<lparr>bdf_bus = ucast (drop_bit 20 off), bdf_device = ucast (drop_bit 15 off AND 0x1f),
                 bdf_function = ucast (drop_bit 12 off AND 7)\<rparr>, unat (off AND 0xfff)))"

definition ecam_read :: "'d pci_ops \<Rightarrow> 'd pci_root \<Rightarrow> u64 \<Rightarrow> u8 \<Rightarrow> u64 \<times> 'd pci_root" where
  "ecam_read ops r off sz =
     (case ecam_decode off sz of
        Inl _ \<Rightarrow> (ucast (all_ones (min sz 4)), r)
      | Inr (b, reg) \<Rightarrow>
          (case bus_config_read ops r b reg sz of
             (None, r') \<Rightarrow> (ucast (all_ones sz), r')
           | (Some v, r') \<Rightarrow> (ucast v, r')))"

definition ecam_write :: "'d pci_ops \<Rightarrow> 'd pci_root \<Rightarrow> u64 \<Rightarrow> u8 \<Rightarrow> u64 \<Rightarrow> 'd pci_root" where
  "ecam_write ops r off sz v =
     (case ecam_decode off sz of
        Inl _ \<Rightarrow> r
      | Inr (b, reg) \<Rightarrow> snd (bus_config_write ops r b reg sz (ucast v)))"

definition window_read :: "'d pci_ops \<Rightarrow> 'd pci_root \<Rightarrow> u64 \<Rightarrow> u8 \<Rightarrow> u64 \<times> 'd pci_root" where
  "window_read ops r off sz =
     (case bus_mmio_read ops r (PCIE_MMIO_BASE + off) sz of (None, r') \<Rightarrow> (- 1, r') | (Some v, r') \<Rightarrow> (v, r'))"

definition window_write :: "'d pci_ops \<Rightarrow> 'd pci_root \<Rightarrow> u64 \<Rightarrow> u8 \<Rightarrow> u64 \<Rightarrow> 'd pci_root" where
  "window_write ops r off sz v = snd (bus_mmio_write ops r (PCIE_MMIO_BASE + off) sz v)"

section \<open>BARs that do not move\<close>

text \<open>Programming one BAR of a function leaves the addresses of the others.\<close>

lemma set_bar_address_other_bar:
  assumes "bars_inv c" "bar_at c j = Some b'" "j \<noteq> i"
  shows "bar_address (set_bar_address c i a) j = bar_address c j"
proof (cases "bar_at c i")
  case None
  then show ?thesis by (simp add: set_bar_address_def)
next
  case (Some b)
  note di = bars_invD [OF assms(1) Some] and dj = bars_invD [OF assms(1,2)]
  have apart: "bar_kind b = Mem64 \<Longrightarrow> j \<noteq> Suc i" "bar_kind b' = Mem64 \<Longrightarrow> i \<noteq> Suc j"
    using di(8,10) dj(8,10) by auto
  have far: "u32_at (set_bar_address c i a) (bar_reg n) = u32_at c (bar_reg n)"
    if "n \<noteq> i" "\<not> (bar_kind b = Mem64 \<and> n = Suc i)" for n
    using that Some by (intro set_bar_address_other) (cases "bar_kind b", auto simp: bar_reg_def)
  have b': "bar_at (set_bar_address c i a) j = Some b'" using assms(2) by (simp add: bar_at_slot)
  have "u32_at (set_bar_address c i a) (bar_reg j) = u32_at c (bar_reg j)"
    using assms(3) apart by (intro far) auto
  moreover have "u32_at (set_bar_address c i a) (bar_reg (Suc j)) = u32_at c (bar_reg (Suc j))" if "bar_kind b' = Mem64"
    using assms(3) apart that by (intro far) auto
  ultimately show ?thesis
    by (simp add: bar_address_joined [OF b'] bar_address_joined [OF assms(2)])
qed

lemma set_bar_address_exact:
  assumes "bars_inv c" "bar_at c i = Some b" "unat (bar_size b) dvd unat a" "unat a + unat (bar_size b) \<le> 2 ^ 32"
  shows "bar_address (set_bar_address c i a) i = Some a"
proof -
  note d = bars_invD [OF assms(1,2)]
  obtain k where k: "bar_size b = push_bit k 1" "4 \<le> k" "k < 64" using bar_ok_size [OF d(3)] by blast
  then have "unat (bar_size b) = 2 ^ k"
    by (simp only: unsigned_push_bit_eq) (simp add: take_bit_push_bit unsigned_1)
  then have low: "\<not> bit a n" if "n < k" for n
  proof -
    from assms(3) \<open>unat (bar_size b) = 2 ^ k\<close> have "take_bit k (unat a) = 0" by (simp add: take_bit_eq_mod)
    then have "\<not> bit (take_bit k (unat a)) n" by simp
    with that have "\<not> bit (unat a) n" by (simp add: bit_take_bit_iff)
    then show ?thesis by (auto simp: bit_unsigned_iff dest: bit_imp_le_length)
  qed
  have "unat a < 2 ^ 32" using assms(4) is_power_of_two_pos [of "bar_size b"] d(3) by (simp add: bar_ok_def)
  then have "take_bit 32 a = a" by (simp only: word_unat_eq_iff unsigned_take_bit_eq) (simp add: take_bit_eq_mod)
  then have high: "bit a n \<Longrightarrow> n < 32" for n by (metis bit_take_bit_iff)
  have masked: "a AND address_mask b = a"
    using low by (intro bit_word_eqI) (auto simp: bit_and_iff bit_address_mask [OF k(1,3)] not_less [symmetric])
  moreover have "ucast (ucast a :: u32) = a" using high by (intro bit_word_eqI) (auto simp: bit_simps)
  ultimately show ?thesis by (simp add: set_bar_address_roundtrip [OF assms(1,2)])
qed

lemma next_multiple_of_props:
  assumes "unat n + unat m < 2 ^ 64" "m \<noteq> 0"
  shows "unat n \<le> unat (next_multiple_of n m)" "unat m dvd unat (next_multiple_of n m)"
    "unat (next_multiple_of n m) < unat n + unat m"
proof -
  let ?r = "unat n mod unat m"
  have m: "0 < unat m" using assms(2) by (simp add: unat_gt_0)
  have r: "?r < unat m" using m by simp
  have eq: "unat (next_multiple_of n m) = (if ?r = 0 then unat n else unat n + (unat m - ?r))"
  proof (cases "?r = 0")
    case True
    then show ?thesis by (simp add: next_multiple_of_def word_unat_eq_iff unat_mod)
  next
    case False
    then have "n mod m \<noteq> 0" by (simp add: word_unat_eq_iff unat_mod)
    moreover have "unat (m - n mod m) = unat m - ?r" using r by (simp add: unat_sub word_le_nat_alt unat_mod)
    ultimately show ?thesis using False assms(1) r by (simp add: next_multiple_of_def unat_add_no_overflow)
  qed
  then show "unat n \<le> unat (next_multiple_of n m)" by simp
  show "unat (next_multiple_of n m) < unat n + unat m" using eq r m by (simp split: if_splits)
  show "unat m dvd unat (next_multiple_of n m)"
  proof (cases "?r = 0")
    case True
    then show ?thesis using eq by (simp add: mod_0_imp_dvd)
  next
    case False
    have "unat n + (unat m - ?r) = (unat n div unat m + 1) * unat m"
      using r div_mult_mod_eq [of "unat n" "unat m"] unfolding add_mult_distrib by linarith
    then show ?thesis unfolding eq using False by (simp only: if_False dvd_triv_right)
  qed
qed

section \<open>What the bus relies on\<close>

locale pci_function =
  fixes ops :: "'d pci_ops"
    and fn_inv :: "'d \<Rightarrow> bool"
  assumes inv_bars: "fn_inv d \<Longrightarrow> bars_inv (fn_config ops d)"
    and config_set: "fn_config ops (fn_set_config ops c d) = c"
    and set_bar_inv: "fn_inv d \<Longrightarrow> fn_inv (fn_set_config ops (set_bar_address (fn_config ops d) i a) d)"
    and read_config_inv: "fn_inv d \<Longrightarrow> fn_inv (snd (fn_read_config ops d off sz))"
    and read_config_same: "fn_inv d \<Longrightarrow> fn_config ops (snd (fn_read_config ops d off sz)) = fn_config ops d"
    and write_config_inv: "fn_inv d \<Longrightarrow> fn_inv (fn_write_config ops d off sz v)"
    and write_config_header: "fn_inv d \<Longrightarrow> off < 0x40 \<Longrightarrow>
      fn_config ops (fn_write_config ops d off sz v) = config_write (fn_config ops d) off (unat sz) v"
    and write_config_cases: "fn_inv d \<Longrightarrow>
      fn_config ops (fn_write_config ops d off sz v) \<in> {fn_config ops d, config_write (fn_config ops d) off (unat sz) v}"
    and read_bar_inv: "fn_inv d \<Longrightarrow> fn_inv (snd (fn_read_bar ops d bar boff sz))"
    and read_bar_same: "fn_inv d \<Longrightarrow> fn_config ops (snd (fn_read_bar ops d bar boff sz)) = fn_config ops d"
    and write_bar_inv: "fn_inv d \<Longrightarrow> fn_inv (fn_write_bar ops d bar boff sz w)"
    and write_bar_same: "fn_inv d \<Longrightarrow> fn_config ops (fn_write_bar ops d bar boff sz w) = fn_config ops d"

interpretation host_bridge: pci_function default_ops bars_inv
  by unfold_locales (simp_all add: default_ops_def default_read_config_def default_write_config_def default_read_bar_def
      default_write_bar_def set_bar_address_bars_inv config_write_bars_inv)

text \<open>The functions of a bus and where their BARs are.\<close>

definition cfg_at :: "'d pci_ops \<Rightarrow> 'd pci_root \<Rightarrow> nat \<Rightarrow> config_space option" where
  "cfg_at ops r d = (if d < length (slots r) then map_option (\<lambda>s. fn_config ops (slot_fn s)) (slots r ! d) else None)"

definition placed :: "'d pci_ops \<Rightarrow> 'd pci_root \<Rightarrow> nat \<Rightarrow> nat \<Rightarrow> bar \<Rightarrow> u64 \<Rightarrow> bool" where
  "placed ops r d i b a \<longleftrightarrow> (\<exists>c. cfg_at ops r d = Some c \<and> bar_at c i = Some b \<and> bar_address c i = Some a)"

definition root_inv :: "('d \<Rightarrow> bool) \<Rightarrow> 'd pci_root \<Rightarrow> bool" where
  "root_inv good r \<longleftrightarrow> length (slots r) = DEVICES \<and> (\<forall>s. Some s \<in> set (slots r) \<longrightarrow> good (slot_fn s))"

text \<open>Programmed BARs are apart and inside a range of addresses.\<close>

definition bars_apart :: "'d pci_ops \<Rightarrow> 'd pci_root \<Rightarrow> nat \<Rightarrow> nat \<Rightarrow> bool" where
  "bars_apart ops r lo hi \<longleftrightarrow>
     (\<forall>d i b a. placed ops r d i b a \<longrightarrow> a \<noteq> 0 \<longrightarrow>
        lo \<le> unat a \<and> unat a + unat (bar_size b) \<le> hi \<and> unat (bar_size b) dvd unat a)
     \<and> (\<forall>d i b a d' i' b' a'. placed ops r d i b a \<longrightarrow> placed ops r d' i' b' a' \<longrightarrow> a \<noteq> 0 \<longrightarrow> a' \<noteq> 0 \<longrightarrow> (d, i) \<noteq> (d', i') \<longrightarrow>
        unat a + unat (bar_size b) \<le> unat a' \<or> unat a' + unat (bar_size b') \<le> unat a)"

lemma bars_apart_range:
  "bars_apart ops r lo hi \<Longrightarrow> placed ops r d i b a \<Longrightarrow> a \<noteq> 0 \<Longrightarrow>
     lo \<le> unat a \<and> unat a + unat (bar_size b) \<le> hi \<and> unat (bar_size b) dvd unat a"
  unfolding bars_apart_def by blast

lemma bars_apart_disjoint:
  "bars_apart ops r lo hi \<Longrightarrow> placed ops r d i b a \<Longrightarrow> placed ops r d' i' b' a' \<Longrightarrow> a \<noteq> 0 \<Longrightarrow> a' \<noteq> 0 \<Longrightarrow>
     (d, i) \<noteq> (d', i') \<Longrightarrow> unat a + unat (bar_size b) \<le> unat a' \<or> unat a' + unat (bar_size b') \<le> unat a"
  unfolding bars_apart_def by blast

lemma placed_unique: "placed ops r d i b a \<Longrightarrow> placed ops r d i b' a' \<Longrightarrow> b = b' \<and> a = a'"
  by (auto simp: placed_def)

lemma cfg_at_update:
  "d < length (slots r) \<Longrightarrow>
     cfg_at ops (r\<lparr>slots := (slots r)[d := Some s]\<rparr>) d' = (if d' = d then Some (fn_config ops (slot_fn s)) else cfg_at ops r d')"
  by (simp add: cfg_at_def)

lemma root_inv_update:
  "root_inv good r \<Longrightarrow> good (slot_fn s) \<Longrightarrow> root_inv good (r\<lparr>slots := (slots r)[d := Some s]\<rparr>)"
  by (auto simp: root_inv_def dest!: set_update_subset_insert [THEN subsetD])

lemma cfg_at_fields: "cfg_at ops (r\<lparr>slots := ss, intx_lines := ls\<rparr>) d = cfg_at ops (r\<lparr>slots := ss\<rparr>) d"
  "root_inv good (r\<lparr>slots := ss, intx_lines := ls\<rparr>) = root_inv good (r\<lparr>slots := ss\<rparr>)"
  by (simp_all add: cfg_at_def root_inv_def)

lemma set_wanted_bars:
  "(sz, d, i) \<in> set (wanted_bars ops ss) \<longleftrightarrow>
     d < length ss \<and> i < 6 \<and> (\<exists>s b. ss ! d = Some s \<and> bar_at (fn_config ops (slot_fn s)) i = Some b \<and> sz = bar_size b)"
proof -
  have "(sz, d, i) \<in> set (case ss ! d' of None \<Rightarrow> []
       | Some s \<Rightarrow> List.map_filter (\<lambda>index. map_option (\<lambda>b. (bar_size b, d', index)) (bar_at (fn_config ops (slot_fn s)) index)) [0..<6])
     \<longleftrightarrow> d' = d \<and> i < 6 \<and> (\<exists>s b. ss ! d = Some s \<and> bar_at (fn_config ops (slot_fn s)) i = Some b \<and> sz = bar_size b)" for d'
    by (cases "ss ! d'") (auto simp: List.map_filter_def image_iff)
  then show ?thesis unfolding wanted_bars_def set_concat set_map by auto
qed

lemma distinct_map_filter_key:
  "distinct xs \<Longrightarrow> (\<And>x y. f x = Some y \<Longrightarrow> key y = x) \<Longrightarrow> distinct (map key (List.map_filter f xs))"
  by (induction xs) (force simp: List.map_filter_simps(1) List.map_filter_simps(2) List.map_filter_def split: option.splits)+

lemma distinct_wanted_bars: "distinct (map snd (wanted_bars ops ss))"
proof -
  let ?row = "\<lambda>device. case ss ! device of
         None \<Rightarrow> []
       | Some s \<Rightarrow> List.map_filter (\<lambda>index. map_option (\<lambda>b. (bar_size b, device, index)) (bar_at (fn_config ops (slot_fn s)) index))
                     [0..<6]"
  have row: "distinct (map snd (?row d))" for d
  proof (cases "ss ! d")
    case (Some s)
    have "distinct (map (\<lambda>w. snd (snd w)) (?row d))"
      unfolding Some option.case by (rule distinct_map_filter_key) auto
    then have "distinct (map snd (map snd (?row d)))" by (simp add: comp_def)
    then show ?thesis by (simp only: distinct_map)
  qed simp
  have fst: "w \<in> set (?row d) \<Longrightarrow> fst (snd w) = d" for w d
    by (auto simp: List.map_filter_def split: option.splits)
  have "distinct (map snd (concat (map ?row ds)))" if "distinct ds" for ds
    using that
  proof (induction ds)
    case (Cons d ds)
    have "snd ` set (?row d) \<inter> snd ` set (concat (map ?row ds)) = {}"
    proof (rule ccontr)
      assume "\<not> ?thesis"
      then obtain v w where v: "v \<in> set (?row d)" "w \<in> set (concat (map ?row ds))" "snd v = snd w" by blast
      then obtain d' where "d' \<in> set ds" "w \<in> set (?row d')" by (simp only: set_concat set_map) blast
      with v fst [of v d] fst [of w d'] Cons.prems show False by simp
    qed
    with Cons row [of d] show ?case by (simp only: map_append list.map concat.simps distinct_append set_map) simp
  qed simp
  then show ?thesis unfolding wanted_bars_def by simp
qed

lemma root_inv_nth: "root_inv good r \<Longrightarrow> d < length (slots r) \<Longrightarrow> slots r ! d = Some s \<Longrightarrow> good (slot_fn s)"
  by (metis nth_mem root_inv_def)

text \<open>The assignment loop: BARs not yet handled are unprogrammed, programmed ones end at or below the cursor.\<close>

definition assigning ::
  "'d pci_ops \<Rightarrow> ('d \<Rightarrow> bool) \<Rightarrow> nat \<Rightarrow> nat \<Rightarrow> (nat \<times> nat) set \<Rightarrow> 'd pci_root \<times> u64 \<times> nat \<Rightarrow> bool" where
  "assigning ops good lo hi handled st \<longleftrightarrow>
     (case st of (r, nxt, n) \<Rightarrow>
        root_inv good r \<and> bars_apart ops r lo (unat nxt) \<and> lo \<le> unat nxt \<and> unat nxt \<le> hi
        \<and> (\<forall>d i b a. placed ops r d i b a \<longrightarrow> (d, i) \<notin> handled \<longrightarrow> a = 0))"

context pci_function
begin

lemma root_inv_bars: "root_inv fn_inv r \<Longrightarrow> cfg_at ops r d = Some c \<Longrightarrow> bars_inv c"
  by (auto simp: cfg_at_def intro!: inv_bars root_inv_nth split: if_splits)

lemma set_fn_bar_at:
  assumes "root_inv fn_inv r" "cfg_at ops r d = Some c"
  shows "cfg_at ops (set_fn_bar ops d i a r) d' = (if d' = d then Some (set_bar_address c i a) else cfg_at ops r d')"
    and "root_inv fn_inv (set_fn_bar ops d i a r)"
    and "slots (set_fn_bar ops d i a r) ! d' = None \<longleftrightarrow> slots r ! d' = None"
proof -
  from assms(2) obtain s where s: "d < length (slots r)" "slots r ! d = Some s" "c = fn_config ops (slot_fn s)"
    by (auto simp: cfg_at_def split: if_splits)
  then have "fn_inv (slot_fn s)" using assms(1) by (metis nth_mem root_inv_def)
  with s assms show "cfg_at ops (set_fn_bar ops d i a r) d' = (if d' = d then Some (set_bar_address c i a) else cfg_at ops r d')"
    "root_inv fn_inv (set_fn_bar ops d i a r)"
    by (simp_all add: set_fn_bar_def cfg_at_update config_set root_inv_update set_bar_inv)
  show "slots (set_fn_bar ops d i a r) ! d' = None \<longleftrightarrow> slots r ! d' = None"
    using s by (cases "d' = d") (auto simp: set_fn_bar_def)
qed

lemma placed_set_fn_bar:
  assumes "root_inv fn_inv r" "placed ops r d i b a0" "unat (bar_size b) dvd unat a" "unat a + unat (bar_size b) \<le> 2 ^ 32"
  shows "placed ops (set_fn_bar ops d i a r) d' i' b' a' \<longleftrightarrow>
    (if (d', i') = (d, i) then b' = b \<and> a' = a else placed ops r d' i' b' a')"
proof -
  from assms(2) obtain c where c: "cfg_at ops r d = Some c" "bar_at c i = Some b" by (auto simp: placed_def)
  note inv = root_inv_bars [OF assms(1) c(1)]
  have tables: "bar_at (set_bar_address c i a) n = bar_at c n" for n by (simp add: bar_at_def)
  show ?thesis
  proof (cases "d' = d")
    case False
    then show ?thesis by (simp add: placed_def set_fn_bar_at(1) [OF assms(1) c(1)])
  next
    case d: True
    show ?thesis
    proof (cases "i' = i")
      case True
      then show ?thesis
        using d c set_bar_address_exact [OF inv c(2) assms(3,4)]
        by (auto simp: placed_def set_fn_bar_at(1) [OF assms(1) c(1)] tables)
    next
      case False
      then have "bar_at c i' = Some b' \<Longrightarrow> bar_address (set_bar_address c i a) i' = bar_address c i'"
        using set_bar_address_other_bar [OF inv] by blast
      then show ?thesis
        using d False c(1) by (auto simp: placed_def set_fn_bar_at(1) [OF assms(1) c(1)] tables)
    qed
  qed
qed

lemma assign_one_step:
  assumes "assigning ops fn_inv lo hi handled (r, nxt, n)" "hi \<le> 2 ^ 32" "unat e = hi" "0 < lo"
    and "placed ops r d i b a0" "(d, i) \<notin> handled"
  shows "assigning ops fn_inv lo hi (insert (d, i) handled) (assign_one ops e (bar_size b, d, i) (r, nxt, n))"
    and "placed ops (fst (assign_one ops e (bar_size b, d, i) (r, nxt, n))) d' i' b' a' \<Longrightarrow>
      (d', i') \<noteq> (d, i) \<Longrightarrow> placed ops r d' i' b' a'"
    and "(d', i') \<noteq> (d, i) \<Longrightarrow> placed ops r d' i' b' a' \<Longrightarrow>
      placed ops (fst (assign_one ops e (bar_size b, d, i) (r, nxt, n))) d' i' b' a'"
proof -
  let ?base = "next_multiple_of nxt (bar_size b)"
  from assms(1) have r: "root_inv fn_inv r" "bars_apart ops r lo (unat nxt)" "lo \<le> unat nxt" "unat nxt \<le> hi"
    and fresh: "\<And>d i b a. placed ops r d i b a \<Longrightarrow> (d, i) \<notin> handled \<Longrightarrow> a = 0"
    by (auto simp: assigning_def)
  from assms(5) obtain c where c: "cfg_at ops r d = Some c" "bar_at c i = Some b" by (auto simp: placed_def)
  then have slot: "slots r ! d \<noteq> None" by (auto simp: cfg_at_def split: if_splits)
  have ok: "bar_ok b" using bars_invD(3) [OF root_inv_bars [OF r(1) c(1)] c(2)] .
  have sz: "bar_size b \<noteq> 0" "unat (bar_size b) \<le> 2 ^ 63"
    using ok is_power_of_two_pos [of "bar_size b"]
    by (auto simp: bar_ok_def word_less_nat_alt not_less split: if_splits)
  have nm: "unat nxt \<le> unat ?base" "unat (bar_size b) dvd unat ?base"
    using next_multiple_of_props [of nxt "bar_size b"] sz r(4) assms(2) by simp_all
  show "assigning ops fn_inv lo hi (insert (d, i) handled) (assign_one ops e (bar_size b, d, i) (r, nxt, n))"
    "placed ops (fst (assign_one ops e (bar_size b, d, i) (r, nxt, n))) d' i' b' a' \<Longrightarrow>
      (d', i') \<noteq> (d, i) \<Longrightarrow> placed ops r d' i' b' a'"
    "(d', i') \<noteq> (d, i) \<Longrightarrow> placed ops r d' i' b' a' \<Longrightarrow>
      placed ops (fst (assign_one ops e (bar_size b, d, i) (r, nxt, n))) d' i' b' a'"
  proof (atomize (full), cases "e < saturating_add ?base (bar_size b)")
    case True
    then have "assign_one ops e (bar_size b, d, i) (r, nxt, n) = (r, nxt, n)" by (simp add: assign_one_def Let_def)
    with assms(1) show "assigning ops fn_inv lo hi (insert (d, i) handled) (assign_one ops e (bar_size b, d, i) (r, nxt, n)) \<and>
      (placed ops (fst (assign_one ops e (bar_size b, d, i) (r, nxt, n))) d' i' b' a' \<longrightarrow>
        (d', i') \<noteq> (d, i) \<longrightarrow> placed ops r d' i' b' a') \<and>
      ((d', i') \<noteq> (d, i) \<longrightarrow> placed ops r d' i' b' a' \<longrightarrow>
        placed ops (fst (assign_one ops e (bar_size b, d, i) (r, nxt, n))) d' i' b' a')"
      by (simp add: assigning_def)
  next
    case False
    then have "unat (saturating_add ?base (bar_size b)) \<le> hi"
      using assms(3) by (simp only: word_less_nat_alt not_less)
    then have fits: "unat ?base + unat (bar_size b) \<le> hi"
      using assms(2) by (auto simp: unat_saturating_add min_le_iff_disj)
    then have next': "unat (?base + bar_size b) = unat ?base + unat (bar_size b)"
      using assms(2) by (intro unat_add_no_overflow) simp
    let ?r = "set_fn_bar ops d i ?base r"
    have res: "assign_one ops e (bar_size b, d, i) (r, nxt, n) = (?r, ?base + bar_size b, Suc n)"
      using False slot by (simp add: assign_one_def Let_def)
    have "unat ?base + unat (bar_size b) \<le> 2 ^ 32" using fits assms(2) by linarith
    note pl = placed_set_fn_bar [OF r(1) assms(5) nm(2) this]
    have "bars_apart ops ?r lo (unat (?base + bar_size b))"
      unfolding bars_apart_def pl next'
    proof (intro conjI allI impI)
      fix d' i' b' a'
      assume p: "if (d', i') = (d, i) then b' = b \<and> a' = ?base else placed ops r d' i' b' a'" and "a' \<noteq> 0"
      show "lo \<le> unat a'" "unat a' + unat (bar_size b') \<le> unat ?base + unat (bar_size b)" "unat (bar_size b') dvd unat a'"
        using p r(3) nm bars_apart_range [OF r(2), of d' i' b' a'] \<open>a' \<noteq> 0\<close> by (auto split: if_splits)
    next
      fix d1 i1 b1 a1 d2 i2 b2 a2
      assume p: "if (d1, i1) = (d, i) then b1 = b \<and> a1 = ?base else placed ops r d1 i1 b1 a1"
        "if (d2, i2) = (d, i) then b2 = b \<and> a2 = ?base else placed ops r d2 i2 b2 a2"
        and ne: "a1 \<noteq> 0" "a2 \<noteq> 0" "(d1, i1) \<noteq> (d2, i2)"
      have below: "unat a' + unat (bar_size b') \<le> unat ?base" if "placed ops r d' i' b' a'" "a' \<noteq> 0" for d' i' b' a'
        using bars_apart_range [OF r(2) that] nm(1) by linarith
      show "unat a1 + unat (bar_size b1) \<le> unat a2 \<or> unat a2 + unat (bar_size b2) \<le> unat a1"
      proof (cases "(d1, i1) = (d, i)")
        case True
        with p ne below [of d2 i2 b2 a2] show ?thesis by auto
      next
        case n1: False
        show ?thesis
        proof (cases "(d2, i2) = (d, i)")
          case True
          with p n1 ne below [of d1 i1 b1 a1] show ?thesis by auto
        next
          case False
          with p n1 have "placed ops r d1 i1 b1 a1" "placed ops r d2 i2 b2 a2" by auto
          from bars_apart_disjoint [OF r(2) this ne] show ?thesis .
        qed
      qed
    qed
    moreover have "root_inv fn_inv ?r" using set_fn_bar_at(2) [OF r(1) c(1)] .
    moreover have "\<forall>d' i' b' a'. placed ops ?r d' i' b' a' \<longrightarrow> (d', i') \<notin> insert (d, i) handled \<longrightarrow> a' = 0"
      unfolding pl using fresh by auto
    ultimately show "assigning ops fn_inv lo hi (insert (d, i) handled) (assign_one ops e (bar_size b, d, i) (r, nxt, n)) \<and>
      (placed ops (fst (assign_one ops e (bar_size b, d, i) (r, nxt, n))) d' i' b' a' \<longrightarrow>
        (d', i') \<noteq> (d, i) \<longrightarrow> placed ops r d' i' b' a') \<and>
      ((d', i') \<noteq> (d, i) \<longrightarrow> placed ops r d' i' b' a' \<longrightarrow>
        placed ops (fst (assign_one ops e (bar_size b, d, i) (r, nxt, n))) d' i' b' a')"
      using fits nm(1) r(3) unfolding res by (auto simp: assigning_def next' pl)
  qed
qed

lemma assign_fold:
  assumes "assigning ops fn_inv lo hi handled st" "hi \<le> 2 ^ 32" "unat e = hi" "0 < lo"
    and "distinct (map snd ws)" "snd ` set ws \<inter> handled = {}"
    and "\<forall>(sz, d, i) \<in> set ws. \<exists>b a. placed ops (fst st) d i b a \<and> sz = bar_size b"
  shows "assigning ops fn_inv lo hi (handled \<union> snd ` set ws) (fold (assign_one ops e) ws st)"
  using assms(1,5-)
proof (induction ws arbitrary: st handled)
  case Nil
  then show ?case by simp
next
  case (Cons w ws)
  obtain r nxt n where st: "st = (r, nxt, n)" by (cases st)
  obtain sz d i where w: "w = (sz, d, i)" by (cases w)
  from Cons.prems(4) obtain b a where p: "placed ops r d i b a" "sz = bar_size b" by (auto simp: st w)
  have fresh: "(d, i) \<notin> handled" using Cons.prems(3) w by auto
  note step = assign_one_step [OF Cons.prems(1) [unfolded st] assms(2-4) p(1) fresh]
  let ?st = "assign_one ops e w st"
  have "assigning ops fn_inv lo hi (insert (d, i) handled \<union> snd ` set ws) (fold (assign_one ops e) ws ?st)"
  proof (rule Cons.IH)
    show "assigning ops fn_inv lo hi (insert (d, i) handled) ?st" using step(1) by (simp add: st w p(2))
    show "distinct (map snd ws)" "snd ` set ws \<inter> insert (d, i) handled = {}"
      using Cons.prems(2,3) w by auto
    show "\<forall>(sz, d, i) \<in> set ws. \<exists>b a. placed ops (fst ?st) d i b a \<and> sz = bar_size b"
    proof (intro ballI, clarify)
      fix sz' d' i'
      assume m: "(sz', d', i') \<in> set ws"
      then have "(d', i') \<noteq> (d, i)" using Cons.prems(2) w by force
      moreover obtain b' a' where "placed ops r d' i' b' a'" "sz' = bar_size b'"
        using Cons.prems(4) m by (fastforce simp: st)
      ultimately show "\<exists>b a. placed ops (fst ?st) d' i' b a \<and> sz' = bar_size b"
        using step(3) [of d' i' b' a'] unfolding st w p(2) by blast
    qed
  qed
  then show ?case by (simp add: w)
qed

lemma assign_bars_apart:
  assumes "root_inv fn_inv r" "\<And>d i b a. placed ops r d i b a \<Longrightarrow> a = 0"
    and "0 < window_base r" "unat (window_base r) + unat (window_size r) \<le> 2 ^ 32"
  shows "root_inv fn_inv (snd (assign_bars ops r))"
    and "bars_apart ops (snd (assign_bars ops r)) (unat (window_base r)) (unat (window_base r) + unat (window_size r))"
proof -
  let ?lo = "unat (window_base r)" and ?hi = "unat (window_base r) + unat (window_size r)"
  let ?ws = "sort_key by_size (wanted_bars ops (slots r))"
  let ?e = "window_base r + window_size r"
  have e: "unat ?e = ?hi" using assms(4) by (intro unat_add_no_overflow) simp
  have start: "assigning ops fn_inv ?lo ?hi {} (r, window_base r, 0)"
    using assms(1,2) by (auto simp: assigning_def bars_apart_def)
  have "distinct (map snd ?ws)"
    using distinct_wanted_bars [of ops "slots r"] by (simp add: distinct_map)
  moreover have "\<forall>(sz, d, i) \<in> set ?ws. \<exists>b a. placed ops (fst (r, window_base r, 0)) d i b a \<and> sz = bar_size b"
    by (auto simp: set_wanted_bars placed_def cfg_at_def) (metis bar_address_joined)
  moreover have "0 < ?lo" using assms(3) by (simp add: word_less_nat_alt)
  ultimately have "assigning ops fn_inv ?lo ?hi ({} \<union> snd ` set ?ws) (fold (assign_one ops ?e) ?ws (r, window_base r, 0))"
    using start e assms(4) by (intro assign_fold) auto
  then obtain r' nxt n where "fold (assign_one ops ?e) ?ws (r, window_base r, 0) = (r', nxt, n)"
    "root_inv fn_inv r'" "bars_apart ops r' ?lo (unat nxt)" "unat nxt \<le> ?hi"
    by (auto simp: assigning_def split: prod.splits)
  then show "root_inv fn_inv (snd (assign_bars ops r))" "bars_apart ops (snd (assign_bars ops r)) ?lo ?hi"
    by (auto simp: assign_bars_def bars_apart_def) (meson order_trans)
qed

end

section \<open>Routing\<close>

lemma route_from_Some:
  "route_from ops ss k gpa e = Some x \<Longrightarrow>
     \<exists>j s bar base len. j < length ss \<and> ss ! j = Some s \<and> (bar, base, len) \<in> set (decoded_bars (fn_config ops (slot_fn s)))
       \<and> in_bar gpa e (bar, base, len) \<and> x = (k + j, bar, gpa - base)"
proof (induction ops ss k gpa e rule: route_from.induct)
  case (2 ops ss device gpa e)
  then obtain j s bar base len where "j < length ss" "ss ! j = Some s"
    "(bar, base, len) \<in> set (decoded_bars (fn_config ops (slot_fn s)))" "in_bar gpa e (bar, base, len)"
    "x = (Suc device + j, bar, gpa - base)" by auto
  then show ?case by (intro exI [of _ "Suc j"]) auto
next
  case (3 ops s ss device gpa e)
  show ?case
  proof (cases "find (in_bar gpa e) (decoded_bars (fn_config ops (slot_fn s)))")
    case None
    with 3 obtain j s' bar base len where "j < length ss" "ss ! j = Some s'"
      "(bar, base, len) \<in> set (decoded_bars (fn_config ops (slot_fn s')))" "in_bar gpa e (bar, base, len)"
      "x = (Suc device + j, bar, gpa - base)" by auto
    then show ?thesis by (intro exI [of _ "Suc j"]) auto
  next
    case (Some w)
    obtain bar base len where w: "w = (bar, base, len)" by (cases w)
    from Some w have "in_bar gpa e (bar, base, len)" "(bar, base, len) \<in> set (decoded_bars (fn_config ops (slot_fn s)))"
      by (auto simp: find_Some_iff dest: nth_mem)
    with 3(2) Some w show ?thesis by (intro exI [of _ 0]) auto
  qed
qed simp

lemma route_from_None:
  "route_from ops ss k gpa e = None \<Longrightarrow> j < length ss \<Longrightarrow> ss ! j = Some s \<Longrightarrow>
     w \<in> set (decoded_bars (fn_config ops (slot_fn s))) \<Longrightarrow> \<not> in_bar gpa e w"
proof (induction ops ss k gpa e arbitrary: j rule: route_from.induct)
  case (2 ops ss device gpa e)
  then show ?case by (cases j) auto
next
  case (3 ops s' ss device gpa e)
  from 3(2) have none: "find (in_bar gpa e) (decoded_bars (fn_config ops (slot_fn s'))) = None"
    by (auto split: option.splits)
  show ?case
  proof (cases j)
    case 0
    with none 3(4,5) show ?thesis unfolding find_None_iff by (cases w) auto
  next
    case (Suc i)
    with 3(1) [OF none] 3(2-5) none show ?thesis by simp
  qed
qed simp

lemma unat_ucast_size: "unat (ucast (sz :: u8) :: u64) = unat sz"
proof -
  have "unat sz < 2 ^ LENGTH(8)" by (rule unsigned_less)
  then show ?thesis by (simp add: unsigned_ucast_eq take_bit_nat_eq_self)
qed

lemma in_bar_range:
  "in_bar gpa e (bar, base, len) \<longleftrightarrow>
     unat base \<le> unat gpa \<and> unat e \<le> min (unat base + unat len) (2 ^ 64 - 1)"
  by (simp add: in_bar_def word_le_nat_alt unat_saturating_add)

context pci_function
begin

text \<open>An access is routed exactly to the programmed BAR that holds it, when BARs are apart.\<close>

lemma route_exact:
  assumes "root_inv fn_inv r" "bars_apart ops r lo hi" "hi \<le> 2 ^ 32"
    and "cfg_at ops r d = Some c" "memory_enabled c" "bar_at c i = Some b" "bar_address c i = Some a" "a \<noteq> 0"
    and "unat a \<le> unat gpa" "unat gpa + unat sz \<le> unat a + unat (bar_size b)" "0 < unat sz"
  shows "route ops r gpa sz = Some (d, i, gpa - a)"
proof -
  have pl: "placed ops r d i b a" using assms(4,6,7) by (auto simp: placed_def)
  note range = bars_apart_range [OF assms(2) pl assms(8)]
  note u = unat_ucast_size [of sz]
  have sum: "unat gpa + unat (ucast sz :: u64) < 2 ^ 64" using assms(10) range assms(3) unfolding u by simp
  then obtain e where e: "checked_add gpa (ucast sz) = Some e" "unat e = unat gpa + unat sz"
    using u by (cases "checked_add gpa (ucast sz :: u64)") (auto simp: checked_add_None checked_add_Some)
  obtain s where s: "d < length (slots r)" "slots r ! d = Some s" "c = fn_config ops (slot_fn s)"
    using assms(4) by (auto simp: cfg_at_def split: if_splits)
  have i: "i < 6" using bars_invD(9) [OF root_inv_bars [OF assms(1,4)] assms(6)] by (simp add: BARS_def)
  have dec: "(i, a, bar_size b) \<in> set (decoded_bars c)"
    using assms(5,6,7,8) i by (simp add: set_decoded_bars)
  have hit: "in_bar gpa e (i, a, bar_size b)"
    using assms(9,10) e(2) range assms(3) by (simp add: in_bar_range)
  obtain x where x: "route_from ops (slots r) 0 gpa e = Some x"
    using route_from_None [of ops "slots r" 0 gpa e d s] s dec hit by (cases "route_from ops (slots r) 0 gpa e") auto
  from route_from_Some [OF this] obtain j s' bar base len where j: "j < length (slots r)" "slots r ! j = Some s'"
    "(bar, base, len) \<in> set (decoded_bars (fn_config ops (slot_fn s')))" "in_bar gpa e (bar, base, len)"
    "x = (j, bar, gpa - base)" by auto
  from j(3) obtain b' where b': "base \<noteq> 0" "bar_at (fn_config ops (slot_fn s')) bar = Some b'"
    "bar_address (fn_config ops (slot_fn s')) bar = Some base" "len = bar_size b'" by (auto simp: set_decoded_bars)
  then have pl': "placed ops r j bar b' base" using j(1,2) by (auto simp: placed_def cfg_at_def)
  have "(d, i) = (j, bar)"
  proof (rule ccontr)
    assume "(d, i) \<noteq> (j, bar)"
    then have "unat a + unat (bar_size b) \<le> unat base \<or> unat base + unat (bar_size b') \<le> unat a"
      using bars_apart_disjoint [OF assms(2) pl pl' assms(8) b'(1)] by blast
    moreover have "unat base \<le> unat gpa" "unat gpa + unat sz \<le> unat base + unat (bar_size b')"
      using j(4) e(2) b'(4) by (auto simp: in_bar_range)
    ultimately show False using assms(9,10,11) by linarith
  qed
  with placed_unique [OF pl, of b' base] pl' have "j = d" "bar = i" "base = a" by auto
  with x j(5) e(1) show ?thesis by (simp add: route_def)
qed

lemma route_sound:
  assumes "route ops r gpa sz = Some (d, i, off)"
  shows "\<exists>c b a. cfg_at ops r d = Some c \<and> memory_enabled c \<and> bar_at c i = Some b \<and> bar_address c i = Some a \<and> a \<noteq> 0
    \<and> unat a \<le> unat gpa \<and> unat gpa + unat sz \<le> unat a + unat (bar_size b) \<and> off = gpa - a"
proof -
  note u = unat_ucast_size [of sz]
  from assms obtain e where e: "checked_add gpa (ucast sz) = Some e" "route_from ops (slots r) 0 gpa e = Some (d, i, off)"
    by (auto simp: route_def split: option.splits)
  from route_from_Some [OF e(2)] obtain s base len where s: "d < length (slots r)" "slots r ! d = Some s"
    "(i, base, len) \<in> set (decoded_bars (fn_config ops (slot_fn s)))" "in_bar gpa e (i, base, len)" "off = gpa - base" by auto
  moreover have "unat e = unat gpa + unat sz" using e(1) u by (simp add: checked_add_Some)
  ultimately show ?thesis
    by (auto simp: set_decoded_bars in_bar_range cfg_at_def)
qed

section \<open>The invariant through every access\<close>

lemma settle_at:
  assumes "d < length (slots r)"
  shows "cfg_at ops (settle ops d s r) d' = (if d' = d then Some (fn_config ops (slot_fn s)) else cfg_at ops r d')"
    and "root_inv fn_inv r \<Longrightarrow> fn_inv (slot_fn s) \<Longrightarrow> root_inv fn_inv (settle ops d s r)"
    and "length (slots (settle ops d s r)) = length (slots r)"
  using assms
  by (auto simp: settle_def cfg_at_fields cfg_at_update root_inv_update split: option.split prod.split)

lemma cfg_at_slot: "d < length (slots r) \<Longrightarrow> slots r ! d = Some s \<Longrightarrow> cfg_at ops r d = Some (fn_config ops (slot_fn s))"
  by (simp add: cfg_at_def)

lemma store_keeps:
  assumes "root_inv fn_inv r" "d < length (slots r)" "fn_inv f"
  shows "root_inv fn_inv (settle ops d (s\<lparr>slot_fn := f\<rparr>) r)"
    and "cfg_at ops (settle ops d (s\<lparr>slot_fn := f\<rparr>) r) d' = (if d' = d then Some (fn_config ops f) else cfg_at ops r d')"
  using assms by (simp_all add: settle_at)

lemma mirror_disable_at:
  assumes "d < length (slots r)"
  shows "cfg_at ops (mirror_disable ops d r) d' = cfg_at ops r d'"
    and "root_inv fn_inv r \<Longrightarrow> root_inv fn_inv (mirror_disable ops d r)"
proof -
  have same: "cfg_at ops (r\<lparr>slots := (slots r)[d := Some (s\<lparr>slot_pin := p\<rparr>)]\<rparr>) d' = cfg_at ops r d'"
    "root_inv fn_inv r \<Longrightarrow> root_inv fn_inv (r\<lparr>slots := (slots r)[d := Some (s\<lparr>slot_pin := p\<rparr>)]\<rparr>)"
    if "slots r ! d = Some s" for s p
    using that assms by (auto simp: cfg_at_update cfg_at_slot intro!: root_inv_update dest: root_inv_nth)
  show "cfg_at ops (mirror_disable ops d r) d' = cfg_at ops r d'"
    using same(1) by (simp add: mirror_disable_def cfg_at_fields split: option.split prod.split)
  show "root_inv fn_inv r \<Longrightarrow> root_inv fn_inv (mirror_disable ops d r)"
    using same(2) by (simp add: mirror_disable_def cfg_at_fields split: option.split prod.split)
qed

lemma bus_slot_at:
  "bus_slot r b = Some s \<Longrightarrow> unat (bdf_device b) < length (slots r) \<and> slots r ! unat (bdf_device b) = Some s"
  by (auto simp: bus_slot_def split: if_splits)

text \<open>Reads and BAR accesses change no config space; a config write changes the one it addresses.\<close>

lemma bus_config_read_keeps:
  assumes "root_inv fn_inv r"
  shows "root_inv fn_inv (snd (bus_config_read ops r b reg sz)) \<and> cfg_at ops (snd (bus_config_read ops r b reg sz)) d = cfg_at ops r d"
proof (cases "bus_slot r b")
  case None
  with assms show ?thesis by (simp add: bus_config_read_def)
next
  case (Some s)
  note at = bus_slot_at [OF Some]
  then have inv: "fn_inv (slot_fn s)" using root_inv_nth [OF assms] by blast
  let ?f = "snd (fn_read_config ops (slot_fn s) reg sz)"
  have "snd (bus_config_read ops r b reg sz) = settle ops (unat (bdf_device b)) (s\<lparr>slot_fn := ?f\<rparr>) r"
    by (simp add: bus_config_read_def Some Let_def split: prod.split)
  with at store_keeps [OF assms _ read_config_inv [OF inv]] show ?thesis
    by (simp add: cfg_at_slot read_config_same [OF inv])
qed

lemma bus_config_write_keeps:
  assumes "root_inv fn_inv r"
  shows "root_inv fn_inv (snd (bus_config_write ops r b reg sz v))"
    and "cfg_at ops (snd (bus_config_write ops r b reg sz v)) d =
      (case bus_slot r b of
         Some s \<Rightarrow> if d = unat (bdf_device b) then Some (fn_config ops (fn_write_config ops (slot_fn s) reg sz v)) else cfg_at ops r d
       | None \<Rightarrow> cfg_at ops r d)"
proof (atomize (full), cases "bus_slot r b")
  case None
  with assms show "root_inv fn_inv (snd (bus_config_write ops r b reg sz v)) \<and>
    cfg_at ops (snd (bus_config_write ops r b reg sz v)) d =
      (case bus_slot r b of
         Some s \<Rightarrow> if d = unat (bdf_device b) then Some (fn_config ops (fn_write_config ops (slot_fn s) reg sz v)) else cfg_at ops r d
       | None \<Rightarrow> cfg_at ops r d)" by (simp add: bus_config_write_def)
next
  case (Some s)
  note at = bus_slot_at [OF Some]
  then have inv: "fn_inv (slot_fn s)" using root_inv_nth [OF assms] by blast
  let ?d = "unat (bdf_device b)" and ?s = "s\<lparr>slot_fn := fn_write_config ops (slot_fn s) reg sz v\<rparr>"
  have "?d < length (slots (settle ops ?d ?s r))" using at by (simp add: settle_at(3))
  note m = mirror_disable_at [OF this]
  from at store_keeps [OF assms _ write_config_inv [OF inv, of reg sz v], of ?d s]
  show "root_inv fn_inv (snd (bus_config_write ops r b reg sz v)) \<and>
    cfg_at ops (snd (bus_config_write ops r b reg sz v)) d =
      (case bus_slot r b of
         Some s \<Rightarrow> if d = unat (bdf_device b) then Some (fn_config ops (fn_write_config ops (slot_fn s) reg sz v)) else cfg_at ops r d
       | None \<Rightarrow> cfg_at ops r d)"
    by (simp add: bus_config_write_def Some Let_def m)
qed

lemma bus_mmio_read_keeps:
  assumes "root_inv fn_inv r"
  shows "root_inv fn_inv (snd (bus_mmio_read ops r gpa sz)) \<and> cfg_at ops (snd (bus_mmio_read ops r gpa sz)) d = cfg_at ops r d"
proof (cases "route ops r gpa sz")
  case None
  with assms show ?thesis by (simp add: bus_mmio_read_def)
next
  case (Some x)
  obtain d' bar off where x: "x = (d', bar, off)" by (cases x)
  from route_sound [OF Some [unfolded x]] obtain s where s: "d' < length (slots r)" "slots r ! d' = Some s"
    by (auto simp: cfg_at_def split: if_splits)
  then have inv: "fn_inv (slot_fn s)" using root_inv_nth [OF assms] by blast
  have "snd (bus_mmio_read ops r gpa sz) = settle ops d' (s\<lparr>slot_fn := snd (fn_read_bar ops (slot_fn s) bar off sz)\<rparr>) r"
    by (simp add: bus_mmio_read_def Some x s(2) split: prod.split)
  with s store_keeps [OF assms s(1) read_bar_inv [OF inv]] show ?thesis
    by (simp add: cfg_at_slot read_bar_same [OF inv])
qed

lemma bus_mmio_write_keeps:
  assumes "root_inv fn_inv r"
  shows "root_inv fn_inv (snd (bus_mmio_write ops r gpa sz v)) \<and> cfg_at ops (snd (bus_mmio_write ops r gpa sz v)) d = cfg_at ops r d"
proof (cases "route ops r gpa sz")
  case None
  with assms show ?thesis by (simp add: bus_mmio_write_def)
next
  case (Some x)
  obtain d' bar off where x: "x = (d', bar, off)" by (cases x)
  from route_sound [OF Some [unfolded x]] obtain s where s: "d' < length (slots r)" "slots r ! d' = Some s"
    by (auto simp: cfg_at_def split: if_splits)
  then have inv: "fn_inv (slot_fn s)" using root_inv_nth [OF assms] by blast
  have "snd (bus_mmio_write ops r gpa sz v) = settle ops d' (s\<lparr>slot_fn := fn_write_bar ops (slot_fn s) bar off sz v\<rparr>) r"
    by (simp add: bus_mmio_write_def Some x s(2))
  with s store_keeps [OF assms s(1) write_bar_inv [OF inv]] show ?thesis
    by (simp add: cfg_at_slot write_bar_same [OF inv])
qed

end

text \<open>The guest's accesses: config space through the ECAM window, BARs through the memory window.\<close>

datatype pci_access = EcamRead u64 u8 | EcamWrite u64 u8 u64 | WindowRead u64 u8 | WindowWrite u64 u8 u64

fun pci_step :: "'d pci_ops \<Rightarrow> 'd pci_root \<Rightarrow> pci_access \<Rightarrow> 'd pci_root" where
  "pci_step ops r (EcamRead off sz) = snd (ecam_read ops r off sz)"
| "pci_step ops r (EcamWrite off sz v) = ecam_write ops r off sz v"
| "pci_step ops r (WindowRead off sz) = snd (window_read ops r off sz)"
| "pci_step ops r (WindowWrite off sz v) = window_write ops r off sz v"

context pci_function
begin

lemma ecam_read_keeps:
  assumes "root_inv fn_inv r"
  shows "root_inv fn_inv (snd (ecam_read ops r off sz)) \<and> cfg_at ops (snd (ecam_read ops r off sz)) d = cfg_at ops r d"
proof (cases "ecam_decode off sz")
  case (Inl reason)
  with assms show ?thesis by (simp add: ecam_read_def)
next
  case (Inr x)
  obtain b reg where x: "x = (b, reg)" by (cases x)
  have "snd (ecam_read ops r off sz) = snd (bus_config_read ops r b reg sz)"
    by (simp add: ecam_read_def Inr x split: prod.split option.split)
  with bus_config_read_keeps [OF assms] show ?thesis by simp
qed

lemma window_read_keeps:
  assumes "root_inv fn_inv r"
  shows "root_inv fn_inv (snd (window_read ops r off sz)) \<and> cfg_at ops (snd (window_read ops r off sz)) d = cfg_at ops r d"
proof -
  have "snd (window_read ops r off sz) = snd (bus_mmio_read ops r (PCIE_MMIO_BASE + off) sz)"
    by (simp add: window_read_def split: prod.split option.split)
  with bus_mmio_read_keeps [OF assms] show ?thesis by simp
qed

lemma pci_step_inv: "root_inv fn_inv r \<Longrightarrow> root_inv fn_inv (pci_step ops r a)"
  by (cases a) (auto simp: ecam_read_keeps window_read_keeps window_write_def bus_mmio_write_keeps ecam_write_def
      bus_config_write_keeps split: sum.splits)

end

text \<open>Accesses that do not program a BAR register leave every BAR where it is.\<close>

fun bar_safe :: "pci_access \<Rightarrow> bool" where
  "bar_safe (EcamWrite off sz v) \<longleftrightarrow> unat (off AND 0xfff) + unat sz \<le> 0x10 \<or> 0x28 \<le> unat (off AND 0xfff)"
| "bar_safe _ \<longleftrightarrow> True"

lemma config_write_bars_same:
  assumes "bars_inv c" "off + sz \<le> 0x10 \<or> 0x28 \<le> off"
  shows "bar_at (config_write c off sz v) i = bar_at c i" "bar_address (config_write c off sz v) i = bar_address c i"
proof -
  show t: "bar_at (config_write c off sz v) i = bar_at c i" by (simp add: bar_at_def)
  show "bar_address (config_write c off sz v) i = bar_address c i"
  proof (cases "bar_at c i")
    case None
    with t show ?thesis by (simp add: bar_address_def)
  next
    case (Some b)
    note d = bars_invD [OF assms(1) Some]
    have regs: "u32_at (config_write c off sz v) (bar_reg n) = u32_at c (bar_reg n)" if "n < BARS" for n
      using that assms(2) d(1) by (intro u32_at_cong) (auto simp: cfg_byte_config_write bar_reg_def config_defs)
    have "bar_kind b = Mem64 \<Longrightarrow> Suc i < BARS" using d(2) by (simp add: bar_regs_def)
    then show ?thesis
      using regs [OF d(9)] regs [of "Suc i"] by (simp add: bar_address_joined t Some)
  qed
qed

context pci_function
begin

lemma placed_pci_step:
  assumes "root_inv fn_inv r" "bar_safe a"
  shows "placed ops (pci_step ops r a) d i b x \<longleftrightarrow> placed ops r d i b x"
proof (cases a)
  case (EcamWrite off sz v)
  show ?thesis
  proof (cases "ecam_decode off sz")
    case (Inl reason)
    then show ?thesis by (simp add: EcamWrite ecam_write_def)
  next
    case (Inr y)
    obtain bd where y: "y = (bd, unat (off AND 0xfff))" using Inr by (auto simp: ecam_decode_def split: if_splits)
    let ?reg = "unat (off AND 0xfff)"
    have step: "pci_step ops r a = snd (bus_config_write ops r bd ?reg sz (ucast v))"
      by (simp add: EcamWrite ecam_write_def Inr y)
    show ?thesis
    proof (cases "bus_slot r bd")
      case None
      then show ?thesis by (simp add: step bus_config_write_def)
    next
      case (Some s)
      note at = bus_slot_at [OF Some]
      then have inv: "fn_inv (slot_fn s)" using root_inv_nth [OF assms(1)] by blast
      have cfg: "cfg_at ops r (unat (bdf_device bd)) = Some (fn_config ops (slot_fn s))" using at by (simp add: cfg_at_slot)
      note sz = inv_bars [OF inv]
      have safe: "?reg + unat sz \<le> 0x10 \<or> 0x28 \<le> ?reg" using assms(2) EcamWrite by simp
      let ?c = "fn_config ops (fn_write_config ops (slot_fn s) ?reg sz (ucast v))"
      have "bar_at ?c n = bar_at (fn_config ops (slot_fn s)) n \<and> bar_address ?c n = bar_address (fn_config ops (slot_fn s)) n" for n
        using write_config_cases [OF inv, of ?reg sz "ucast v"] config_write_bars_same [OF sz safe, of "ucast v" n] by auto
      then show ?thesis
        using bus_config_write_keeps(2) [OF assms(1), of bd ?reg sz "ucast v" d] Some cfg
        by (auto simp: placed_def step)
    qed
  qed
qed (simp_all add: placed_def ecam_read_keeps assms window_read_keeps window_write_def bus_mmio_write_keeps)

end

sublocale pci_function \<subseteq> accesses: component "pci_step ops" "root_inv fn_inv"
  by unfold_locales (rule pci_step_inv)

context pci_function
begin

lemma placed_accesses:
  assumes "root_inv fn_inv r" "\<forall>a \<in> set as. bar_safe a"
  shows "placed ops (run (pci_step ops) r as) d i b x \<longleftrightarrow> placed ops r d i b x"
proof -
  have "(placed ops (run (pci_step ops) r as) d i b x \<longleftrightarrow> placed ops r d i b x)"
    by (rule accesses.run_filtered [of "\<lambda>r'. placed ops r' d i b x \<longleftrightarrow> placed ops r d i b x" bar_safe])
      (use assms in \<open>auto simp: placed_pci_step\<close>)
  then show ?thesis .
qed

lemma apart_accesses:
  assumes "root_inv fn_inv r" "\<forall>a \<in> set as. bar_safe a" "bars_apart ops r lo hi"
  shows "bars_apart ops (run (pci_step ops) r as) lo hi"
  using assms(3) unfolding bars_apart_def placed_accesses [OF assms(1,2)] .

text \<open>When every BAR has the same size and all of them fit, every BAR gets an address.\<close>

lemma assign_uniform:
  assumes "assigning ops fn_inv lo hi handled (r, nxt, n)" "hi \<le> 2 ^ 32" "unat e = hi" "0 < lo"
    and "distinct (map snd ws)" "snd ` set ws \<inter> handled = {}"
    and "\<forall>(sz, d, i) \<in> set ws. \<exists>b a. placed ops r d i b a \<and> sz = bar_size b"
    and "\<forall>w \<in> set ws. fst w = s" "unat s dvd unat nxt" "unat nxt + unat s * length ws \<le> hi"
    and "\<forall>(d, i) \<in> handled. \<exists>b a. placed ops r d i b a \<and> a \<noteq> 0 \<and> bar_size b = s"
  shows "\<forall>(d, i) \<in> handled \<union> snd ` set ws. \<exists>b a.
    placed ops (fst (fold (assign_one ops e) ws (r, nxt, n))) d i b a \<and> a \<noteq> 0 \<and> bar_size b = s"
  using assms(1,5-)
proof (induction ws arbitrary: r nxt n handled)
  case Nil
  then show ?case by simp
next
  case (Cons w ws)
  obtain d i where w: "w = (s, d, i)" using Cons.prems(5) by (cases w) auto
  from Cons.prems(4) obtain b a where p: "placed ops r d i b a" "s = bar_size b" by (auto simp: w)
  have fresh: "(d, i) \<notin> handled" using Cons.prems(3) w by auto
  from p(1) obtain c where c: "cfg_at ops r d = Some c" "bar_at c i = Some b" by (auto simp: placed_def)
  have r: "root_inv fn_inv r" "lo \<le> unat nxt" using Cons.prems(1) by (auto simp: assigning_def)
  have ok: "bar_ok b" using bars_invD(3) [OF root_inv_bars [OF r(1) c(1)] c(2)] .
  have s: "0 < unat s" using ok is_power_of_two_pos [of "bar_size b"] p(2) by (simp add: bar_ok_def)
  have base: "next_multiple_of nxt s = nxt"
    using Cons.prems(6) by (simp add: next_multiple_of_def word_unat_eq_iff unat_mod)
  have fits: "unat nxt + unat s \<le> hi" using Cons.prems(7) by simp
  then have "unat (saturating_add nxt s) \<le> unat e" using assms(2,3) by (simp add: unat_saturating_add)
  then have "\<not> e < saturating_add nxt s" by (simp add: word_less_nat_alt)
  moreover have "slots r ! d \<noteq> None" using c(1) by (auto simp: cfg_at_def split: if_splits)
  ultimately have one: "assign_one ops e w (r, nxt, n) = (set_fn_bar ops d i nxt r, nxt + s, Suc n)"
    by (simp add: assign_one_def w base Let_def)
  have nxt': "unat (nxt + s) = unat nxt + unat s" using fits assms(2) by (intro unat_add_no_overflow) simp
  have step: "assigning ops fn_inv lo hi (insert (d, i) handled) (set_fn_bar ops d i nxt r, nxt + s, Suc n)"
    using assign_one_step(1) [OF Cons.prems(1) assms(2-4) p(1) fresh] one by (simp add: w p(2))
  have "unat nxt + unat (bar_size b) \<le> 2 ^ 32" using fits assms(2) p(2) by simp
  note pl = placed_set_fn_bar [OF r(1) p(1) _ this]
  have here: "placed ops (set_fn_bar ops d i nxt r) d' i' b' a' \<longleftrightarrow>
      (if (d', i') = (d, i) then b' = b \<and> a' = nxt else placed ops r d' i' b' a')" for d' i' b' a'
    using pl Cons.prems(6) p(2) by simp
  have "\<forall>(d', i') \<in> insert (d, i) handled \<union> snd ` set ws. \<exists>b a.
      placed ops (fst (fold (assign_one ops e) ws (set_fn_bar ops d i nxt r, nxt + s, Suc n))) d' i' b a \<and> a \<noteq> 0 \<and> bar_size b = s"
  proof (rule Cons.IH [OF step])
    show "distinct (map snd ws)" "snd ` set ws \<inter> insert (d, i) handled = {}" "\<forall>w \<in> set ws. fst w = s"
      using Cons.prems(2,3,5) w by auto
    show "\<forall>(sz, d', i') \<in> set ws. \<exists>b a. placed ops (set_fn_bar ops d i nxt r) d' i' b a \<and> sz = bar_size b"
    proof (intro ballI, clarify)
      fix sz' d' i'
      assume m: "(sz', d', i') \<in> set ws"
      then have "(d', i') \<noteq> (d, i)" using Cons.prems(2) w by force
      moreover obtain b' a' where "placed ops r d' i' b' a'" "sz' = bar_size b'"
        using Cons.prems(4) m by fastforce
      ultimately show "\<exists>b a. placed ops (set_fn_bar ops d i nxt r) d' i' b a \<and> sz' = bar_size b"
        unfolding here by auto
    qed
    show "unat s dvd unat (nxt + s)" using Cons.prems(6) by (simp add: nxt')
    show "unat (nxt + s) + unat s * length ws \<le> hi" using Cons.prems(7) by (simp add: nxt')
    have "nxt \<noteq> 0" using r(2) assms(4) by auto
    then show "\<forall>(d', i') \<in> insert (d, i) handled. \<exists>b a. placed ops (set_fn_bar ops d i nxt r) d' i' b a \<and> a \<noteq> 0 \<and> bar_size b = s"
    proof (intro ballI, clarify)
      fix d' i'
      assume m: "(d', i') \<in> insert (d, i) handled"
      show "\<exists>b a. placed ops (set_fn_bar ops d i nxt r) d' i' b a \<and> a \<noteq> 0 \<and> bar_size b = s"
      proof (cases "(d', i') = (d, i)")
        case True
        with \<open>nxt \<noteq> 0\<close> p(2) show ?thesis unfolding here by auto
      next
        case False
        with m Cons.prems(8) show ?thesis unfolding here by auto
      qed
    qed
  qed
  then show ?case using one by (simp add: w)
qed

end

end
