(* ===== verification/Pci_Interrupts.thy ===== *)
theory Pci_Interrupts
  imports Pci_Bus
begin

text \<open>
  Interrupts of the functions of a bus, across \<open>ternvale-vmm/src/pci/bus.rs\<close> and \<open>pci/intx.rs\<close>: after every access
  the pin of a function follows the level it requests and the INTx disable bit of its command register, and each
  shared line counts exactly the pins that drive it.
\<close>

section \<open>Wiring\<close>

definition pins_of :: "'d pci_slot option list \<Rightarrow> intx_pin list" where
  "pins_of ss = concat (map (\<lambda>s. case s of None \<Rightarrow> [] | Some s \<Rightarrow> (case slot_pin s of None \<Rightarrow> [] | Some p \<Rightarrow> [p])) ss)"

text \<open>\<open>stale\<close> are the devices whose disable bit has not been mirrored yet.\<close>

definition slot_wired :: "'d pci_ops \<Rightarrow> bool \<Rightarrow> nat \<Rightarrow> 'd pci_slot \<Rightarrow> bool" where
  "slot_wired ops stale d s \<longleftrightarrow>
     (case (fn_level ops (slot_fn s), slot_pin s) of
        (None, None) \<Rightarrow> True
      | (Some level, Some p) \<Rightarrow> requested p = level \<and> owes p = None \<and> pin_inv p \<and> pin_line p = swizzle (of_nat d) 1
          \<and> (\<not> stale \<longrightarrow> disabled p = intx_disabled (fn_config ops (slot_fn s)))
      | _ \<Rightarrow> False)"

definition wired :: "'d pci_ops \<Rightarrow> nat set \<Rightarrow> 'd pci_root \<Rightarrow> bool" where
  "wired ops stale r \<longleftrightarrow> length (slots r) = DEVICES \<and> length (intx_lines r) = PCI_INTX_LINES
     \<and> (\<forall>d s. d < DEVICES \<longrightarrow> slots r ! d = Some s \<longrightarrow> slot_wired ops (d \<in> stale) d s)
     \<and> (\<forall>l < PCI_INTX_LINES. intx_line_inv (drivers l (pins_of (slots r))) (intx_lines r ! l))"

lemma wiredD: "wired ops stale r \<Longrightarrow> d < DEVICES \<Longrightarrow> slots r ! d = Some s \<Longrightarrow> slot_wired ops (d \<in> stale) d s"
  by (simp add: wired_def)

text \<open>The count of a line, with one slot set apart.\<close>

definition drive :: "nat \<Rightarrow> 'd pci_slot option \<Rightarrow> nat" where
  "drive l s = drivers l (pins_of [s])"

definition others :: "nat \<Rightarrow> nat \<Rightarrow> 'd pci_slot option list \<Rightarrow> nat" where
  "others l d ss = drivers l (pins_of (take d ss)) + drivers l (pins_of (drop (Suc d) ss))"

lemma pins_of_append: "pins_of (xs @ ys) = pins_of xs @ pins_of ys"
  by (simp add: pins_of_def)

lemma drivers_append: "drivers l (ps @ qs) = drivers l ps + drivers l qs"
  by (simp add: drivers_def)

lemma drivers_split:
  assumes "d < length ss"
  shows "drivers l (pins_of ss) = others l d ss + drive l (ss ! d)"
    and "drivers l (pins_of (ss[d := x])) = others l d ss + drive l x"
proof -
  have "ss = take d ss @ ss ! d # drop (Suc d) ss" using assms by (rule id_take_nth_drop)
  then have split: "ss = take d ss @ [ss ! d] @ drop (Suc d) ss" by (simp only: append_Cons append_Nil)
  have upd: "ss[d := x] = take d ss @ [x] @ drop (Suc d) ss"
    using upd_conv_take_nth_drop [OF assms] by (simp only: append_Cons append_Nil)
  have "drivers l (pins_of ss) = drivers l (pins_of (take d ss @ [ss ! d] @ drop (Suc d) ss))"
    using split by (rule arg_cong)
  then show "drivers l (pins_of ss) = others l d ss + drive l (ss ! d)"
    by (simp only: pins_of_append drivers_append others_def drive_def ac_simps)
  show "drivers l (pins_of (ss[d := x])) = others l d ss + drive l x"
    by (simp only: upd pins_of_append drivers_append others_def drive_def ac_simps)
qed

lemma pins_of_length: "length (pins_of ss) \<le> length ss"
  by (induction ss) (auto simp: pins_of_def split: option.split)

lemma drive_pin:
  "drive l (Some s) = (case slot_pin s of None \<Rightarrow> 0 | Some p \<Rightarrow> if pin_line p = l \<and> contributes p then 1 else 0)"
  by (simp add: drive_def drivers_def pins_of_def split: option.split)

lemma drive_None [simp]: "drive l None = 0"
  by (simp add: drive_def drivers_def pins_of_def)

lemma drivers_small: "length ss = DEVICES \<Longrightarrow> drivers l (pins_of ss) < 2 ^ 32"
  using drivers_bound [of l "pins_of ss"] pins_of_length [of ss] by (simp add: DEVICES_def)

section \<open>One update\<close>

lemma pin_update_pin:
  assumes "pin_update ch p lines = (p', lines')" "pin_inv p" "owes p = None"
  shows "owes p' = None" "pin_inv p'" "pin_line p' = pin_line p" "requested p' = requested (change_pin ch p)"
    "disabled p' = disabled (change_pin ch p)" "contributes p' = wants p'" "length lines' = length lines"
proof -
  let ?q = "change_pin ch p"
  have frame: "pin_line ?q = pin_line p" "owes ?q = owes p" "driving ?q = driving p"
    by (cases ch; simp)+
  consider "p' = ?q" "lines' = lines" "wants ?q = driving p"
    | "p' = ?q\<lparr>driving := wants ?q, owes := None\<rparr>" "lines' = lines[pin_line p := adjust (wants ?q) (lines ! pin_line p)]"
    using assms(1,3) frame by (auto simp: pin_update_def begin_update_def Let_def split: if_splits)
  note p' = this
  have w: "wants (?q\<lparr>driving := x, owes := y\<rparr>) = wants ?q" for x y by (simp add: wants_def)
  show "owes p' = None" "pin_line p' = pin_line p" "requested p' = requested ?q" "disabled p' = disabled ?q"
    "length lines' = length lines"
    using p' assms(3) frame by (cases; simp)+
  show "pin_inv p'" "contributes p' = wants p'"
    using p' assms(2,3) frame w by (cases; simp add: pin_inv_def contributes_def)+
qed

text \<open>The lines keep counting when one pin is updated and the rest of the count, \<open>n l\<close>, stays.\<close>

lemma pin_update_lines:
  assumes "pin_update ch p lines = (p', lines')" "pin_inv p" "owes p = None" "length lines = PCI_INTX_LINES"
    and "\<forall>l < PCI_INTX_LINES. intx_line_inv (n l + (if pin_line p = l \<and> contributes p then 1 else 0)) (lines ! l)"
    and "\<forall>l. Suc (n l) < 2 ^ 32" "l < PCI_INTX_LINES"
  shows "intx_line_inv (n l + (if pin_line p' = l \<and> contributes p' then 1 else 0)) (lines' ! l)"
proof -
  note pp = pin_update_pin [OF assms(1-3)]
  have c: "contributes p = driving p" "driving p = wants p" using assms(2,3) by (simp_all add: contributes_def pin_inv_def)
  have frame: "pin_line (change_pin ch p) = pin_line p" "owes (change_pin ch p) = owes p" "driving (change_pin ch p) = driving p"
    by (cases ch; simp)+
  let ?w = "wants (change_pin ch p)"
  have w': "wants p' = ?w" using pp(4,5) by (simp add: wants_def)
  have old: "intx_line_inv (n l + (if pin_line p = l \<and> driving p then 1 else 0)) (lines ! l)" using assms(5,7) c by simp
  have lp: "pin_line p < PCI_INTX_LINES" using assms(2) by (simp add: pin_inv_def)
  show ?thesis
  proof (cases "?w = driving p")
    case True
    then have "lines' = lines" using assms(1,3) frame by (simp add: pin_update_def begin_update_def Let_def)
    with old True show ?thesis by (simp add: pp w')
  next
    case False
    then have lines': "lines' = lines[pin_line p := adjust ?w (lines ! pin_line p)]"
      using assms(1) frame by (simp add: pin_update_def begin_update_def Let_def)
    show ?thesis
    proof (cases "pin_line p = l")
      case True
      show ?thesis
      proof (cases ?w)
        case True
        with False old \<open>pin_line p = l\<close> adjust_up [of "n l" "lines ! l"] assms(4,6,7) show ?thesis
          by (simp add: pp w' lines')
      next
        case False
        with \<open>?w \<noteq> driving p\<close> old \<open>pin_line p = l\<close> adjust_down [of "n l" "lines ! l"] assms(4,7) show ?thesis
          by (simp add: pp w' lines')
      qed
    next
      case False
      with old show ?thesis by (simp add: pp w' lines')
    qed
  qed
qed

text \<open>Replacing a slot and updating its pin in one go.\<close>

lemma wired_update:
  assumes "wired ops stale r" "d < DEVICES" "\<And>l. drive l (slots r ! d) = (if pin_line p = l \<and> contributes p then 1 else 0)"
    and "slot_pin s = Some p" "pin_update ch p (intx_lines r) = (p', lines')" "pin_inv p" "owes p = None"
    and "slot_wired ops (d \<in> stale') d (s\<lparr>slot_pin := Some p'\<rparr>)" "\<And>e. e \<noteq> d \<Longrightarrow> e \<in> stale' \<longleftrightarrow> e \<in> stale"
  shows "wired ops stale' (r\<lparr>slots := (slots r)[d := Some (s\<lparr>slot_pin := Some p'\<rparr>)], intx_lines := lines'\<rparr>)"
proof -
  let ?ss = "(slots r)[d := Some (s\<lparr>slot_pin := Some p'\<rparr>)]"
  from assms(1) have len: "length (slots r) = DEVICES" "length (intx_lines r) = PCI_INTX_LINES"
    and count: "\<forall>l < PCI_INTX_LINES. intx_line_inv (drivers l (pins_of (slots r))) (intx_lines r ! l)"
    and other: "\<And>e s. e < DEVICES \<Longrightarrow> slots r ! e = Some s \<Longrightarrow> slot_wired ops (e \<in> stale) e s"
    by (auto simp: wired_def)
  have d: "d < length (slots r)" using assms(2) len by simp
  let ?n = "\<lambda>l. others l d (slots r)"
  have "\<forall>l < PCI_INTX_LINES. intx_line_inv (?n l + (if pin_line p = l \<and> contributes p then 1 else 0)) (intx_lines r ! l)"
    using count drivers_split(1) [OF d] assms(3) by simp
  moreover have "\<forall>l. Suc (?n l) < 2 ^ 32"
  proof
    fix l
    have "?n l \<le> length (slots r)"
      unfolding others_def using drivers_bound [of l "pins_of (take d (slots r))"] pins_of_length [of "take d (slots r)"]
        drivers_bound [of l "pins_of (drop (Suc d) (slots r))"] pins_of_length [of "drop (Suc d) (slots r)"] d by simp
    then show "Suc (?n l) < 2 ^ 32" using len by (simp add: DEVICES_def)
  qed
  ultimately have "intx_line_inv (?n l + (if pin_line p' = l \<and> contributes p' then 1 else 0)) (lines' ! l)"
    if "l < PCI_INTX_LINES" for l
    using pin_update_lines [OF assms(5,6,7) len(2), where n = ?n and l = l] that by simp
  then have "intx_line_inv (drivers l (pins_of ?ss)) (lines' ! l)" if "l < PCI_INTX_LINES" for l
    using that drivers_split(2) [OF d] by (simp add: drive_pin)
  moreover have "slot_wired ops (e \<in> stale') e s'" if "e < DEVICES" "?ss ! e = Some s'" for e s'
    using that other [of e s'] assms(8) assms(9) [of e] d by (cases "e = d") auto
  ultimately show ?thesis
    using len pin_update_pin(7) [OF assms(5,6,7)] by (simp add: wired_def)
qed

lemma wired_same_pin:
  assumes "wired ops stale r" "d < DEVICES" "slots r ! d = Some s" "slot_pin s' = slot_pin s" "slot_wired ops (d \<in> stale) d s'"
  shows "wired ops stale (r\<lparr>slots := (slots r)[d := Some s']\<rparr>)"
proof -
  have len: "d < length (slots r)" using assms(1,2) by (simp add: wired_def)
  have "drivers l (pins_of ((slots r)[d := Some s'])) = drivers l (pins_of (slots r))" for l
    using drivers_split [OF len, of l] assms(3,4) by (simp add: drive_pin)
  moreover have "slot_wired ops (e \<in> stale) e t" if "e < DEVICES" "(slots r)[d := Some s'] ! e = Some t" for e t
    using that len assms(5) wiredD [OF assms(1), of e t] by (cases "e = d") auto
  ultimately show ?thesis using assms(1) by (simp add: wired_def)
qed

lemma slot_wired_pin:
  assumes "slot_wired ops st d s" "fn_level ops (slot_fn s) = Some level"
  shows "\<exists>p. slot_pin s = Some p \<and> requested p = level \<and> owes p = None \<and> pin_inv p \<and> pin_line p = swizzle (of_nat d) 1
    \<and> (\<not> st \<longrightarrow> disabled p = intx_disabled (fn_config ops (slot_fn s)))"
  using assms by (auto simp: slot_wired_def split: option.splits)

text \<open>
  What the pin relies on: a method keeps whether there is an interrupt at all, never takes a hook call back, and calls
  the hook whenever it changes the level.
\<close>

definition hooked :: "'d pci_ops \<Rightarrow> 'd \<Rightarrow> 'd \<Rightarrow> bool" where
  "hooked ops f f' \<longleftrightarrow> (fn_level ops f' = None) = (fn_level ops f = None) \<and> fn_hooks ops f \<le> fn_hooks ops f'
     \<and> (fn_hooks ops f' = fn_hooks ops f \<longrightarrow> fn_level ops f' = fn_level ops f)"

lemma wired_store:
  assumes "wired ops stale r" "d < DEVICES" "\<And>l. drive l (Some s) = drive l (slots r ! d)"
    and "slot_wired ops (d \<in> stale') d s" "\<And>e. e \<noteq> d \<Longrightarrow> e \<in> stale' \<longleftrightarrow> e \<in> stale"
  shows "wired ops stale' (r\<lparr>slots := (slots r)[d := Some s]\<rparr>)"
proof -
  have len: "d < length (slots r)" using assms(1,2) by (simp add: wired_def)
  have "drivers l (pins_of ((slots r)[d := Some s])) = drivers l (pins_of (slots r))" for l
    using drivers_split [OF len, of l] assms(3) by simp
  moreover have "slot_wired ops (e \<in> stale') e t" if "e < DEVICES" "(slots r)[d := Some s] ! e = Some t" for e t
    using that len assms(4,5) wiredD [OF assms(1), of e t] by (cases "e = d") auto
  ultimately show ?thesis using assms(1) by (simp add: wired_def)
qed

lemma settle_wired:
  assumes "wired ops stale r" "d < DEVICES" "slots r ! d = Some s" "hooked ops (slot_fn s) f"
  shows "wired ops (insert d stale) (settle ops d (s\<lparr>slot_fn := f\<rparr>) r)"
    and "intx_disabled (fn_config ops f) = intx_disabled (fn_config ops (slot_fn s)) \<Longrightarrow> d \<notin> stale \<Longrightarrow>
      wired ops stale (settle ops d (s\<lparr>slot_fn := f\<rparr>) r)"
proof -
  have sw: "slot_wired ops (d \<in> stale) d s" using assms(1-3) by (simp add: wired_def)
  have main: "wired ops stale' (settle ops d (s\<lparr>slot_fn := f\<rparr>) r)"
    if st: "\<And>e. e \<noteq> d \<Longrightarrow> e \<in> stale' \<longleftrightarrow> e \<in> stale"
      "d \<notin> stale' \<Longrightarrow> d \<notin> stale \<and> intx_disabled (fn_config ops f) = intx_disabled (fn_config ops (slot_fn s))" for stale'
  proof (cases "fn_level ops f")
    case None
    then have pin: "slot_pin s = None" using sw assms(4) by (auto simp: slot_wired_def hooked_def split: option.splits)
    have settled: "settle ops d (s\<lparr>slot_fn := f\<rparr>) r = r\<lparr>slots := (slots r)[d := Some (s\<lparr>slot_fn := f\<rparr>)]\<rparr>"
      using None by (simp add: settle_def)
    have "slot_wired ops (d \<in> stale') d (s\<lparr>slot_fn := f\<rparr>)" using None pin by (simp add: slot_wired_def)
    with wired_store [OF assms(1,2) _ this st(1)] assms(3) show ?thesis unfolding settled by (simp add: drive_pin)
  next
    case (Some level)
    then obtain old where old: "fn_level ops (slot_fn s) = Some old"
      using assms(4) by (cases "fn_level ops (slot_fn s)") (auto simp: hooked_def)
    from slot_wired_pin [OF sw this] obtain p where p: "slot_pin s = Some p" "owes p = None" "pin_inv p"
      "pin_line p = swizzle (of_nat d) 1" "d \<notin> stale \<Longrightarrow> disabled p = intx_disabled (fn_config ops (slot_fn s))"
      "requested p = old"
      by blast
    show ?thesis
    proof (cases "fn_hooks ops (slot_fn s) < fn_hooks ops f")
      case False
      then have same: "fn_level ops f = fn_level ops (slot_fn s)" using assms(4) by (simp add: hooked_def)
      have settled: "settle ops d (s\<lparr>slot_fn := f\<rparr>) r = r\<lparr>slots := (slots r)[d := Some (s\<lparr>slot_fn := f\<rparr>)]\<rparr>"
        using False Some p(1) assms(3) by (simp add: settle_def hooks_before_def)
      have "d \<notin> stale' \<Longrightarrow> disabled p = intx_disabled (fn_config ops f)" using st(2) p(5) by simp
      then have "slot_wired ops (d \<in> stale') d (s\<lparr>slot_fn := f\<rparr>)"
        using same old p by (simp add: slot_wired_def)
      from wired_store [OF assms(1,2) _ this st(1)] assms(3) show ?thesis unfolding settled by (simp add: drive_pin)
    next
      case hook: True
      obtain p' lines' where u: "pin_update (Refresh (\<lambda>_. level)) p (intx_lines r) = (p', lines')" by fastforce
      note pp = pin_update_pin [OF u p(3,2)]
      have "settle ops d (s\<lparr>slot_fn := f\<rparr>) r =
          r\<lparr>slots := (slots r)[d := Some ((s\<lparr>slot_fn := f\<rparr>)\<lparr>slot_pin := Some p'\<rparr>)], intx_lines := lines'\<rparr>"
        using Some p(1) u hook assms(3) by (simp add: settle_def hooks_before_def)
      moreover have "wired ops stale' \<dots>"
      proof (rule wired_update [OF assms(1,2) _ _ u p(3,2) _ st(1)])
        show "drive l (slots r ! d) = (if pin_line p = l \<and> contributes p then 1 else 0)" for l
          using assms(3) p(1) by (simp add: drive_pin)
        show "slot_pin (s\<lparr>slot_fn := f\<rparr>) = Some p" using p(1) by simp
        have "d \<notin> stale' \<Longrightarrow> disabled p' = intx_disabled (fn_config ops f)" using st(2) p(5) pp(5) by simp
        then show "slot_wired ops (d \<in> stale') d (s\<lparr>slot_fn := f, slot_pin := Some p'\<rparr>)"
          using Some p(4) pp(1-4) by (simp add: slot_wired_def)
      qed
      ultimately show ?thesis by simp
    qed
  qed
  show "wired ops (insert d stale) (settle ops d (s\<lparr>slot_fn := f\<rparr>) r)"
    by (rule main) simp_all
  show "wired ops stale (settle ops d (s\<lparr>slot_fn := f\<rparr>) r)"
    if "intx_disabled (fn_config ops f) = intx_disabled (fn_config ops (slot_fn s))" "d \<notin> stale"
    using that by (intro main) simp_all
qed

text \<open>A function put on a free slot, with its fresh pin.\<close>

lemma insert_wired:
  assumes "wired ops {} r" "d < DEVICES" "slots r ! d = None" "fn_level ops f = Some level" "\<not> intx_disabled (fn_config ops f)"
    and "level \<Longrightarrow> 0 < fn_hooks ops f"
  shows "wired ops {} (settle ops d \<lparr>slot_fn = f, slot_pin = Some (pin_new (swizzle (of_nat d) 1))\<rparr> r)"
proof -
  let ?p = "pin_new (swizzle (of_nat d) 1)"
  obtain p' lines' where u: "pin_update (Refresh (\<lambda>_. level)) ?p (intx_lines r) = (p', lines')" by fastforce
  have p: "pin_inv ?p" "owes ?p = None" "\<not> contributes ?p" "pin_line ?p = swizzle (of_nat d) 1" "\<not> disabled ?p"
    by (simp_all add: pin_new_def pin_inv_def wants_def contributes_def swizzle_bound)
  note pp = pin_update_pin [OF u p(1,2)]
  let ?s = "\<lparr>slot_fn = f, slot_pin = Some ?p\<rparr>"
  show ?thesis
  proof (cases "0 < fn_hooks ops f")
    case False
    then have "\<not> level" using assms(6) by auto
    then have "slot_wired ops (d \<in> {}) d ?s"
      using assms(4,5) p by (simp add: slot_wired_def) (simp add: pin_new_def)
    from wired_store [OF assms(1,2) _ this] assms(3) p(3) have "wired ops {} (r\<lparr>slots := (slots r)[d := Some ?s]\<rparr>)"
      by (simp add: drive_pin)
    with False assms(3,4) show ?thesis by (simp add: settle_def hooks_before_def)
  next
    case True
    have "settle ops d ?s r = r\<lparr>slots := (slots r)[d := Some (?s\<lparr>slot_pin := Some p'\<rparr>)], intx_lines := lines'\<rparr>"
      using assms(3,4) u True by (simp add: settle_def hooks_before_def)
    moreover have "wired ops {} \<dots>"
    proof (rule wired_update [OF assms(1,2) _ _ u p(1,2)])
      show "drive l (slots r ! d) = (if pin_line ?p = l \<and> contributes ?p then 1 else 0)" for l
        using assms(3) p(3) by simp
      show "slot_wired ops (d \<in> {}) d (?s\<lparr>slot_pin := Some p'\<rparr>)"
        using assms(4,5) p pp by (simp add: slot_wired_def)
    qed simp_all
    ultimately show ?thesis by simp
  qed
qed

lemma mirror_disable_wired:
  assumes "wired ops (insert d stale) r" "d < DEVICES" "d \<notin> stale"
  shows "wired ops stale (mirror_disable ops d r)"
proof (cases "slots r ! d")
  case None
  then have "e \<noteq> d" if "slots r ! e = Some s" for e s using that by auto
  with assms(1) None show ?thesis by (auto simp: mirror_disable_def wired_def)
next
  case (Some s)
  have sw: "slot_wired ops True d s"
    using wiredD [OF assms(1,2) Some] by simp
  show ?thesis
  proof (cases "slot_pin s")
    case None
    then have "fn_level ops (slot_fn s) = None" using sw by (auto simp: slot_wired_def split: option.splits)
    then have "slot_wired ops False d s" using None by (simp add: slot_wired_def)
    moreover have "mirror_disable ops d r = r" using None \<open>slots r ! d = Some s\<close> by (simp add: mirror_disable_def)
    moreover have "slot_wired ops (e \<in> stale) e s'" if "e < DEVICES" "slots r ! e = Some s'" "e \<noteq> d" for e s'
      using wiredD [OF assms(1) that(1,2)] that(3) by simp
    ultimately have "slot_wired ops (e \<in> stale) e s'" if "e < DEVICES" "slots r ! e = Some s'" for e s'
      using that assms(3) \<open>slots r ! d = Some s\<close> by (cases "e = d") auto
    with assms(1) \<open>mirror_disable ops d r = r\<close> show ?thesis by (simp add: wired_def)
  next
    case (Some p)
    then obtain level where level: "fn_level ops (slot_fn s) = Some level" using sw by (auto simp: slot_wired_def split: option.splits)
    from slot_wired_pin [OF sw level] Some have p: "requested p = level" "owes p = None" "pin_inv p" "pin_line p = swizzle (of_nat d) 1"
      by auto
    obtain p' lines' where u: "pin_update (SetDisabled (intx_disabled (fn_config ops (slot_fn s)))) p (intx_lines r) = (p', lines')"
      by fastforce
    note pp = pin_update_pin [OF u p(3,2)]
    have "mirror_disable ops d r = r\<lparr>slots := (slots r)[d := Some (s\<lparr>slot_pin := Some p'\<rparr>)], intx_lines := lines'\<rparr>"
      using \<open>slots r ! d = Some s\<close> Some u by (simp add: mirror_disable_def)
    moreover have "wired ops stale \<dots>"
    proof (rule wired_update [OF assms(1,2) _ Some u p(3,2)])
      show "drive l (slots r ! d) = (if pin_line p = l \<and> contributes p then 1 else 0)" for l
        using \<open>slots r ! d = Some s\<close> Some by (simp add: drive_pin)
      show "slot_wired ops (d \<in> stale) d (s\<lparr>slot_pin := Some p'\<rparr>)"
        using level p(1,4) pp(1-5) by (simp add: slot_wired_def)
    qed simp
    ultimately show ?thesis by simp
  qed
qed

section \<open>Every access\<close>

text \<open>What is added to the contract of a function: its methods call the interrupt hook whenever the level changes.\<close>

locale pci_interrupting = pci_function +
  assumes level_set: "fn_level ops (fn_set_config ops c d) = fn_level ops d"
    and hooked_read_config: "fn_inv d \<Longrightarrow> hooked ops d (snd (fn_read_config ops d off sz))"
    and hooked_write_config: "fn_inv d \<Longrightarrow> hooked ops d (fn_write_config ops d off sz v)"
    and hooked_read_bar: "fn_inv d \<Longrightarrow> hooked ops d (snd (fn_read_bar ops d bar boff sz))"
    and hooked_write_bar: "fn_inv d \<Longrightarrow> hooked ops d (fn_write_bar ops d bar boff sz w)"
begin

lemma bus_config_read_wired:
  assumes "wired ops {} r" "root_inv fn_inv r"
  shows "wired ops {} (snd (bus_config_read ops r b reg sz))"
proof (cases "bus_slot r b")
  case None
  with assms(1) show ?thesis by (simp add: bus_config_read_def)
next
  case (Some s)
  note at = bus_slot_at [OF Some]
  then have d: "unat (bdf_device b) < DEVICES" using assms(2) by (simp add: root_inv_def)
  have inv: "fn_inv (slot_fn s)" using at root_inv_nth [OF assms(2)] by blast
  have "snd (bus_config_read ops r b reg sz) =
      settle ops (unat (bdf_device b)) (s\<lparr>slot_fn := snd (fn_read_config ops (slot_fn s) reg sz)\<rparr>) r"
    by (simp add: bus_config_read_def Some Let_def split: prod.split)
  with settle_wired(2) [OF assms(1) d at [THEN conjunct2] hooked_read_config [OF inv]] show ?thesis
    by (simp add: read_config_same [OF inv])
qed

lemma bus_config_write_wired:
  assumes "wired ops {} r" "root_inv fn_inv r"
  shows "wired ops {} (snd (bus_config_write ops r b reg sz v))"
proof (cases "bus_slot r b")
  case None
  with assms(1) show ?thesis by (simp add: bus_config_write_def)
next
  case (Some s)
  note at = bus_slot_at [OF Some]
  then have d: "unat (bdf_device b) < DEVICES" using assms(2) by (simp add: root_inv_def)
  have inv: "fn_inv (slot_fn s)" using at root_inv_nth [OF assms(2)] by blast
  from mirror_disable_wired [OF settle_wired(1) [OF assms(1) d at [THEN conjunct2] hooked_write_config [OF inv]] d]
  show ?thesis by (simp add: bus_config_write_def Some Let_def)
qed

lemma bus_mmio_read_wired:
  assumes "wired ops {} r" "root_inv fn_inv r"
  shows "wired ops {} (snd (bus_mmio_read ops r gpa sz))"
proof (cases "route ops r gpa sz")
  case None
  with assms(1) show ?thesis by (simp add: bus_mmio_read_def)
next
  case (Some x)
  obtain d bar off where x: "x = (d, bar, off)" by (cases x)
  from route_sound [OF Some [unfolded x]] obtain s where s: "d < length (slots r)" "slots r ! d = Some s"
    by (auto simp: cfg_at_def split: if_splits)
  then have d: "d < DEVICES" using assms(2) by (simp add: root_inv_def)
  have inv: "fn_inv (slot_fn s)" using s root_inv_nth [OF assms(2)] by blast
  have "snd (bus_mmio_read ops r gpa sz) = settle ops d (s\<lparr>slot_fn := snd (fn_read_bar ops (slot_fn s) bar off sz)\<rparr>) r"
    by (simp add: bus_mmio_read_def Some x s(2) split: prod.split)
  with settle_wired(2) [OF assms(1) d s(2) hooked_read_bar [OF inv]] show ?thesis
    by (simp add: read_bar_same [OF inv])
qed

lemma bus_mmio_write_wired:
  assumes "wired ops {} r" "root_inv fn_inv r"
  shows "wired ops {} (snd (bus_mmio_write ops r gpa sz v))"
proof (cases "route ops r gpa sz")
  case None
  with assms(1) show ?thesis by (simp add: bus_mmio_write_def)
next
  case (Some x)
  obtain d bar off where x: "x = (d, bar, off)" by (cases x)
  from route_sound [OF Some [unfolded x]] obtain s where s: "d < length (slots r)" "slots r ! d = Some s"
    by (auto simp: cfg_at_def split: if_splits)
  then have d: "d < DEVICES" using assms(2) by (simp add: root_inv_def)
  have inv: "fn_inv (slot_fn s)" using s root_inv_nth [OF assms(2)] by blast
  from settle_wired(2) [OF assms(1) d s(2) hooked_write_bar [OF inv]] show ?thesis
    by (simp add: bus_mmio_write_def Some x s(2) write_bar_same [OF inv])
qed

lemma pci_step_wired:
  assumes "wired ops {} r" "root_inv fn_inv r"
  shows "wired ops {} (pci_step ops r a)"
proof (cases a)
  case (EcamRead off sz)
  have "snd (ecam_read ops r off sz) = r \<or> (\<exists>b reg. snd (ecam_read ops r off sz) = snd (bus_config_read ops r b reg sz))"
    by (auto simp: ecam_read_def split: sum.split prod.split option.split) (metis snd_conv)+
  with EcamRead assms bus_config_read_wired show ?thesis by auto
next
  case (EcamWrite off sz v)
  with assms bus_config_write_wired show ?thesis by (auto simp: ecam_write_def split: sum.split)
next
  case (WindowRead off sz)
  have "snd (window_read ops r off sz) = snd (bus_mmio_read ops r (PCIE_MMIO_BASE + off) sz)"
    by (simp add: window_read_def split: prod.split option.split)
  with WindowRead assms bus_mmio_read_wired show ?thesis by simp
next
  case (WindowWrite off sz v)
  with assms bus_mmio_write_wired show ?thesis by (simp add: window_write_def)
qed

lemma set_fn_bar_wired:
  assumes "wired ops {} r" "root_inv fn_inv r" "d < DEVICES"
  shows "wired ops {} (set_fn_bar ops d i a r)"
proof (cases "slots r ! d")
  case None
  with assms(1) show ?thesis by (simp add: set_fn_bar_def)
next
  case (Some s)
  have len: "d < length (slots r)" using assms(2,3) by (simp add: root_inv_def)
  have inv: "fn_inv (slot_fn s)" using Some len root_inv_nth [OF assms(2)] by blast
  let ?c = "set_bar_address (fn_config ops (slot_fn s)) i a"
  let ?s = "s\<lparr>slot_fn := fn_set_config ops ?c (slot_fn s)\<rparr>"
  have b: "bars_inv (fn_config ops (slot_fn s))" using inv by (rule inv_bars)
  have "cfg_byte ?c 5 = cfg_byte (fn_config ops (slot_fn s)) 5"
    by (auto simp: set_bar_address_def Let_def cfg_byte_put config_defs split: option.split)
  then have "slot_wired ops False d ?s"
    using wiredD [OF assms(1,3) Some]
    by (simp add: slot_wired_def level_set config_set intx_disabled_bit split: option.split option.split_asm)
  with wired_same_pin [OF assms(1,3) Some, of ?s] show ?thesis by (simp add: set_fn_bar_def Some)
qed

lemma assign_fold_wired:
  assumes "wired ops {} r" "root_inv fn_inv r" "\<forall>(sz, d, i) \<in> set ws. d < DEVICES"
  shows "wired ops {} (fst (fold (assign_one ops e) ws (r, nxt, n)))"
  using assms
proof (induction ws arbitrary: r nxt n)
  case Nil
  then show ?case by simp
next
  case (Cons w ws)
  obtain sz d i where w: "w = (sz, d, i)" by (cases w)
  obtain r' nxt' n' where one: "assign_one ops e w (r, nxt, n) = (r', nxt', n')" by (cases "assign_one ops e w (r, nxt, n)")
  have "r' = r \<or> slots r ! d \<noteq> None \<and> (\<exists>base. r' = set_fn_bar ops d i base r)"
    using one by (auto simp: w assign_one_def Let_def split: if_splits)
  moreover have "d < length (slots r)" using Cons.prems(2,3) w by (auto simp: root_inv_def)
  ultimately have "wired ops {} r'" "root_inv fn_inv r'"
    using Cons.prems w set_fn_bar_wired [OF Cons.prems(1,2)] set_fn_bar_at(2) [OF Cons.prems(2)]
    by (auto simp: cfg_at_def)
  with Cons.IH [of r' nxt' n'] Cons.prems(3) show ?case by (simp add: one)
qed

lemma assign_bars_wired:
  assumes "wired ops {} r" "root_inv fn_inv r"
  shows "wired ops {} (snd (assign_bars ops r))"
proof -
  have "\<forall>(sz, d, i) \<in> set (sort_key by_size (wanted_bars ops (slots r))). d < DEVICES"
    using assms(2) by (auto simp: set_wanted_bars root_inv_def)
  from assign_fold_wired [OF assms this, of "window_base r + window_size r" "window_base r" 0]
  show ?thesis by (auto simp: assign_bars_def split: prod.split)
qed

end

section \<open>The level of a line\<close>

lemma drivers_positive:
  "drivers l ps \<noteq> 0 \<longleftrightarrow> (\<exists>p \<in> set ps. pin_line p = l \<and> contributes p)"
  by (auto simp: drivers_def filter_empty_conv)

lemma set_pins_of: "p \<in> set (pins_of ss) \<longleftrightarrow> (\<exists>d s. d < length ss \<and> ss ! d = Some s \<and> slot_pin s = Some p)"
  by (force simp: pins_of_def in_set_conv_nth split: option.splits)

lemma wired_line_level:
  assumes "wired ops {} r" "l < PCI_INTX_LINES"
  shows "alternating (\<exists>d s. d < DEVICES \<and> slots r ! d = Some s \<and> swizzle (of_nat d) 1 = l
      \<and> fn_level ops (slot_fn s) = Some True \<and> \<not> intx_disabled (fn_config ops (slot_fn s)))
    (hook_calls (intx_lines r ! l))"
proof -
  have pin: "(\<exists>p. slot_pin s = Some p \<and> pin_line p = l \<and> contributes p) \<longleftrightarrow>
      swizzle (of_nat d) 1 = l \<and> fn_level ops (slot_fn s) = Some True \<and> \<not> intx_disabled (fn_config ops (slot_fn s))"
    if "d < DEVICES" "slots r ! d = Some s" for d s
    using wiredD [OF assms(1) that]
    by (auto simp: slot_wired_def contributes_def pin_inv_def wants_def split: option.splits)
  have "drivers l (pins_of (slots r)) \<noteq> 0 \<longleftrightarrow> (\<exists>d s. d < DEVICES \<and> slots r ! d = Some s \<and> swizzle (of_nat d) 1 = l
      \<and> fn_level ops (slot_fn s) = Some True \<and> \<not> intx_disabled (fn_config ops (slot_fn s)))"
  proof -
    have len: "length (slots r) = DEVICES" using assms(1) by (simp add: wired_def)
    have "drivers l (pins_of (slots r)) \<noteq> 0 \<longleftrightarrow>
        (\<exists>d s. d < DEVICES \<and> slots r ! d = Some s \<and> (\<exists>p. slot_pin s = Some p \<and> pin_line p = l \<and> contributes p))"
      unfolding drivers_positive Bex_def set_pins_of len by blast
    then show ?thesis using pin by (simp cong: conj_cong)
  qed
  moreover have "alternating (drivers l (pins_of (slots r)) \<noteq> 0) (hook_calls (intx_lines r ! l))"
    using assms unfolding wired_def intx_line_inv_def by blast
  ultimately show ?thesis by (simp only:)
qed

end
