(* ===== verification/Pci_Msix.thy ===== *)
theory Pci_Msix
  imports Pci_Config
begin

text \<open>
  The MSI-X capability, vector table and pending bit array of \<open>ternvale-vmm/src/pci/msix.rs\<close>. A guest can size,
  program and enable vectors; nothing is delivered.
\<close>

definition MSIX_CAP_ID :: u8 where "MSIX_CAP_ID = 0x11"

definition MSIX_ENTRY_SIZE :: nat where "MSIX_ENTRY_SIZE = 16"

definition MSIX_NO_VECTOR :: u16 where "MSIX_NO_VECTOR = 0xffff"

definition CONTROL_ENABLE :: u16 where "CONTROL_ENABLE = 0x8000"

definition CONTROL_FUNCTION_MASK :: u16 where "CONTROL_FUNCTION_MASK = 0x4000"

definition ENTRY_MASKED :: u32 where "ENTRY_MASKED = 1"

text \<open>A table entry is the code's array of four words.\<close>

record msix =
  msix_bar :: u8
  table_offset :: u32
  pba_offset :: u32
  msix_table :: "u32 list list"
  msix_cap :: "u8 option"
  msix_enabled :: bool

definition msix_new :: "u16 \<Rightarrow> u8 \<Rightarrow> u32 \<Rightarrow> u32 \<Rightarrow> msix" where
  "msix_new vectors bar table pba =
     \<lparr>msix_bar = bar, table_offset = table, pba_offset = pba,
      msix_table = replicate (unat (max vectors 1)) [0, 0, 0, ENTRY_MASKED], msix_cap = None, msix_enabled = False\<rparr>"

definition table_len :: "msix \<Rightarrow> nat" where
  "table_len m = length (msix_table m) * MSIX_ENTRY_SIZE"

definition pba_len :: "msix \<Rightarrow> nat" where
  "pba_len m = (length (msix_table m) + 63) div 64 * 8"

definition msix_add_capability :: "msix \<Rightarrow> config_space \<Rightarrow> pci_error + u8 \<times> msix \<times> config_space" where
  "msix_add_capability m c =
     (let body = to_le 2 (of_nat (length (msix_table m)) - 1 :: u16) @
                 to_le 4 (table_offset m OR ucast (msix_bar m)) @ to_le 4 (pba_offset m OR ucast (msix_bar m));
          wmask = to_le 2 (CONTROL_ENABLE OR CONTROL_FUNCTION_MASK)
      in case add_capability c MSIX_CAP_ID body wmask of
           Inl err \<Rightarrow> Inl err
         | Inr (off, c') \<Rightarrow> Inr (off, m\<lparr>msix_cap := Some off\<rparr>, c'))"

definition msix_sync :: "msix \<Rightarrow> config_space \<Rightarrow> msix" where
  "msix_sync m c =
     (case msix_cap m of
        None \<Rightarrow> m
      | Some cap \<Rightarrow> m\<lparr>msix_enabled := (u16_at c (unat cap + 2) AND CONTROL_ENABLE \<noteq> 0)\<rparr>)"

definition in_table :: "msix \<Rightarrow> u64 \<Rightarrow> bool" where
  "in_table m off \<longleftrightarrow> unat (table_offset m) \<le> unat off \<and> unat off < unat (table_offset m) + table_len m"

definition in_pba :: "msix \<Rightarrow> u64 \<Rightarrow> bool" where
  "in_pba m off \<longleftrightarrow> unat (pba_offset m) \<le> unat off \<and> unat off < unat (pba_offset m) + pba_len m"

definition msix_claims :: "msix \<Rightarrow> nat \<Rightarrow> u64 \<Rightarrow> bool" where
  "msix_claims m bar off \<longleftrightarrow> bar = unat (msix_bar m) \<and> (in_table m off \<or> in_pba m off)"

definition msix_read :: "msix \<Rightarrow> u64 \<Rightarrow> u8 \<Rightarrow> u64" where
  "msix_read m off sz =
     (if \<not> in_table m off then 0
      else
        let rel = unat off - unat (table_offset m); entry = msix_table m ! (rel div MSIX_ENTRY_SIZE);
            word = rel mod MSIX_ENTRY_SIZE div 4; value = ucast (entry ! word)
        in if sz = 8 \<and> even word then value OR push_bit 32 (ucast (entry ! Suc word)) else value)"

definition msix_write :: "msix \<Rightarrow> u64 \<Rightarrow> u8 \<Rightarrow> u64 \<Rightarrow> msix" where
  "msix_write m off sz v =
     (if \<not> in_table m off then m
      else
        let rel = unat off - unat (table_offset m); vector = rel div MSIX_ENTRY_SIZE;
            word = rel mod MSIX_ENTRY_SIZE div 4;
            entry = (msix_table m ! vector)[word := ucast v];
            entry = (if sz = 8 \<and> even word then entry[Suc word := ucast (drop_bit 32 v)] else entry)
        in m\<lparr>msix_table := (msix_table m)[vector := entry]\<rparr>)"

definition msix_signal :: "msix \<Rightarrow> u16 \<Rightarrow> bool" where
  "msix_signal m vector = False"

section \<open>The table\<close>

definition msix_inv :: "msix \<Rightarrow> bool" where
  "msix_inv m \<longleftrightarrow> msix_table m \<noteq> [] \<and> length (msix_table m) < 2 ^ 16 \<and> (\<forall>e \<in> set (msix_table m). length e = 4)"

lemma msix_new_inv: "msix_inv (msix_new vectors bar table pba)"
proof -
  have "unat vectors < 2 ^ LENGTH(16)" by (rule unsigned_less)
  moreover have "unat (max vectors 1) = max (unat vectors) 1"
    by (auto simp: max_def word_le_nat_alt)
  ultimately show ?thesis by (auto simp: msix_inv_def msix_new_def)
qed

text \<open>No access indexes past the table: a claimed offset names an entry and a word of it.\<close>

lemma in_table_index:
  assumes "in_table m off" "msix_inv m"
  defines "rel \<equiv> unat off - unat (table_offset m)"
  shows "rel div MSIX_ENTRY_SIZE < length (msix_table m)"
    and "length (msix_table m ! (rel div MSIX_ENTRY_SIZE)) = 4"
    and "rel mod MSIX_ENTRY_SIZE div 4 < 4"
    and "even (rel mod MSIX_ENTRY_SIZE div 4) \<Longrightarrow> Suc (rel mod MSIX_ENTRY_SIZE div 4) < 4"
proof -
  have "rel < length (msix_table m) * 16"
    using assms(1) by (auto simp: in_table_def table_len_def MSIX_ENTRY_SIZE_def rel_def)
  then show *: "rel div MSIX_ENTRY_SIZE < length (msix_table m)"
    by (simp add: MSIX_ENTRY_SIZE_def div_less_iff_less_mult)
  then show "length (msix_table m ! (rel div MSIX_ENTRY_SIZE)) = 4"
    using assms(2) by (simp add: msix_inv_def)
  show w: "rel mod MSIX_ENTRY_SIZE div 4 < 4" by (simp add: MSIX_ENTRY_SIZE_def)
  have even: "k < 4 \<Longrightarrow> even k \<Longrightarrow> Suc k < 4" for k :: nat by presburger
  show "Suc (rel mod MSIX_ENTRY_SIZE div 4) < 4" if "even (rel mod MSIX_ENTRY_SIZE div 4)"
    using even [OF w that] .
qed

lemma msix_write_fields [simp]:
  "msix_bar (msix_write m off sz v) = msix_bar m" "table_offset (msix_write m off sz v) = table_offset m"
  "pba_offset (msix_write m off sz v) = pba_offset m" "msix_cap (msix_write m off sz v) = msix_cap m"
  "msix_enabled (msix_write m off sz v) = msix_enabled m"
  "length (msix_table (msix_write m off sz v)) = length (msix_table m)"
  "in_table (msix_write m off sz v) off' = in_table m off'"
  by (simp_all add: msix_write_def Let_def in_table_def table_len_def)

lemma msix_write_inv:
  assumes "msix_inv m"
  shows "msix_inv (msix_write m off sz v)"
proof (cases "in_table m off")
  case True
  from in_table_index [OF True assms] assms show ?thesis
    by (auto simp: msix_inv_def msix_write_def Let_def dest!: set_update_subset_insert [THEN subsetD])
next
  case False
  with assms show ?thesis by (simp add: msix_write_def)
qed

lemma msix_sync_inv: "msix_inv (msix_sync m c) = msix_inv m"
  by (simp add: msix_sync_def msix_inv_def split: option.split)

text \<open>A word written is read back; a quad word at an even word is read back whole.\<close>

lemma msix_read_back:
  assumes "msix_inv m" "in_table m off"
  shows "msix_read (msix_write m off 4 v) off 4 = ucast (ucast v :: u32)"
    and "even ((unat off - unat (table_offset m)) mod MSIX_ENTRY_SIZE div 4) \<Longrightarrow> msix_read (msix_write m off 8 v) off 8 = v"
proof -
  note i = in_table_index [OF assms(2,1)]
  show "msix_read (msix_write m off 4 v) off 4 = ucast (ucast v :: u32)"
    using i assms(2) by (simp add: msix_read_def Let_def) (simp add: msix_write_def Let_def)
  assume "even ((unat off - unat (table_offset m)) mod MSIX_ENTRY_SIZE div 4)"
  moreover have "(ucast (ucast v :: u32) :: u64) OR push_bit 32 (ucast (ucast (drop_bit 32 v) :: u32)) = v"
    by (rule bit_word_eqI) (auto simp: bit_simps)
  ultimately show "msix_read (msix_write m off 8 v) off 8 = v"
    using i assms(2) by (simp add: msix_read_def Let_def) (simp add: msix_write_def Let_def)
qed

end
