(* ===== verification/Virtio_Irq.thy ===== *)
theory Virtio_Irq
  imports Prelude
begin

text \<open>
  The interrupt line of a virtio transport, \<open>ternvale-devices/src/virtio/irq.rs\<close>: status bits that device
  threads raise and the vCPU acknowledges, and a level the line hook was last given.

  The first part models each method as it runs alone. The second part models threads that run the methods
  concurrently, one atomic operation or one critical section entry, load and exit at a time, and shows
  that the line is never left at the wrong level once the threads are done.
\<close>

section \<open>The methods, run alone\<close>

text \<open>\<open>irq_calls\<close> records the levels given to the hook, oldest first.\<close>

record virtio_irq =
  irq_bits :: u32
  irq_hook :: bool
  irq_level :: bool
  irq_calls :: "bool list"

definition irq_new :: virtio_irq where
  "irq_new = \<lparr>irq_bits = 0, irq_hook = False, irq_level = False, irq_calls = []\<rparr>"

text \<open>The critical section of \<open>sync_line\<close> after the load of the bits.\<close>

definition drive_line :: "bool \<Rightarrow> virtio_irq \<Rightarrow> virtio_irq" where
  "drive_line level irq =
     (if irq_level irq = level then irq
      else if \<not> irq_hook irq then irq
      else irq\<lparr>irq_level := level, irq_calls := irq_calls irq @ [level]\<rparr>)"

definition sync_line :: "virtio_irq \<Rightarrow> virtio_irq" where
  "sync_line irq = drive_line (irq_bits irq \<noteq> 0) irq"

definition irq_set_hook :: "virtio_irq \<Rightarrow> virtio_irq" where
  "irq_set_hook irq = sync_line (irq\<lparr>irq_hook := True\<rparr>)"

definition irq_status :: "virtio_irq \<Rightarrow> u32" where
  "irq_status irq = irq_bits irq"

definition irq_raise :: "u32 \<Rightarrow> virtio_irq \<Rightarrow> virtio_irq" where
  "irq_raise b irq =
     (let bits = b AND 3 in
      if bits = 0 then irq
      else let prev = irq_bits irq; irq' = irq\<lparr>irq_bits := prev OR bits\<rparr>
           in if prev = 0 then sync_line irq' else irq')"

text \<open>Alone, the compare-and-exchange of \<open>ack\<close> succeeds the first time.\<close>

definition irq_ack :: "u32 \<Rightarrow> virtio_irq \<Rightarrow> virtio_irq" where
  "irq_ack b irq =
     (let bits = b AND 3; prev = irq_bits irq; nxt = prev AND NOT bits; irq' = irq\<lparr>irq_bits := nxt\<rparr>
      in if prev \<noteq> 0 \<and> nxt = 0 then sync_line irq' else irq')"

definition irq_inv :: "virtio_irq \<Rightarrow> bool" where
  "irq_inv irq \<longleftrightarrow>
     irq_bits irq AND 3 = irq_bits irq \<and> (irq_hook irq \<longrightarrow> irq_level irq = (irq_bits irq \<noteq> 0)) \<and>
     (\<not> irq_hook irq \<longrightarrow> \<not> irq_level irq)"

lemma irq_new_inv: "irq_inv irq_new"
  by (simp add: irq_inv_def irq_new_def)

lemma and_or_distrib_3: "(x OR (y AND 3)) AND 3 = (x AND 3) OR (y AND (3 :: u32))"
  by (rule bit_eqI) (auto simp: bit_and_iff bit_or_iff)

lemma and_and_3: "x AND 3 = x \<Longrightarrow> (x AND y) AND 3 = x AND (y :: u32)"
  by (metis and.assoc and.commute)

lemma or_zero_iff [simp]: "x OR y = 0 \<longleftrightarrow> x = 0 \<and> y = (0 :: 'a::len word)"
  by (auto simp: bit_eq_iff bit_or_iff)

lemma irq_set_hook_inv: "irq_inv irq \<Longrightarrow> irq_inv (irq_set_hook irq)"
  by (auto simp: irq_inv_def irq_set_hook_def sync_line_def drive_line_def)

lemma irq_raise_inv: "irq_inv irq \<Longrightarrow> irq_inv (irq_raise b irq)"
  by (auto simp: irq_inv_def irq_raise_def sync_line_def drive_line_def Let_def and_or_distrib_3)

lemma irq_ack_inv: "irq_inv irq \<Longrightarrow> irq_inv (irq_ack b irq)"
  by (auto simp: irq_inv_def irq_ack_def sync_line_def drive_line_def Let_def and_and_3)

lemma irq_raise_bits: "irq_bits (irq_raise b irq) = irq_bits irq OR (b AND 3)"
  by (simp add: irq_raise_def sync_line_def drive_line_def Let_def)

lemma irq_ack_bits: "irq_bits (irq_ack b irq) = irq_bits irq AND NOT (b AND 3)"
  by (simp add: irq_ack_def sync_line_def drive_line_def Let_def)

section \<open>Threads\<close>

text \<open>
  Where a thread is: outside, after the load of \<open>ack b\<close> with the value it saw, about to enter
  \<open>sync_line\<close>, inside it before the load, and inside it with the level it computed. \<open>sys_lock\<close> is the
  owner of the \<open>line\<close> mutex.
\<close>

datatype irq_pc = Outside | AckLoaded u32 u32 | NeedSync | InLock | Computed bool

record irq_sys =
  sys_irq :: virtio_irq
  sys_lock :: "nat option"
  sys_pc :: "nat \<Rightarrow> irq_pc"

definition irq_sys_init :: irq_sys where
  "irq_sys_init = \<lparr>sys_irq = irq_new, sys_lock = None, sys_pc = (\<lambda>_. Outside)\<rparr>"

inductive irq_step :: "irq_sys \<Rightarrow> irq_sys \<Rightarrow> bool" where
  raise: "sys_pc s t = Outside \<Longrightarrow> b AND 3 \<noteq> 0 \<Longrightarrow> prev = irq_bits (sys_irq s) \<Longrightarrow>
    irq_step s (s\<lparr>sys_irq := (sys_irq s)\<lparr>irq_bits := prev OR (b AND 3)\<rparr>,
                  sys_pc := (sys_pc s)(t := (if prev = 0 then NeedSync else Outside))\<rparr>)"
| ack_load: "sys_pc s t = Outside \<Longrightarrow>
    irq_step s (s\<lparr>sys_pc := (sys_pc s)(t := AckLoaded (b AND 3) (irq_bits (sys_irq s)))\<rparr>)"
| ack_retry: "sys_pc s t = AckLoaded bits prev \<Longrightarrow> irq_bits (sys_irq s) \<noteq> prev \<Longrightarrow>
    irq_step s (s\<lparr>sys_pc := (sys_pc s)(t := AckLoaded bits (irq_bits (sys_irq s)))\<rparr>)"
| ack_store: "sys_pc s t = AckLoaded bits prev \<Longrightarrow> irq_bits (sys_irq s) = prev \<Longrightarrow>
    nxt = prev AND NOT bits \<Longrightarrow>
    irq_step s (s\<lparr>sys_irq := (sys_irq s)\<lparr>irq_bits := nxt\<rparr>,
                  sys_pc := (sys_pc s)(t := (if prev \<noteq> 0 \<and> nxt = 0 then NeedSync else Outside))\<rparr>)"
| hook: "sys_pc s t = Outside \<Longrightarrow> sys_lock s = None \<Longrightarrow>
    irq_step s (s\<lparr>sys_irq := (sys_irq s)\<lparr>irq_hook := True\<rparr>, sys_pc := (sys_pc s)(t := NeedSync)\<rparr>)"
| sync_lock: "sys_pc s t = NeedSync \<Longrightarrow> sys_lock s = None \<Longrightarrow>
    irq_step s (s\<lparr>sys_lock := Some t, sys_pc := (sys_pc s)(t := InLock)\<rparr>)"
| sync_load: "sys_pc s t = InLock \<Longrightarrow>
    irq_step s (s\<lparr>sys_pc := (sys_pc s)(t := Computed (irq_bits (sys_irq s) \<noteq> 0))\<rparr>)"
| sync_drive: "sys_pc s t = Computed level \<Longrightarrow>
    irq_step s (s\<lparr>sys_irq := drive_line level (sys_irq s), sys_lock := None,
                  sys_pc := (sys_pc s)(t := Outside)\<rparr>)"

definition pending :: "irq_sys \<Rightarrow> bool" where
  "pending s \<longleftrightarrow> irq_bits (sys_irq s) \<noteq> 0"

text \<open>
  The lock is held exactly by the thread inside; a thread that computed a level out of date is followed
  by another that will enter; and a line at the wrong level has a thread on its way to correct it.
\<close>

definition inside :: "irq_pc \<Rightarrow> bool" where
  "inside pc \<longleftrightarrow> pc = InLock \<or> pc = Computed True \<or> pc = Computed False"

definition waiting :: "(nat \<Rightarrow> irq_pc) \<Rightarrow> bool" where
  "waiting pcs \<longleftrightarrow> (\<exists>t. pcs t = NeedSync)"

definition line_inv :: "nat option \<Rightarrow> (nat \<Rightarrow> irq_pc) \<Rightarrow> bool \<Rightarrow> bool \<Rightarrow> bool" where
  "line_inv lock pcs pend wrong \<longleftrightarrow>
     (\<forall>t. (lock = Some t) = inside (pcs t)) \<and>
     ((\<exists>t. pcs t = Computed (\<not> pend)) \<longrightarrow> waiting pcs) \<and>
     (wrong \<longrightarrow> waiting pcs \<or> (\<exists>t. pcs t = InLock) \<or> (\<exists>t. pcs t = Computed pend))"

definition sys_inv :: "irq_sys \<Rightarrow> bool" where
  "sys_inv s \<longleftrightarrow> line_inv (sys_lock s) (sys_pc s) (pending s)
     (irq_hook (sys_irq s) \<and> irq_level (sys_irq s) \<noteq> pending s)"

text \<open>The hook sees edges only: its calls alternate, start with a rise and end at the current level.\<close>

definition calls_inv :: "virtio_irq \<Rightarrow> bool" where
  "calls_inv irq \<longleftrightarrow>
     successively (\<noteq>) (irq_calls irq) \<and>
     (irq_calls irq \<noteq> [] \<longrightarrow> hd (irq_calls irq)) \<and>
     irq_level irq = (irq_calls irq \<noteq> [] \<and> last (irq_calls irq))"

lemma drive_line_calls: "calls_inv irq \<Longrightarrow> calls_inv (drive_line level irq)"
  by (cases "irq_calls irq = []") (auto simp: calls_inv_def drive_line_def successively_append_iff)

lemma irq_step_calls: "irq_step s s' \<Longrightarrow> calls_inv (sys_irq s) \<Longrightarrow> calls_inv (sys_irq s')"
  by (induction rule: irq_step.induct) (auto simp: drive_line_calls, auto simp: calls_inv_def)

lemma sys_inv_init: "sys_inv irq_sys_init"
  by (simp add: sys_inv_def line_inv_def inside_def irq_sys_init_def irq_new_def pending_def)

lemma ex_update:
  "\<not> P (f t) \<Longrightarrow> (\<exists>u. P ((f(t := x)) u)) \<longleftrightarrow> P x \<or> (\<exists>u. P (f u))"
  by (metis fun_upd_apply)

text \<open>How the invariant moves when a thread does: to \<open>NeedSync\<close>, or between places outside.\<close>

lemma line_inv_wait:
  assumes "line_inv lock pcs pend wrong" and "\<not> inside (pcs t)"
  shows "line_inv lock (pcs(t := NeedSync)) pend' wrong'"
  using assms by (auto simp: line_inv_def waiting_def inside_def)

lemma line_inv_outside:
  assumes "line_inv lock pcs pend wrong" and "\<not> inside (pcs t)" and "pcs t \<noteq> NeedSync"
    and "\<not> inside x" and "x \<noteq> NeedSync"
  shows "line_inv lock (pcs(t := x)) pend wrong"
proof -
  have "inside ((pcs(t := x)) u) = inside (pcs u)" for u
    using assms(2,4) by simp
  moreover have "(\<exists>u. (pcs(t := x)) u = y) = (\<exists>u. pcs u = y)" if "y = NeedSync \<or> inside y" for y
    using assms that by (subst ex_update [of "\<lambda>z. z = y"]) auto
  ultimately show ?thesis
    using assms(1) by (cases pend) (simp_all add: line_inv_def waiting_def inside_def)
qed

lemma drive_line_simps [simp]:
  "irq_bits (drive_line l irq) = irq_bits irq" "irq_hook (drive_line l irq) = irq_hook irq"
  "irq_level (drive_line l irq) = (if irq_hook irq then l else irq_level irq)"
  by (auto simp: drive_line_def)

lemma sys_inv_step: "irq_step s s' \<Longrightarrow> sys_inv s \<Longrightarrow> sys_inv s'"
proof (induction rule: irq_step.induct)
  case (raise s t b prev)
  then have out: "\<not> inside (sys_pc s t)" "sys_pc s t \<noteq> NeedSync" by (simp_all add: inside_def)
  show ?case
  proof (cases "prev = 0")
    case True
    with raise line_inv_wait out show ?thesis by (auto simp: sys_inv_def)
  next
    case False
    with raise line_inv_outside [where pcs = "sys_pc s" and t = t and x = Outside, OF _ out] show ?thesis
      by (auto simp: sys_inv_def pending_def inside_def)
  qed
next
  case (ack_load s t b)
  then have out: "\<not> inside (sys_pc s t)" "sys_pc s t \<noteq> NeedSync" by (simp_all add: inside_def)
  from line_inv_outside [where pcs = "sys_pc s" and t = t, OF _ out] ack_load.prems show ?case
    by (simp add: sys_inv_def pending_def inside_def)
next
  case (ack_retry s t bits prev)
  then have out: "\<not> inside (sys_pc s t)" "sys_pc s t \<noteq> NeedSync" by (simp_all add: inside_def)
  from line_inv_outside [where pcs = "sys_pc s" and t = t, OF _ out] ack_retry.prems show ?case
    by (simp add: sys_inv_def pending_def inside_def)
next
  case (ack_store s t bits prev nxt)
  then have out: "\<not> inside (sys_pc s t)" "sys_pc s t \<noteq> NeedSync" by (simp_all add: inside_def)
  show ?case
  proof (cases "prev \<noteq> 0 \<and> nxt = 0")
    case True
    with ack_store line_inv_wait out show ?thesis by (auto simp: sys_inv_def)
  next
    case False
    with ack_store.hyps have "(nxt \<noteq> 0) = (prev \<noteq> 0)" by auto
    with False ack_store line_inv_outside [where pcs = "sys_pc s" and t = t and x = Outside, OF _ out] show ?thesis
      by (auto simp: sys_inv_def pending_def inside_def)
  qed
next
  case (hook s t)
  with line_inv_wait show ?case by (auto simp: sys_inv_def inside_def)
next
  case (sync_lock s t)
  then have none: "\<not> inside (sys_pc s u)" for u by (auto simp: sys_inv_def line_inv_def)
  have "sys_pc s u \<noteq> InLock" and "sys_pc s u \<noteq> Computed l" for u l
    using none [of u] by (cases l; simp add: inside_def)+
  with sync_lock show ?case
    by (auto simp: sys_inv_def line_inv_def pending_def inside_def)
next
  case (sync_load s t)
  then have lock: "(sys_lock s = Some u) = inside (sys_pc s u)" for u
    by (simp add: sys_inv_def line_inv_def)
  have mine: "inside (sys_pc s t)" using sync_load.hyps by (simp add: inside_def)
  have "sys_pc s u \<noteq> Computed l" if "u \<noteq> t" for u l
    using lock [of t] lock [of u] mine that by (cases l) (auto simp: inside_def)
  then have "line_inv (sys_lock s) ((sys_pc s)(t := Computed (pending s))) (pending s) wrong" for wrong
    using lock mine by (cases "pending s") (auto simp: line_inv_def inside_def)
  then show ?case by (simp add: sys_inv_def pending_def)
next
  case (sync_drive s t level)
  note inv = sync_drive.prems [unfolded sys_inv_def line_inv_def]
  have mine: "inside (sys_pc s t)" using sync_drive.hyps by (cases level) (simp_all add: inside_def)
  then have lock: "sys_lock s = Some t" using inv by blast
  have others: "\<not> inside (((sys_pc s)(t := Outside)) u)" for u
  proof (cases "u = t")
    case False
    with inv lock show ?thesis by (metis fun_upd_apply option.inject)
  qed (simp add: inside_def)
  have "((sys_pc s)(t := Outside)) u \<noteq> InLock" and "((sys_pc s)(t := Outside)) u \<noteq> Computed l" for u l
    using others [of u] by (cases l; simp add: inside_def del: fun_upd_apply)+
  moreover have "waiting ((sys_pc s)(t := Outside))" if "level \<noteq> pending s"
  proof -
    from that sync_drive.hyps have "sys_pc s t = Computed (\<not> pending s)" by (cases level) auto
    with inv obtain u where u: "sys_pc s u = NeedSync" unfolding waiting_def by blast
    with sync_drive.hyps have "u \<noteq> t" by auto
    with u show ?thesis unfolding waiting_def by (intro exI [of _ u]) simp
  qed
  ultimately have "line_inv None ((sys_pc s)(t := Outside)) (pending s)
      (irq_hook (sys_irq s) \<and> level \<noteq> pending s)"
    unfolding line_inv_def using others by blast
  moreover have "pending (s\<lparr>sys_irq := drive_line level (sys_irq s), sys_lock := None,
      sys_pc := (sys_pc s)(t := Outside)\<rparr>) = pending s"
    by (simp add: pending_def)
  ultimately show ?case by (simp add: sys_inv_def cong: conj_cong)
qed

lemma reachable_inv: "irq_step\<^sup>*\<^sup>* irq_sys_init s \<Longrightarrow> sys_inv s \<and> calls_inv (sys_irq s)"
proof (induction rule: rtranclp_induct)
  case base
  show ?case using sys_inv_init by (simp add: calls_inv_def irq_sys_init_def irq_new_def)
next
  case (step s s')
  then show ?case using sys_inv_step irq_step_calls by blast
qed

text \<open>No thread is stuck: as long as one has something to do, some step of a busy thread is possible.\<close>

lemma busy_stepI:
  "irq_step s s' \<Longrightarrow> sys_pc s u \<noteq> Outside \<Longrightarrow> (\<And>v. v \<noteq> u \<Longrightarrow> sys_pc s' v = sys_pc s v) \<Longrightarrow>
   \<exists>u s'. sys_pc s u \<noteq> Outside \<and> irq_step s s' \<and> (\<forall>v. v \<noteq> u \<longrightarrow> sys_pc s' v = sys_pc s v)"
  by blast

lemma busy_progress:
  assumes "sys_inv s" and "sys_pc s t \<noteq> Outside"
  shows "\<exists>u s'. sys_pc s u \<noteq> Outside \<and> irq_step s s' \<and> (\<forall>v. v \<noteq> u \<longrightarrow> sys_pc s' v = sys_pc s v)"
proof (cases "sys_lock s")
  case (Some u)
  then have "inside (sys_pc s u)" using assms(1) unfolding sys_inv_def line_inv_def by blast
  then consider "sys_pc s u = InLock" | l where "sys_pc s u = Computed l" by (auto simp: inside_def)
  then show ?thesis
  proof cases
    case 1
    show ?thesis by (rule busy_stepI [where u = u, OF irq_step.sync_load [of s u, OF 1]]) (simp_all add: 1)
  next
    case 2
    show ?thesis by (rule busy_stepI [where u = u, OF irq_step.sync_drive [of s u, OF 2]]) (simp_all add: 2)
  qed
next
  case None
  then have out: "\<not> inside (sys_pc s t)" using assms(1) by (auto simp: sys_inv_def line_inv_def)
  show ?thesis
  proof (cases "sys_pc s t")
    case (AckLoaded b p)
    show ?thesis
    proof (cases "irq_bits (sys_irq s) = p")
      case True
      show ?thesis
        by (rule busy_stepI [where u = t, OF irq_step.ack_store [of s t b p, OF AckLoaded True refl]]) (simp_all add: AckLoaded)
    next
      case False
      show ?thesis
        by (rule busy_stepI [where u = t, OF irq_step.ack_retry [of s t b p, OF AckLoaded False]]) (simp_all add: AckLoaded)
    qed
  next
    case NeedSync
    show ?thesis
      by (rule busy_stepI [where u = t, OF irq_step.sync_lock [of s t, OF NeedSync None]]) (simp_all add: NeedSync)
  next
    case (Computed l)
    with out show ?thesis by (cases l) (simp_all add: inside_def)
  qed (use assms(2) out in \<open>simp_all add: inside_def\<close>)
qed

text \<open>A method run alone is a run of its thread from outside to outside.\<close>

lemma sync_line_runs:
  assumes "sys_pc s t = NeedSync" and "sys_lock s = None"
  shows "irq_step\<^sup>*\<^sup>* s (s\<lparr>sys_irq := sync_line (sys_irq s), sys_pc := (sys_pc s)(t := Outside)\<rparr>)"
proof -
  let ?s1 = "s\<lparr>sys_lock := Some t, sys_pc := (sys_pc s)(t := InLock)\<rparr>"
  let ?s2 = "?s1\<lparr>sys_pc := (sys_pc ?s1)(t := Computed (irq_bits (sys_irq ?s1) \<noteq> 0))\<rparr>"
  let ?s3 = "?s2\<lparr>sys_irq := drive_line (irq_bits (sys_irq s) \<noteq> 0) (sys_irq ?s2), sys_lock := None,
    sys_pc := (sys_pc ?s2)(t := Outside)\<rparr>"
  have a: "irq_step s ?s1" using assms by (rule irq_step.sync_lock)
  have b: "irq_step ?s1 ?s2" by (rule irq_step.sync_load) simp
  have c: "irq_step ?s2 ?s3" by (rule irq_step.sync_drive) simp
  have "irq_step\<^sup>*\<^sup>* s ?s3"
    by (rule converse_rtranclp_into_rtranclp [OF a converse_rtranclp_into_rtranclp [OF b r_into_rtranclp [of irq_step, OF c]]])
  moreover have "?s3 = s\<lparr>sys_irq := sync_line (sys_irq s), sys_pc := (sys_pc s)(t := Outside)\<rparr>"
    using assms(2) by (cases s) (simp add: sync_line_def)
  ultimately show ?thesis by simp
qed

lemma irq_raise_runs:
  assumes "sys_pc s t = Outside" and "sys_lock s = None"
  shows "irq_step\<^sup>*\<^sup>* s (s\<lparr>sys_irq := irq_raise b (sys_irq s)\<rparr>)"
proof (cases "b AND 3 = 0")
  case True
  then show ?thesis by (simp add: irq_raise_def)
next
  case False
  have idle: "(sys_pc s)(t := Outside) = sys_pc s" using assms(1) by auto
  note one = irq_step.raise [OF assms(1) False refl]
  show ?thesis
  proof (cases "irq_bits (sys_irq s) = 0")
    case True
    let ?s1 = "s\<lparr>sys_irq := (sys_irq s)\<lparr>irq_bits := b AND 3\<rparr>, sys_pc := (sys_pc s)(t := NeedSync)\<rparr>"
    have a: "irq_step s ?s1" using one True by simp
    have "irq_step\<^sup>*\<^sup>* ?s1 (?s1\<lparr>sys_irq := sync_line (sys_irq ?s1), sys_pc := (sys_pc ?s1)(t := Outside)\<rparr>)"
      using assms(2) by (intro sync_line_runs) simp_all
    from converse_rtranclp_into_rtranclp [of irq_step, OF a this] show ?thesis
      using True False idle by (simp add: irq_raise_def)
  next
    case nz: False
    with one idle False show ?thesis by (simp add: irq_raise_def Let_def r_into_rtranclp)
  qed
qed

lemma irq_ack_runs:
  assumes "sys_pc s t = Outside" and "sys_lock s = None"
  shows "irq_step\<^sup>*\<^sup>* s (s\<lparr>sys_irq := irq_ack b (sys_irq s)\<rparr>)"
proof -
  have idle: "(sys_pc s)(t := Outside) = sys_pc s" using assms(1) by auto
  let ?prev = "irq_bits (sys_irq s)" and ?nxt = "irq_bits (sys_irq s) AND NOT (b AND 3)"
  let ?s1 = "s\<lparr>sys_pc := (sys_pc s)(t := AckLoaded (b AND 3) ?prev)\<rparr>"
  let ?s2 = "?s1\<lparr>sys_irq := (sys_irq ?s1)\<lparr>irq_bits := ?nxt\<rparr>,
    sys_pc := (sys_pc ?s1)(t := (if ?prev \<noteq> 0 \<and> ?nxt = 0 then NeedSync else Outside))\<rparr>"
  have a: "irq_step s ?s1" using assms(1) by (rule irq_step.ack_load)
  have b: "irq_step ?s1 ?s2" by (rule irq_step.ack_store [where bits = "b AND 3" and prev = ?prev, OF _ _ refl]) simp_all
  have two: "irq_step\<^sup>*\<^sup>* s ?s2"
    by (rule converse_rtranclp_into_rtranclp [OF a r_into_rtranclp [of irq_step, OF b]])
  show ?thesis
  proof (cases "?prev \<noteq> 0 \<and> ?nxt = 0")
    case True
    have "irq_step\<^sup>*\<^sup>* ?s2 (?s2\<lparr>sys_irq := sync_line (sys_irq ?s2), sys_pc := (sys_pc ?s2)(t := Outside)\<rparr>)"
      using assms(2) True by (intro sync_line_runs) simp_all
    with two have "irq_step\<^sup>*\<^sup>* s (?s2\<lparr>sys_irq := sync_line (sys_irq ?s2), sys_pc := (sys_pc ?s2)(t := Outside)\<rparr>)"
      by (rule rtranclp_trans)
    then show ?thesis using True idle by (simp add: irq_ack_def Let_def)
  next
    case False
    with two idle show ?thesis by (auto simp: irq_ack_def Let_def)
  qed
qed

lemma irq_set_hook_runs:
  assumes "sys_pc s t = Outside" and "sys_lock s = None"
  shows "irq_step\<^sup>*\<^sup>* s (s\<lparr>sys_irq := irq_set_hook (sys_irq s)\<rparr>)"
proof -
  have idle: "(sys_pc s)(t := Outside) = sys_pc s" using assms(1) by auto
  let ?s1 = "s\<lparr>sys_irq := (sys_irq s)\<lparr>irq_hook := True\<rparr>, sys_pc := (sys_pc s)(t := NeedSync)\<rparr>"
  have a: "irq_step s ?s1" using assms by (rule irq_step.hook)
  have "irq_step\<^sup>*\<^sup>* ?s1 (?s1\<lparr>sys_irq := sync_line (sys_irq ?s1), sys_pc := (sys_pc ?s1)(t := Outside)\<rparr>)"
    using assms(2) by (intro sync_line_runs) simp_all
  from converse_rtranclp_into_rtranclp [of irq_step, OF a this] show ?thesis
    using idle by (simp add: irq_set_hook_def)
qed

section \<open>Properties\<close>

text \<open>
  C25. Under every interleaving of threads that raise, acknowledge and install hooks, once all of them are
  outside the methods a hooked line is high exactly when an interrupt is pending, and the hook has been
  called on alternating levels only, starting with a rise and ending with the current level.
\<close>

theorem virtio_irq_no_lost_interrupt:
  assumes "irq_step\<^sup>*\<^sup>* irq_sys_init s" and "\<forall>t. sys_pc s t = Outside" and "irq_hook (sys_irq s)"
  shows "irq_level (sys_irq s) = (irq_bits (sys_irq s) \<noteq> 0) \<and>
    successively (\<noteq>) (irq_calls (sys_irq s)) \<and>
    irq_level (sys_irq s) = (irq_calls (sys_irq s) \<noteq> [] \<and> last (irq_calls (sys_irq s)))"
  using reachable_inv [OF assms(1)] assms(2,3)
  by (auto simp: sys_inv_def line_inv_def waiting_def pending_def calls_inv_def)

theorem virtio_irq_no_lost_interrupt_witness:
  "\<exists>s. irq_step\<^sup>*\<^sup>* irq_sys_init s \<and> (\<forall>t. sys_pc s t = Outside) \<and> irq_hook (sys_irq s) \<and> irq_level (sys_irq s)"
proof -
  let ?s0 = irq_sys_init
  let ?s1 = "?s0\<lparr>sys_irq := irq_set_hook (sys_irq ?s0)\<rparr>"
  let ?s2 = "?s1\<lparr>sys_irq := irq_raise 1 (sys_irq ?s1)\<rparr>"
  have "irq_step\<^sup>*\<^sup>* ?s0 ?s1"
    by (rule irq_set_hook_runs [of _ 0]) (simp_all add: irq_sys_init_def)
  also have "irq_step\<^sup>*\<^sup>* ?s1 ?s2"
    by (rule irq_raise_runs [of _ 0]) (simp_all add: irq_sys_init_def)
  finally have reach: "irq_step\<^sup>*\<^sup>* irq_sys_init ?s2" .
  have idle: "\<forall>t. sys_pc ?s2 t = Outside" by (simp add: irq_sys_init_def)
  have shared: "sys_irq ?s2 = \<lparr>irq_bits = 1, irq_hook = True, irq_level = True, irq_calls = [True]\<rparr>"
    by (simp add: irq_sys_init_def irq_new_def irq_set_hook_def irq_raise_def sync_line_def drive_line_def Let_def)
  then have hook: "irq_hook (sys_irq ?s2)" and bits: "irq_bits (sys_irq ?s2) \<noteq> 0" by simp_all
  from virtio_irq_no_lost_interrupt [OF reach idle hook] bits have "irq_level (sys_irq ?s2)" by simp
  with reach idle hook show ?thesis by blast
qed

text \<open>
  In every reachable state with a busy thread, a step of some busy thread is possible that leaves the
  other threads where they are: the threads cannot block one another for good.
\<close>

lemma virtio_irq_progress:
  assumes "irq_step\<^sup>*\<^sup>* irq_sys_init s" and "sys_pc s t \<noteq> Outside"
  shows "\<exists>u s'. sys_pc s u \<noteq> Outside \<and> irq_step s s' \<and> (\<forall>v. v \<noteq> u \<longrightarrow> sys_pc s' v = sys_pc s v)"
  using busy_progress reachable_inv [OF assms(1)] assms(2) by blast

end
