(* ===== verification/Virtio_Core.thy ===== *)
theory Virtio_Core
  imports Virtio_Irq
begin

text \<open>
  The state both virtio transports share, \<open>ternvale-devices/src/virtio/core.rs\<close> with \<open>core/status.rs\<close> and
  \<open>core/queue.rs\<close>: negotiated features, the status register, the configured queues and the interrupt.

  A device is the trait \<open>VirtioDevice\<close> of \<open>virtio.rs\<close>: what it answers is the record \<open>virtio_device\<close>, a parameter
  of the core, and the calls the core makes on it are recorded in \<open>vc_calls\<close>, oldest first. The status
  register is shown to refine a machine of five phases.
\<close>

section \<open>Data\<close>

definition VIRTIO_F_VERSION_1 :: u64 where "VIRTIO_F_VERSION_1 = 0x100000000"

definition VIRTIO_F_INDIRECT_DESC :: u64 where "VIRTIO_F_INDIRECT_DESC = 0x10000000"

definition VIRTIO_F_EVENT_IDX :: u64 where "VIRTIO_F_EVENT_IDX = 0x20000000"

definition STATUS_ACKNOWLEDGE :: u32 where "STATUS_ACKNOWLEDGE = 1"

definition STATUS_DRIVER :: u32 where "STATUS_DRIVER = 2"

definition STATUS_DRIVER_OK :: u32 where "STATUS_DRIVER_OK = 4"

definition STATUS_FEATURES_OK :: u32 where "STATUS_FEATURES_OK = 8"

definition STATUS_FAILED :: u32 where "STATUS_FAILED = 128"

lemmas status_bit_defs =
  STATUS_ACKNOWLEDGE_def STATUS_DRIVER_def STATUS_DRIVER_OK_def STATUS_FEATURES_OK_def STATUS_FAILED_def

record queue_notify =
  qn_index :: u16
  qn_size :: u16
  qn_desc :: u64
  qn_avail :: u64
  qn_used :: u64
  qn_features :: u64

record virtio_device =
  device_id :: u32
  vendor_id :: u32
  device_features :: u64
  num_queues :: u16
  queue_num_max :: "u16 \<Rightarrow> u16"
  read_config :: "u64 \<Rightarrow> u8 \<Rightarrow> u64"
  config_generation :: u32

datatype device_call =
    Notify queue_notify
  | StatusChanged u32
  | WriteConfig u64 u8 u64

text \<open>\<open>FixedDevice\<close>: identity and queue count, the defaults of the trait for the rest.\<close>

definition fixed_device :: "u32 \<Rightarrow> u16 \<Rightarrow> virtio_device" where
  "fixed_device i queues =
     \<lparr>device_id = i, vendor_id = 0x554d4551, device_features = 0, num_queues = queues,
      queue_num_max = (\<lambda>_. 256), read_config = (\<lambda>_ _. 0), config_generation = 0\<rparr>"

record queue_cfg =
  q_num_max :: u32
  q_num :: u32
  q_ready :: bool
  q_desc :: u64
  q_driver :: u64
  q_device :: u64

datatype queue_addr = QueueDesc | QueueDriver | QueueDevice

record virtio_core =
  vc_device :: virtio_device
  driver_features :: u64
  vc_queues :: "queue_cfg list"
  vc_status :: u32
  vc_irq :: virtio_irq
  vc_calls :: "device_call list"

section \<open>Operations\<close>

definition core_new :: "virtio_device \<Rightarrow> virtio_irq \<Rightarrow> virtio_core" where
  "core_new dev irq =
     \<lparr>vc_device = dev, driver_features = 0,
      vc_queues = map (\<lambda>index. \<lparr>q_num_max = ucast (queue_num_max dev (of_nat index)), q_num = 0,
        q_ready = False, q_desc = 0, q_driver = 0, q_device = 0\<rparr>) [0..<unat (num_queues dev)],
      vc_status = 0, vc_irq = irq, vc_calls = []\<rparr>"

definition offered :: "virtio_core \<Rightarrow> u64" where
  "offered c = device_features (vc_device c) OR VIRTIO_F_VERSION_1"

definition core_queue :: "virtio_core \<Rightarrow> u32 \<Rightarrow> queue_cfg option" where
  "core_queue c index = (if unat index < length (vc_queues c) then Some (vc_queues c ! unat index) else None)"

definition update_queue :: "virtio_core \<Rightarrow> u32 \<Rightarrow> (queue_cfg \<Rightarrow> queue_cfg) \<Rightarrow> virtio_core" where
  "update_queue c index f = c\<lparr>vc_queues := (vc_queues c)[unat index := f (vc_queues c ! unat index)]\<rparr>"

definition feature_word :: "u64 \<Rightarrow> u32 \<Rightarrow> u32" where
  "feature_word features sel =
     (if sel = 0 then ucast features
      else if sel = 1 then ucast (drop_bit 32 features)
      else 0)"

definition core_call :: "device_call \<Rightarrow> virtio_core \<Rightarrow> virtio_core" where
  "core_call e c = c\<lparr>vc_calls := vc_calls c @ [e]\<rparr>"

definition write_driver_features :: "virtio_core \<Rightarrow> u32 \<Rightarrow> u32 \<Rightarrow> virtio_core" where
  "write_driver_features c sel v =
     (if vc_status c AND STATUS_FEATURES_OK \<noteq> 0 then c
      else if sel = 0 then
        c\<lparr>driver_features := (driver_features c AND NOT 0xffffffff) OR ucast v\<rparr>
      else if sel = 1 then
        c\<lparr>driver_features := (driver_features c AND 0xffffffff) OR push_bit 32 (ucast v)\<rparr>
      else c)"

definition DRIVER_STATUS_BITS :: u32 where
  "DRIVER_STATUS_BITS =
     STATUS_ACKNOWLEDGE OR STATUS_DRIVER OR STATUS_DRIVER_OK OR STATUS_FEATURES_OK OR STATUS_FAILED"

definition ACK :: u32 where "ACK = STATUS_ACKNOWLEDGE"

definition DRIVER :: u32 where "DRIVER = STATUS_ACKNOWLEDGE OR STATUS_DRIVER"

definition FEATURES :: u32 where "FEATURES = STATUS_ACKNOWLEDGE OR STATUS_DRIVER OR STATUS_FEATURES_OK"

definition DRIVER_OK :: u32 where
  "DRIVER_OK = STATUS_ACKNOWLEDGE OR STATUS_DRIVER OR STATUS_FEATURES_OK OR STATUS_DRIVER_OK"

definition status_prefix :: "u32 \<Rightarrow> bool" where
  "status_prefix s \<longleftrightarrow> s = 0 \<or> s = ACK \<or> s = DRIVER \<or> s = FEATURES \<or> s = DRIVER_OK"

definition status_step :: "u32 \<Rightarrow> nat" where
  "status_step s =
     (if s = 0 then 0 else if s = ACK then 1 else if s = DRIVER then 2
      else if s = FEATURES then 3 else if s = DRIVER_OK then 4 else 5)"

definition check_features :: "virtio_core \<Rightarrow> string + unit" where
  "check_features c =
     (if driver_features c AND NOT (offered c) \<noteq> 0
      then Inl ''driver features are not a subset of device features''
      else if driver_features c AND VIRTIO_F_VERSION_1 = 0 then Inl ''missing VIRTIO_F_VERSION_1''
      else Inr ())"

definition check_status :: "virtio_core \<Rightarrow> u32 \<Rightarrow> string + unit" where
  "check_status c requested =
     (if requested AND NOT DRIVER_STATUS_BITS \<noteq> 0 then Inl ''unknown status bit''
      else let old = vc_status c AND NOT STATUS_FAILED; new = requested AND NOT STATUS_FAILED in
        if new AND old \<noteq> old then Inl ''status bits cleared without reset''
        else if \<not> status_prefix new then Inl ''out of order''
        else if status_step old + 1 < status_step new then Inl ''skipped status step''
        else if new AND STATUS_FEATURES_OK \<noteq> 0 \<and> old AND STATUS_FEATURES_OK = 0 then check_features c
        else Inr ())"

definition core_reset :: "virtio_core \<Rightarrow> virtio_core" where
  "core_reset c =
     c\<lparr>driver_features := 0, vc_status := 0, vc_irq := irq_ack 3 (vc_irq c),
       vc_queues := map (\<lambda>q. q\<lparr>q_num := 0, q_ready := False, q_desc := 0, q_driver := 0,
                                q_device := 0\<rparr>) (vc_queues c)\<rparr>"

definition write_status :: "virtio_core \<Rightarrow> u32 \<Rightarrow> virtio_core" where
  "write_status c requested =
     (if requested = 0 then core_call (StatusChanged 0) (core_reset c)
      else case check_status c requested of
        Inl _ \<Rightarrow> c
      | Inr _ \<Rightarrow>
          if requested = vc_status c then c
          else core_call (StatusChanged requested) (c\<lparr>vc_status := requested\<rparr>))"

definition set_queue_num :: "virtio_core \<Rightarrow> u32 \<Rightarrow> u32 \<Rightarrow> virtio_core" where
  "set_queue_num c sel v =
     (case core_queue c sel of
        None \<Rightarrow> c
      | Some queue \<Rightarrow>
          if q_ready queue then c
          else if v \<noteq> 0 \<and> (q_num_max queue < v \<or> \<not> is_power_of_two v) then c
          else update_queue c sel (\<lambda>q. q\<lparr>q_num := v\<rparr>))"

definition set_queue_ready :: "virtio_core \<Rightarrow> u32 \<Rightarrow> u32 \<Rightarrow> virtio_core" where
  "set_queue_ready c sel v =
     (case core_queue c sel of
        None \<Rightarrow> c
      | Some queue \<Rightarrow>
          if v = 0 then c
          else if v \<noteq> 1 then c
          else if q_num queue = 0 \<or> q_desc queue = 0 \<or> q_driver queue = 0 \<or> q_device queue = 0 then c
          else update_queue c sel (\<lambda>q. q\<lparr>q_ready := True\<rparr>))"

definition queue_kick :: "u32 \<Rightarrow> queue_cfg \<Rightarrow> u64 \<Rightarrow> queue_notify" where
  "queue_kick index queue features =
     \<lparr>qn_index = ucast index, qn_size = ucast (q_num queue), qn_desc = q_desc queue,
      qn_avail = q_driver queue, qn_used = q_device queue, qn_features = features\<rparr>"

definition notify :: "virtio_core \<Rightarrow> u32 \<Rightarrow> virtio_core" where
  "notify c index =
     (case core_queue c index of
        None \<Rightarrow> c
      | Some queue \<Rightarrow>
          if \<not> q_ready queue then c
          else core_call (Notify (queue_kick index queue (driver_features c))) c)"

definition set_addr :: "bool \<Rightarrow> u32 \<Rightarrow> u64 \<Rightarrow> u64" where
  "set_addr high v addr =
     (if high then (addr AND 0xffffffff) OR push_bit 32 (ucast v)
      else (addr AND 0xffffffff00000000) OR ucast v)"

definition set_queue_addr :: "virtio_core \<Rightarrow> u32 \<Rightarrow> queue_addr \<Rightarrow> bool \<Rightarrow> u32 \<Rightarrow> virtio_core" where
  "set_queue_addr c sel which high v =
     (case core_queue c sel of
        None \<Rightarrow> c
      | Some queue \<Rightarrow>
          if q_ready queue then c
          else update_queue c sel (\<lambda>q.
            case which of
              QueueDesc \<Rightarrow> q\<lparr>q_desc := set_addr high v (q_desc q)\<rparr>
            | QueueDriver \<Rightarrow> q\<lparr>q_driver := set_addr high v (q_driver q)\<rparr>
            | QueueDevice \<Rightarrow> q\<lparr>q_device := set_addr high v (q_device q)\<rparr>))"

section \<open>The invariant\<close>

definition queue_ok :: "queue_cfg \<Rightarrow> bool" where
  "queue_ok q \<longleftrightarrow>
     unat (q_num_max q) < 2 ^ 16 \<and>
     (q_num q \<noteq> 0 \<longrightarrow> is_power_of_two (q_num q) \<and> q_num q \<le> q_num_max q) \<and>
     (q_ready q \<longrightarrow> q_num q \<noteq> 0 \<and> q_desc q \<noteq> 0 \<and> q_driver q \<noteq> 0 \<and> q_device q \<noteq> 0)"

definition features_ok :: "virtio_core \<Rightarrow> bool" where
  "features_ok c \<longleftrightarrow> driver_features c AND NOT (offered c) = 0 \<and> driver_features c AND VIRTIO_F_VERSION_1 \<noteq> 0"

text \<open>What a device may rely on when it is told of a kick.\<close>

definition kick_ok :: "virtio_core \<Rightarrow> queue_notify \<Rightarrow> bool" where
  "kick_ok c n \<longleftrightarrow>
     unat (qn_index n) < length (vc_queues c) \<and> (\<exists>k < 16. unat (qn_size n) = 2 ^ k) \<and>
     unat (qn_size n) \<le> unat (q_num_max (vc_queues c ! unat (qn_index n))) \<and>
     qn_desc n \<noteq> 0 \<and> qn_avail n \<noteq> 0 \<and> qn_used n \<noteq> 0"

definition core_inv :: "virtio_core \<Rightarrow> bool" where
  "core_inv c \<longleftrightarrow>
     vc_status c AND NOT DRIVER_STATUS_BITS = 0 \<and> status_prefix (vc_status c AND NOT STATUS_FAILED) \<and>
     (vc_status c AND STATUS_FEATURES_OK \<noteq> 0 \<longrightarrow> features_ok c) \<and>
     length (vc_queues c) = unat (num_queues (vc_device c)) \<and> (\<forall>q \<in> set (vc_queues c). queue_ok q) \<and>
     irq_inv (vc_irq c) \<and> (\<forall>n. Notify n \<in> set (vc_calls c) \<longrightarrow> kick_ok c n)"

lemma update_queue_simps [simp]:
  "vc_device (update_queue c i f) = vc_device c" "driver_features (update_queue c i f) = driver_features c"
  "vc_status (update_queue c i f) = vc_status c" "vc_irq (update_queue c i f) = vc_irq c"
  "vc_calls (update_queue c i f) = vc_calls c" "length (vc_queues (update_queue c i f)) = length (vc_queues c)"
  by (simp_all add: update_queue_def)

lemma core_call_simps [simp]:
  "vc_device (core_call e c) = vc_device c" "driver_features (core_call e c) = driver_features c"
  "vc_status (core_call e c) = vc_status c" "vc_irq (core_call e c) = vc_irq c"
  "vc_queues (core_call e c) = vc_queues c" "vc_calls (core_call e c) = vc_calls c @ [e]"
  by (simp_all add: core_call_def)

lemma kick_ok_cong:
  "map q_num_max (vc_queues c') = map q_num_max (vc_queues c) \<Longrightarrow> kick_ok c' n = kick_ok c n"
  using map_eq_imp_length_eq [of q_num_max "vc_queues c'" q_num_max "vc_queues c"]
  by (auto simp: kick_ok_def) (metis nth_map)+

lemma features_ok_cong:
  "driver_features c' = driver_features c \<Longrightarrow> vc_device c' = vc_device c \<Longrightarrow> features_ok c' = features_ok c"
  by (simp add: features_ok_def offered_def)

lemma core_inv_new: "irq_inv irq \<Longrightarrow> core_inv (core_new dev irq)"
proof -
  have "unat (ucast (w :: u16) :: u32) < 65536" for w
    by (simp add: unsigned_ucast_eq take_bit_nat_eq_self less_le_trans [OF unsigned_less])
  then show "irq_inv irq \<Longrightarrow> core_inv (core_new dev irq)"
    by (auto simp: core_inv_def core_new_def status_prefix_def queue_ok_def)
qed

lemma core_inv_update_queue:
  assumes inv: "core_inv c" and q: "core_queue c sel = Some q"
    and ok: "queue_ok (f q)" and max: "q_num_max (f q) = q_num_max q"
  shows "core_inv (update_queue c sel f)"
proof -
  from q have sel: "unat sel < length (vc_queues c)" and q_def: "q = vc_queues c ! unat sel"
    by (auto simp: core_queue_def split: if_splits)
  have "map q_num_max (vc_queues (update_queue c sel f)) = map q_num_max (vc_queues c)"
    using max q_def by (simp add: update_queue_def map_update list_update_same_conv sel)
  then have "kick_ok (update_queue c sel f) n = kick_ok c n" for n
    by (rule kick_ok_cong)
  moreover have "queue_ok r" if "r \<in> set (vc_queues (update_queue c sel f))" for r
    using that ok inv q_def set_update_subset_insert [of "vc_queues c" "unat sel" "f q"]
    by (auto simp: update_queue_def core_inv_def)
  moreover have "features_ok (update_queue c sel f) = features_ok c"
    by (rule features_ok_cong) simp_all
  ultimately show ?thesis using inv by (auto simp: core_inv_def)
qed

lemma core_queue_ok: "core_inv c \<Longrightarrow> core_queue c sel = Some q \<Longrightarrow> queue_ok q"
  by (auto simp: core_inv_def core_queue_def split: if_splits)

lemma set_queue_num_inv: "core_inv c \<Longrightarrow> core_inv (set_queue_num c sel v)"
proof (cases "core_queue c sel")
  case (Some q)
  assume inv: "core_inv c"
  show ?thesis
  proof (cases "q_ready q \<or> v \<noteq> 0 \<and> (q_num_max q < v \<or> \<not> is_power_of_two v)")
    case True
    with Some inv show ?thesis by (auto simp: set_queue_num_def)
  next
    case False
    with core_queue_ok [OF inv Some] have "queue_ok (q\<lparr>q_num := v\<rparr>)"
      by (auto simp: queue_ok_def not_less)
    with core_inv_update_queue [OF inv Some, of "\<lambda>q. q\<lparr>q_num := v\<rparr>"] False Some show ?thesis
      by (auto simp: set_queue_num_def)
  qed
qed (simp add: set_queue_num_def)

lemma set_queue_ready_inv: "core_inv c \<Longrightarrow> core_inv (set_queue_ready c sel v)"
proof (cases "core_queue c sel")
  case (Some q)
  assume inv: "core_inv c"
  have "queue_ok (q\<lparr>q_ready := True\<rparr>)"
    if "\<not> (q_num q = 0 \<or> q_desc q = 0 \<or> q_driver q = 0 \<or> q_device q = 0)"
    using core_queue_ok [OF inv Some] that by (auto simp: queue_ok_def)
  with core_inv_update_queue [OF inv Some, of "\<lambda>q. q\<lparr>q_ready := True\<rparr>"] inv Some show ?thesis
    by (auto simp: set_queue_ready_def)
qed (simp add: set_queue_ready_def)

lemma set_queue_addr_inv: "core_inv c \<Longrightarrow> core_inv (set_queue_addr c sel which high v)"
proof (cases "core_queue c sel")
  case (Some q)
  assume inv: "core_inv c"
  let ?f = "\<lambda>q. case which of
      QueueDesc \<Rightarrow> q\<lparr>q_desc := set_addr high v (q_desc q)\<rparr>
    | QueueDriver \<Rightarrow> q\<lparr>q_driver := set_addr high v (q_driver q)\<rparr>
    | QueueDevice \<Rightarrow> q\<lparr>q_device := set_addr high v (q_device q)\<rparr>"
  have "queue_ok (?f q)" "q_num_max (?f q) = q_num_max q" if "\<not> q_ready q"
    using core_queue_ok [OF inv Some] that by (cases which; simp add: queue_ok_def)+
  with core_inv_update_queue [OF inv Some, of ?f] inv Some show ?thesis
    by (auto simp: set_queue_addr_def)
qed (simp add: set_queue_addr_def)

lemma queue_kick_ok:
  assumes inv: "core_inv c" and q: "core_queue c index = Some q" and ready: "q_ready q"
  shows "kick_ok c (queue_kick index q features)"
proof -
  from q have idx: "unat index < length (vc_queues c)" and q_def: "q = vc_queues c ! unat index"
    by (auto simp: core_queue_def split: if_splits)
  have len: "length (vc_queues c) < 2 ^ 16"
    using inv unsigned_less [of "num_queues (vc_device c)"] by (simp add: core_inv_def)
  have ok: "queue_ok q" using inv q by (rule core_queue_ok)
  with ready have num: "is_power_of_two (q_num q)" "unat (q_num q) \<le> unat (q_num_max q)"
    "unat (q_num_max q) < 2 ^ 16"
    by (auto simp: queue_ok_def word_le_nat_alt)
  obtain k where k: "unat (q_num q) = 2 ^ k" using is_power_of_two_unat [OF num(1)] by blast
  have lt: "(2::nat) ^ k < 2 ^ 16" using num k by linarith
  then have "k < 16" by (rule power_less_imp_less_exp [rotated]) simp
  moreover have "unat (ucast index :: u16) = unat index" "unat (ucast (q_num q) :: u16) = unat (q_num q)"
    using idx len num by (simp_all add: unsigned_ucast_eq take_bit_nat_eq_self)
  ultimately show ?thesis
    using idx ok ready num k lt q_def by (auto simp: kick_ok_def queue_kick_def queue_ok_def)
qed

lemma notify_inv: "core_inv c \<Longrightarrow> core_inv (notify c index)"
proof (cases "core_queue c index")
  case (Some q)
  assume inv: "core_inv c"
  have kick: "kick_ok (core_call e c) n = kick_ok c n" for e n
    by (rule kick_ok_cong) simp
  show ?thesis
  proof (cases "q_ready q")
    case True
    with queue_kick_ok [OF inv Some] inv Some show ?thesis
      by (auto simp: notify_def core_inv_def kick features_ok_def offered_def)
  qed (simp add: notify_def Some inv)
qed (simp add: notify_def)

section \<open>The status register refines a machine of five phases\<close>

datatype phase = Reset | Acknowledged | DriverFound | FeaturesAccepted | DriverRunning

fun phase_next :: "bool \<Rightarrow> phase \<Rightarrow> phase option" where
  "phase_next ok Reset = Some Acknowledged"
| "phase_next ok Acknowledged = Some DriverFound"
| "phase_next ok DriverFound = (if ok then Some FeaturesAccepted else None)"
| "phase_next ok FeaturesAccepted = Some DriverRunning"
| "phase_next ok DriverRunning = None"

fun phase_bits :: "phase \<Rightarrow> u32" where
  "phase_bits Reset = 0"
| "phase_bits Acknowledged = 1"
| "phase_bits DriverFound = 3"
| "phase_bits FeaturesAccepted = 11"
| "phase_bits DriverRunning = 15"

definition status_word :: "phase \<Rightarrow> bool \<Rightarrow> u32" where
  "status_word p failed = phase_bits p OR (if failed then 128 else 0)"

lemmas status_defs =
  status_bit_defs DRIVER_STATUS_BITS_def ACK_def DRIVER_def FEATURES_def DRIVER_OK_def
  status_prefix_def status_step_def

lemma status_word_valid:
  "status_word p f AND NOT DRIVER_STATUS_BITS = 0" "status_word p f AND NOT STATUS_FAILED = phase_bits p"
  "status_prefix (phase_bits p)"
  by (cases p; cases f; simp add: status_word_def status_defs)+

lemma and_exp_word: "(x :: 'a::len word) AND 2 ^ n = (if bit x n then 2 ^ n else 0)"
  by (rule bit_eqI) (auto simp: bit_and_iff bit_exp_iff)

lemma and_128: "(x :: u32) AND 128 = 0 \<or> x AND 128 = 128"
  using and_exp_word [of x 7] by (simp split: if_splits)

lemma split_by_mask: "(s :: u32) = (s AND NOT m) OR (s AND m)"
  by (rule bit_eqI) (auto simp: bit_or_iff bit_and_iff bit_not_iff)

lemma status_word_complete:
  assumes "status_prefix (s AND NOT STATUS_FAILED)"
  obtains p f where "s = status_word p f"
proof -
  from assms obtain p where p: "s AND NOT 128 = phase_bits p"
    by (auto simp: status_defs intro: that dest: sym)
      (metis phase_bits.simps)+
  note split = split_by_mask [of s 128]
  from and_128 [of s] show thesis
  proof
    assume "s AND 128 = 0"
    with split p show thesis by (intro that [of p False]) (simp add: status_word_def)
  next
    assume "s AND 128 = 128"
    with split p show thesis by (intro that [of p True]) (simp add: status_word_def)
  qed
qed

lemma check_features_ok: "is_ok (check_features c) \<longleftrightarrow> features_ok c"
  by (simp add: check_features_def features_ok_def)

lemma phase_bits_and:
  "phase_bits p' AND phase_bits p = phase_bits p \<longleftrightarrow> status_step (phase_bits p) \<le> status_step (phase_bits p')"
  "phase_bits p AND STATUS_FEATURES_OK \<noteq> 0 \<longleftrightarrow> 3 \<le> status_step (phase_bits p)"
  by (cases p; cases p'; simp add: status_defs) (cases p; simp add: status_defs)

lemma check_status_phase:
  assumes "vc_status c = status_word p f"
  shows "is_ok (check_status c (status_word p' f')) \<longleftrightarrow>
    p' = p \<or> phase_next (features_ok c) p = Some p'"
  using assms
  by (cases p; cases p'; simp add: check_status_def Let_def status_word_valid phase_bits_and)
     (simp_all add: status_defs check_features_ok)

lemma write_status_phase:
  assumes inv: "core_inv c" and st: "vc_status c = status_word p f" and nz: "requested \<noteq> 0"
  shows "write_status c requested =
    (if requested \<noteq> vc_status c \<and> (\<exists>p' f'. requested = status_word p' f' \<and>
          (p' = p \<or> phase_next (features_ok c) p = Some p'))
     then core_call (StatusChanged requested) (c\<lparr>vc_status := requested\<rparr>) else c)"
proof -
  have "is_ok (check_status c requested) \<longleftrightarrow> (\<exists>p' f'. requested = status_word p' f' \<and>
          (p' = p \<or> phase_next (features_ok c) p = Some p'))"
  proof
    assume ok: "is_ok (check_status c requested)"
    then have "status_prefix (requested AND NOT STATUS_FAILED)"
      by (auto simp: check_status_def Let_def split: if_splits)
    then obtain p' f' where "requested = status_word p' f'" by (rule status_word_complete)
    with ok check_status_phase [OF st, of p' f'] show "\<exists>p' f'. requested = status_word p' f' \<and>
          (p' = p \<or> phase_next (features_ok c) p = Some p')" by blast
  next
    assume "\<exists>p' f'. requested = status_word p' f' \<and>
          (p' = p \<or> phase_next (features_ok c) p = Some p')"
    with check_status_phase [OF st] show "is_ok (check_status c requested)" by blast
  qed
  with nz show ?thesis
    by (cases "check_status c requested") (auto simp: write_status_def)
qed

lemma core_status_phase:
  assumes "core_inv c"
  obtains p f where "vc_status c = status_word p f" and "3 \<le> status_step (phase_bits p) \<longrightarrow> features_ok c"
proof -
  from assms obtain p f where st: "vc_status c = status_word p f"
    using status_word_complete [of "vc_status c"] unfolding core_inv_def by blast
  have "vc_status c AND STATUS_FEATURES_OK \<noteq> 0 \<longleftrightarrow> 3 \<le> status_step (phase_bits p)"
    unfolding st by (cases p; cases f; simp add: status_word_def status_defs)
  with st assms show thesis by (intro that) (auto simp: core_inv_def)
qed

lemma phase_next_features:
  "phase_next ok p = Some p' \<Longrightarrow> 3 \<le> status_step (phase_bits p') \<Longrightarrow> ok \<or> 3 \<le> status_step (phase_bits p)"
  by (cases p) (auto simp: status_defs split: if_splits)

lemma write_status_inv: "core_inv c \<Longrightarrow> core_inv (write_status c requested)"
proof (cases "requested = 0")
  case True
  assume inv: "core_inv c"
  let ?c = "core_call (StatusChanged 0) (core_reset c)"
  have "map q_num_max (vc_queues ?c) = map q_num_max (vc_queues c)" by (simp add: core_reset_def)
  then have "kick_ok ?c n = kick_ok c n" for n by (rule kick_ok_cong)
  with inv have "core_inv ?c"
    by (auto simp: core_inv_def core_reset_def status_prefix_def queue_ok_def irq_ack_inv)
  with True show ?thesis by (simp add: write_status_def)
next
  case False
  assume inv: "core_inv c"
  obtain p f where st: "vc_status c = status_word p f"
    and feat: "3 \<le> status_step (phase_bits p) \<longrightarrow> features_ok c"
    using inv by (rule core_status_phase)
  have "core_inv (core_call (StatusChanged requested) (c\<lparr>vc_status := requested\<rparr>))"
    if req: "requested = status_word p' f'" "p' = p \<or> phase_next (features_ok c) p = Some p'" for p' f'
  proof -
    let ?c = "core_call (StatusChanged requested) (c\<lparr>vc_status := requested\<rparr>)"
    have "kick_ok ?c n = kick_ok c n" for n by (rule kick_ok_cong) simp
    moreover have "features_ok ?c = features_ok c" by (rule features_ok_cong) simp_all
    moreover have "requested AND STATUS_FEATURES_OK \<noteq> 0 \<longrightarrow> 3 \<le> status_step (phase_bits p')"
      unfolding req(1) by (cases p'; cases f'; simp add: status_word_def status_defs)
    moreover have "3 \<le> status_step (phase_bits p') \<longrightarrow> features_ok c"
      using req(2) feat phase_next_features by blast
    ultimately show ?thesis
      using inv req(1) by (auto simp: core_inv_def status_word_valid)
  qed
  with inv write_status_phase [OF inv st False] show ?thesis by auto
qed

lemma write_driver_features_inv: "core_inv c \<Longrightarrow> core_inv (write_driver_features c sel v)"
  by (auto simp: core_inv_def write_driver_features_def kick_ok_def)

section \<open>Histories\<close>

text \<open>Every access a transport makes of the core, and the interrupts of the device, in any order.\<close>

datatype core_op =
    DriverFeatures u32 u32
  | WriteStatus u32
  | SetQueueNum u32 u32
  | SetQueueReady u32 u32
  | NotifyQueue u32
  | SetQueueAddr u32 queue_addr bool u32
  | RaiseInterrupt u32
  | AckInterrupt u32
  | SetHook

fun core_step :: "virtio_core \<Rightarrow> core_op \<Rightarrow> virtio_core" where
  "core_step c (DriverFeatures sel v) = write_driver_features c sel v"
| "core_step c (WriteStatus v) = write_status c v"
| "core_step c (SetQueueNum sel v) = set_queue_num c sel v"
| "core_step c (SetQueueReady sel v) = set_queue_ready c sel v"
| "core_step c (NotifyQueue i) = notify c i"
| "core_step c (SetQueueAddr sel which high v) = set_queue_addr c sel which high v"
| "core_step c (RaiseInterrupt b) = c\<lparr>vc_irq := irq_raise b (vc_irq c)\<rparr>"
| "core_step c (AckInterrupt b) = c\<lparr>vc_irq := irq_ack b (vc_irq c)\<rparr>"
| "core_step c SetHook = c\<lparr>vc_irq := irq_set_hook (vc_irq c)\<rparr>"

lemma core_inv_irq: "core_inv c \<Longrightarrow> irq_inv irq \<Longrightarrow> core_inv (c\<lparr>vc_irq := irq\<rparr>)"
  using kick_ok_cong [of "c\<lparr>vc_irq := irq\<rparr>" c] features_ok_cong [of "c\<lparr>vc_irq := irq\<rparr>" c]
  by (simp add: core_inv_def)

lemma core_irq_inv: "core_inv c \<Longrightarrow> irq_inv (vc_irq c)"
  by (simp add: core_inv_def)

lemmas core_op_inv =
  write_driver_features_inv write_status_inv set_queue_num_inv set_queue_ready_inv notify_inv
  set_queue_addr_inv irq_raise_inv irq_ack_inv irq_set_hook_inv core_inv_irq core_irq_inv

lemma core_step_inv: "core_inv c \<Longrightarrow> core_inv (core_step c op)"
  by (cases op) (simp_all add: core_op_inv)

interpretation core: component core_step core_inv
  by unfold_locales (rule core_step_inv)

lemma features_bit_phase: "status_word p f AND STATUS_FEATURES_OK \<noteq> 0 \<longleftrightarrow> 3 \<le> status_step (phase_bits p)"
  by (cases p; cases f; simp add: status_word_def status_defs)

lemma phase_next_rank:
  "phase_next ok p = Some p' \<Longrightarrow> status_step (phase_bits p') = Suc (status_step (phase_bits p))"
  by (cases p) (auto simp: status_defs split: if_splits)

definition frozen :: "u64 \<Rightarrow> virtio_core \<Rightarrow> bool" where
  "frozen feats c \<longleftrightarrow> driver_features c = feats \<and> vc_status c AND STATUS_FEATURES_OK \<noteq> 0"

lemma core_step_frozen:
  assumes inv: "core_inv c" and fr: "frozen feats c" and op: "op \<noteq> WriteStatus 0"
  shows "frozen feats (core_step c op)"
proof (cases op)
  case (WriteStatus v)
  obtain p f where st: "vc_status c = status_word p f" using inv by (rule core_status_phase)
  with fr have rank: "3 \<le> status_step (phase_bits p)" by (simp add: frozen_def features_bit_phase)
  from WriteStatus op have "v \<noteq> 0" by simp
  have "v AND STATUS_FEATURES_OK \<noteq> 0"
    if "v = status_word p' f'" "p' = p \<or> phase_next (features_ok c) p = Some p'" for p' f'
    using that rank phase_next_rank [of "features_ok c" p p'] by (auto simp: features_bit_phase)
  with fr WriteStatus write_status_phase [OF inv st \<open>v \<noteq> 0\<close>] show ?thesis
    by (auto simp: frozen_def)
next
  case (SetQueueNum sel v)
  with fr show ?thesis by (simp add: frozen_def set_queue_num_def split: option.splits)
next
  case (SetQueueReady sel v)
  with fr show ?thesis by (simp add: frozen_def set_queue_ready_def split: option.splits)
next
  case (SetQueueAddr sel which high v)
  with fr show ?thesis by (simp add: frozen_def set_queue_addr_def split: option.splits)
next
  case (NotifyQueue i)
  with fr show ?thesis by (simp add: frozen_def notify_def split: option.splits)
qed (use fr in \<open>simp_all add: frozen_def write_driver_features_def\<close>)

section \<open>Properties\<close>

text \<open>
  C26. After any history of register writes, kicks and interrupts on a new transport: the status register
  holds one of the five legal values with or without \<open>FAILED\<close>; when features are accepted they are a
  subset of those offered and include version 1; every queue size is 0 or a power of two up to its
  maximum and a ready queue has a size and three addresses; the interrupt line matches the interrupt
  status; and every kick given to the device names one of its queues with such a size and addresses.
\<close>

theorem virtio_core_invariant:
  assumes "irq_inv irq"
  shows "core_inv (run core_step (core_new dev irq) ops)"
  by (rule core.run_inv) (rule core_inv_new [OF assms])

theorem virtio_core_invariant_witness:
  "irq_inv irq_new \<and> core_inv (run core_step (core_new (fixed_device 2 1) irq_new)
     [SetQueueNum 0 8, SetQueueAddr 0 QueueDesc False 0x1000, SetQueueReady 0 1, NotifyQueue 0])"
  using virtio_core_invariant [OF irq_new_inv] irq_new_inv by blast

text \<open>
  C27. The status register refines a machine of five phases: a nonzero write is accepted exactly when it
  encodes the current phase or the next one, and the step that accepts features is possible only when the
  driver's features are acceptable. Any other value, a phase skipped or taken back included, changes
  nothing.
\<close>

theorem virtio_status_refines_phases:
  assumes "core_inv c" and "vc_status c = status_word p f" and "requested \<noteq> 0"
  shows "write_status c requested =
    (if requested \<noteq> vc_status c \<and> (\<exists>p' f'. requested = status_word p' f' \<and>
          (p' = p \<or> phase_next (features_ok c) p = Some p'))
     then core_call (StatusChanged requested) (c\<lparr>vc_status := requested\<rparr>) else c)"
  using assms by (rule write_status_phase)

theorem virtio_status_refines_phases_witness:
  "vc_status (core_new (fixed_device 2 1) irq_new) = status_word Reset False \<and>
   vc_status (write_status (core_new (fixed_device 2 1) irq_new) 1) = 1"
proof -
  let ?c = "core_new (fixed_device 2 1) irq_new"
  have st: "vc_status ?c = status_word Reset False" by (simp add: core_new_def status_word_def)
  have one: "1 = status_word Acknowledged False" by (simp add: status_word_def)
  have "\<exists>p' f'. 1 = status_word p' f' \<and> (p' = Reset \<or> phase_next (features_ok ?c) Reset = Some p')"
    using one by (intro exI [of _ Acknowledged] exI [of _ False]) simp
  with virtio_status_refines_phases [OF core_inv_new [OF irq_new_inv] st, of 1] st show ?thesis
    by (simp add: core_new_def)
qed

text \<open>
  C28. Once the features are accepted they stay as they are, and accepted, through every history that does
  not reset the device.
\<close>

theorem virtio_features_frozen:
  assumes "core_inv c" and "vc_status c AND STATUS_FEATURES_OK \<noteq> 0" and "\<forall>op \<in> set ops. op \<noteq> WriteStatus 0"
  shows "driver_features (run core_step c ops) = driver_features c \<and>
    vc_status (run core_step c ops) AND STATUS_FEATURES_OK \<noteq> 0 \<and> features_ok (run core_step c ops)"
proof -
  have "frozen (driver_features c) (run core_step c ops)"
    by (rule core.run_filtered [where P = "\<lambda>op. op \<noteq> WriteStatus 0"])
      (use assms core_step_frozen in \<open>auto simp: frozen_def\<close>)
  moreover have "core_inv (run core_step c ops)" using assms(1) by (rule core.run_inv)
  ultimately show ?thesis by (auto simp: frozen_def core_inv_def)
qed

text \<open>A device that has been taken to the accepted features: version 1 and nothing else.\<close>

definition demo_core :: virtio_core where
  "demo_core = run core_step (core_new (fixed_device 2 1) irq_new)
     [WriteStatus 1, WriteStatus 3, DriverFeatures 1 1, WriteStatus 11]"

lemma demo_core_status: "vc_status demo_core AND STATUS_FEATURES_OK \<noteq> 0"
  by (simp add: demo_core_def core_new_def write_status_def check_status_def check_features_def
      status_defs Let_def core_call_def write_driver_features_def offered_def fixed_device_def
      VIRTIO_F_VERSION_1_def)

lemma demo_core_inv: "core_inv demo_core"
  unfolding demo_core_def by (rule core.run_inv) (rule core_inv_new [OF irq_new_inv])

theorem virtio_features_frozen_witness:
  "core_inv demo_core \<and> vc_status demo_core AND STATUS_FEATURES_OK \<noteq> 0 \<and>
   driver_features (run core_step demo_core [DriverFeatures 0 7, WriteStatus 15]) = driver_features demo_core"
  using virtio_features_frozen [OF demo_core_inv demo_core_status, of "[DriverFeatures 0 7, WriteStatus 15]"]
    demo_core_inv demo_core_status
  by simp

end
