(* ===== verification/Virtio_Mmio.thy ===== *)
theory Virtio_Mmio
  imports Virtio_Core Mmio_Bus
begin

text \<open>
  The virtio-mmio transport, \<open>ternvale-devices/src/virtio/mmio.rs\<close>, and the notify hub that takes kicks
  without the transport lock, \<open>notify_hub.rs\<close>. The transport maps register offsets onto the core of
  \<open>Virtio_Core\<close> and owns the select registers; the hub keeps a snapshot of each ready queue.

  The invariant says that the snapshots agree with the queues, so that a kick taken from the hub tells
  the device what the locked path would, apart from the feature bits, which are those of the time the
  queue was made ready.
\<close>

section \<open>The notify hub\<close>

record snap =
  sn_ready :: bool
  sn_size :: u16
  sn_desc :: u64
  sn_avail :: u64
  sn_used :: u64
  sn_features :: u64

definition snap_empty :: snap where
  "snap_empty = \<lparr>sn_ready = False, sn_size = 0, sn_desc = 0, sn_avail = 0, sn_used = 0, sn_features = 0\<rparr>"

definition hub_new :: "u16 \<Rightarrow> snap list" where
  "hub_new queues = replicate (unat queues) snap_empty"

definition hub_publish :: "snap list \<Rightarrow> u32 \<Rightarrow> queue_cfg \<Rightarrow> u64 \<Rightarrow> snap list" where
  "hub_publish snaps index queue features =
     (if unat index < length snaps then
        snaps[unat index := \<lparr>sn_ready = q_ready queue, sn_size = ucast (q_num queue), sn_desc = q_desc queue,
          sn_avail = q_driver queue, sn_used = q_device queue, sn_features = features\<rparr>]
      else snaps)"

definition hub_clear :: "snap list \<Rightarrow> snap list" where
  "hub_clear snaps = map (\<lambda>s. s\<lparr>sn_ready := False\<rparr>) snaps"

text \<open>The notification a kick delivers; \<open>None\<close> when the hub declines and the locked path runs.\<close>

definition kick_index :: "snap list \<Rightarrow> u32 \<Rightarrow> queue_notify option" where
  "kick_index snaps index =
     (if unat index < length snaps \<and> sn_ready (snaps ! unat index) then
        (let s = snaps ! unat index in
         Some \<lparr>qn_index = ucast index, qn_size = sn_size s, qn_desc = sn_desc s, qn_avail = sn_avail s,
               qn_used = sn_used s, qn_features = sn_features s\<rparr>)
      else None)"

definition try_kick :: "snap list \<Rightarrow> u64 \<Rightarrow> u64 \<Rightarrow> queue_notify option" where
  "try_kick snaps off v = (if off \<noteq> 0x050 then None else kick_index snaps (ucast v))"

section \<open>The register file\<close>

record virtio_mmio =
  vm_core :: virtio_core
  vm_hub :: "snap list"
  device_features_sel :: u32
  driver_features_sel :: u32
  queue_sel :: u32

definition VIRTIO_MMIO_BASE :: u64 where "VIRTIO_MMIO_BASE = 0x0a000000"

definition VIRTIO_MMIO_SLOTS :: u64 where "VIRTIO_MMIO_SLOTS = 32"

definition VIRTIO_MMIO_SLOT_SIZE :: u64 where "VIRTIO_MMIO_SLOT_SIZE = 0x200"

definition slot_base :: "u32 \<Rightarrow> u64 option" where
  "slot_base slot =
     (if VIRTIO_MMIO_SLOTS \<le> ucast slot then None
      else Some (VIRTIO_MMIO_BASE + ucast slot * VIRTIO_MMIO_SLOT_SIZE))"

definition with_irq :: "virtio_device \<Rightarrow> virtio_irq \<Rightarrow> virtio_mmio" where
  "with_irq dev irq =
     (let core = core_new dev irq in
      \<lparr>vm_core = core, vm_hub = hub_new (of_nat (length (vc_queues core))),
       device_features_sel = 0, driver_features_sel = 0, queue_sel = 0\<rparr>)"

definition mmio_new :: "virtio_device \<Rightarrow> virtio_mmio" where
  "mmio_new dev = with_irq dev irq_new"

definition raise_interrupt :: "virtio_mmio \<Rightarrow> u32 \<Rightarrow> virtio_mmio" where
  "raise_interrupt m bits = m\<lparr>vm_core := (vm_core m)\<lparr>vc_irq := irq_raise bits (vc_irq (vm_core m))\<rparr>\<rparr>"

definition read_reg :: "virtio_mmio \<Rightarrow> u64 \<Rightarrow> u64" where
  "read_reg m off =
     (let core = vm_core m; queue = core_queue core (queue_sel m) in
      ucast (if off = 0x000 then (0x74726976 :: u32)
        else if off = 0x004 then 2
        else if off = 0x008 then device_id (vc_device core)
        else if off = 0x00c then vendor_id (vc_device core)
        else if off = 0x010 then feature_word (offered core) (device_features_sel m)
        else if off = 0x034 then (case queue of None \<Rightarrow> 0 | Some q \<Rightarrow> q_num_max q)
        else if off = 0x044 then (case queue of None \<Rightarrow> 0 | Some q \<Rightarrow> if q_ready q then 1 else 0)
        else if off = 0x060 then irq_status (vc_irq core)
        else if off = 0x070 then vc_status core
        else if off = 0x0fc then config_generation (vc_device core)
        else if off = 0x0b0 \<or> off = 0x0b4 \<or> off = 0x0b8 \<or> off = 0x0bc then 0xffffffff
        else 0))"

definition mmio_read :: "virtio_mmio \<Rightarrow> u64 \<Rightarrow> u8 \<Rightarrow> u64" where
  "mmio_read m off sz =
     mask_size (if 0x100 \<le> off then read_config (vc_device (vm_core m)) (off - 0x100) sz
                else if sz \<noteq> 4 then 0
                else read_reg m off) sz"

text \<open>The arm of \<open>QUEUE_READY\<close>: the core decides, and the hub publishes what the queue now is.\<close>

definition write_queue_ready :: "virtio_mmio \<Rightarrow> u32 \<Rightarrow> virtio_mmio" where
  "write_queue_ready m v =
     (let core = set_queue_ready (vm_core m) (queue_sel m) v in
      case core_queue core (queue_sel m) of
        None \<Rightarrow> m\<lparr>vm_core := core\<rparr>
      | Some queue \<Rightarrow>
          m\<lparr>vm_core := core, vm_hub := hub_publish (vm_hub m) (queue_sel m) queue (driver_features core)\<rparr>)"

definition write_queue_notify :: "virtio_mmio \<Rightarrow> u32 \<Rightarrow> virtio_mmio" where
  "write_queue_notify m v =
     (case try_kick (vm_hub m) 0x050 (ucast v) of
        Some n \<Rightarrow> m\<lparr>vm_core := core_call (Notify n) (vm_core m)\<rparr>
      | None \<Rightarrow> m\<lparr>vm_core := notify (vm_core m) v\<rparr>)"

definition write_status_reg :: "virtio_mmio \<Rightarrow> u32 \<Rightarrow> virtio_mmio" where
  "write_status_reg m v =
     (let m' = (if v = 0 then m\<lparr>device_features_sel := 0, driver_features_sel := 0, queue_sel := 0,
                                vm_hub := hub_clear (vm_hub m)\<rparr>
                else m)
      in m'\<lparr>vm_core := write_status (vm_core m') v\<rparr>)"

definition write_reg :: "virtio_mmio \<Rightarrow> u64 \<Rightarrow> u32 \<Rightarrow> virtio_mmio" where
  "write_reg m off v =
     (let sel = queue_sel m; core = vm_core m in
      if off = 0x014 then m\<lparr>device_features_sel := v\<rparr>
      else if off = 0x024 then m\<lparr>driver_features_sel := v\<rparr>
      else if off = 0x020 then m\<lparr>vm_core := write_driver_features core (driver_features_sel m) v\<rparr>
      else if off = 0x030 then m\<lparr>queue_sel := v\<rparr>
      else if off = 0x038 then m\<lparr>vm_core := set_queue_num core sel v\<rparr>
      else if off = 0x044 then write_queue_ready m v
      else if off = 0x050 then write_queue_notify m v
      else if off = 0x064 then m\<lparr>vm_core := core\<lparr>vc_irq := irq_ack v (vc_irq core)\<rparr>\<rparr>
      else if off = 0x070 then write_status_reg m v
      else if off = 0x080 then m\<lparr>vm_core := set_queue_addr core sel QueueDesc False v\<rparr>
      else if off = 0x084 then m\<lparr>vm_core := set_queue_addr core sel QueueDesc True v\<rparr>
      else if off = 0x090 then m\<lparr>vm_core := set_queue_addr core sel QueueDriver False v\<rparr>
      else if off = 0x094 then m\<lparr>vm_core := set_queue_addr core sel QueueDriver True v\<rparr>
      else if off = 0x0a0 then m\<lparr>vm_core := set_queue_addr core sel QueueDevice False v\<rparr>
      else if off = 0x0a4 then m\<lparr>vm_core := set_queue_addr core sel QueueDevice True v\<rparr>
      else m)"

definition mmio_write :: "virtio_mmio \<Rightarrow> u64 \<Rightarrow> u8 \<Rightarrow> u64 \<Rightarrow> virtio_mmio" where
  "mmio_write m off sz v =
     (if 0x100 \<le> off then m\<lparr>vm_core := core_call (WriteConfig (off - 0x100) sz v) (vm_core m)\<rparr>
      else if sz \<noteq> 4 then m
      else write_reg m off (ucast v))"

text \<open>A write the bus hands to the kick port first; \<open>None\<close> when the port declines.\<close>

definition mmio_kick :: "virtio_mmio \<Rightarrow> u64 \<Rightarrow> u64 \<Rightarrow> virtio_mmio option" where
  "mmio_kick m off v =
     (case try_kick (vm_hub m) off v of
        Some n \<Rightarrow> Some (m\<lparr>vm_core := core_call (Notify n) (vm_core m)\<rparr>)
      | None \<Rightarrow> None)"

section \<open>The invariant\<close>

definition snap_agrees :: "snap \<Rightarrow> queue_cfg \<Rightarrow> bool" where
  "snap_agrees s q \<longleftrightarrow> sn_ready s = q_ready q \<and>
     (sn_ready s \<longrightarrow> sn_size s = ucast (q_num q) \<and> sn_desc s = q_desc q \<and> sn_avail s = q_driver q \<and>
        sn_used s = q_device q)"

definition transport_inv :: "virtio_mmio \<Rightarrow> bool" where
  "transport_inv m \<longleftrightarrow> core_inv (vm_core m) \<and> list_all2 snap_agrees (vm_hub m) (vc_queues (vm_core m))"

text \<open>The notification of the hub is that of the core, with the features of the snapshot.\<close>

lemma kick_index_agrees:
  assumes "list_all2 snap_agrees snaps (vc_queues c)"
  shows "kick_index snaps index =
    (case core_queue c index of
       None \<Rightarrow> None
     | Some q \<Rightarrow> if q_ready q then Some (queue_kick index q (sn_features (snaps ! unat index))) else None)"
proof -
  have len: "length snaps = length (vc_queues c)" using assms by (rule list_all2_lengthD)
  show ?thesis
  proof (cases "unat index < length snaps")
    case True
    with assms have "snap_agrees (snaps ! unat index) (vc_queues c ! unat index)" by (rule list_all2_nthD)
    with True len show ?thesis
      by (auto simp: kick_index_def core_queue_def queue_kick_def snap_agrees_def Let_def)
  qed (simp add: kick_index_def core_queue_def len)
qed

lemma core_inv_kick:
  assumes "core_inv c" and "core_queue c index = Some q" and "q_ready q"
  shows "core_inv (core_call (Notify (queue_kick index q features)) c)"
proof -
  have kick: "kick_ok (core_call e c) n = kick_ok c n" for e n by (rule kick_ok_cong) simp
  show ?thesis
    using queue_kick_ok [OF assms, of features] assms(1)
    by (auto simp: core_inv_def kick features_ok_def offered_def)
qed

lemma core_inv_config: "core_inv c \<Longrightarrow> core_inv (core_call (WriteConfig off sz v) c)"
proof -
  have "kick_ok (core_call e c) n = kick_ok c n" for e n by (rule kick_ok_cong) simp
  then show "core_inv c \<Longrightarrow> core_inv (core_call (WriteConfig off sz v) c)"
    by (auto simp: core_inv_def features_ok_def offered_def)
qed

lemma try_kick_inv:
  assumes inv: "transport_inv m" and kick: "try_kick (vm_hub m) off v = Some n"
  shows "transport_inv (m\<lparr>vm_core := core_call (Notify n) (vm_core m)\<rparr>)"
proof -
  from inv have agree: "list_all2 snap_agrees (vm_hub m) (vc_queues (vm_core m))"
    and core: "core_inv (vm_core m)"
    by (simp_all add: transport_inv_def)
  from kick kick_index_agrees [OF agree] obtain q where q: "core_queue (vm_core m) (ucast v) = Some q" "q_ready q"
    and n: "n = queue_kick (ucast v) q (sn_features (vm_hub m ! unat (ucast v :: u32)))"
    by (auto simp: try_kick_def split: if_splits option.splits)
  with core_inv_kick [OF core q] agree show ?thesis by (simp add: transport_inv_def)
qed

lemma mmio_kick_inv: "transport_inv m \<Longrightarrow> mmio_kick m off v = Some m' \<Longrightarrow> transport_inv m'"
  by (auto simp: mmio_kick_def try_kick_inv split: option.splits)

text \<open>Operations of the core that leave the ready queues alone keep the snapshots in agreement.\<close>

lemma agrees_idle:
  assumes "list_all2 snap_agrees snaps (vc_queues c)" and "core_queue c sel = Some q" and "\<not> q_ready q"
    and "\<And>q. q_ready (f q) = q_ready q"
  shows "list_all2 snap_agrees snaps (vc_queues (update_queue c sel f))"
proof -
  have "snap_agrees s (f q)" if "snap_agrees s q" for s
    using that assms(3,4) by (simp add: snap_agrees_def)
  with assms(1,2) show ?thesis
    by (auto simp: update_queue_def core_queue_def list_all2_conv_all_nth nth_list_update split: if_splits)
qed

lemma agrees_queue_ops:
  assumes "list_all2 snap_agrees snaps (vc_queues c)"
  shows "list_all2 snap_agrees snaps (vc_queues (set_queue_num c sel v))"
    "list_all2 snap_agrees snaps (vc_queues (set_queue_addr c sel which high v))"
    "list_all2 snap_agrees snaps (vc_queues (write_driver_features c sel v))"
    "list_all2 snap_agrees snaps (vc_queues (notify c sel))"
  using assms
  by (auto simp: set_queue_num_def set_queue_addr_def write_driver_features_def notify_def
      intro!: agrees_idle split: option.splits queue_addr.splits)

lemma agrees_write_status:
  assumes "list_all2 snap_agrees snaps (vc_queues c)"
  shows "v \<noteq> 0 \<Longrightarrow> list_all2 snap_agrees snaps (vc_queues (write_status c v))"
    "list_all2 snap_agrees (hub_clear snaps) (vc_queues (write_status c 0))"
  using assms
  by (auto simp: write_status_def split: sum.splits)
     (auto simp: core_reset_def hub_clear_def list_all2_conv_all_nth snap_agrees_def)

lemma agrees_ready:
  assumes "list_all2 snap_agrees snaps (vc_queues c)" and "core_queue (set_queue_ready c sel v) sel = Some q"
  shows "list_all2 snap_agrees (hub_publish snaps sel q feats) (vc_queues (set_queue_ready c sel v))"
proof -
  let ?c = "set_queue_ready c sel v"
  have len: "length (vc_queues ?c) = length (vc_queues c)"
    by (simp add: set_queue_ready_def split: option.splits)
  have same: "vc_queues ?c ! i = vc_queues c ! i" if "i \<noteq> unat sel" for i
    using that by (simp add: set_queue_ready_def update_queue_def split: option.splits)
  from assms(2) have "unat sel < length (vc_queues c)" "q = vc_queues ?c ! unat sel"
    by (auto simp: core_queue_def len split: if_splits)
  with assms(1) len same show ?thesis
    by (auto simp: list_all2_conv_all_nth hub_publish_def nth_list_update snap_agrees_def)
qed

lemma write_queue_ready_inv: "transport_inv m \<Longrightarrow> transport_inv (write_queue_ready m v)"
  using agrees_ready [of "vm_hub m" "vm_core m" "queue_sel m" v]
  by (auto simp: transport_inv_def write_queue_ready_def Let_def set_queue_ready_inv
      split: option.splits) (auto simp: core_queue_def set_queue_ready_def split: option.splits if_splits)

lemma write_queue_notify_inv: "transport_inv m \<Longrightarrow> transport_inv (write_queue_notify m v)"
  using try_kick_inv [of m "0x050" "ucast v"] agrees_queue_ops(4) [of "vm_hub m" "vm_core m" v]
  by (auto simp: write_queue_notify_def transport_inv_def notify_inv split: option.splits)

lemma write_status_reg_inv: "transport_inv m \<Longrightarrow> transport_inv (write_status_reg m v)"
  using agrees_write_status(1) [of "vm_hub m" "vm_core m" v] agrees_write_status(2) [of "vm_hub m" "vm_core m"]
  by (auto simp: write_status_reg_def transport_inv_def write_status_inv Let_def)

lemma if_both: "Q a \<Longrightarrow> Q b \<Longrightarrow> Q (if c then a else b)"
  by simp

lemma write_reg_inv: "transport_inv m \<Longrightarrow> transport_inv (write_reg m off v)"
proof -
  assume inv: "transport_inv m"
  then have core: "core_inv (vm_core m)" and agree: "list_all2 snap_agrees (vm_hub m) (vc_queues (vm_core m))"
    by (simp_all add: transport_inv_def)
  have upd: "transport_inv (m\<lparr>vm_core := c\<rparr>)"
    if "core_inv c" "list_all2 snap_agrees (vm_hub m) (vc_queues c)" for c
    using that by (simp add: transport_inv_def)
  have sel: "transport_inv (m\<lparr>device_features_sel := v\<rparr>)" "transport_inv (m\<lparr>driver_features_sel := v\<rparr>)"
    "transport_inv (m\<lparr>queue_sel := v\<rparr>)"
    using inv by (simp_all add: transport_inv_def)
  note ops = upd [OF write_driver_features_inv [OF core] agrees_queue_ops(3) [OF agree]]
    upd [OF set_queue_num_inv [OF core] agrees_queue_ops(1) [OF agree]]
    upd [OF set_queue_addr_inv [OF core] agrees_queue_ops(2) [OF agree]]
    write_queue_ready_inv [OF inv] write_queue_notify_inv [OF inv] write_status_reg_inv [OF inv] sel inv
  have ack: "transport_inv (m\<lparr>vm_core := (vm_core m)\<lparr>vc_irq := irq_ack v (vc_irq (vm_core m))\<rparr>\<rparr>)"
    using core agree by (intro upd) (simp_all add: core_op_inv)
  show ?thesis unfolding write_reg_def Let_def by (intro if_both [of transport_inv] ops ack)
qed

lemma mmio_write_inv: "transport_inv m \<Longrightarrow> transport_inv (mmio_write m off sz v)"
  by (simp add: mmio_write_def write_reg_inv) (simp add: transport_inv_def core_inv_config)

lemma raise_interrupt_inv: "transport_inv m \<Longrightarrow> transport_inv (raise_interrupt m b)"
  by (simp add: transport_inv_def raise_interrupt_def core_op_inv)

lemma mmio_new_inv:
  assumes "irq_inv irq"
  shows "transport_inv (with_irq dev irq)"
proof -
  have len: "length (vc_queues (core_new dev irq)) = unat (num_queues dev)" by (simp add: core_new_def)
  have "list_all2 snap_agrees (hub_new (num_queues dev)) (vc_queues (core_new dev irq))"
    by (auto simp: list_all2_conv_all_nth hub_new_def core_new_def snap_agrees_def snap_empty_def)
  with core_inv_new [OF assms] show ?thesis
    by (simp add: transport_inv_def with_irq_def Let_def len)
qed

text \<open>The transport as a device of the bus.\<close>

definition mmio_ops :: "virtio_mmio mmio_ops" where
  "mmio_ops = \<lparr>op_read = (\<lambda>m off sz. (mmio_read m off sz, m)), op_write = mmio_write, op_kick = mmio_kick\<rparr>"

interpretation virtio_mmio_dev: mmio_device mmio_ops transport_inv
  by unfold_locales (auto simp: mmio_ops_def mmio_write_inv mmio_kick_inv)

section \<open>Histories\<close>

datatype transport_op = RegWrite u64 u8 u64 | Kick u64 u64 | Raise u32

fun transport_step :: "virtio_mmio \<Rightarrow> transport_op \<Rightarrow> virtio_mmio" where
  "transport_step m (RegWrite off sz v) = mmio_write m off sz v"
| "transport_step m (Kick off v) = (case mmio_kick m off v of None \<Rightarrow> m | Some m' \<Rightarrow> m')"
| "transport_step m (Raise b) = raise_interrupt m b"

lemma transport_step_inv: "transport_inv m \<Longrightarrow> transport_inv (transport_step m op)"
  by (cases op) (auto simp: mmio_write_inv raise_interrupt_inv dest: mmio_kick_inv split: option.splits)

interpretation transport: component transport_step transport_inv
  by unfold_locales (rule transport_step_inv)

section \<open>Kicks without the lock\<close>

definition snaps_current :: "virtio_mmio \<Rightarrow> bool" where
  "snaps_current m \<longleftrightarrow> (\<forall>s \<in> set (vm_hub m). sn_ready s \<longrightarrow> sn_features s = driver_features (vm_core m))"

definition feature_write :: "transport_op \<Rightarrow> bool" where
  "feature_write op \<longleftrightarrow> (\<exists>v. op = RegWrite 0x020 4 v)"

lemma queue_op_features [simp]:
  "driver_features (set_queue_num c sel v) = driver_features c"
  "driver_features (set_queue_ready c sel v) = driver_features c"
  "driver_features (set_queue_addr c sel which high v) = driver_features c"
  "driver_features (notify c i) = driver_features c"
  by (simp_all add: set_queue_num_def set_queue_ready_def set_queue_addr_def notify_def split: option.splits)

lemma write_status_features: "v \<noteq> 0 \<Longrightarrow> driver_features (write_status c v) = driver_features c"
  by (simp add: write_status_def split: sum.splits)

lemma snaps_current_publish:
  assumes "snaps_current m" and "driver_features c = driver_features (vm_core m)"
  shows "snaps_current (m\<lparr>vm_core := c, vm_hub := hub_publish (vm_hub m) sel q (driver_features c)\<rparr>)"
proof -
  have "\<forall>s \<in> set (hub_publish (vm_hub m) sel q (driver_features c)).
      sn_ready s \<longrightarrow> sn_features s = driver_features c"
  proof (cases "unat sel < length (vm_hub m)")
    case True
    show ?thesis
      unfolding hub_publish_def if_P [OF True]
      by (rule ball_update) (use assms in \<open>simp_all add: snaps_current_def\<close>)
  next
    case False
    with assms show ?thesis by (simp add: hub_publish_def snaps_current_def)
  qed
  then show ?thesis by (simp add: snaps_current_def)
qed

lemma snaps_current_core:
  "snaps_current m \<Longrightarrow> driver_features c = driver_features (vm_core m) \<Longrightarrow> snaps_current (m\<lparr>vm_core := c\<rparr>)"
  by (simp add: snaps_current_def)

lemma write_reg_current:
  assumes cur: "snaps_current m" and off: "off \<noteq> 0x020"
  shows "snaps_current (write_reg m off v)"
proof -
  have status: "snaps_current (write_status_reg m v)"
    using cur by (auto simp: write_status_reg_def snaps_current_def hub_clear_def write_status_features Let_def)
  have ready: "snaps_current (write_queue_ready m v)"
    using cur snaps_current_publish [OF cur, of "set_queue_ready (vm_core m) (queue_sel m) v"]
    by (auto simp: write_queue_ready_def Let_def snaps_current_core split: option.splits)
  have ntf: "snaps_current (write_queue_notify m v)"
    using cur by (auto simp: write_queue_notify_def snaps_current_core split: option.splits)
  have sel: "snaps_current (m\<lparr>device_features_sel := v\<rparr>)" "snaps_current (m\<lparr>driver_features_sel := v\<rparr>)"
    "snaps_current (m\<lparr>queue_sel := v\<rparr>)"
    using cur by (simp_all add: snaps_current_def)
  note core = snaps_current_core [OF cur]
  show ?thesis
    unfolding write_reg_def Let_def using off
    by (simp only: if_False) (intro if_both [of snaps_current] sel cur status ready ntf core; simp)
qed

lemma transport_step_current:
  assumes "snaps_current m" and "\<not> feature_write op"
  shows "snaps_current (transport_step m op)"
proof (cases op)
  case (RegWrite off sz v)
  with assms write_reg_current [OF assms(1)] show ?thesis
    by (auto simp: mmio_write_def feature_write_def snaps_current_core)
next
  case (Kick off v)
  with assms(1) show ?thesis by (auto simp: mmio_kick_def snaps_current_core split: option.splits)
next
  case (Raise b)
  with assms(1) show ?thesis by (simp add: raise_interrupt_def snaps_current_core)
qed

lemma kick_eq_notify:
  assumes inv: "transport_inv m" and cur: "snaps_current m"
  shows "mmio_kick m 0x050 v =
    (case core_queue (vm_core m) (ucast v) of
       None \<Rightarrow> None
     | Some q \<Rightarrow> if q_ready q then Some (m\<lparr>vm_core := notify (vm_core m) (ucast v)\<rparr>) else None)"
proof -
  let ?i = "ucast v :: u32"
  from inv have agree: "list_all2 snap_agrees (vm_hub m) (vc_queues (vm_core m))"
    by (simp add: transport_inv_def)
  show ?thesis
  proof (cases "core_queue (vm_core m) ?i")
    case None
    then show ?thesis by (simp add: mmio_kick_def try_kick_def kick_index_agrees [OF agree])
  next
    case (Some q)
    show ?thesis
    proof (cases "q_ready q")
      case True
      have i: "unat ?i < length (vm_hub m)"
        using Some list_all2_lengthD [OF agree] by (simp add: core_queue_def split: if_splits)
      with Some True agree have "sn_ready (vm_hub m ! unat ?i)"
        by (auto simp: core_queue_def list_all2_conv_all_nth snap_agrees_def split: if_splits)
      with cur i have "sn_features (vm_hub m ! unat ?i) = driver_features (vm_core m)"
        by (simp add: snaps_current_def)
      with Some True show ?thesis
        by (simp add: mmio_kick_def try_kick_def kick_index_agrees [OF agree] notify_def)
    qed (simp add: mmio_kick_def try_kick_def kick_index_agrees [OF agree] Some)
  qed
qed

lemma ucast_u32_u64 [simp]: "ucast (ucast w :: u64) = (w :: u32)"
  by (rule bit_word_eqI) (auto simp: bit_unsigned_iff)

lemma notify_reg:
  assumes inv: "transport_inv m" and cur: "snaps_current m"
  shows "mmio_write m 0x050 4 v = m\<lparr>vm_core := notify (vm_core m) (ucast v)\<rparr>"
proof -
  have kick: "try_kick (vm_hub m) 0x050 (ucast (ucast v :: u32)) = try_kick (vm_hub m) 0x050 v"
    by (simp add: try_kick_def)
  have "mmio_write m 0x050 4 v = (case mmio_kick m 0x050 v of Some m' \<Rightarrow> m' | None \<Rightarrow> m\<lparr>vm_core := notify (vm_core m) (ucast v)\<rparr>)"
    by (simp add: mmio_write_def write_reg_def write_queue_notify_def mmio_kick_def kick split: option.split)
  then show ?thesis
    by (simp add: kick_eq_notify [OF inv cur] split: option.split)
qed






section \<open>Kicks while the hub is being written\<close>

text \<open>
  \<open>publish\<close> and \<open>clear\<close> store the fields of a snapshot one by one, and \<open>kick_index\<close> loads them one by one on another
  thread. \<open>hs\<close> are the stores to one snapshot in their order, and \<open>t k\<close> says after how many of them the load number \<open>k\<close>
  happens; the definitions above are the case where all the loads see the same snapshot.
\<close>

datatype hub_store = StoreSize u16 | StoreDesc u64 | StoreAvail u64 | StoreUsed u64 | StoreFeatures u64 | StoreReady bool

fun do_store :: "hub_store \<Rightarrow> snap \<Rightarrow> snap" where
  "do_store (StoreSize v) s = s\<lparr>sn_size := v\<rparr>"
| "do_store (StoreDesc v) s = s\<lparr>sn_desc := v\<rparr>"
| "do_store (StoreAvail v) s = s\<lparr>sn_avail := v\<rparr>"
| "do_store (StoreUsed v) s = s\<lparr>sn_used := v\<rparr>"
| "do_store (StoreFeatures v) s = s\<lparr>sn_features := v\<rparr>"
| "do_store (StoreReady b) s = s\<lparr>sn_ready := b\<rparr>"

definition publish_stores :: "queue_cfg \<Rightarrow> u64 \<Rightarrow> hub_store list" where
  "publish_stores queue features =
     [StoreSize (ucast (q_num queue)), StoreDesc (q_desc queue), StoreAvail (q_driver queue), StoreUsed (q_device queue),
      StoreFeatures features, StoreReady (q_ready queue)]"

definition snap_at :: "snap \<Rightarrow> hub_store list \<Rightarrow> nat \<Rightarrow> snap" where
  "snap_at s hs n = fold do_store (take n hs) s"

definition kick_loads :: "snap \<Rightarrow> hub_store list \<Rightarrow> (nat \<Rightarrow> nat) \<Rightarrow> u32 \<Rightarrow> queue_notify option" where
  "kick_loads s hs t index =
     (if sn_ready (snap_at s hs (t 0)) then
        Some \<lparr>qn_index = ucast index, qn_size = sn_size (snap_at s hs (t 1)), qn_desc = sn_desc (snap_at s hs (t 2)),
              qn_avail = sn_avail (snap_at s hs (t 3)), qn_used = sn_used (snap_at s hs (t 4)),
              qn_features = sn_features (snap_at s hs (t 5))\<rparr>
      else None)"

lemma publish_in_one_go:
  "unat index < length snaps \<Longrightarrow>
     hub_publish snaps index queue features = snaps[unat index := fold do_store (publish_stores queue features) (snaps ! unat index)]"
  by (cases "snaps ! unat index") (simp add: hub_publish_def publish_stores_def)

lemma clear_in_one_go: "hub_clear snaps = map (do_store (StoreReady False)) snaps"
  by (simp add: hub_clear_def)

lemma kick_in_one_go:
  "unat index < length snaps \<Longrightarrow>
     kick_index snaps index = kick_loads (snaps ! unat index) hs (\<lambda>_. 0) index"
  by (simp add: kick_index_def kick_loads_def snap_at_def Let_def)

text \<open>
  While the queue keeps its configuration, a kick that overlaps any number of publications and resets is never torn: it
  is declined, or it has the size and addresses of the queue and the features of one of the publications.
\<close>

definition config_stores :: "queue_cfg \<Rightarrow> u64 set \<Rightarrow> hub_store set" where
  "config_stores queue fs = {StoreSize (ucast (q_num queue)), StoreDesc (q_desc queue), StoreAvail (q_driver queue),
     StoreUsed (q_device queue), StoreReady True, StoreReady False} \<union> StoreFeatures ` fs"

lemma publish_config_stores: "features \<in> fs \<Longrightarrow> set (publish_stores queue features) \<subseteq> config_stores queue fs"
  by (cases "q_ready queue") (auto simp: publish_stores_def config_stores_def)

lemma snap_at_config:
  assumes "snap_agrees s queue" "sn_ready s" "sn_features s \<in> fs" "set hs \<subseteq> config_stores queue fs"
  shows "sn_size (snap_at s hs n) = ucast (q_num queue) \<and> sn_desc (snap_at s hs n) = q_desc queue
    \<and> sn_avail (snap_at s hs n) = q_driver queue \<and> sn_used (snap_at s hs n) = q_device queue
    \<and> sn_features (snap_at s hs n) \<in> fs"
proof -
  let ?P = "\<lambda>s. sn_size s = ucast (q_num queue) \<and> sn_desc s = q_desc queue \<and> sn_avail s = q_driver queue
    \<and> sn_used s = q_device queue \<and> sn_features s \<in> fs"
  have "?P (do_store h s)" if "h \<in> config_stores queue fs" "?P s" for h s
    using that by (auto simp: config_stores_def)
  then have "?P s \<Longrightarrow> set hs \<subseteq> config_stores queue fs \<Longrightarrow> ?P (fold do_store hs s)" for hs s
    by (induction hs arbitrary: s) auto
  from this [of s "take n hs"] assms set_take_subset [of n hs] show ?thesis
    by (simp add: snap_at_def snap_agrees_def subset_trans [OF set_take_subset])
qed

lemma kick_not_torn:
  assumes "snap_agrees s queue" "sn_ready s" "sn_features s \<in> fs" "set hs \<subseteq> config_stores queue fs"
    and "kick_loads s hs t index = Some n"
  shows "\<exists>features \<in> fs. n = queue_kick index queue features"
  using assms(5) snap_at_config [OF assms(1-4)] by (auto simp: kick_loads_def queue_kick_def split: if_splits)

text \<open>A kick that overlaps a change of the configuration can mix the two.\<close>

definition torn_queue :: "u32 \<Rightarrow> bool \<Rightarrow> u64 \<Rightarrow> queue_cfg" where
  "torn_queue num ready base =
     \<lparr>q_num_max = 256, q_num = num, q_ready = ready, q_desc = base, q_driver = base + 0x1000, q_device = base + 0x2000\<rparr>"

lemma kick_torn:
  "map_option (\<lambda>n. (qn_size n, qn_desc n))
     (kick_loads (fold do_store (publish_stores (torn_queue 256 True 0x10000) 1) snap_empty)
        (publish_stores (torn_queue 256 False 0x10000) 1 @ publish_stores (torn_queue 8 True 0x80000) 1)
        (\<lambda>k. if k = 0 then 0 else if k = 1 then 6 else 12) 0) = Some (256, 0x80000)"
  by code_simp

section \<open>Properties\<close>

text \<open>
  C32. After any history of register writes, kicks and device interrupts on a new transport, the core's
  invariant holds and the hub's snapshot of each queue agrees with the queue: it is ready exactly when the
  queue is, and then has its size and addresses.
\<close>

theorem virtio_mmio_invariant: "transport_inv (run transport_step (mmio_new dev) ops)"
  unfolding mmio_new_def by (intro transport.run_inv mmio_new_inv irq_new_inv)

text \<open>
  C33. As long as the driver writes no feature word while a queue is ready, a kick the hub takes without the lock is
  what the register path would have done with a 4-byte write under the lock: the hub takes the write exactly when the
  queue is ready, and the transport is then the one the locked write leaves, in which the device got one notification
  with the queue's size and addresses and the negotiated features. When the hub declines, that write has no effect.
  A write of another size is ignored under the lock, while the hub, which is not told the size, takes it all the same.
\<close>

theorem virtio_lockfree_kick:
  assumes "transport_inv m" and "snaps_current m" and "\<forall>op \<in> set ops. \<not> feature_write op"
  shows "mmio_kick (run transport_step m ops) 0x050 v =
      (case core_queue (vm_core (run transport_step m ops)) (ucast v) of
         None \<Rightarrow> None
       | Some q \<Rightarrow> if q_ready q then Some (mmio_write (run transport_step m ops) 0x050 4 v) else None)
    \<and> mmio_write (run transport_step m ops) 0x050 4 v =
        (run transport_step m ops)\<lparr>vm_core :=
           case core_queue (vm_core (run transport_step m ops)) (ucast v) of
             None \<Rightarrow> vm_core (run transport_step m ops)
           | Some q \<Rightarrow>
               if q_ready q
               then core_call (Notify (queue_kick (ucast v) q (driver_features (vm_core (run transport_step m ops)))))
                      (vm_core (run transport_step m ops))
               else vm_core (run transport_step m ops)\<rparr>
    \<and> (sz \<noteq> 4 \<longrightarrow> mmio_write (run transport_step m ops) 0x050 sz v = run transport_step m ops)"
proof -
  have inv: "transport_inv (run transport_step m ops)" using assms(1) by (rule transport.run_inv)
  have cur: "snaps_current (run transport_step m ops)"
    by (rule transport.run_filtered [where P = "\<lambda>op. \<not> feature_write op"])
      (use assms transport_step_current in auto)
  have "mmio_write (run transport_step m ops) 0x050 sz v = run transport_step m ops" if "sz \<noteq> 4"
    using that by (simp add: mmio_write_def)
  then show ?thesis
    unfolding kick_eq_notify [OF inv cur] notify_reg [OF inv cur]
    by (auto simp: notify_def split: option.split)
qed

text \<open>A device with one queue, made ready; the features are written before or after.\<close>

definition ready_writes :: "transport_op list" where
  "ready_writes = [RegWrite 0x038 4 8, RegWrite 0x080 4 0x1000, RegWrite 0x090 4 0x2000,
                   RegWrite 0x0a0 4 0x3000, RegWrite 0x044 4 1]"

definition negotiate_writes :: "transport_op list" where
  "negotiate_writes = [RegWrite 0x070 4 1, RegWrite 0x070 4 3, RegWrite 0x024 4 1, RegWrite 0x020 4 1,
                       RegWrite 0x070 4 11]"

lemma power_8: "is_power_of_two (8 :: u32)"
  by code_simp

lemmas transport_eval =
  mmio_write_def write_reg_def write_queue_ready_def write_status_reg_def set_queue_num_def
  set_queue_addr_def set_queue_ready_def set_addr_def core_queue_def update_queue_def hub_publish_def
  write_status_def check_status_def check_features_def status_defs core_call_def write_driver_features_def
  offered_def VIRTIO_F_VERSION_1_def power_8

lemma demo_transport_ready:
  "core_queue (vm_core (run transport_step (mmio_new (fixed_device 2 1)) (negotiate_writes @ ready_writes))) 0 =
     Some \<lparr>q_num_max = 256, q_num = 8, q_ready = True, q_desc = 0x1000, q_driver = 0x2000, q_device = 0x3000\<rparr>"
  by (simp add: ready_writes_def negotiate_writes_def mmio_new_def with_irq_def core_new_def fixed_device_def
      hub_new_def snap_empty_def transport_eval Let_def)

theorem virtio_lockfree_kick_witness:
  "mmio_kick (run transport_step (run transport_step (mmio_new (fixed_device 2 1)) negotiate_writes) ready_writes) 0x050 0 =
     Some (mmio_write (run transport_step (run transport_step (mmio_new (fixed_device 2 1)) negotiate_writes) ready_writes) 0x050 4 0)
   \<and> mmio_write (run transport_step (run transport_step (mmio_new (fixed_device 2 1)) negotiate_writes) ready_writes) 0x050 2 0 =
     run transport_step (run transport_step (mmio_new (fixed_device 2 1)) negotiate_writes) ready_writes"
proof -
  let ?m = "run transport_step (mmio_new (fixed_device 2 1)) negotiate_writes"
  have inv: "transport_inv ?m"
    unfolding mmio_new_def by (intro transport.run_inv mmio_new_inv irq_new_inv)
  have cur: "snaps_current ?m"
    by (simp add: negotiate_writes_def mmio_new_def with_irq_def core_new_def fixed_device_def
        hub_new_def snap_empty_def snaps_current_def transport_eval Let_def)
  have ops: "\<forall>op \<in> set ready_writes. \<not> feature_write op"
    by (simp add: ready_writes_def feature_write_def)
  from virtio_lockfree_kick [OF inv cur ops, of 0 2] demo_transport_ready show ?thesis
    by (simp add: run_append)
qed




end
