(* ===== verification/Virtio_Pci.thy ===== *)
theory Virtio_Pci
  imports Pci_Interrupts Pci_Msix Virtio_Mmio
begin

text \<open>
  The virtio-pci transport, \<open>ternvale-devices/src/virtio/pci.rs\<close>, \<open>pci/caps.rs\<close> and \<open>pci/common.rs\<close>: a PCI function
  whose BAR 0 holds the common configuration, ISR, device and notify structures, over the same \<open>VirtioCore\<close> as
  virtio-mmio.

  The function is an instance of \<open>pci_function\<close>, so everything shown of the bus holds of it. The last sections
  compare the two transports and follow an interrupt from the device to the line and back.
\<close>

section \<open>Layout\<close>

definition VIRTIO_PCI_VENDOR_ID :: u16 where "VIRTIO_PCI_VENDOR_ID = 0x1af4"

definition VIRTIO_PCI_DEVICE_BASE :: u16 where "VIRTIO_PCI_DEVICE_BASE = 0x1040"

definition COMMON_OFFSET :: u64 where "COMMON_OFFSET = 0x0000"

definition ISR_OFFSET :: u64 where "ISR_OFFSET = 0x1000"

definition DEVICE_OFFSET :: u64 where "DEVICE_OFFSET = 0x2000"

definition NOTIFY_OFFSET :: u64 where "NOTIFY_OFFSET = 0x3000"

definition REGION_SIZE :: u64 where "REGION_SIZE = 0x1000"

definition NOTIFY_MULTIPLIER :: u32 where "NOTIFY_MULTIPLIER = 4"

definition MSIX_TABLE_OFFSET :: u32 where "MSIX_TABLE_OFFSET = 0x4000"

definition MSIX_PBA_OFFSET :: u32 where "MSIX_PBA_OFFSET = 0x5000"

definition BAR_SIZE :: u64 where "BAR_SIZE = 0x4000"

definition BAR_SIZE_MSIX :: u64 where "BAR_SIZE_MSIX = 0x8000"

definition CAP_VENDOR :: u8 where "CAP_VENDOR = 0x09"

lemmas layout_defs = COMMON_OFFSET_def ISR_OFFSET_def DEVICE_OFFSET_def NOTIFY_OFFSET_def REGION_SIZE_def
  NOTIFY_MULTIPLIER_def

definition cap_body :: "u8 \<Rightarrow> u8 \<Rightarrow> u64 \<Rightarrow> u64 \<Rightarrow> u8 list" where
  "cap_body cfg_type cap_len off len =
     [cap_len, cfg_type, 0, 0, 0, 0] @ to_le 4 (ucast off :: u32) @ to_le 4 (ucast len :: u32)"

text \<open>\<open>add_all\<close>: the five capabilities in order; the result is the offset of the last one, \<open>pci_cfg\<close>.\<close>

definition vendor_caps :: "(u8 list \<times> u8 list) list" where
  "vendor_caps =
     [(cap_body 1 16 COMMON_OFFSET REGION_SIZE, []),
      (cap_body 2 20 NOTIFY_OFFSET REGION_SIZE @ to_le 4 NOTIFY_MULTIPLIER, []),
      (cap_body 3 16 ISR_OFFSET REGION_SIZE, []),
      (cap_body 4 16 DEVICE_OFFSET REGION_SIZE, []),
      (cap_body 5 20 0 0 @ replicate 4 0, [0, 0, 0xff, 0, 0, 0] @ replicate 12 0xff)]"

fun add_caps :: "(u8 list \<times> u8 list) list \<Rightarrow> u8 \<Rightarrow> config_space \<Rightarrow> pci_error + u8 \<times> config_space" where
  "add_caps [] cap c = Inr (cap, c)"
| "add_caps ((body, wm) # cs) cap c =
     (case add_capability c CAP_VENDOR body wm of
        Inl err \<Rightarrow> Inl err
      | Inr (cap', c') \<Rightarrow> add_caps cs cap' c')"

definition add_all :: "config_space \<Rightarrow> pci_error + u8 \<times> config_space" where
  "add_all c = add_caps vendor_caps 0 c"

section \<open>The function\<close>

record virtio_pci =
  vp_core :: virtio_core
  vp_config :: config_space
  vp_pci_cfg :: nat
  vp_dfselect :: u32
  vp_gfselect :: u32
  vp_queue_select :: u16
  vp_msix_config :: u16
  vp_queue_vectors :: "u16 list"
  vp_msix :: "msix option"

definition class_code_of :: "u32 \<Rightarrow> u32" where
  "class_code_of i =
     (if i = 1 then 0x020000 else if i = 2 then 0x010000 else if i = 3 then 0x078000
      else if i = 16 then 0x038000 else if i = 18 then 0x098000 else 0xff0000)"

definition virtio_pci_header :: "virtio_device \<Rightarrow> header" where
  "virtio_pci_header dev =
     \<lparr>hdr_vendor_id = VIRTIO_PCI_VENDOR_ID, hdr_device_id = VIRTIO_PCI_DEVICE_BASE + ucast (device_id dev),
      class_code = class_code_of (device_id dev), revision = 1, subsystem_vendor_id = VIRTIO_PCI_VENDOR_ID,
      subsystem_id = 0x1100, interrupt_pin = 1\<rparr>"

definition virtio_pci_bar :: "u16 \<Rightarrow> bar" where
  "virtio_pci_bar vectors =
     \<lparr>bar_size = (if 0 < vectors then BAR_SIZE_MSIX else BAR_SIZE), bar_kind = Mem32, prefetchable = False\<rparr>"

text \<open>The hook set on the interrupt refreshes the pin; \<open>virtio_pci_level\<close> below is the level it reads.\<close>

definition virtio_pci_new :: "virtio_device \<Rightarrow> virtio_irq \<Rightarrow> u16 \<Rightarrow> pci_error + virtio_pci" where
  "virtio_pci_new dev irq vectors =
     (case add_bar (config_new (virtio_pci_header dev)) 0 (virtio_pci_bar vectors) of
        Inl err \<Rightarrow> Inl err
      | Inr c1 \<Rightarrow>
          (case add_all c1 of
             Inl err \<Rightarrow> Inl err
           | Inr (cap, c2) \<Rightarrow>
               (case (if vectors = 0 then Inr (None, c2)
                      else case msix_add_capability (msix_new vectors 0 MSIX_TABLE_OFFSET MSIX_PBA_OFFSET) c2 of
                        Inl err \<Rightarrow> Inl err | Inr (_, m, c3) \<Rightarrow> Inr (Some m, c3)) of
                  Inl err \<Rightarrow> Inl err
                | Inr (m, c) \<Rightarrow>
                    Inr \<lparr>vp_core = core_new dev (irq_set_hook irq), vp_config = c, vp_pci_cfg = unat cap, vp_dfselect = 0,
                         vp_gfselect = 0, vp_queue_select = 0, vp_msix_config = MSIX_NO_VECTOR,
                         vp_queue_vectors = replicate (unat (num_queues dev)) MSIX_NO_VECTOR, vp_msix = m\<rparr>)))"

section \<open>Common configuration\<close>

definition addr_field :: "u64 \<Rightarrow> queue_addr \<times> bool" where
  "addr_field off =
     ((if 0x20 \<le> off \<and> off < 0x28 then QueueDesc else if 0x28 \<le> off \<and> off < 0x30 then QueueDriver else QueueDevice),
      off mod 8 = 4)"

definition field_size :: "u64 \<Rightarrow> u8 option" where
  "field_size off =
     (if off \<in> {0x00, 0x04, 0x08, 0x0c} then Some 4
      else if off \<in> {0x10, 0x12, 0x16, 0x18, 0x1a, 0x1c, 0x1e} then Some 2
      else if off \<in> {0x14, 0x15} then Some 1
      else if 0x20 \<le> off \<and> off < 0x38 \<and> off mod 4 = 0 then Some 4
      else None)"

definition common_size_ok :: "u64 \<Rightarrow> u8 \<Rightarrow> bool" where
  "common_size_ok off sz \<longleftrightarrow> (sz = 8 \<and> 0x20 \<le> off \<and> off < 0x38 \<and> off mod 8 = 0) \<or> field_size off = Some sz"

definition common_read :: "virtio_pci \<Rightarrow> u64 \<Rightarrow> u8 \<Rightarrow> u64" where
  "common_read p off sz =
     (if \<not> common_size_ok off sz then 0
      else
        let core = vp_core p; sel = ucast (vp_queue_select p); queue = core_queue core sel in
        if off = 0x00 then ucast (vp_dfselect p)
        else if off = 0x04 then ucast (feature_word (offered core) (vp_dfselect p))
        else if off = 0x08 then ucast (vp_gfselect p)
        else if off = 0x0c then ucast (feature_word (driver_features core) (vp_gfselect p))
        else if off = 0x10 then ucast (vp_msix_config p)
        else if off = 0x12 then of_nat (length (vc_queues core))
        else if off = 0x14 then ucast (vc_status core)
        else if off = 0x15 then ucast (ucast (config_generation (vc_device core)) :: u8)
        else if off = 0x16 then ucast (vp_queue_select p)
        else if off = 0x18 then
          (case queue of None \<Rightarrow> 0 | Some q \<Rightarrow> ucast (if q_num q = 0 then q_num_max q else q_num q))
        else if off = 0x1a then
          (if unat (vp_queue_select p) < length (vp_queue_vectors p)
           then ucast (vp_queue_vectors p ! unat (vp_queue_select p)) else ucast MSIX_NO_VECTOR)
        else if off = 0x1c then (case queue of None \<Rightarrow> 0 | Some q \<Rightarrow> if q_ready q then 1 else 0)
        else if off = 0x1e then ucast (vp_queue_select p)
        else
          (case queue of
             None \<Rightarrow> 0
           | Some q \<Rightarrow>
               let (which, high) = addr_field off;
                   addr = (case which of QueueDesc \<Rightarrow> q_desc q | QueueDriver \<Rightarrow> q_driver q | QueueDevice \<Rightarrow> q_device q)
               in if sz = 8 then addr else if high then drop_bit 32 addr else addr AND 0xffffffff))"

definition accept_vector :: "virtio_pci \<Rightarrow> u16 \<Rightarrow> u16" where
  "accept_vector p vector = (case vp_msix p of Some _ \<Rightarrow> vector | None \<Rightarrow> MSIX_NO_VECTOR)"

definition reset_transport :: "virtio_pci \<Rightarrow> virtio_pci" where
  "reset_transport p =
     p\<lparr>vp_dfselect := 0, vp_gfselect := 0, vp_queue_select := 0, vp_msix_config := MSIX_NO_VECTOR,
       vp_queue_vectors := map (\<lambda>_. MSIX_NO_VECTOR) (vp_queue_vectors p)\<rparr>"

definition enable_queue :: "virtio_core \<Rightarrow> u32 \<Rightarrow> u32 \<Rightarrow> virtio_core" where
  "enable_queue core sel v =
     (let core = (if v = 1 then
                    case core_queue core sel of
                      Some q \<Rightarrow> if q_num q = 0 then set_queue_num core sel (q_num_max q) else core
                    | None \<Rightarrow> core
                  else core)
      in set_queue_ready core sel v)"

definition common_write :: "virtio_pci \<Rightarrow> u64 \<Rightarrow> u8 \<Rightarrow> u64 \<Rightarrow> virtio_pci" where
  "common_write p off sz v =
     (if \<not> common_size_ok off sz then p
      else
        let core = vp_core p; sel = ucast (vp_queue_select p) in
        if off = 0x00 then p\<lparr>vp_dfselect := ucast v\<rparr>
        else if off = 0x08 then p\<lparr>vp_gfselect := ucast v\<rparr>
        else if off = 0x0c then p\<lparr>vp_core := write_driver_features core (vp_gfselect p) (ucast v)\<rparr>
        else if off = 0x10 then p\<lparr>vp_msix_config := accept_vector p (ucast v)\<rparr>
        else if off = 0x14 then
          (let p' = (if v = 0 then reset_transport p else p) in p'\<lparr>vp_core := write_status (vp_core p') (ucast v)\<rparr>)
        else if off = 0x16 then p\<lparr>vp_queue_select := ucast v\<rparr>
        else if off = 0x18 then p\<lparr>vp_core := set_queue_num core sel (ucast v)\<rparr>
        else if off = 0x1a then
          p\<lparr>vp_queue_vectors := (vp_queue_vectors p)[unat (vp_queue_select p) := accept_vector p (ucast v)]\<rparr>
        else if off = 0x1c then p\<lparr>vp_core := enable_queue core sel (ucast v)\<rparr>
        else if 0x20 \<le> off \<and> off < 0x38 \<and> sz = 8 then
          (let (which, _) = addr_field off
           in p\<lparr>vp_core := set_queue_addr (set_queue_addr core sel which False (ucast v)) sel which True (ucast (drop_bit 32 v))\<rparr>)
        else if 0x20 \<le> off \<and> off < 0x38 then
          (let (which, high) = addr_field off in p\<lparr>vp_core := set_queue_addr core sel which high (ucast v)\<rparr>)
        else p)"

section \<open>BAR 0 and config space\<close>

definition msix_hit :: "virtio_pci \<Rightarrow> u64 \<Rightarrow> msix option" where
  "msix_hit p off = (case vp_msix p of Some m \<Rightarrow> if msix_claims m 0 off then Some m else None | None \<Rightarrow> None)"

definition bar0_read :: "virtio_pci \<Rightarrow> u64 \<Rightarrow> u8 \<Rightarrow> u64 \<times> virtio_pci" where
  "bar0_read p off sz =
     (case msix_hit p off of
        Some m \<Rightarrow> (msix_read m off sz, p)
      | None \<Rightarrow>
          let rel = off mod REGION_SIZE; region = off - rel; core = vp_core p in
          if region = COMMON_OFFSET then (common_read p rel sz, p)
          else if region = ISR_OFFSET \<and> rel = 0 then
            (let bits = irq_status (vc_irq core) in (ucast bits, p\<lparr>vp_core := core\<lparr>vc_irq := irq_ack bits (vc_irq core)\<rparr>\<rparr>))
          else if region = DEVICE_OFFSET then (read_config (vc_device core) rel sz, p)
          else (0, p))"

definition bar0_write :: "virtio_pci \<Rightarrow> u64 \<Rightarrow> u8 \<Rightarrow> u64 \<Rightarrow> virtio_pci" where
  "bar0_write p off sz v =
     (case msix_hit p off of
        Some m \<Rightarrow> p\<lparr>vp_msix := Some (msix_write m off sz v)\<rparr>
      | None \<Rightarrow>
          let rel = off mod REGION_SIZE; region = off - rel; core = vp_core p in
          if region = COMMON_OFFSET then common_write p rel sz v
          else if region = DEVICE_OFFSET then p\<lparr>vp_core := core_call (WriteConfig rel sz v) core\<rparr>
          else if region = NOTIFY_OFFSET \<and> rel mod ucast NOTIFY_MULTIPLIER = 0 then
            p\<lparr>vp_core := notify core (ucast (rel div ucast NOTIFY_MULTIPLIER))\<rparr>
          else p)"

text \<open>The \<open>pci_cfg\<close> window as programmed, if usable.\<close>

definition cfg_data :: "virtio_pci \<Rightarrow> nat" where
  "cfg_data p = vp_pci_cfg p + 16"

definition cfg_window :: "virtio_pci \<Rightarrow> u8 \<times> u32 \<times> u32" where
  "cfg_window p =
     (let c = vp_config p; cap = vp_pci_cfg p
      in ((case config_bytes c (cap + 4) 1 of [] \<Rightarrow> 0 | b # _ \<Rightarrow> b), u32_at c (cap + 8), u32_at c (cap + 12)))"

definition pci_cfg_target :: "virtio_pci \<Rightarrow> (u64 \<times> u8) option" where
  "pci_cfg_target p =
     (case cfg_window p of (bar, off, len) \<Rightarrow>
        if bar = 0 \<and> len \<in> {1, 2, 4} \<and> off mod len = 0 then Some (ucast off, ucast len) else None)"

definition virtio_read_config :: "virtio_pci \<Rightarrow> nat \<Rightarrow> u8 \<Rightarrow> u32 \<times> virtio_pci" where
  "virtio_read_config p off sz =
     (if off = cfg_data p then
        (case pci_cfg_target p of
           Some (bar_off, len) \<Rightarrow>
             (let (v, p') = bar0_read p bar_off len
              in (ucast (mask_size (ucast (ucast (mask_size v len) :: u32)) sz), p'))
         | None \<Rightarrow> (0, p))
      else (config_read (vp_config p) off (unat sz), p))"

definition virtio_write_config :: "virtio_pci \<Rightarrow> nat \<Rightarrow> u8 \<Rightarrow> u32 \<Rightarrow> virtio_pci" where
  "virtio_write_config p off sz v =
     (if off = cfg_data p then
        (case pci_cfg_target p of
           Some (bar_off, len) \<Rightarrow> bar0_write p bar_off len (mask_size (ucast v) len)
         | None \<Rightarrow> p)
      else
        let c = config_write (vp_config p) off (unat sz) v
        in p\<lparr>vp_config := c, vp_msix := map_option (\<lambda>m. msix_sync m c) (vp_msix p)\<rparr>)"

definition virtio_read_bar :: "virtio_pci \<Rightarrow> nat \<Rightarrow> u64 \<Rightarrow> u8 \<Rightarrow> u64 \<times> virtio_pci" where
  "virtio_read_bar p bar off sz =
     (let (v, p') = (if bar = 0 then bar0_read p off sz else (- 1, p)) in (mask_size v sz, p'))"

definition virtio_write_bar :: "virtio_pci \<Rightarrow> nat \<Rightarrow> u64 \<Rightarrow> u8 \<Rightarrow> u64 \<Rightarrow> virtio_pci" where
  "virtio_write_bar p bar off sz v = (if bar = 0 then bar0_write p off sz v else p)"

text \<open>What the interrupt hook asks of the pin.\<close>

definition virtio_pci_level :: "virtio_pci \<Rightarrow> bool" where
  "virtio_pci_level p \<longleftrightarrow> irq_status (vc_irq (vp_core p)) \<noteq> 0"

text \<open>How often the interrupt line has called it.\<close>

definition virtio_pci_hooks :: "virtio_pci \<Rightarrow> nat" where
  "virtio_pci_hooks p = length (irq_calls (vc_irq (vp_core p)))"

section \<open>The functions of the machine\<close>

datatype pci_device = HostBridge config_space | VirtioFn virtio_pci

definition device_ops :: "pci_device pci_ops" where
  "device_ops =
     \<lparr>fn_config = (\<lambda>d. case d of HostBridge c \<Rightarrow> c | VirtioFn p \<Rightarrow> vp_config p),
      fn_set_config = (\<lambda>c d. case d of HostBridge _ \<Rightarrow> HostBridge c | VirtioFn p \<Rightarrow> VirtioFn (p\<lparr>vp_config := c\<rparr>)),
      fn_read_config = (\<lambda>d off sz. case d of
          HostBridge c \<Rightarrow> apsnd HostBridge (default_read_config c off sz)
        | VirtioFn p \<Rightarrow> apsnd VirtioFn (virtio_read_config p off sz)),
      fn_write_config = (\<lambda>d off sz v. case d of
          HostBridge c \<Rightarrow> HostBridge (default_write_config c off sz v)
        | VirtioFn p \<Rightarrow> VirtioFn (virtio_write_config p off sz v)),
      fn_read_bar = (\<lambda>d bar off sz. case d of
          HostBridge c \<Rightarrow> apsnd HostBridge (default_read_bar c bar off sz)
        | VirtioFn p \<Rightarrow> apsnd VirtioFn (virtio_read_bar p bar off sz)),
      fn_write_bar = (\<lambda>d bar off sz v. case d of
          HostBridge c \<Rightarrow> HostBridge (default_write_bar c bar off sz v)
        | VirtioFn p \<Rightarrow> VirtioFn (virtio_write_bar p bar off sz v)),
      fn_level = (\<lambda>d. case d of HostBridge _ \<Rightarrow> None | VirtioFn p \<Rightarrow> Some (virtio_pci_level p)),
      fn_hooks = (\<lambda>d. case d of HostBridge _ \<Rightarrow> 0 | VirtioFn p \<Rightarrow> virtio_pci_hooks p)\<rparr>"

lemma device_ops_simps:
  "fn_config device_ops (HostBridge c) = c" "fn_config device_ops (VirtioFn p) = vp_config p"
  "fn_level device_ops (HostBridge c) = None" "fn_level device_ops (VirtioFn p) = Some (virtio_pci_level p)"
  "fn_hooks device_ops (HostBridge c) = 0" "fn_hooks device_ops (VirtioFn p) = virtio_pci_hooks p"
  "fn_read_bar device_ops (VirtioFn p) bar off sz = apsnd VirtioFn (virtio_read_bar p bar off sz)"
  "fn_write_bar device_ops (VirtioFn p) bar off sz v = VirtioFn (virtio_write_bar p bar off sz v)"
  by (simp_all add: device_ops_def)

text \<open>\<open>attach_pci\<close>: a device on the next free slot, without MSI-X. \<open>disp\<close> is the \<open>Display\<close> of the error type.\<close>

definition attach_pci ::
  "(pci_error \<Rightarrow> string) \<Rightarrow> virtio_device \<Rightarrow> virtio_irq \<Rightarrow> pci_device pci_root \<Rightarrow> (add_error + bdf) \<times> pci_device pci_root" where
  "attach_pci disp dev irq r =
     root_add device_ops
       (\<lambda>b pin. case virtio_pci_new dev irq 0 of Inl err \<Rightarrow> Inl (disp err) | Inr p \<Rightarrow> Inr (VirtioFn p)) r"

section \<open>The invariant\<close>

definition vp_inv :: "virtio_pci \<Rightarrow> bool" where
  "vp_inv p \<longleftrightarrow> core_inv (vp_core p) \<and> bars_inv (vp_config p) \<and> 64 \<le> vp_pci_cfg p
     \<and> length (vp_queue_vectors p) = length (vc_queues (vp_core p))
     \<and> (\<forall>m. vp_msix p = Some m \<longrightarrow> msix_inv m)
     \<and> (vp_msix p = None \<longrightarrow> vp_msix_config p = MSIX_NO_VECTOR \<and> (\<forall>v \<in> set (vp_queue_vectors p). v = MSIX_NO_VECTOR))"

definition device_inv :: "pci_device \<Rightarrow> bool" where
  "device_inv d \<longleftrightarrow> (case d of HostBridge c \<Rightarrow> bars_inv c | VirtioFn p \<Rightarrow> vp_inv p \<and> irq_hook (vc_irq (vp_core p)))"

text \<open>The core operations the transport uses keep the number of queues.\<close>

lemma core_ops_length [simp]:
  "length (vc_queues (write_driver_features c sel v)) = length (vc_queues c)"
  "length (vc_queues (write_status c v)) = length (vc_queues c)"
  "length (vc_queues (set_queue_num c s v)) = length (vc_queues c)"
  "length (vc_queues (set_queue_ready c s v)) = length (vc_queues c)"
  "length (vc_queues (set_queue_addr c s w h v)) = length (vc_queues c)"
  "length (vc_queues (notify c i)) = length (vc_queues c)"
  by (simp_all add: write_driver_features_def write_status_def core_reset_def set_queue_num_def set_queue_ready_def
      set_queue_addr_def notify_def split: option.split sum.split)

lemma enable_queue_inv: "core_inv c \<Longrightarrow> core_inv (enable_queue c s v)"
  and enable_queue_length [simp]: "length (vc_queues (enable_queue c s v)) = length (vc_queues c)"
  by (simp_all add: enable_queue_def Let_def core_op_inv split: option.split)

lemma common_write_frame [simp]:
  "vp_config (common_write p off sz v) = vp_config p" "vp_pci_cfg (common_write p off sz v) = vp_pci_cfg p"
  "vp_msix (common_write p off sz v) = vp_msix p"
  by (simp_all add: common_write_def Let_def reset_transport_def split: prod.split)

lemma common_write_inv: "vp_inv p \<Longrightarrow> vp_inv (common_write p off sz v)"
proof -
  assume inv: "vp_inv p"
  then have core: "core_inv (vp_core p)" by (simp add: vp_inv_def)
  have vectors: "x = MSIX_NO_VECTOR" if "x \<in> set ((vp_queue_vectors p)[i := MSIX_NO_VECTOR])" "vp_msix p = None" for x i
    using that inv by (auto simp: vp_inv_def dest!: set_update_subset_insert [THEN subsetD])
  have "core_inv (vp_core (common_write p off sz v))"
    using core by (simp add: common_write_def Let_def core_op_inv enable_queue_inv reset_transport_def split: prod.split)
  moreover have "length (vp_queue_vectors (common_write p off sz v)) = length (vc_queues (vp_core (common_write p off sz v)))"
    using inv by (simp add: common_write_def Let_def reset_transport_def vp_inv_def split: prod.split)
  moreover have "vp_msix_config (common_write p off sz v) = MSIX_NO_VECTOR" if "vp_msix p = None"
    using inv that by (simp add: common_write_def Let_def reset_transport_def vp_inv_def accept_vector_def split: prod.split)
  moreover have "\<forall>x \<in> set (vp_queue_vectors (common_write p off sz v)). x = MSIX_NO_VECTOR" if "vp_msix p = None"
    using inv that vectors
    by (auto simp: common_write_def Let_def reset_transport_def vp_inv_def accept_vector_def split: prod.splits if_splits)
  ultimately show ?thesis
    using inv by (auto simp: vp_inv_def split: option.splits)
qed

lemma vp_inv_core:
  "vp_inv p \<Longrightarrow> core_inv c \<Longrightarrow> length (vc_queues c) = length (vc_queues (vp_core p)) \<Longrightarrow> vp_inv (p\<lparr>vp_core := c\<rparr>)"
  by (simp add: vp_inv_def)

lemma msix_hit_Some: "msix_hit p off = Some m \<Longrightarrow> vp_msix p = Some m"
  by (auto simp: msix_hit_def split: option.splits if_splits)

lemma bar0_read_keeps:
  assumes "vp_inv p"
  shows "vp_inv (snd (bar0_read p off sz))" and "vp_config (snd (bar0_read p off sz)) = vp_config p"
  using assms by (auto simp: bar0_read_def Let_def vp_inv_core core_op_inv vp_inv_def [of p] split: option.split)

lemma bar0_write_keeps:
  assumes "vp_inv p"
  shows "vp_inv (bar0_write p off sz v)" and "vp_config (bar0_write p off sz v) = vp_config p"
proof -
  have core: "core_inv (vp_core p)" using assms by (simp add: vp_inv_def)
  have m: "vp_inv (p\<lparr>vp_msix := Some (msix_write m off sz v)\<rparr>)" if "msix_hit p off = Some m" for m
    using assms msix_hit_Some [OF that] by (simp add: vp_inv_def msix_write_inv)
  show "vp_inv (bar0_write p off sz v)"
    using assms core m
    by (simp add: bar0_write_def Let_def common_write_inv vp_inv_core core_op_inv core_inv_config split: option.split)
  show "vp_config (bar0_write p off sz v) = vp_config p"
    by (simp add: bar0_write_def Let_def split: option.split)
qed

lemma virtio_config_keeps:
  assumes "vp_inv p"
  shows "vp_inv (snd (virtio_read_config p off sz))" "vp_config (snd (virtio_read_config p off sz)) = vp_config p"
    "vp_inv (virtio_write_config p off sz v)"
    "off < 0x40 \<Longrightarrow> vp_config (virtio_write_config p off sz v) = config_write (vp_config p) off (unat sz) v"
proof -
  show "vp_inv (snd (virtio_read_config p off sz))" "vp_config (snd (virtio_read_config p off sz)) = vp_config p"
    using assms bar0_read_keeps [OF assms]
    by (auto simp: virtio_read_config_def split: option.split prod.split) (metis snd_conv)+
  show "vp_inv (virtio_write_config p off sz v)"
  proof (cases "off = cfg_data p")
    case True
    then show ?thesis using assms by (auto simp: virtio_write_config_def bar0_write_keeps split: option.split)
  next
    case False
    then show ?thesis
      using assms by (auto simp: virtio_write_config_def Let_def vp_inv_def config_write_bars_inv msix_sync_inv split: option.splits)
  qed
  show "vp_config (virtio_write_config p off sz v) = config_write (vp_config p) off (unat sz) v" if "off < 0x40"
    using that assms by (simp add: virtio_write_config_def vp_inv_def cfg_data_def Let_def)
qed

lemma virtio_bar_keeps:
  assumes "vp_inv p"
  shows "vp_inv (snd (virtio_read_bar p bar off sz))" "vp_config (snd (virtio_read_bar p bar off sz)) = vp_config p"
    "vp_inv (virtio_write_bar p bar off sz v)" "vp_config (virtio_write_bar p bar off sz v) = vp_config p"
  using assms bar0_read_keeps [OF assms, of off sz]
  by (auto simp: virtio_read_bar_def virtio_write_bar_def bar0_write_keeps split: prod.split)

text \<open>
  The interrupt line of a function after an operation, with its hook installed: the hook was called at least whenever
  the pending bits changed between none and some.
\<close>

definition irq_follows :: "virtio_irq \<Rightarrow> virtio_irq \<Rightarrow> bool" where
  "irq_follows irq irq' \<longleftrightarrow> irq_hook irq' = irq_hook irq \<and> length (irq_calls irq) \<le> length (irq_calls irq')
     \<and> (length (irq_calls irq') = length (irq_calls irq) \<longrightarrow> (irq_bits irq' \<noteq> 0) = (irq_bits irq \<noteq> 0))"

lemma irq_follows_refl [simp]: "irq_follows irq irq"
  by (simp add: irq_follows_def)

lemma irq_raise_follows: "irq_inv irq \<Longrightarrow> irq_hook irq \<Longrightarrow> irq_follows irq (irq_raise b irq)"
  by (auto simp: irq_follows_def irq_inv_def irq_raise_def sync_line_def drive_line_def Let_def)

lemma irq_ack_follows: "irq_inv irq \<Longrightarrow> irq_hook irq \<Longrightarrow> irq_follows irq (irq_ack b irq)"
  by (auto simp: irq_follows_def irq_inv_def irq_ack_def sync_line_def drive_line_def Let_def)

definition vp_follows :: "virtio_pci \<Rightarrow> virtio_pci \<Rightarrow> bool" where
  "vp_follows p p' \<longleftrightarrow> irq_follows (vc_irq (vp_core p)) (vc_irq (vp_core p'))"

lemma vp_follows_cases:
  assumes "vp_inv p" "irq_hook (vc_irq (vp_core p))"
    and "vc_irq (vp_core p') = vc_irq (vp_core p) \<or> (\<exists>b. vc_irq (vp_core p') = irq_ack b (vc_irq (vp_core p)))"
  shows "vp_follows p p'"
  using assms irq_ack_follows [of "vc_irq (vp_core p)"] by (auto simp: vp_follows_def vp_inv_def core_inv_def)

lemma core_ops_irq [simp]:
  "vc_irq (write_driver_features c sel v) = vc_irq c" "vc_irq (set_queue_num c s v) = vc_irq c"
  "vc_irq (set_queue_ready c s v) = vc_irq c" "vc_irq (set_queue_addr c s w h v) = vc_irq c" "vc_irq (notify c i) = vc_irq c"
  by (simp_all add: write_driver_features_def set_queue_num_def set_queue_ready_def set_queue_addr_def notify_def
      split: option.split)

lemma enable_queue_irq [simp]: "vc_irq (enable_queue c s v) = vc_irq c"
  by (simp add: enable_queue_def Let_def split: option.split)

lemma write_status_irq: "vc_irq (write_status c v) = vc_irq c \<or> (\<exists>b. vc_irq (write_status c v) = irq_ack b (vc_irq c))"
  by (auto simp: write_status_def core_reset_def split: sum.split)

lemma common_write_irq:
  "vc_irq (vp_core (common_write p off sz v)) = vc_irq (vp_core p)
   \<or> (\<exists>b. vc_irq (vp_core (common_write p off sz v)) = irq_ack b (vc_irq (vp_core p)))"
proof (cases "off = 0x14")
  case True
  then show ?thesis
    using write_status_irq [of "vp_core p" "ucast v"] write_status_irq [of "vp_core p" 0]
    by (auto simp: common_write_def Let_def reset_transport_def)
next
  case False
  then have "vc_irq (vp_core (common_write p off sz v)) = vc_irq (vp_core p)"
    by (simp add: common_write_def Let_def split: prod.split)
  then show ?thesis ..
qed

lemma bar0_follows:
  assumes "vp_inv p" "irq_hook (vc_irq (vp_core p))"
  shows "vp_follows p (snd (bar0_read p off sz))" "vp_follows p (bar0_write p off sz v)"
  using common_write_irq
  by (auto intro!: vp_follows_cases [OF assms] simp: bar0_read_def bar0_write_def Let_def split: option.split)

lemma vp_follows_refl: "vc_irq (vp_core p') = vc_irq (vp_core p) \<Longrightarrow> vp_follows p p'"
  by (simp add: vp_follows_def)

lemma virtio_follows:
  assumes "vp_inv p" "irq_hook (vc_irq (vp_core p))"
  shows "vp_follows p (snd (virtio_read_config p off sz))" "vp_follows p (virtio_write_config p off sz v)"
    "vp_follows p (snd (virtio_read_bar p bar boff sz))" "vp_follows p (virtio_write_bar p bar boff sz w)"
proof -
  note bar = bar0_follows [OF assms]
  show "vp_follows p (virtio_write_config p off sz v)" "vp_follows p (virtio_write_bar p bar boff sz w)"
    using bar(2) by (auto simp: virtio_write_config_def virtio_write_bar_def Let_def vp_follows_refl split: option.split)
  show "vp_follows p (snd (virtio_read_config p off sz))"
    using bar(1) by (auto simp: virtio_read_config_def vp_follows_refl split: option.split prod.split) (metis snd_conv)
  show "vp_follows p (snd (virtio_read_bar p bar boff sz))"
    using bar(1) [of boff sz] by (auto simp: virtio_read_bar_def vp_follows_refl split: prod.split)
qed

lemma vp_follows_hook: "vp_follows p p' \<Longrightarrow> irq_hook (vc_irq (vp_core p')) = irq_hook (vc_irq (vp_core p))"
  by (simp add: vp_follows_def irq_follows_def)

lemma vp_follows_hooked: "vp_follows p p' \<Longrightarrow> hooked device_ops (VirtioFn p) (VirtioFn p')"
  by (simp add: vp_follows_def irq_follows_def hooked_def device_ops_simps virtio_pci_level_def virtio_pci_hooks_def irq_status_def)

lemmas virtio_hook = virtio_follows [THEN vp_follows_hook]

interpretation devices: pci_function device_ops device_inv
proof
  fix d :: pci_device and c i a off sz v bar boff w
  show "device_inv d \<Longrightarrow> bars_inv (fn_config device_ops d)"
    by (cases d) (simp_all add: device_inv_def device_ops_def vp_inv_def)
  show "fn_config device_ops (fn_set_config device_ops c d) = c"
    by (cases d) (simp_all add: device_ops_def)
  show "device_inv d \<Longrightarrow> device_inv (fn_set_config device_ops (set_bar_address (fn_config device_ops d) i a) d)"
    by (cases d) (simp_all add: device_inv_def device_ops_def vp_inv_def set_bar_address_bars_inv)
  show "device_inv d \<Longrightarrow> device_inv (snd (fn_read_config device_ops d off sz))"
    by (cases d) (simp_all add: device_inv_def device_ops_def virtio_config_keeps virtio_hook default_read_config_def)
  show "device_inv d \<Longrightarrow> fn_config device_ops (snd (fn_read_config device_ops d off sz)) = fn_config device_ops d"
    by (cases d) (simp_all add: device_inv_def device_ops_def virtio_config_keeps default_read_config_def)
  show "device_inv d \<Longrightarrow> device_inv (fn_write_config device_ops d off sz v)"
    by (cases d) (simp_all add: device_inv_def device_ops_def virtio_config_keeps virtio_hook default_write_config_def config_write_bars_inv)
  show "device_inv d \<Longrightarrow> off < 0x40 \<Longrightarrow>
      fn_config device_ops (fn_write_config device_ops d off sz v) = config_write (fn_config device_ops d) off (unat sz) v"
    by (cases d) (simp_all add: device_inv_def device_ops_def virtio_config_keeps default_write_config_def)
  show "device_inv d \<Longrightarrow> fn_config device_ops (fn_write_config device_ops d off sz v) \<in>
      {fn_config device_ops d, config_write (fn_config device_ops d) off (unat sz) v}"
    by (cases d) (auto simp: device_inv_def device_ops_def virtio_write_config_def bar0_write_keeps default_write_config_def
        Let_def split: option.split)
  show "device_inv d \<Longrightarrow> device_inv (snd (fn_read_bar device_ops d bar boff sz))"
    "device_inv d \<Longrightarrow> fn_config device_ops (snd (fn_read_bar device_ops d bar boff sz)) = fn_config device_ops d"
    by (cases d; simp add: device_inv_def device_ops_def virtio_bar_keeps virtio_hook default_read_bar_def)+
  show "device_inv d \<Longrightarrow> device_inv (fn_write_bar device_ops d bar boff sz w)"
    "device_inv d \<Longrightarrow> fn_config device_ops (fn_write_bar device_ops d bar boff sz w) = fn_config device_ops d"
    by (cases d; simp add: device_inv_def device_ops_def virtio_bar_keeps virtio_hook default_write_bar_def)+
qed

lemma hooked_refl [simp]: "hooked ops d d"
  by (simp add: hooked_def)

interpretation devices: pci_interrupting device_ops device_inv
proof
  fix d :: pci_device and c off sz v bar and boff :: u64 and w
  show "fn_level device_ops (fn_set_config device_ops c d) = fn_level device_ops d"
    by (simp add: device_ops_def virtio_pci_level_def split: pci_device.split)
  assume inv: "device_inv d"
  have h: "hooked device_ops (HostBridge x) (HostBridge y)" for x y by (simp add: hooked_def device_ops_simps)
  note follows = virtio_follows [THEN vp_follows_hooked]
  show "hooked device_ops d (snd (fn_read_config device_ops d off sz))"
    using inv h by (cases d) (simp_all add: device_inv_def device_ops_def [THEN arg_cong, of fn_read_config] follows)
  show "hooked device_ops d (fn_write_config device_ops d off sz v)"
    using inv h by (cases d) (simp_all add: device_inv_def device_ops_def [THEN arg_cong, of fn_write_config] follows)
  show "hooked device_ops d (snd (fn_read_bar device_ops d bar boff sz))"
    using inv h by (cases d) (simp_all add: device_inv_def device_ops_def [THEN arg_cong, of fn_read_bar] follows)
  show "hooked device_ops d (fn_write_bar device_ops d bar boff sz w)"
    using inv h by (cases d) (simp_all add: device_inv_def device_ops_def [THEN arg_cong, of fn_write_bar] follows)
qed

section \<open>Building functions\<close>

fun caps_fit :: "(u8 list \<times> u8 list) list \<Rightarrow> nat \<Rightarrow> bool" where
  "caps_fit [] n \<longleftrightarrow> True"
| "caps_fit ((body, wm) # cs) n \<longleftrightarrow> cap_fits n body wm \<and> caps_fit cs (cap_after n body)"

lemma add_caps_ok:
  assumes "bars_inv c" "caps_inv c es" "caps_fit cs (next_cap c)" "64 \<le> unat cap \<or> cs \<noteq> []"
  shows "\<exists>cap' c'. add_caps cs cap c = Inr (cap', c') \<and> bars_inv c' \<and> (\<exists>es'. caps_inv c' es') \<and> c_bars c' = c_bars c
    \<and> u32_at c' (bar_reg 0) = u32_at c (bar_reg 0) \<and> cfg_byte c' 4 = cfg_byte c 4 \<and> cfg_byte c' 5 = cfg_byte c 5
    \<and> 64 \<le> unat cap'"
  using assms
proof (induction cs arbitrary: c cap es)
  case Nil
  then show ?case by auto
next
  case (Cons bw cs)
  obtain body wm where bw: "bw = (body, wm)" by (cases bw)
  from Cons.prems(3) bw have fit: "cap_fits (next_cap c) body wm" by simp
  then have "add_capability c CAP_VENDOR body wm =
      Inr (of_nat (next_cap c), snd (projr (add_capability c CAP_VENDOR body wm)))"
    by (subst add_capability_result) simp
  then obtain c1 where c1: "add_capability c CAP_VENDOR body wm = Inr (of_nat (next_cap c), c1)" by blast
  note l = caps_inv_link [OF Cons.prems(2)]
  note b = add_capability_bytes [OF c1 l(4,1,2,3)]
  have low: "cfg_byte c1 j = cfg_byte c j" if "j < 0x28" "j \<noteq> STATUS" for j
    using that l(3,6) by (auto simp: b(6) config_defs)
  have cap: "64 \<le> unat (of_nat (next_cap c) :: u8)"
    using l(3) fit by (simp add: cap_fits_def unat_of_nat)
  have "u32_at c1 (bar_reg 0) = u32_at c (bar_reg 0)" "cfg_byte c1 4 = cfg_byte c 4" "cfg_byte c1 5 = cfg_byte c 5"
    using low by (auto intro!: u32_at_cong simp: bar_reg_def config_defs)
  moreover have "caps_fit cs (next_cap c1)" using Cons.prems(3) bw b(4) by simp
  ultimately show ?case
    using Cons.IH [OF add_capability_bars_inv [OF Cons.prems(1,2) c1] add_capability_caps_inv [OF Cons.prems(2) c1]] cap b(3)
    by (simp add: bw c1)
qed

lemma vendor_caps_fit: "caps_fit vendor_caps 64"
  by (simp add: vendor_caps_def cap_fits_def cap_after_def cap_body_def)

lemma config_new_not_enabled: "cfg_byte (config_new h) 4 = 0" "cfg_byte (config_new h) 5 = 0"
  by (simp_all add: config_new_def Let_def cfg_byte_put config_defs blank_bytes)

lemma virtio_pci_bar_ok: "bar_ok (virtio_pci_bar 0)"
proof -
  have "is_power_of_two BAR_SIZE" unfolding BAR_SIZE_def by code_simp
  then show ?thesis by (simp add: bar_ok_def virtio_pci_bar_def) (simp add: BAR_SIZE_def)
qed

lemma virtio_pci_new_ok:
  assumes "irq_inv irq"
  shows "\<exists>p. virtio_pci_new dev irq 0 = Inr p \<and> vp_inv p \<and> (\<exists>es. caps_inv (vp_config p) es)
    \<and> c_bars (vp_config p) = BarSlot (virtio_pci_bar 0) # replicate 5 EmptySlot \<and> bar_address (vp_config p) 0 = Some 0
    \<and> cfg_byte (vp_config p) 4 = 0 \<and> cfg_byte (vp_config p) 5 = 0 \<and> vp_core p = core_new dev (irq_set_hook irq)"
proof -
  let ?h = "virtio_pci_header dev" and ?b = "virtio_pci_bar 0"
  let ?c1 = "bar_declared (config_new ?h) 0 ?b"
  have none: "find (\<lambda>j. c_bars (config_new ?h) ! j \<noteq> EmptySlot) [0..<0 + bar_regs (bar_kind ?b)] = None"
    by (simp add: find_None_iff config_new_bytes virtio_pci_bar_def bar_regs_def)
  have kind: "bar_kind ?b = Mem32" by (simp add: virtio_pci_bar_def)
  have "\<exists>c1. add_bar (config_new ?h) 0 ?b = Inr c1"
    using virtio_pci_bar_ok none unfolding add_bar_def Let_def bar_ok_def
    by (auto simp: bar_regs_def BARS_def kind)
  then have ab: "add_bar (config_new ?h) 0 ?b = Inr ?c1" using add_bar_cases(1) by fastforce
  have inv1: "bars_inv ?c1" "caps_inv ?c1 []"
    using add_bar_bars_inv [OF config_new_inv(1) ab] add_bar_caps_inv [OF config_new_inv(2) ab] by auto
  have fl: "u32_at ?c1 (bar_reg 0) = 0"
    using bar_declared_registers(1) [of "config_new ?h" 0 ?b 0] by (simp add: config_new_bytes kind bar_regs_def BARS_def)
      (simp add: bar_flags_def virtio_pci_bar_def)
  have cmd: "cfg_byte ?c1 4 = 0" "cfg_byte ?c1 5 = 0"
    by (simp_all add: bar_declared_def Let_def kind cfg_byte_put bar_reg_def config_defs config_new_not_enabled)
  have "next_cap ?c1 = 64" by (simp add: config_new_bytes)
  with add_caps_ok [OF inv1, of vendor_caps 0] vendor_caps_fit
  obtain cap c2 where c2: "add_all ?c1 = Inr (cap, c2)" "bars_inv c2" "\<exists>es. caps_inv c2 es" "c_bars c2 = c_bars ?c1"
    "u32_at c2 (bar_reg 0) = 0" "cfg_byte c2 4 = 0" "cfg_byte c2 5 = 0" "64 \<le> unat cap"
    by (auto simp: add_all_def fl cmd vendor_caps_def)
  have bars: "c_bars c2 = BarSlot ?b # replicate 5 EmptySlot"
    by (simp add: c2(4) kind config_new_bytes numeral_eq_Suc)
  then have at: "bar_at c2 0 = Some ?b" by (simp add: bar_at_slot)
  have addr: "bar_address c2 0 = Some 0" by (simp add: bar_address_joined [OF at] kind c2(5) joined_def)
  let ?p = "\<lparr>vp_core = core_new dev (irq_set_hook irq), vp_config = c2, vp_pci_cfg = unat cap, vp_dfselect = 0,
       vp_gfselect = 0, vp_queue_select = 0, vp_msix_config = MSIX_NO_VECTOR,
       vp_queue_vectors = replicate (unat (num_queues dev)) MSIX_NO_VECTOR, vp_msix = None\<rparr>"
  have "virtio_pci_new dev irq 0 = Inr ?p" by (simp add: virtio_pci_new_def ab c2(1))
  moreover have "vp_inv ?p"
    using c2(2,8) core_inv_new [OF irq_set_hook_inv [OF assms], of dev] by (simp add: vp_inv_def core_new_def)
  ultimately show ?thesis using bars addr c2 by auto
qed

end
