(* ===== verification/Pci_Machine.thy ===== *)
theory Pci_Machine
  imports Virtio_Pci
begin

text \<open>
  The PCI side of a machine, from boot to a running guest: the root complex with its host bridge
  (\<open>ternvale-vmm/src/pci/root.rs\<close>), virtio functions attached one after the other
  (\<open>ternvale-devices/src/virtio/pci.rs\<close>), the host's BAR assignment (\<open>pci/bus.rs\<close>), and then any sequence of guest
  accesses and device interrupts.
\<close>

section \<open>Attaching\<close>

definition attach_all ::
  "(pci_error \<Rightarrow> string) \<Rightarrow> (virtio_device \<times> virtio_irq) list \<Rightarrow> pci_device pci_root \<Rightarrow> pci_device pci_root" where
  "attach_all disp devs r = fold (\<lambda>(dev, irq) r. snd (attach_pci disp dev irq r)) devs r"

definition machine_root :: "(pci_error \<Rightarrow> string) \<Rightarrow> (virtio_device \<times> virtio_irq) list \<Rightarrow> pci_device pci_root" where
  "machine_root disp devs = attach_all disp devs (root_new (HostBridge host_bridge_new))"

text \<open>An interrupt line as the caller of \<open>attach_pci\<close> has it: no hook installed and so none called.\<close>

definition irq_fresh :: "virtio_irq \<Rightarrow> bool" where
  "irq_fresh irq \<longleftrightarrow> irq_inv irq \<and> \<not> irq_hook irq \<and> irq_calls irq = []"

lemma irq_new_fresh: "irq_fresh irq_new"
  by (simp add: irq_fresh_def irq_new_inv) (simp add: irq_new_def)

lemma irq_fresh_hook:
  "irq_hook (irq_set_hook irq)"
  "irq_fresh irq \<Longrightarrow> irq_bits (irq_set_hook irq) \<noteq> 0 \<Longrightarrow> irq_calls (irq_set_hook irq) \<noteq> []"
  by (auto simp: irq_fresh_def irq_inv_def irq_set_hook_def sync_line_def drive_line_def)

definition attached :: "pci_device pci_root \<Rightarrow> nat \<Rightarrow> bool" where
  "attached r n \<longleftrightarrow> root_inv device_inv r \<and> window_base r = PCIE_MMIO_BASE \<and> window_size r = PCIE_MMIO_SIZE
     \<and> 1 \<le> n \<and> n \<le> DEVICES \<and> (\<forall>d < DEVICES. slots r ! d = None \<longleftrightarrow> n \<le> d)
     \<and> (\<forall>d i b a. placed device_ops r d i b a \<longleftrightarrow> 1 \<le> d \<and> d < n \<and> i = 0 \<and> b = virtio_pci_bar 0 \<and> a = 0)"

lemma position_first:
  "n < length xs \<Longrightarrow> P (xs ! n) \<Longrightarrow> (\<And>j. j < n \<Longrightarrow> \<not> P (xs ! j)) \<Longrightarrow> position P xs = Some n"
proof (induction xs arbitrary: n)
  case (Cons x xs)
  show ?case
  proof (cases n)
    case (Suc m)
    have "\<not> P x" using Cons.prems(3) [of 0] Suc by simp
    moreover have "position P xs = Some m"
    proof (rule Cons.IH)
      show "\<not> P (xs ! j)" if "j < m" for j using Cons.prems(3) [of "Suc j"] that Suc by simp
    qed (use Cons.prems Suc in simp_all)
    ultimately show ?thesis using Suc by simp
  qed (use Cons.prems in simp)
qed simp

lemma position_none: "(\<And>x. x \<in> set xs \<Longrightarrow> \<not> P x) \<Longrightarrow> position P xs = None"
  by (induction xs) auto

lemma host_bridge_attached:
  "attached (root_new (HostBridge host_bridge_new)) 1" "wired device_ops {} (root_new (HostBridge host_bridge_new))"
proof -
  let ?r = "root_new (HostBridge host_bridge_new)"
  have ss: "slots ?r = Some \<lparr>slot_fn = HostBridge host_bridge_new, slot_pin = None\<rparr> # replicate 31 None"
    by (simp add: root_new_def bus_insert_def bus_empty_def DEVICES_def numeral_eq_Suc)
  have at: "slots ?r ! d = (if d = 0 then Some \<lparr>slot_fn = HostBridge host_bridge_new, slot_pin = None\<rparr> else None)" if "d < 32" for d
    using that by (simp add: ss nth_Cons')
  have none: "bar_at host_bridge_new i = None" for i
    by (simp add: host_bridge_new_def bar_at_def config_new_bytes)
  have "cfg_at device_ops ?r d = (if d = 0 then Some host_bridge_new else None)" for d
  proof (cases "d < 32")
    case True
    then show ?thesis using at [OF True] by (auto simp: cfg_at_def ss device_ops_simps)
  next
    case False
    then show ?thesis by (simp add: cfg_at_def ss)
  qed
  then have pl: "\<not> placed device_ops ?r d i b a" for d i b a using none by (auto simp: placed_def)
  have "pins_of (slots ?r) = []" by (simp add: ss pins_of_def)
  then have count: "drivers l (pins_of (slots ?r)) = 0" for l by (simp add: drivers_def)
  have lines: "intx_lines ?r = map (\<lambda>i. line_new (PCI_INTX_SPI0 + of_nat i)) [0..<PCI_INTX_LINES]"
    by (simp add: root_new_def bus_insert_def bus_empty_def)
  have "bars_inv host_bridge_new" unfolding host_bridge_new_def by (rule config_new_inv)
  then have "root_inv device_inv ?r"
    by (auto simp: root_inv_def ss DEVICES_def device_inv_def)
  then show "attached ?r 1"
    using at pl unfolding attached_def
    by (auto simp: DEVICES_def root_new_def bus_insert_def bus_empty_def)
  show "wired device_ops {} ?r"
    unfolding wired_def
  proof (intro conjI allI impI)
    fix d s
    assume "d < DEVICES" "slots ?r ! d = Some s"
    then show "slot_wired device_ops (d \<in> {}) d s"
      using at [of d] by (auto simp: DEVICES_def slot_wired_def device_ops_simps split: if_splits)
  next
    fix l
    assume "l < PCI_INTX_LINES"
    then show "intx_line_inv (drivers l (pins_of (slots ?r))) (intx_lines ?r ! l)"
      unfolding count by (simp add: lines intx_line_inv_def line_new_def)
  qed (simp_all add: ss DEVICES_def lines)
qed

lemma attach_pci_attached:
  assumes "attached r n" "n < DEVICES" "irq_inv irq"
  shows "fst (attach_pci disp dev irq r) = Inr (bdf_new (of_nat n))" "attached (snd (attach_pci disp dev irq r)) (Suc n)"
    and "irq_fresh irq \<Longrightarrow> wired device_ops {} r \<Longrightarrow> wired device_ops {} (snd (attach_pci disp dev irq r))"
proof -
  from assms(1) have r: "root_inv device_inv r" and len: "length (slots r) = DEVICES"
    and free: "\<And>d. d < DEVICES \<Longrightarrow> slots r ! d = None \<longleftrightarrow> n \<le> d"
    and pl: "\<And>d i b a. placed device_ops r d i b a \<longleftrightarrow> 1 \<le> d \<and> d < n \<and> i = 0 \<and> b = virtio_pci_bar 0 \<and> a = 0"
    by (auto simp: attached_def root_inv_def)
  have fd: "free_device r = Some n"
    unfolding free_device_def using free assms(2) len by (intro position_first) auto
  from virtio_pci_new_ok [OF assms(3), of dev] obtain p es where p: "virtio_pci_new dev irq 0 = Inr p" "vp_inv p"
    "caps_inv (vp_config p) es" "c_bars (vp_config p) = BarSlot (virtio_pci_bar 0) # replicate 5 EmptySlot"
    "bar_address (vp_config p) 0 = Some 0" "cfg_byte (vp_config p) 5 = 0" "vp_core p = core_new dev (irq_set_hook irq)" by blast
  have hook: "vc_irq (vp_core p) = irq_set_hook irq" by (simp add: p(7) core_new_def)
  let ?s = "\<lparr>slot_fn = VirtioFn p, slot_pin = Some (pin_new (swizzle (of_nat n) 1))\<rparr>"
  let ?r = "settle device_ops n ?s r"
  have res: "attach_pci disp dev irq r = (Inr (bdf_new (of_nat n)), ?r)"
    using fd p(1) caps_inv_capabilities [OF p(3)] by (simp add: attach_pci_def root_add_def Let_def device_ops_simps)
  have n: "n < length (slots r)" using assms(2) len by simp
  have inv: "root_inv device_inv ?r"
    using devices.settle_at(2) [OF n r] p(2) by (simp add: device_inv_def hook irq_fresh_hook)
  have cfg: "cfg_at device_ops ?r d = (if d = n then Some (vp_config p) else cfg_at device_ops r d)" for d
    using devices.settle_at(1) [OF n] by (simp add: device_ops_simps)
  have bars: "bar_at (vp_config p) i = Some b \<longleftrightarrow> i = 0 \<and> b = virtio_pci_bar 0" for i b
    using p(4) by (cases i) (auto simp: bar_at_slot nth_Cons')
  have "placed device_ops ?r d i b a \<longleftrightarrow> 1 \<le> d \<and> d < Suc n \<and> i = 0 \<and> b = virtio_pci_bar 0 \<and> a = 0" for d i b a
  proof (cases "d = n")
    case True
    then show ?thesis using bars p(5) assms(1) by (auto simp: placed_def cfg attached_def)
  next
    case False
    then have "placed device_ops ?r d i b a = placed device_ops r d i b a" by (simp add: placed_def cfg)
    with False pl show ?thesis by auto
  qed
  moreover have "slots ?r ! d = None \<longleftrightarrow> Suc n \<le> d" if "d < DEVICES" for d
    using free [OF that] n by (auto simp: settle_def nth_list_update split: option.split prod.split)
  moreover have "window_base ?r = window_base r" "window_size ?r = window_size r"
    by (simp_all add: settle_def split: option.split prod.split)
  ultimately show "attached (snd (attach_pci disp dev irq r)) (Suc n)"
    using assms(1,2) inv unfolding res by (auto simp: attached_def)
  show "fst (attach_pci disp dev irq r) = Inr (bdf_new (of_nat n))" by (simp add: res)
  show "wired device_ops {} (snd (attach_pci disp dev irq r))" if "irq_fresh irq" "wired device_ops {} r"
    using insert_wired [OF that(2) assms(2), of "VirtioFn p" "virtio_pci_level p"] free [OF assms(2)] p(6)
      irq_fresh_hook(2) [OF that(1)]
    by (simp add: res device_ops_simps intx_disabled_bit virtio_pci_level_def virtio_pci_hooks_def irq_status_def hook)
qed

lemma machine_root_attached:
  "\<forall>(dev, irq) \<in> set devs. irq_inv irq \<Longrightarrow> length devs < DEVICES \<Longrightarrow>
     attached (machine_root disp devs) (Suc (length devs))
     \<and> ((\<forall>(dev, irq) \<in> set devs. irq_fresh irq) \<longrightarrow> wired device_ops {} (machine_root disp devs))"
proof (induction devs rule: rev_induct)
  case Nil
  show ?case using host_bridge_attached by (simp add: machine_root_def attach_all_def)
next
  case (snoc x devs)
  obtain dev irq where x: "x = (dev, irq)" by (cases x)
  from snoc have at: "attached (machine_root disp devs) (Suc (length devs))"
    and w: "(\<forall>(dev, irq) \<in> set devs. irq_fresh irq) \<Longrightarrow> wired device_ops {} (machine_root disp devs)" by simp_all
  from attach_pci_attached [OF at, of irq disp dev] w snoc.prems show ?case
    by (simp add: machine_root_def attach_all_def x)
qed

section \<open>Assigning\<close>

lemma machine_window: "unat PCIE_MMIO_BASE = 0x10000000" "unat PCIE_MMIO_SIZE = 0x2f000000" "unat (bar_size (virtio_pci_bar 0)) = 0x4000"
  by (simp_all add: PCIE_MMIO_BASE_def PCIE_MMIO_SIZE_def virtio_pci_bar_def BAR_SIZE_def)

definition machine_booted :: "(pci_error \<Rightarrow> string) \<Rightarrow> (virtio_device \<times> virtio_irq) list \<Rightarrow> pci_device pci_root" where
  "machine_booted disp devs = snd (assign_bars device_ops (machine_root disp devs))"

lemma machine_booted_apart:
  assumes "\<forall>(dev, irq) \<in> set devs. irq_inv irq" "length devs < DEVICES"
  shows "root_inv device_inv (machine_booted disp devs)"
    "\<forall>(dev, irq) \<in> set devs. irq_fresh irq \<Longrightarrow> wired device_ops {} (machine_booted disp devs)"
    "bars_apart device_ops (machine_booted disp devs) 0x10000000 0x3f000000"
proof -
  note at = machine_root_attached [OF assms, of disp]
  then have r: "root_inv device_inv (machine_root disp devs)"
    "\<forall>(dev, irq) \<in> set devs. irq_fresh irq \<Longrightarrow> wired device_ops {} (machine_root disp devs)"
    "window_base (machine_root disp devs) = PCIE_MMIO_BASE" "window_size (machine_root disp devs) = PCIE_MMIO_SIZE"
    and pl: "\<And>d i b a. placed device_ops (machine_root disp devs) d i b a \<Longrightarrow> a = 0"
    by (auto simp: attached_def)
  have pos: "0 < window_base (machine_root disp devs)" by (simp add: r(3) PCIE_MMIO_BASE_def)
  have fits: "unat (window_base (machine_root disp devs)) + unat (window_size (machine_root disp devs)) \<le> 2 ^ 32"
    by (simp add: r(3,4) machine_window)
  note ap = devices.assign_bars_apart [OF r(1) pl pos fits]
  show "root_inv device_inv (machine_booted disp devs)" using ap(1) by (simp add: machine_booted_def)
  show "bars_apart device_ops (machine_booted disp devs) 0x10000000 0x3f000000"
    using ap(2) by (simp add: machine_booted_def r(3,4) machine_window)
  show "wired device_ops {} (machine_booted disp devs)" if "\<forall>(dev, irq) \<in> set devs. irq_fresh irq"
    using devices.assign_bars_wired [OF r(2) [OF that] r(1)] by (simp add: machine_booted_def)
qed

lemma machine_booted_placed:
  assumes "\<forall>(dev, irq) \<in> set devs. irq_inv irq" "length devs < DEVICES" "1 \<le> d" "d \<le> length devs"
  shows "\<exists>b a. placed device_ops (machine_booted disp devs) d 0 b a \<and> a \<noteq> 0 \<and> unat (bar_size b) = 0x4000"
proof -
  let ?r = "machine_root disp devs" and ?ws = "sort_key by_size (wanted_bars device_ops (slots (machine_root disp devs)))"
  note at = machine_root_attached [OF assms(1,2), of disp]
  then have r: "root_inv device_inv ?r" "window_base ?r = PCIE_MMIO_BASE" "window_size ?r = PCIE_MMIO_SIZE"
    and pl: "\<And>d i b a. placed device_ops ?r d i b a \<longleftrightarrow> 1 \<le> d \<and> d < Suc (length devs) \<and> i = 0 \<and> b = virtio_pci_bar 0 \<and> a = 0"
    by (auto simp: attached_def)
  have mem: "(sz, d, i) \<in> set ?ws \<longleftrightarrow> 1 \<le> d \<and> d < Suc (length devs) \<and> i = 0 \<and> sz = bar_size (virtio_pci_bar 0)" for sz d i
  proof -
    have "(sz, d, i) \<in> set ?ws \<longleftrightarrow> i < 6 \<and> (\<exists>c b. cfg_at device_ops ?r d = Some c \<and> bar_at c i = Some b \<and> sz = bar_size b)"
      by (auto simp: set_wanted_bars cfg_at_def split: if_splits)
    also have "\<dots> \<longleftrightarrow> i < 6 \<and> (\<exists>b a. placed device_ops ?r d i b a \<and> sz = bar_size b)"
      unfolding placed_def using bar_address_joined by blast
    finally show ?thesis using pl by auto
  qed
  have dist: "distinct (map snd ?ws)"
    using distinct_wanted_bars [of device_ops "slots ?r"] by (simp add: distinct_map)
  have "snd ` set ?ws \<subseteq> {1..<DEVICES} \<times> {0}" using mem assms(2) by force
  then have "card (snd ` set ?ws) \<le> card ({1..<DEVICES} \<times> {0 :: nat})" by (intro card_mono) auto
  then have len: "length ?ws \<le> 31"
    using distinct_card [OF dist] by (simp add: DEVICES_def card_cartesian_product)
  have start: "assigning device_ops device_inv 0x10000000 0x3f000000 {} (?r, PCIE_MMIO_BASE, 0)"
    using r pl machine_window by (auto simp: assigning_def bars_apart_def)
  have e: "unat (PCIE_MMIO_BASE + PCIE_MMIO_SIZE) = 0x3f000000" by (simp add: PCIE_MMIO_BASE_def PCIE_MMIO_SIZE_def)
  have all: "\<forall>(d, i) \<in> {} \<union> snd ` set ?ws.
    \<exists>b a. placed device_ops (fst (fold (assign_one device_ops (PCIE_MMIO_BASE + PCIE_MMIO_SIZE)) ?ws (?r, PCIE_MMIO_BASE, 0))) d i b a \<and> a \<noteq> 0
      \<and> bar_size b = bar_size (virtio_pci_bar 0)"
  proof (rule devices.assign_uniform [OF start _ e _ dist])
    show "\<forall>w \<in> set ?ws. fst w = bar_size (virtio_pci_bar 0)" using mem by (auto simp: split_paired_all)
    show "\<forall>(sz, d, i) \<in> set ?ws. \<exists>b a. placed device_ops ?r d i b a \<and> sz = bar_size b" using mem pl by auto
    show "unat (bar_size (virtio_pci_bar 0)) dvd unat PCIE_MMIO_BASE" by (simp add: machine_window)
    show "unat PCIE_MMIO_BASE + unat (bar_size (virtio_pci_bar 0)) * length ?ws \<le> 0x3f000000"
      using len by (simp add: machine_window)
  qed auto
  have "(bar_size (virtio_pci_bar 0), d, 0) \<in> set ?ws" using mem assms(3,4) by simp
  then have "(d, 0) \<in> snd ` set ?ws" by force
  with all show ?thesis
    by (fastforce simp: machine_booted_def assign_bars_def r machine_window split: prod.splits)
qed

text \<open>The assignment moves BARs and declares none: a virtio function has BAR 0 and no other.\<close>

definition declared :: "pci_device pci_root \<Rightarrow> nat \<Rightarrow> nat \<Rightarrow> bar \<Rightarrow> bool" where
  "declared r d i b \<longleftrightarrow> (\<exists>c. cfg_at device_ops r d = Some c \<and> bar_at c i = Some b)"

lemma declared_placed: "declared r d i b \<longleftrightarrow> (\<exists>a. placed device_ops r d i b a)"
  unfolding declared_def placed_def using bar_address_joined by blast

lemma set_fn_bar_declared: "declared (set_fn_bar device_ops d i a r) = declared r"
proof (intro ext)
  fix d' j b
  show "declared (set_fn_bar device_ops d i a r) d' j b = declared r d' j b"
  proof (cases "slots r ! d")
    case None
    then show ?thesis by (simp add: set_fn_bar_def)
  next
    case (Some s)
    show ?thesis
    proof (cases "d < length (slots r)")
      case True
      then have "cfg_at device_ops r d = Some (fn_config device_ops (slot_fn s))" using Some by (simp add: cfg_at_def)
      with Some True show ?thesis
        by (auto simp: set_fn_bar_def declared_def cfg_at_update devices.config_set bar_at_def)
    next
      case False
      with Some show ?thesis by (simp add: set_fn_bar_def declared_def cfg_at_def)
    qed
  qed
qed

lemma assign_fold_declared: "declared (fst (fold (assign_one device_ops e) ws st)) = declared (fst st)"
proof (induction ws arbitrary: st)
  case (Cons w ws)
  have "declared (fst (assign_one device_ops e w st)) = declared (fst st)"
    by (auto simp: assign_one_def Let_def set_fn_bar_declared split: prod.split)
  with Cons show ?case by simp
qed simp

lemma machine_booted_declared:
  assumes "\<forall>(dev, irq) \<in> set devs. irq_inv irq" "length devs < DEVICES" "placed device_ops (machine_booted disp devs) d i b a"
  shows "i = 0"
proof -
  have "declared (machine_booted disp devs) d i b" using assms(3) declared_placed by blast
  then have "declared (machine_root disp devs) d i b"
    using assign_fold_declared
    by (simp add: machine_booted_def assign_bars_def split: prod.split_asm) (metis fst_conv)
  with machine_root_attached [OF assms(1,2), of disp] show ?thesis by (auto simp: declared_placed attached_def)
qed

section \<open>A running guest\<close>

text \<open>
  C6. Every attached device is reachable exactly where the guest sees it. After the host assigned addresses at boot,
  and through any sequence of guest accesses that does not itself move a BAR, each virtio function still holds an
  aligned address of its own inside the PCI window; and an access is routed to that function exactly when its memory
  decode is on and every byte of the access lies in its 16 KiB, then to BAR 0 at the distance from the base,
  whatever the other functions do. An access that straddles an end of the window does not reach the function.
\<close>

theorem pci_devices_reachable:
  assumes "\<forall>(dev, irq) \<in> set devs. irq_inv irq" "length devs < DEVICES" "\<forall>a \<in> set accs. bar_safe a"
    and "1 \<le> d" "d \<le> length devs"
  shows "\<exists>c a. cfg_at device_ops (run (pci_step device_ops) (machine_booted disp devs) accs) d = Some c
    \<and> bar_address c 0 = Some a \<and> 0x10000000 \<le> unat a \<and> unat a + 0x4000 \<le> 0x3f000000 \<and> 0x4000 dvd unat a
    \<and> (\<forall>gpa sz bar off. 0 < unat sz \<longrightarrow>
         (route device_ops (run (pci_step device_ops) (machine_booted disp devs) accs) gpa sz = Some (d, bar, off) \<longleftrightarrow>
          memory_enabled c \<and> unat a \<le> unat gpa \<and> unat gpa + unat sz \<le> unat a + 0x4000 \<and> bar = 0 \<and> off = gpa - a))"
proof -
  let ?r = "run (pci_step device_ops) (machine_booted disp devs) accs"
  note boot = machine_booted_apart [OF assms(1,2), of disp]
  have inv: "root_inv device_inv ?r" using boot(1) by (rule devices.accesses.run_inv)
  have apart: "bars_apart device_ops ?r 0x10000000 0x3f000000"
    using devices.apart_accesses [OF boot(1) assms(3) boot(3)] .
  obtain b a where "placed device_ops (machine_booted disp devs) d 0 b a" and a: "a \<noteq> 0" and size: "unat (bar_size b) = 0x4000"
    using machine_booted_placed [OF assms(1,2,4,5), of disp] by blast
  then have pl: "placed device_ops ?r d 0 b a"
    using devices.placed_accesses [OF boot(1) assms(3)] by blast
  note range = bars_apart_range [OF apart pl a]
  from pl obtain c where c: "cfg_at device_ops ?r d = Some c" "bar_at c 0 = Some b" "bar_address c 0 = Some a"
    by (auto simp: placed_def)
  have only: "bar = 0" if "bar_at c bar = Some b'" "bar_address c bar = Some a'" for bar b' a'
  proof -
    have "placed device_ops ?r d bar b' a'" using c(1) that by (auto simp: placed_def)
    then have "placed device_ops (machine_booted disp devs) d bar b' a'"
      using devices.placed_accesses [OF boot(1) assms(3)] by blast
    then show ?thesis by (rule machine_booted_declared [OF assms(1,2)])
  qed
  have "route device_ops ?r gpa sz = Some (d, bar, off) \<longleftrightarrow>
      memory_enabled c \<and> unat a \<le> unat gpa \<and> unat gpa + unat sz \<le> unat a + 0x4000 \<and> bar = 0 \<and> off = gpa - a" (is "?R \<longleftrightarrow> ?I")
    if sz: "0 < unat sz" for gpa sz bar off
  proof
    assume ?R
    from devices.route_sound [OF this] c(1) obtain b' a' where r: "memory_enabled c" "bar_at c bar = Some b'"
      "bar_address c bar = Some a'" "unat a' \<le> unat gpa" "unat gpa + unat sz \<le> unat a' + unat (bar_size b')" "off = gpa - a'"
      by auto
    with only [OF r(2,3)] c(2,3) size show ?I by simp
  next
    assume i: ?I
    then have "memory_enabled c" "unat a \<le> unat gpa" "unat gpa + unat sz \<le> unat a + unat (bar_size b)" using size by simp_all
    from devices.route_exact [OF inv apart _ c(1) this(1) c(2,3) a this(2,3) sz] i show ?R by simp
  qed
  with c(1,3) range size show ?thesis by auto
qed

definition demo_devices :: "(virtio_device \<times> virtio_irq) list" where
  "demo_devices = [(fixed_device 2 1, irq_new), (fixed_device 1 2, irq_new)]"

definition demo_display :: "pci_error \<Rightarrow> string" where
  "demo_display err = ''pci error''"

definition demo_enable :: "pci_access list" where
  "demo_enable = [EcamRead 0x8000 4, EcamWrite 0x8004 2 6, EcamWrite 0x10004 2 6, WindowRead 0x1000 1]"

theorem pci_devices_reachable_witness:
  "\<exists>c a. cfg_at device_ops (run (pci_step device_ops) (machine_booted demo_display demo_devices) demo_enable) 2 = Some c
    \<and> bar_address c 0 = Some a \<and> 0x10000000 \<le> unat a \<and> unat a + 0x4000 \<le> 0x3f000000 \<and> 0x4000 dvd unat a
    \<and> (\<forall>gpa sz bar off. 0 < unat sz \<longrightarrow>
         (route device_ops (run (pci_step device_ops) (machine_booted demo_display demo_devices) demo_enable) gpa sz =
            Some (2, bar, off) \<longleftrightarrow>
          memory_enabled c \<and> unat a \<le> unat gpa \<and> unat gpa + unat sz \<le> unat a + 0x4000 \<and> bar = 0 \<and> off = gpa - a))"
  by (rule pci_devices_reachable)
    (simp_all add: demo_devices_def demo_enable_def irq_new_inv DEVICES_def)

text \<open>What the guest and the devices do: accesses, and device workers raising their interrupt.\<close>

datatype pci_event = Access pci_access | DeviceInterrupt nat u32

definition device_interrupt :: "nat \<Rightarrow> u32 \<Rightarrow> pci_device pci_root \<Rightarrow> pci_device pci_root" where
  "device_interrupt d bits r =
     (if d < length (slots r) then
        case slots r ! d of
          None \<Rightarrow> r
        | Some s \<Rightarrow>
            (case slot_fn s of
               HostBridge _ \<Rightarrow> r
             | VirtioFn p \<Rightarrow>
                 settle device_ops d (s\<lparr>slot_fn := VirtioFn (p\<lparr>vp_core := (vp_core p)\<lparr>vc_irq := irq_raise bits (vc_irq (vp_core p))\<rparr>\<rparr>)\<rparr>) r)
      else r)"

fun event_step :: "pci_device pci_root \<Rightarrow> pci_event \<Rightarrow> pci_device pci_root" where
  "event_step r (Access a) = pci_step device_ops r a"
| "event_step r (DeviceInterrupt d bits) = device_interrupt d bits r"

definition machine_inv :: "pci_device pci_root \<Rightarrow> bool" where
  "machine_inv r \<longleftrightarrow> root_inv device_inv r \<and> wired device_ops {} r"

lemma device_interrupt_inv:
  assumes "machine_inv r"
  shows "machine_inv (device_interrupt d bits r)"
proof (cases "d < length (slots r)")
  case False
  with assms show ?thesis by (simp add: device_interrupt_def)
next
  case d: True
  show ?thesis
  proof (cases "slots r ! d")
    case None
    with assms d show ?thesis by (simp add: device_interrupt_def)
  next
    case (Some s)
    show ?thesis
    proof (cases "slot_fn s")
      case (HostBridge c)
      with assms Some d show ?thesis by (simp add: device_interrupt_def)
    next
      case (VirtioFn p)
      let ?p = "p\<lparr>vp_core := (vp_core p)\<lparr>vc_irq := irq_raise bits (vc_irq (vp_core p))\<rparr>\<rparr>"
      from assms have r: "root_inv device_inv r" "wired device_ops {} r" by (auto simp: machine_inv_def)
      have "device_inv (slot_fn s)" using root_inv_nth [OF r(1) d Some] .
      then have p: "vp_inv p" "irq_hook (vc_irq (vp_core p))" by (simp_all add: VirtioFn device_inv_def)
      then have follows: "vp_follows p ?p"
        using irq_raise_follows [of "vc_irq (vp_core p)" bits] by (simp add: vp_follows_def vp_inv_def core_inv_def)
      have inv: "device_inv (VirtioFn ?p)"
        using p vp_follows_hook [OF follows] by (simp add: device_inv_def vp_inv_core core_op_inv) (simp add: vp_inv_def core_op_inv)
      have dd: "d < DEVICES" using d r(1) by (simp add: root_inv_def)
      have "wired device_ops {} (settle device_ops d (s\<lparr>slot_fn := VirtioFn ?p\<rparr>) r)"
        by (rule settle_wired(2) [OF r(2) dd Some]) (use vp_follows_hooked [OF follows] in \<open>simp_all add: VirtioFn device_ops_simps\<close>)
      moreover have "root_inv device_inv (settle device_ops d (s\<lparr>slot_fn := VirtioFn ?p\<rparr>) r)"
        using devices.store_keeps(1) [OF r(1) d inv] .
      ultimately show ?thesis by (simp add: device_interrupt_def d Some VirtioFn machine_inv_def)
    qed
  qed
qed

interpretation machine: component event_step machine_inv
proof
  fix r e
  show "machine_inv r \<Longrightarrow> machine_inv (event_step r e)"
  proof (cases e)
    case (Access a)
    then show "machine_inv r \<Longrightarrow> machine_inv (event_step r e)"
      by (simp add: machine_inv_def devices.pci_step_inv devices.pci_step_wired)
  qed (simp add: device_interrupt_inv)
qed

text \<open>
  C7. From the device to the interrupt controller and back. After boot, through any sequence of guest accesses and
  device interrupts, the last level handed to the interrupt controller for each of the four shared lines is high
  exactly when some function swizzled onto it has a pending interrupt (a non-zero ISR) and has not set the INTx
  disable bit of its command register; levels handed over strictly alternate. So no interrupt is lost, none stays
  asserted after its ISR was read, and sharing a line never masks another function. The pin is only ever moved by the
  hook that the interrupt line calls and by the config write that mirrors the disable bit. The lines given to the
  functions are as made for them: no hook installed before.
\<close>

theorem pci_interrupt_level:
  assumes "\<forall>(dev, irq) \<in> set devs. irq_fresh irq" "length devs < DEVICES" "l < PCI_INTX_LINES"
  shows "alternating
    (\<exists>d s p. d < DEVICES \<and> slots (run event_step (machine_booted disp devs) evs) ! d = Some s \<and> slot_fn s = VirtioFn p
       \<and> swizzle (of_nat d) 1 = l \<and> irq_bits (vc_irq (vp_core p)) \<noteq> 0 \<and> \<not> intx_disabled (vp_config p))
    (hook_calls (intx_lines (run event_step (machine_booted disp devs) evs) ! l))"
proof -
  let ?r = "run event_step (machine_booted disp devs) evs"
  have "\<forall>(dev, irq) \<in> set devs. irq_inv irq" using assms(1) by (auto simp: irq_fresh_def)
  from machine_booted_apart(1,2) [OF this assms(2), of disp] assms(1)
  have "machine_inv (machine_booted disp devs)" by (simp add: machine_inv_def)
  then have "machine_inv ?r" by (rule machine.run_inv)
  then have w: "wired device_ops {} ?r" by (simp add: machine_inv_def)
  have "fn_level device_ops f = Some True \<and> \<not> intx_disabled (fn_config device_ops f) \<longleftrightarrow>
      (\<exists>p. f = VirtioFn p \<and> irq_bits (vc_irq (vp_core p)) \<noteq> 0 \<and> \<not> intx_disabled (vp_config p))" for f
    by (cases f) (auto simp: device_ops_simps virtio_pci_level_def irq_status_def)
  then have "(\<exists>d s. d < DEVICES \<and> slots ?r ! d = Some s \<and> swizzle (of_nat d) 1 = l
      \<and> fn_level device_ops (slot_fn s) = Some True \<and> \<not> intx_disabled (fn_config device_ops (slot_fn s))) =
    (\<exists>d s p. d < DEVICES \<and> slots ?r ! d = Some s \<and> slot_fn s = VirtioFn p
       \<and> swizzle (of_nat d) 1 = l \<and> irq_bits (vc_irq (vp_core p)) \<noteq> 0 \<and> \<not> intx_disabled (vp_config p))"
    by blast
  with wired_line_level [OF w assms(3)] show ?thesis by simp
qed

theorem pci_interrupt_level_witness:
  "alternating
    (\<exists>d s p. d < DEVICES \<and> slots (run event_step (machine_booted demo_display demo_devices) [DeviceInterrupt 1 1]) ! d = Some s
       \<and> slot_fn s = VirtioFn p \<and> swizzle (of_nat d) 1 = 1 \<and> irq_bits (vc_irq (vp_core p)) \<noteq> 0 \<and> \<not> intx_disabled (vp_config p))
    (hook_calls (intx_lines (run event_step (machine_booted demo_display demo_devices) [DeviceInterrupt 1 1]) ! 1))"
  by (rule pci_interrupt_level) (simp_all add: demo_devices_def irq_new_fresh DEVICES_def PCI_INTX_LINES_def)

end
