(* ===== verification/Host_File.thy ===== *)
theory Host_File
  imports Prelude
begin

text \<open>
  A regular file of the host as the code uses it through \<open>std::os::unix::fs::FileExt\<close>: its contents are a list of
  bytes, reads past the end fail, writes past the end fill the gap with zeros. A host call may fail; a failing write may
  have stored a prefix of its bytes first.
\<close>

definition read_exact_at :: "u8 list \<Rightarrow> nat \<Rightarrow> nat \<Rightarrow> u8 list option" where
  "read_exact_at f off len = (if off + len \<le> length f then Some (take len (drop off f)) else None)"

definition write_all_at :: "u8 list \<Rightarrow> nat \<Rightarrow> u8 list \<Rightarrow> u8 list" where
  "write_all_at f off bytes =
     (if bytes = [] then f
      else take off (f @ replicate (off - length f) 0) @ bytes @ drop (off + length bytes) f)"

definition set_len :: "u8 list \<Rightarrow> nat \<Rightarrow> u8 list" where
  "set_len f n = take n f @ replicate (n - length f) 0"

text \<open>The calls of one operation, and which of them fail: \<open>Some n\<close> is a failure after \<open>n\<close> bytes.\<close>

datatype host_call = OpenFile | StatFile | ReadHeader | ReadBitmap | ReadData | ReadBase | WriteHeader | WriteBitmap | WriteData | SetLen

type_synonym faults = "host_call \<Rightarrow> nat option"

definition no_faults :: faults where "no_faults c = None"

definition host_write :: "faults \<Rightarrow> host_call \<Rightarrow> u8 list \<Rightarrow> nat \<Rightarrow> u8 list \<Rightarrow> bool \<times> u8 list" where
  "host_write fl c f off bytes =
     (case fl c of
        None \<Rightarrow> (True, write_all_at f off bytes)
      | Some n \<Rightarrow> (False, write_all_at f off (take n bytes)))"

definition host_read :: "faults \<Rightarrow> host_call \<Rightarrow> u8 list \<Rightarrow> nat \<Rightarrow> nat \<Rightarrow> u8 list option" where
  "host_read fl c f off len = (case fl c of None \<Rightarrow> read_exact_at f off len | Some _ \<Rightarrow> None)"

lemma no_faults_simps [simp]:
  "host_write no_faults c f off bytes = (True, write_all_at f off bytes)"
  "host_read no_faults c f off len = read_exact_at f off len"
  "no_faults OpenFile = None" "no_faults StatFile = None" "no_faults ReadBase = None" "no_faults SetLen = None"
  by (simp_all add: host_write_def host_read_def no_faults_def)

lemma length_set_len [simp]: "length (set_len f n) = n"
  by (simp add: set_len_def)

lemma set_len_same [simp]: "set_len f (length f) = f"
  by (simp add: set_len_def)

lemma length_write_all_at [simp]:
  "length (write_all_at f off bytes) = (if bytes = [] then length f else max (length f) (off + length bytes))"
  by (auto simp: write_all_at_def)

lemma write_all_at_end: "write_all_at f (length f) bytes = f @ bytes"
  by (simp add: write_all_at_def)

lemma nth_write_all_at:
  assumes "off \<le> length f" "k < length (write_all_at f off bytes)"
  shows "write_all_at f off bytes ! k =
    (if off \<le> k \<and> k < off + length bytes then bytes ! (k - off) else f ! k)"
  using assms by (auto simp: write_all_at_def nth_append min_def split: if_splits)

lemma read_exact_at_in:
  "off + len \<le> length f \<Longrightarrow> read_exact_at f off len = Some (map (\<lambda>k. f ! (off + k)) [0..<len])"
  by (auto simp: read_exact_at_def intro!: nth_equalityI)

lemma read_exact_at_length: "read_exact_at f off len = Some bytes \<Longrightarrow> length bytes = len"
  by (auto simp: read_exact_at_def split: if_splits)

text \<open>A read after a write: the same range, a range beside it, a file that only grew.\<close>

lemma read_write_same:
  "off \<le> length f \<Longrightarrow> n = length bytes \<Longrightarrow> read_exact_at (write_all_at f off bytes) off n = Some bytes"
  by (auto simp: read_exact_at_def write_all_at_def)

lemma read_write_other:
  assumes "off \<le> length f" "at + len \<le> length f" "at + len \<le> off \<or> off + length bytes \<le> at"
  shows "read_exact_at (write_all_at f off bytes) at len = read_exact_at f at len"
proof -
  have "at + len \<le> length (write_all_at f off bytes)" using assms(2) by (simp add: max_def)
  then show ?thesis
    unfolding read_exact_at_in [OF \<open>at + len \<le> length (write_all_at f off bytes)\<close>] read_exact_at_in [OF assms(2)]
    using assms by (auto simp: nth_write_all_at)
qed

lemma read_append: "at + len \<le> length f \<Longrightarrow> read_exact_at (f @ g) at len = read_exact_at f at len"
  by (simp add: read_exact_at_def)

end
