(* ===== verification/Snapshot_Delta.thy ===== *)
theory Snapshot_Delta
  imports Host_File
begin

text \<open>
  One copy-on-write layer of a disk snapshot (\<open>ternvale-snapshot/src/format.rs\<close> and \<open>delta.rs\<close>): a file with a header,
  a bitmap of the blocks the layer holds, and the blocks packed behind it. The place of a block is the number of set
  bits before its own (\<open>bitmap_rank_before\<close>), while a new block is appended at the end of the file. The refinement
  below says what that comes to, and \<open>snapshot_block_misplaced\<close> that it loses data when blocks are not first written in
  ascending order.
\<close>

section \<open>Format\<close>

definition DELTA_MAGIC :: "u8 list" where "DELTA_MAGIC = [0x54, 0x56, 0x44, 0x53]"

definition DELTA_VERSION :: u32 where "DELTA_VERSION = 1"

definition DEFAULT_BLOCK_SIZE :: u32 where "DEFAULT_BLOCK_SIZE = 65536"

definition DELTA_HEADER_LEN :: nat where "DELTA_HEADER_LEN = 64"

datatype snapshot_error =
  Io | BadMagic | UnsupportedVersion u32 | Truncated string | InvalidManifest string | InvalidRequest string | LayerReadOnly

record delta_header =
  dh_virtual_size :: u64
  dh_block_size :: u32
  dh_bitmap_offset :: u64
  dh_bitmap_bytes :: u64
  dh_data_offset :: u64

definition header_encode :: "delta_header \<Rightarrow> u8 list" where
  "header_encode h =
     DELTA_MAGIC @ to_le 4 DELTA_VERSION @ to_le 4 (dh_block_size h) @ to_le 8 (dh_virtual_size h)
     @ to_le 8 (dh_bitmap_offset h) @ to_le 8 (dh_bitmap_bytes h) @ to_le 8 (dh_data_offset h) @ replicate 20 0"

definition header_decode :: "u8 list \<Rightarrow> snapshot_error + delta_header" where
  "header_decode bytes =
     (if length bytes < DELTA_HEADER_LEN then Inl (Truncated ''delta header'')
      else if take 4 bytes \<noteq> DELTA_MAGIC then Inl BadMagic
      else
        let version = from_le (take 4 (drop 4 bytes)) :: u32 in
        if version \<noteq> DELTA_VERSION then Inl (UnsupportedVersion version)
        else Inr \<lparr>dh_virtual_size = from_le (take 8 (drop 12 bytes)), dh_block_size = from_le (take 4 (drop 8 bytes)),
                  dh_bitmap_offset = from_le (take 8 (drop 20 bytes)), dh_bitmap_bytes = from_le (take 8 (drop 28 bytes)),
                  dh_data_offset = from_le (take 8 (drop 36 bytes))\<rparr>)"

definition div_ceil :: "u64 \<Rightarrow> u64 \<Rightarrow> u64" where
  "div_ceil a b = (if a mod b = 0 then a div b else a div b + 1)"

definition block_count :: "delta_header \<Rightarrow> u64" where
  "block_count h = (let bs = ucast (dh_block_size h) in if bs = 0 then 0 else div_ceil (dh_virtual_size h) bs)"

definition bitmap_bytes_for_blocks :: "u64 \<Rightarrow> u64" where
  "bitmap_bytes_for_blocks n = div_ceil n 8"

definition bitmap_test :: "u8 list \<Rightarrow> u64 \<Rightarrow> bool" where
  "bitmap_test bm i =
     (case vec_get bm (unat (i div 8)) of None \<Rightarrow> False | Some b \<Rightarrow> b AND push_bit (unat (i mod 8)) 1 \<noteq> 0)"

definition bitmap_set :: "u8 list \<Rightarrow> u64 \<Rightarrow> u8 list" where
  "bitmap_set bm i =
     (let byte = unat (i div 8) in
      case vec_get bm byte of None \<Rightarrow> bm | Some b \<Rightarrow> bm[byte := b OR push_bit (unat (i mod 8)) 1])"

definition bitmap_rank_before :: "u8 list \<Rightarrow> u64 \<Rightarrow> u64" where
  "bitmap_rank_before bm i =
     (let full_bytes = unat (i div 8); remainder = i mod 8;
          rank = of_nat (sum_list (map count_ones (take full_bytes bm)))
      in if 0 < remainder then
           (case vec_get bm full_bytes of
              None \<Rightarrow> rank
            | Some b \<Rightarrow> rank + of_nat (count_ones (b AND (push_bit (unat remainder) 1 - 1))))
         else rank)"

section \<open>A layer\<close>

record delta_layer =
  dl_file :: "u8 list"
  dl_header :: delta_header
  dl_bitmap :: "u8 list"
  dl_writable :: bool

text \<open>\<open>open\<close>: \<open>None\<close> is a path without a file.\<close>

definition layer_open :: "faults \<Rightarrow> u8 list option \<Rightarrow> bool \<Rightarrow> snapshot_error + delta_layer" where
  "layer_open fl file writable =
     (case (fl OpenFile, file) of
        (None, Some f) \<Rightarrow>
          (case host_read fl ReadHeader f 0 DELTA_HEADER_LEN of
             None \<Rightarrow> Inl Io
           | Some header_buf \<Rightarrow>
               (case header_decode header_buf of
                  Inl err \<Rightarrow> Inl err
                | Inr h \<Rightarrow>
                    if dh_bitmap_bytes h = 0 then Inr \<lparr>dl_file = f, dl_header = h, dl_bitmap = [], dl_writable = writable\<rparr>
                    else (case host_read fl ReadBitmap f (unat (dh_bitmap_offset h)) (unat (dh_bitmap_bytes h)) of
                            None \<Rightarrow> Inl Io
                          | Some bm \<Rightarrow> Inr \<lparr>dl_file = f, dl_header = h, dl_bitmap = bm, dl_writable = writable\<rparr>)))
      | _ \<Rightarrow> Inl Io)"

definition fresh_header :: "u64 \<Rightarrow> delta_header" where
  "fresh_header virtual_size =
     (let aligned = virtual_size - virtual_size mod ucast DEFAULT_BLOCK_SIZE;
          h = \<lparr>dh_virtual_size = aligned, dh_block_size = DEFAULT_BLOCK_SIZE, dh_bitmap_offset = of_nat DELTA_HEADER_LEN,
               dh_bitmap_bytes = 0, dh_data_offset = 0\<rparr>;
          bitmap_bytes = bitmap_bytes_for_blocks (block_count h)
      in h\<lparr>dh_bitmap_bytes := bitmap_bytes, dh_data_offset := of_nat DELTA_HEADER_LEN + bitmap_bytes\<rparr>)"

text \<open>\<open>create\<close>: the file is truncated when it is opened. The second component is the file left behind.\<close>

definition layer_create :: "faults \<Rightarrow> u64 \<Rightarrow> (snapshot_error + delta_layer) \<times> u8 list" where
  "layer_create fl virtual_size =
     (let h = fresh_header virtual_size; bm = replicate (unat (dh_bitmap_bytes h)) 0 in
      if fl OpenFile \<noteq> None then (Inl Io, [])
      else case host_write fl WriteHeader [] 0 (header_encode h) of
        (False, f) \<Rightarrow> (Inl Io, f)
      | (True, f) \<Rightarrow>
          (case (if bm \<noteq> [] then host_write fl WriteBitmap f (unat (dh_bitmap_offset h)) bm else (True, f)) of
             (False, f) \<Rightarrow> (Inl Io, f)
           | (True, f) \<Rightarrow>
               if fl SetLen \<noteq> None then (Inl Io, f)
               else let f = set_len f (unat (dh_data_offset h))
                    in (Inr \<lparr>dl_file = f, dl_header = h, dl_bitmap = bm, dl_writable = True\<rparr>, f)))"

definition has_block :: "delta_layer \<Rightarrow> u64 \<Rightarrow> bool" where
  "has_block l i = bitmap_test (dl_bitmap l) i"

definition block_offset :: "delta_layer \<Rightarrow> u64 \<Rightarrow> u64" where
  "block_offset l i =
     dh_data_offset (dl_header l) + bitmap_rank_before (dl_bitmap l) i * ucast (dh_block_size (dl_header l))"

text \<open>\<open>read_block\<close> into a buffer of \<open>buf\<close> bytes; the result is what it stores at its start.\<close>

definition read_block :: "faults \<Rightarrow> delta_layer \<Rightarrow> u64 \<Rightarrow> nat \<Rightarrow> snapshot_error + u8 list" where
  "read_block fl l i buf =
     (let bs = unat (dh_block_size (dl_header l)) in
      if buf < bs then Inl (InvalidRequest ''buffer shorter than block_size'')
      else if \<not> has_block l i then Inl (InvalidRequest ''block not in delta'')
      else case host_read fl ReadData (dl_file l) (unat (block_offset l i)) bs of None \<Rightarrow> Inl Io | Some data \<Rightarrow> Inr data)"

definition write_block :: "faults \<Rightarrow> delta_layer \<Rightarrow> u64 \<Rightarrow> u8 list \<Rightarrow> (snapshot_error + unit) \<times> delta_layer" where
  "write_block fl l i data =
     (let bs = unat (dh_block_size (dl_header l)) in
      if \<not> dl_writable l then (Inl LayerReadOnly, l)
      else if length data < bs then (Inl (InvalidRequest ''block data too short''), l)
      else if block_count (dl_header l) \<le> i then (Inl (InvalidRequest ''block out of range''), l)
      else if has_block l i then
        (case host_write fl WriteData (dl_file l) (unat (block_offset l i)) (take bs data) of
           (ok, f) \<Rightarrow> (if ok then Inr () else Inl Io, l\<lparr>dl_file := f\<rparr>))
      else
        let l = l\<lparr>dl_bitmap := bitmap_set (dl_bitmap l) i\<rparr> in
        if fl StatFile \<noteq> None then (Inl Io, l)
        else case host_write fl WriteData (dl_file l) (length (dl_file l)) (take bs data) of
          (False, f) \<Rightarrow> (Inl Io, l\<lparr>dl_file := f\<rparr>)
        | (True, f) \<Rightarrow>
            (case host_write fl WriteBitmap f (unat (dh_bitmap_offset (dl_header l))) (dl_bitmap l) of
               (ok, f) \<Rightarrow> (if ok then Inr () else Inl Io, l\<lparr>dl_file := f\<rparr>)))"

section \<open>The bitmap as a set\<close>

definition allocated :: "u8 list \<Rightarrow> nat set" where
  "allocated bm = {n. n div 8 < length bm \<and> bit (bm ! (n div 8)) (n mod 8)}"

lemma allocated_bound: "n \<in> allocated bm \<Longrightarrow> n < 8 * length bm"
  by (auto simp: allocated_def)

lemma finite_allocated [simp, intro]: "finite (allocated bm)"
  by (rule finite_subset [of _ "{..<8 * length bm}"]) (auto dest: allocated_bound)

lemma and_push_bit_one: "(b :: u8) AND push_bit n 1 \<noteq> 0 \<longleftrightarrow> bit b n"
proof -
  have "bit (b AND push_bit n 1) k \<longleftrightarrow> bit b n \<and> k = n" for k
    by (auto simp: bit_simps dest: bit_imp_le_length)
  note bits = this
  show ?thesis
  proof (cases "bit b n")
    case True
    then have "bit (b AND push_bit n 1) n" using bits by blast
    then show ?thesis using True by (metis bit_0_eq bot_apply bot_bool_def)
  next
    case False
    then have "b AND push_bit n 1 = 0" using bits by (intro bit_word_eqI) (simp only: bit_0_eq bot_apply bot_bool_def, simp)
    then show ?thesis using False by blast
  qed
qed

lemma bitmap_test_allocated: "bitmap_test bm i \<longleftrightarrow> unat i \<in> allocated bm"
  unfolding bitmap_test_def allocated_def vec_get_def and_push_bit_one unat_div unat_mod
  by (simp add: and_push_bit_one [unfolded push_bit_of_1])

lemma length_bitmap_set [simp]: "length (bitmap_set bm i) = length bm"
  by (simp add: bitmap_set_def Let_def split: option.split)

lemma allocated_set:
  assumes "unat i < 8 * length bm"
  shows "allocated (bitmap_set bm i) = insert (unat i) (allocated bm)"
proof -
  have lt: "unat i div 8 < length bm" using assms by auto
  have "bitmap_set bm i = bm[unat i div 8 := bm ! (unat i div 8) OR push_bit (unat i mod 8) 1]"
    using lt by (simp add: bitmap_set_def unat_div unat_mod Let_def)
  moreover have "bit (bm ! k OR push_bit (unat i mod 8) 1) r \<longleftrightarrow> bit (bm ! k) r \<or> r = unat i mod 8" if "r < 8" for k r
    using that by (auto simp: bit_simps)
  ultimately show ?thesis
    using lt by (auto simp: allocated_def nth_list_update) (metis div_mult_mod_eq)+
qed

lemma count_ones_card: "count_ones (w :: u8) = card {n. n < 8 \<and> bit w n}"
proof -
  have "count_ones w = card (set (filter (bit w) [0..<8]))"
    unfolding count_ones_def by (subst distinct_card) simp_all
  also have "set (filter (bit w) [0..<8]) = {n. n < 8 \<and> bit w n}" by auto
  finally show ?thesis .
qed

lemma card_allocated_byte:
  assumes "k < length bm" "r \<le> 8"
  shows "card (allocated bm \<inter> {..<8 * k + r}) = card (allocated bm \<inter> {..<8 * k}) + card {n. n < r \<and> bit (bm ! k) n}"
proof -
  have "allocated bm \<inter> {..<8 * k + r} = (allocated bm \<inter> {..<8 * k}) \<union> (\<lambda>n. 8 * k + n) ` {n. n < r \<and> bit (bm ! k) n}"
  proof (rule set_eqI)
    fix x
    show "x \<in> allocated bm \<inter> {..<8 * k + r} \<longleftrightarrow>
      x \<in> (allocated bm \<inter> {..<8 * k}) \<union> (\<lambda>n. 8 * k + n) ` {n. n < r \<and> bit (bm ! k) n}"
    proof (cases "x < 8 * k")
      case False
      then obtain n where x: "x = 8 * k + n" using le_Suc_ex [of "8 * k" x] by auto
      have "n < r \<Longrightarrow> x div 8 = k \<and> x mod 8 = n" using assms(2) x by simp
      then show ?thesis using assms(1) x by (auto simp: allocated_def)
    qed (auto simp: allocated_def)
  qed
  moreover have "(allocated bm \<inter> {..<8 * k}) \<inter> (\<lambda>n. 8 * k + n) ` {n. n < r \<and> bit (bm ! k) n} = {}" by auto
  moreover have "card ((\<lambda>n. 8 * k + n) ` {n. n < r \<and> bit (bm ! k) n}) = card {n. n < r \<and> bit (bm ! k) n}"
    by (intro card_image inj_onI) simp
  ultimately show ?thesis by (simp add: card_Un_disjoint)
qed

lemma card_allocated_bytes: "card (allocated bm \<inter> {..<8 * k}) = sum_list (map count_ones (take k bm))"
proof (induction k)
  case (Suc k)
  show ?case
  proof (cases "k < length bm")
    case True
    then show ?thesis
      using card_allocated_byte [OF True order_refl] Suc by (simp add: take_Suc_conv_app_nth count_ones_card add.commute)
  next
    case False
    then have "allocated bm \<inter> {..<8 * Suc k} = allocated bm \<inter> {..<8 * k}" by (auto dest: allocated_bound)
    then show ?thesis using Suc False by simp
  qed
qed simp

definition rank_of :: "nat set \<Rightarrow> nat \<Rightarrow> nat" where
  "rank_of A n = card (A \<inter> {..<n})"

lemma and_low_bits: "n < 8 \<Longrightarrow> r \<le> 8 \<Longrightarrow> bit ((b :: u8) AND (push_bit r 1 - 1)) n \<longleftrightarrow> n < r \<and> bit b n"
  unfolding push_bit_of_1 mask_eq_exp_minus_1 [symmetric] by (auto simp: bit_simps)

lemma bitmap_rank:
  assumes "8 * length bm < 2 ^ 64"
  shows "unat (bitmap_rank_before bm i) = rank_of (allocated bm) (unat i)"
proof -
  let ?k = "unat i div 8" and ?r = "unat i mod 8"
  let ?n = "if ?k < length bm then card {n. n < ?r \<and> bit (bm ! ?k) n} else 0"
  have i: "unat i = 8 * ?k + ?r" by simp
  have r: "rank_of (allocated bm) (unat i) = sum_list (map count_ones (take ?k bm)) + ?n"
  proof (cases "?k < length bm")
    case True
    then show ?thesis
      using card_allocated_byte [OF True, of ?r] by (simp add: rank_of_def card_allocated_bytes)
  next
    case False
    then have "allocated bm \<inter> {..<unat i} = allocated bm \<inter> {..<8 * ?k}" by (auto dest: allocated_bound)
    then show ?thesis using False by (simp add: rank_of_def card_allocated_bytes)
  qed
  have "rank_of (allocated bm) (unat i) \<le> card {..<8 * length bm}"
    unfolding rank_of_def by (rule card_mono) (auto dest: allocated_bound)
  then have lt: "rank_of (allocated bm) (unat i) < 2 ^ 64" using assms by simp
  have "?r \<le> 8" using mod_less_divisor [of 8 "unat i"] by linarith
  then have "{n. n < 8 \<and> bit (b AND (push_bit ?r 1 - 1)) n} = {n. n < ?r \<and> bit b n}" for b :: u8
    using and_low_bits [of _ ?r b] by (intro Collect_cong) (meson order.strict_trans2)
  then have ones: "count_ones (b AND (push_bit ?r 1 - 1)) = card {n. n < ?r \<and> bit b n}" for b :: u8
    by (simp only: count_ones_card)
  have z: "0 < i mod 8 \<longleftrightarrow> 0 < ?r" by (simp add: word_less_nat_alt unat_mod)
  have m: "unat (i mod 8) = ?r" "unat (i div 8) = ?k" by (simp_all add: unat_mod unat_div)
  have "bitmap_rank_before bm i = of_nat (sum_list (map count_ones (take ?k bm)) + ?n)"
    unfolding bitmap_rank_before_def Let_def z m ones vec_get_def by simp
  then show ?thesis unfolding r [symmetric] using lt by (simp add: unsigned_of_nat take_bit_nat_eq_self)
qed

text \<open>The rank numbers the elements of a set in ascending order.\<close>

lemma rank_of_mono: "finite A \<Longrightarrow> m \<le> n \<Longrightarrow> rank_of A m \<le> rank_of A n"
  unfolding rank_of_def by (intro card_mono) auto

lemma rank_of_strict: "finite A \<Longrightarrow> m \<in> A \<Longrightarrow> m < n \<Longrightarrow> rank_of A m < rank_of A n"
  unfolding rank_of_def by (intro psubset_card_mono) auto

lemma rank_of_less: "finite A \<Longrightarrow> n \<in> A \<Longrightarrow> rank_of A n < card A"
  unfolding rank_of_def by (intro psubset_card_mono) auto

lemma rank_of_inj: "finite A \<Longrightarrow> m \<in> A \<Longrightarrow> n \<in> A \<Longrightarrow> rank_of A m = rank_of A n \<Longrightarrow> m = n"
  by (metis linorder_less_linear nat_less_le rank_of_strict)

lemma rank_of_above: "(\<And>m. m \<in> A \<Longrightarrow> m < n) \<Longrightarrow> rank_of A n = card A"
  unfolding rank_of_def by (rule arg_cong [of _ _ card]) auto

lemma rank_of_insert:
  assumes "finite A" "i \<notin> A"
  shows "rank_of (insert i A) n = rank_of A n + (if i < n then 1 else 0)"
  using assms by (simp add: rank_of_def Int_insert_left)

text \<open>Where the set has no element between two bounds, their ranks agree.\<close>

lemma rank_of_gap:
  assumes "m \<le> n" "\<And>k. k \<in> A \<Longrightarrow> m \<le> k \<Longrightarrow> n \<le> k"
  shows "rank_of A n = rank_of A m"
proof -
  have "A \<inter> {..<n} = A \<inter> {..<m}" using assms by force
  then show ?thesis by (simp add: rank_of_def)
qed

section \<open>The invariant of a layer\<close>

definition bsize :: "delta_layer \<Rightarrow> nat" where "bsize l = unat (dh_block_size (dl_header l))"

definition nblocks :: "delta_layer \<Rightarrow> nat" where "nblocks l = unat (block_count (dl_header l))"

definition data_at :: "delta_layer \<Rightarrow> nat" where "data_at l = unat (dh_data_offset (dl_header l))"

abbreviation blocks_in :: "delta_layer \<Rightarrow> nat set" where "blocks_in l \<equiv> allocated (dl_bitmap l)"

definition delta_inv :: "delta_layer \<Rightarrow> bool" where
  "delta_inv l \<longleftrightarrow>
     0 < bsize l \<and> nblocks l \<le> 8 * length (dl_bitmap l) \<and> 8 * length (dl_bitmap l) < 2 ^ 64
     \<and> blocks_in l \<subseteq> {..<nblocks l}
     \<and> length (dl_bitmap l) = unat (dh_bitmap_bytes (dl_header l))
     \<and> DELTA_HEADER_LEN \<le> unat (dh_bitmap_offset (dl_header l))
     \<and> unat (dh_bitmap_offset (dl_header l)) + length (dl_bitmap l) \<le> data_at l
     \<and> data_at l + nblocks l * bsize l < 2 ^ 64
     \<and> length (dl_file l) = data_at l + card (blocks_in l) * bsize l
     \<and> read_exact_at (dl_file l) 0 DELTA_HEADER_LEN = Some (header_encode (dl_header l))
     \<and> read_exact_at (dl_file l) (unat (dh_bitmap_offset (dl_header l))) (length (dl_bitmap l)) = Some (dl_bitmap l)"

lemma delta_invD:
  assumes "delta_inv l"
  shows "0 < bsize l" "nblocks l \<le> 8 * length (dl_bitmap l)" "8 * length (dl_bitmap l) < 2 ^ 64"
    "blocks_in l \<subseteq> {..<nblocks l}" "length (dl_bitmap l) = unat (dh_bitmap_bytes (dl_header l))"
    "DELTA_HEADER_LEN \<le> unat (dh_bitmap_offset (dl_header l))"
    "unat (dh_bitmap_offset (dl_header l)) + length (dl_bitmap l) \<le> data_at l"
    "data_at l + nblocks l * bsize l < 2 ^ 64"
    "length (dl_file l) = data_at l + card (blocks_in l) * bsize l"
    "read_exact_at (dl_file l) 0 DELTA_HEADER_LEN = Some (header_encode (dl_header l))"
    "read_exact_at (dl_file l) (unat (dh_bitmap_offset (dl_header l))) (length (dl_bitmap l)) = Some (dl_bitmap l)"
  using assms unfolding delta_inv_def by blast+

lemma delta_inv_writable: "delta_inv (l\<lparr>dl_writable := w\<rparr>) = delta_inv l"
  by (simp add: delta_inv_def bsize_def nblocks_def data_at_def)

lemma card_blocks_le: "delta_inv l \<Longrightarrow> card (blocks_in l) \<le> nblocks l"
  using card_mono [of "{..<nblocks l}" "blocks_in l"] delta_invD(4) by simp

lemma rank_le_nblocks: "delta_inv l \<Longrightarrow> rank_of (blocks_in l) n \<le> nblocks l"
  unfolding rank_of_def
  using card_blocks_le [of l] card_mono [of "blocks_in l" "blocks_in l \<inter> {..<n}"] by simp

lemma block_offset_nat:
  assumes "delta_inv l"
  shows "unat (block_offset l i) = data_at l + rank_of (blocks_in l) (unat i) * bsize l"
proof -
  let ?r = "rank_of (blocks_in l) (unat i)"
  have rank: "unat (bitmap_rank_before (dl_bitmap l) i) = ?r" using bitmap_rank [OF delta_invD(3) [OF assms]] .
  have "?r * bsize l \<le> nblocks l * bsize l" using rank_le_nblocks [OF assms] by simp
  then have lt: "data_at l + ?r * bsize l < 2 ^ 64" using delta_invD(8) [OF assms] by linarith
  have bs: "unat (ucast (dh_block_size (dl_header l)) :: u64) = bsize l"
    by (simp add: bsize_def unsigned_ucast_eq take_bit_nat_eq_self order_less_le_trans [OF unsigned_less])
  have "unat (bitmap_rank_before (dl_bitmap l) i * ucast (dh_block_size (dl_header l))) = ?r * bsize l"
    using lt rank bs by (simp add: unat_word_ariths)
  then show ?thesis
    unfolding block_offset_def using lt by (subst unat_add_no_overflow) (simp_all add: data_at_def)
qed

section \<open>What a layer stores\<close>

text \<open>
  The packed blocks: which blocks are present, and the blocks in the order of their slots. Reading finds a block at its
  rank; writing a new block appends it.
\<close>

type_synonym packed = "nat set \<times> u8 list list"

fun packed_read :: "packed \<Rightarrow> nat \<Rightarrow> u8 list option" where
  "packed_read (A, D) n = (if n \<in> A then Some (D ! rank_of A n) else None)"

fun packed_write :: "nat \<Rightarrow> u8 list \<Rightarrow> packed \<Rightarrow> packed" where
  "packed_write n d (A, D) = (if n \<in> A then (A, D[rank_of A n := d]) else (insert n A, D @ [d]))"

definition slot_at :: "delta_layer \<Rightarrow> nat \<Rightarrow> u8 list" where
  "slot_at l k = the (read_exact_at (dl_file l) (data_at l + k * bsize l) (bsize l))"

definition packed_of :: "delta_layer \<Rightarrow> packed" where
  "packed_of l = (blocks_in l, map (slot_at l) [0..<card (blocks_in l)])"

lemma slot_bound:
  assumes "delta_inv l" "k < card (blocks_in l)"
  shows "data_at l + k * bsize l + bsize l \<le> length (dl_file l)"
proof -
  have "Suc k * bsize l \<le> card (blocks_in l) * bsize l" using assms(2) by (intro mult_le_mono1) simp
  then show ?thesis using delta_invD(9) [OF assms(1)] by simp
qed

lemma read_slot:
  assumes "delta_inv l" "k < card (blocks_in l)"
  shows "read_exact_at (dl_file l) (data_at l + k * bsize l) (bsize l) = Some (slot_at l k)"
  using slot_bound [OF assms] by (simp add: slot_at_def read_exact_at_def)

lemma read_block_refines:
  assumes "delta_inv l" "bsize l \<le> buf"
  shows "read_block no_faults l i buf =
    (case packed_read (packed_of l) (unat i) of
       Some d \<Rightarrow> Inr d | None \<Rightarrow> Inl (InvalidRequest ''block not in delta''))"
proof (cases "unat i \<in> blocks_in l")
  case True
  then have "rank_of (blocks_in l) (unat i) < card (blocks_in l)" by (intro rank_of_less) auto
  then show ?thesis
    using True assms read_slot [OF assms(1)]
    by (simp add: read_block_def Let_def has_block_def bitmap_test_allocated block_offset_nat packed_of_def flip: bsize_def)
next
  case False
  then show ?thesis
    using assms(2) by (simp add: read_block_def Let_def has_block_def bitmap_test_allocated packed_of_def flip: bsize_def)
qed

text \<open>A block already present is overwritten in its slot.\<close>

lemma write_present:
  fixes l :: delta_layer and i :: u64 and data :: "u8 list"
  defines "r \<equiv> rank_of (blocks_in l) (unat i)"
  defines "l' \<equiv> l\<lparr>dl_file := write_all_at (dl_file l) (data_at l + r * bsize l) (take (bsize l) data)\<rparr>"
  assumes inv: "delta_inv l" and i: "unat i \<in> blocks_in l" and data: "bsize l \<le> length data"
  shows "delta_inv l'" "packed_of l' = packed_write (unat i) (take (bsize l) data) (packed_of l)"
proof -
  have r: "r < card (blocks_in l)" unfolding r_def using i by (intro rank_of_less) auto
  note bound = slot_bound [OF inv r] and D = delta_invD [OF inv]
  have simps: "bsize l' = bsize l" "nblocks l' = nblocks l" "data_at l' = data_at l" "dl_bitmap l' = dl_bitmap l"
    "dl_header l' = dl_header l"
    by (simp_all add: l'_def bsize_def nblocks_def data_at_def)
  let ?off = "data_at l + r * bsize l"
  have f: "dl_file l' = write_all_at (dl_file l) ?off (take (bsize l) data)" by (simp add: l'_def)
  have len: "length (dl_file l') = length (dl_file l)" using bound data by (simp add: f max_def)
  have other: "read_exact_at (dl_file l') at n = read_exact_at (dl_file l) at n"
    if "at + n \<le> length (dl_file l)" "at + n \<le> ?off \<or> ?off + bsize l \<le> at" for "at" n
    unfolding f by (rule read_write_other) (use that bound data in auto)
  have hdr: "DELTA_HEADER_LEN \<le> ?off" "DELTA_HEADER_LEN \<le> length (dl_file l)" using D(6,7) bound by linarith+
  have bmp: "unat (dh_bitmap_offset (dl_header l)) + length (dl_bitmap l) \<le> ?off" using D(7) by linarith
  show "delta_inv l'"
    unfolding delta_inv_def simps len
    using D hdr bmp bound by (auto simp: other)
  have "slot_at l' k = (if k = r then take (bsize l) data else slot_at l k)" if "k < card (blocks_in l)" for k
  proof (cases "k = r")
    case True
    then show ?thesis
      using bound data by (simp add: slot_at_def simps f read_write_same)
  next
    case False
    have "data_at l + k * bsize l + bsize l \<le> ?off \<or> ?off + bsize l \<le> data_at l + k * bsize l"
    proof (cases "k < r")
      case True
      then have "Suc k * bsize l \<le> r * bsize l" by (intro mult_le_mono1) simp
      then show ?thesis by simp
    next
      case k: False
      with False have "Suc r * bsize l \<le> k * bsize l" by (intro mult_le_mono1) simp
      then show ?thesis by simp
    qed
    then show ?thesis using False slot_bound [OF inv that] by (simp add: slot_at_def simps other)
  qed
  then show "packed_of l' = packed_write (unat i) (take (bsize l) data) (packed_of l)"
    using i r by (auto simp: packed_of_def simps r_def nth_list_update intro!: nth_equalityI)
qed

text \<open>A block that is not present is appended, and the bitmap on disk updated.\<close>

lemma write_absent:
  fixes l :: delta_layer and i :: u64 and data :: "u8 list"
  defines "bm \<equiv> bitmap_set (dl_bitmap l) i"
  defines "l' \<equiv> l\<lparr>dl_bitmap := bm,
    dl_file := write_all_at (dl_file l @ take (bsize l) data) (unat (dh_bitmap_offset (dl_header l))) bm\<rparr>"
  assumes inv: "delta_inv l" and i: "unat i \<notin> blocks_in l" "unat i < nblocks l" and data: "bsize l \<le> length data"
  shows "delta_inv l'" "packed_of l' = packed_write (unat i) (take (bsize l) data) (packed_of l)"
proof -
  note D = delta_invD [OF inv]
  have "unat i < 8 * length (dl_bitmap l)" using i(2) D(2) by linarith
  then have bm: "allocated bm = insert (unat i) (blocks_in l)" "length bm = length (dl_bitmap l)"
    by (simp_all add: bm_def allocated_set)
  have card: "card (allocated bm) = Suc (card (blocks_in l))" using i(1) by (simp add: bm)
  let ?f = "dl_file l @ take (bsize l) data" and ?b = "unat (dh_bitmap_offset (dl_header l))"
  have f: "dl_file l' = write_all_at ?f ?b bm" by (simp add: l'_def)
  have simps: "bsize l' = bsize l" "nblocks l' = nblocks l" "data_at l' = data_at l" "dl_bitmap l' = bm"
    "dl_header l' = dl_header l"
    by (simp_all add: l'_def bsize_def nblocks_def data_at_def)
  have fits: "?b + length bm \<le> data_at l" using D(7) bm(2) by simp
  have lf: "length ?f = data_at l + Suc (card (blocks_in l)) * bsize l" using D(9) data by simp
  have len: "length (dl_file l') = length ?f" using fits lf by (simp add: f max_def)
  have other: "read_exact_at (dl_file l') at n = read_exact_at (dl_file l) at n"
    if "at + n \<le> length (dl_file l)" "at + n \<le> ?b \<or> data_at l \<le> at" for "at" n
  proof -
    have "read_exact_at (dl_file l') at n = read_exact_at ?f at n"
      unfolding f by (rule read_write_other) (use that fits lf in auto)
    also have "\<dots> = read_exact_at (dl_file l) at n" using that(1) by (rule read_append)
    finally show ?thesis .
  qed
  have b: "read_exact_at (dl_file l') ?b (length bm) = Some bm"
    unfolding f using fits lf by (intro read_write_same) auto
  have hdr: "0 + DELTA_HEADER_LEN \<le> length (dl_file l)" using D(6,7,9) by linarith
  show "delta_inv l'"
    unfolding delta_inv_def simps len lf bm(2)
    using D i(2) b card bm other [OF hdr] by auto
  have old: "slot_at l' k = slot_at l k" if "k < card (blocks_in l)" for k
    using other [OF slot_bound [OF inv that]] by (simp add: slot_at_def simps)
  have new: "slot_at l' (card (blocks_in l)) = take (bsize l) data"
  proof -
    let ?at = "data_at l + card (blocks_in l) * bsize l"
    have "read_exact_at (dl_file l') ?at (bsize l) = read_exact_at ?f ?at (bsize l)"
      unfolding f by (rule read_write_other) (use fits lf in auto)
    also have "\<dots> = Some (take (bsize l) data)" using D(9) data by (simp add: read_exact_at_def)
    finally show ?thesis by (simp add: slot_at_def simps)
  qed
  show "packed_of l' = packed_write (unat i) (take (bsize l) data) (packed_of l)"
    using i(1) old new card by (auto simp: packed_of_def simps bm(1))
qed

lemma write_block_refines:
  assumes "delta_inv l" "dl_writable l" "bsize l \<le> length data" "unat i < nblocks l"
  obtains l' where "write_block no_faults l i data = (Inr (), l')" "delta_inv l'"
    "packed_of l' = packed_write (unat i) (take (bsize l) data) (packed_of l)"
    "dl_writable l'" "dl_header l' = dl_header l"
proof -
  have range: "\<not> block_count (dl_header l) \<le> i" using assms(4) by (simp add: nblocks_def word_le_nat_alt)
  show thesis
  proof (cases "unat i \<in> blocks_in l")
    case True
    show thesis
      by (rule that [OF _ write_present [OF assms(1) True assms(3)]])
        (use True range assms in
          \<open>simp_all add: write_block_def Let_def has_block_def bitmap_test_allocated block_offset_nat flip: bsize_def\<close>)
  next
    case False
    show thesis
      by (rule that [OF _ write_absent [OF assms(1) False assms(4,3)]])
        (use False range assms in
          \<open>simp_all add: write_block_def Let_def has_block_def bitmap_test_allocated write_all_at_end flip: bsize_def\<close>)
  qed
qed

section \<open>Opening and creating\<close>

lemma length_header_encode [simp]: "length (header_encode h) = DELTA_HEADER_LEN"
  by (simp add: header_encode_def DELTA_MAGIC_def DELTA_HEADER_LEN_def)

lemma header_roundtrip: "header_decode (header_encode h) = Inr h"
  by (simp add: header_decode_def header_encode_def DELTA_MAGIC_def DELTA_HEADER_LEN_def)

lemma layer_reopen:
  assumes "delta_inv l"
  shows "layer_open no_faults (Some (dl_file l)) w = Inr (l\<lparr>dl_writable := w\<rparr>)"
  using delta_invD(5,10,11) [OF assms]
  by (auto simp: layer_open_def header_roundtrip)

lemma div_ceil_bounds:
  assumes "0 < b" "unat a + unat b < 2 ^ 64"
  shows "unat a \<le> unat (div_ceil a b) * unat b" "unat (div_ceil a b) * unat b < unat a + unat b"
    "a mod b = 0 \<Longrightarrow> unat (div_ceil a b) = unat a div unat b"
proof -
  have b: "0 < unat b" using assms(1) by (simp add: word_less_nat_alt)
  have "unat a div unat b \<le> unat a" by simp
  then have "unat a div unat b + 1 < 2 ^ 64" using assms(2) b by linarith
  then have no: "unat (a div b) + unat (1 :: u64) < 2 ^ 64" by (simp add: unat_div)
  have u: "unat (div_ceil a b) = (if unat a mod unat b = 0 then unat a div unat b else unat a div unat b + 1)"
  proof (cases "a mod b = 0")
    case True
    then have "unat a mod unat b = 0" by (metis unat_mod unat_0)
    then show ?thesis using True by (simp add: div_ceil_def unat_div)
  next
    case False
    then have "unat a mod unat b \<noteq> 0" by (metis unat_mod unat_eq_zero)
    then show ?thesis using False no by (simp add: div_ceil_def unat_add_no_overflow unat_div)
  qed
  obtain q r where qr: "q = unat a div unat b" "r = unat a mod unat b" by simp
  have e: "unat a = q * unat b + r" "r < unat b" using b by (simp_all add: qr)
  show "unat a \<le> unat (div_ceil a b) * unat b" "unat (div_ceil a b) * unat b < unat a + unat b"
    unfolding u qr [symmetric] using e by (auto simp: algebra_simps)
  show "unat (div_ceil a b) = unat a div unat b" if "a mod b = 0"
    using that by (simp add: div_ceil_def unat_div)
qed

lemma fresh_header_sizes:
  assumes "unat vs \<le> 2 ^ 63"
  shows "dh_block_size (fresh_header vs) = DEFAULT_BLOCK_SIZE" "dh_bitmap_offset (fresh_header vs) = 64"
    "unat (block_count (fresh_header vs)) = unat vs div 65536"
    "unat (block_count (fresh_header vs)) \<le> 8 * unat (dh_bitmap_bytes (fresh_header vs))"
    "8 * unat (dh_bitmap_bytes (fresh_header vs)) < 2 ^ 48"
    "unat (dh_data_offset (fresh_header vs)) = 64 + unat (dh_bitmap_bytes (fresh_header vs))"
proof -
  let ?h = "fresh_header vs"
  show c: "dh_block_size ?h = DEFAULT_BLOCK_SIZE" "dh_bitmap_offset ?h = 64"
    by (simp_all add: fresh_header_def Let_def DELTA_HEADER_LEN_def)
  have "vs mod 65536 \<le> vs" by (simp add: word_le_nat_alt unat_mod)
  then have al: "unat (vs - vs mod 65536) = unat vs - unat vs mod 65536" by (simp add: unat_sub unat_mod)
  have "unat ((vs - vs mod 65536) mod 65536) = 0"
    unfolding unat_mod al by (simp add: minus_mod_eq_div_mult)
  then have zero: "(vs - vs mod 65536) mod 65536 = 0" by (simp only: unat_eq_zero)
  have bs: "(ucast DEFAULT_BLOCK_SIZE :: u64) = 65536" "(65536 :: u64) \<noteq> 0" by (simp_all add: DEFAULT_BLOCK_SIZE_def)
  have cnt: "block_count ?h = (vs - vs mod 65536) div 65536"
    by (simp add: block_count_def fresh_header_def Let_def bs div_ceil_def zero)
  show n: "unat (block_count ?h) = unat vs div 65536"
    unfolding cnt unat_div al by (simp add: minus_mod_eq_div_mult)
  have small: "unat (block_count ?h) \<le> 2 ^ 47" unfolding n using assms by (simp add: div_le_mono [of _ "2 ^ 63" 65536, simplified])
  have bm: "dh_bitmap_bytes ?h = div_ceil (block_count ?h) 8"
    by (simp add: fresh_header_def Let_def bitmap_bytes_for_blocks_def block_count_def)
  have c8: "unat (block_count ?h) \<le> unat (dh_bitmap_bytes ?h) * 8" "unat (dh_bitmap_bytes ?h) * 8 < unat (block_count ?h) + 8"
    unfolding bm using div_ceil_bounds(1,2) [of "8 :: u64" "block_count ?h"] small by simp_all
  show "unat (block_count ?h) \<le> 8 * unat (dh_bitmap_bytes ?h)" "8 * unat (dh_bitmap_bytes ?h) < 2 ^ 48"
    using c8 small by (linarith, simp)
  have "dh_data_offset ?h = 64 + dh_bitmap_bytes ?h"
    by (simp add: fresh_header_def Let_def DELTA_HEADER_LEN_def)
  moreover have "unat (64 :: u64) + unat (dh_bitmap_bytes ?h) < 2 ^ 64" using c8 small by simp
  ultimately show "unat (dh_data_offset ?h) = 64 + unat (dh_bitmap_bytes ?h)"
    by (simp add: unat_add_no_overflow)
qed

definition layer_created :: "u64 \<Rightarrow> delta_layer" where
  "layer_created vs = projr (fst (layer_create no_faults vs))"

lemma layer_created:
  assumes "unat vs \<le> 2 ^ 63"
  shows "layer_create no_faults vs = (Inr (layer_created vs), dl_file (layer_created vs))"
    "delta_inv (layer_created vs)" "packed_of (layer_created vs) = ({}, [])" "dl_writable (layer_created vs)"
    "dl_header (layer_created vs) = fresh_header vs"
proof -
  let ?h = "fresh_header vs" and ?l = "layer_created vs"
  let ?bm = "replicate (unat (dh_bitmap_bytes ?h)) (0 :: u8)"
  note sz = fresh_header_sizes [OF assms]
  have f: "write_all_at (header_encode ?h) 64 ?bm = header_encode ?h @ ?bm"
    using write_all_at_end [of "header_encode ?h" ?bm] by (simp add: DELTA_HEADER_LEN_def)
  have e: "write_all_at [] 0 (header_encode ?h) = header_encode ?h" by (auto simp: write_all_at_def)
  have len: "length (header_encode ?h @ ?bm) = unat (dh_data_offset ?h)" using sz(6) by (simp add: DELTA_HEADER_LEN_def)
  have c: "layer_create no_faults vs =
    (Inr \<lparr>dl_file = header_encode ?h @ ?bm, dl_header = ?h, dl_bitmap = ?bm, dl_writable = True\<rparr>, header_encode ?h @ ?bm)"
    using set_len_same [of "header_encode ?h @ ?bm"] unfolding len
    by (auto simp: layer_create_def Let_def e sz(2) f)
  then have l: "?l = \<lparr>dl_file = header_encode ?h @ ?bm, dl_header = ?h, dl_bitmap = ?bm, dl_writable = True\<rparr>"
    by (simp add: layer_created_def)
  show "layer_create no_faults vs = (Inr ?l, dl_file ?l)" by (simp add: c l)
  show "dl_writable ?l" "dl_header ?l = ?h" by (simp_all add: l)
  have none: "allocated ?bm = {}" by (auto simp: allocated_def)
  then show "packed_of ?l = ({}, [])" by (simp add: packed_of_def l)
  have "unat (block_count ?h) * 65536 \<le> 2 ^ 63" using sz(3) assms div_times_less_eq_dividend [of "unat vs" 65536] by linarith
  then show "delta_inv ?l"
    unfolding delta_inv_def bsize_def nblocks_def data_at_def
    using sz none by (auto simp: l DEFAULT_BLOCK_SIZE_def DELTA_HEADER_LEN_def read_exact_at_def)
qed

section \<open>Histories of a layer\<close>

text \<open>A new layer for a disk of \<open>vs\<close> bytes, and a list of blocks written to it.\<close>

type_synonym block_write = "u64 \<times> u8 list"

definition layer_step :: "delta_layer \<Rightarrow> block_write \<Rightarrow> delta_layer" where
  "layer_step l w = snd (write_block no_faults l (fst w) (snd w))"

definition layer_after :: "u64 \<Rightarrow> block_write list \<Rightarrow> delta_layer" where
  "layer_after vs ws = run layer_step (layer_created vs) ws"

definition write_ok :: "u64 \<Rightarrow> block_write \<Rightarrow> bool" where
  "write_ok vs w \<longleftrightarrow> unat (fst w) < unat vs div 65536 \<and> 65536 \<le> length (snd w)"

definition packed_after :: "block_write list \<Rightarrow> packed" where
  "packed_after ws = foldl (\<lambda>p w. packed_write (unat (fst w)) (take 65536 (snd w)) p) ({}, []) ws"

definition layer_good :: "u64 \<Rightarrow> delta_layer \<Rightarrow> bool" where
  "layer_good vs l \<longleftrightarrow> delta_inv l \<and> dl_writable l \<and> bsize l = 65536 \<and> nblocks l = unat vs div 65536"

lemma layer_created_good: "unat vs \<le> 2 ^ 63 \<Longrightarrow> layer_good vs (layer_created vs)"
  using layer_created [of vs] fresh_header_sizes [of vs]
  by (simp add: layer_good_def bsize_def nblocks_def DEFAULT_BLOCK_SIZE_def)

lemma layer_step_good:
  assumes "layer_good vs l" "write_ok vs w"
  shows "layer_good vs (layer_step l w)"
    "packed_of (layer_step l w) = packed_write (unat (fst w)) (take 65536 (snd w)) (packed_of l)"
    "fst (write_block no_faults l (fst w) (snd w)) = Inr ()"
proof -
  have *: "delta_inv l" "dl_writable l" "bsize l \<le> length (snd w)" "unat (fst w) < nblocks l" and bs: "bsize l = 65536"
    using assms by (auto simp: layer_good_def write_ok_def)
  obtain l' where l': "write_block no_faults l (fst w) (snd w) = (Inr (), l')" "delta_inv l'"
    "packed_of l' = packed_write (unat (fst w)) (take 65536 (snd w)) (packed_of l)" "dl_writable l'" "dl_header l' = dl_header l"
    using write_block_refines [OF *] bs by metis
  then show "layer_good vs (layer_step l w)"
    "packed_of (layer_step l w) = packed_write (unat (fst w)) (take 65536 (snd w)) (packed_of l)"
    "fst (write_block no_faults l (fst w) (snd w)) = Inr ()"
    using assms(1) by (simp_all add: layer_step_def layer_good_def bsize_def nblocks_def)
qed

lemma layer_after_good:
  assumes "unat vs \<le> 2 ^ 63" "\<forall>w \<in> set ws. write_ok vs w"
  shows "layer_good vs (layer_after vs ws)" "packed_of (layer_after vs ws) = packed_after ws"
proof -
  have "layer_good vs (run layer_step l ws) \<and> packed_of (run layer_step l ws) =
    foldl (\<lambda>p w. packed_write (unat (fst w)) (take 65536 (snd w)) p) (packed_of l) ws"
    if "layer_good vs l" for l
    using that assms(2) by (induction ws arbitrary: l) (simp_all add: layer_step_good)
  from this [OF layer_created_good [OF assms(1)]]
  show "layer_good vs (layer_after vs ws)" "packed_of (layer_after vs ws) = packed_after ws"
    by (simp_all add: layer_after_def packed_after_def layer_created(3) [OF assms(1)])
qed

lemma packed_after_snoc:
  "packed_after (ws @ [w]) = packed_write (unat (fst w)) (take 65536 (snd w)) (packed_after ws)"
  by (simp add: packed_after_def)

lemma packed_after_blocks: "fst (packed_after ws) = unat ` fst ` set ws" "finite (fst (packed_after ws))"
  "length (snd (packed_after ws)) = card (fst (packed_after ws))"
proof -
  have "fst (packed_after ws) = unat ` fst ` set ws \<and> length (snd (packed_after ws)) = card (fst (packed_after ws))"
  proof (induction ws rule: rev_induct)
    case Nil
    then show ?case by (simp add: packed_after_def)
  next
    case (snoc w ws)
    then have "finite (fst (packed_after ws))" by simp
    then show ?case
      using snoc by (cases "packed_after ws") (auto simp: packed_after_snoc)
  qed
  then show "fst (packed_after ws) = unat ` fst ` set ws" "length (snd (packed_after ws)) = card (fst (packed_after ws))"
    by simp_all
  then show "finite (fst (packed_after ws))" by simp
qed

lemma snapshot_read:
  assumes "unat vs \<le> 2 ^ 63" "\<forall>w \<in> set ws. write_ok vs w"
  shows "read_block no_faults (layer_after vs ws) i 65536 =
      (case packed_read (packed_after ws) (unat i) of
         Some d \<Rightarrow> Inr d | None \<Rightarrow> Inl (InvalidRequest ''block not in delta''))"
  using read_block_refines [of "layer_after vs ws" 65536 i] layer_after_good [OF assms] by (simp add: layer_good_def)

text \<open>
  C17. What a snapshot layer holds after any list of block writes, to the byte: a block is present exactly when it was
  written, and reading it returns the packed slot its rank selects, where a rewritten block was replaced in place and
  a new one appended. Reopening the file finds the same layer, so the state on disk is never behind the state in memory.
\<close>

theorem snapshot_delta_history:
  assumes "unat vs \<le> 2 ^ 63" "\<forall>w \<in> set ws. write_ok vs w"
  shows "read_block no_faults (layer_after vs ws) i 65536 =
      (case packed_read (packed_after ws) (unat i) of
         Some d \<Rightarrow> Inr d | None \<Rightarrow> Inl (InvalidRequest ''block not in delta''))
    \<and> (has_block (layer_after vs ws) i \<longleftrightarrow> i \<in> fst ` set ws)
    \<and> layer_open no_faults (Some (dl_file (layer_after vs ws))) True = Inr (layer_after vs ws)"
proof (intro conjI)
  note good = layer_after_good [OF assms]
  then have inv: "delta_inv (layer_after vs ws)" "dl_writable (layer_after vs ws)"
    by (simp_all add: layer_good_def)
  show "read_block no_faults (layer_after vs ws) i 65536 =
      (case packed_read (packed_after ws) (unat i) of
         Some d \<Rightarrow> Inr d | None \<Rightarrow> Inl (InvalidRequest ''block not in delta''))"
    using assms by (rule snapshot_read)
  have "blocks_in (layer_after vs ws) = unat ` fst ` set ws"
    using good(2) packed_after_blocks(1) [of ws] by (metis fst_conv packed_of_def)
  then show "has_block (layer_after vs ws) i \<longleftrightarrow> i \<in> fst ` set ws"
    by (auto simp: has_block_def bitmap_test_allocated unat_mem_image)
  show "layer_open no_faults (Some (dl_file (layer_after vs ws))) True = Inr (layer_after vs ws)"
    using layer_reopen [OF inv(1), of True] inv(2) by simp
qed

theorem snapshot_delta_history_witness:
  "has_block (layer_after 0x30000 [(2, replicate 65536 7)]) 2 \<and> \<not> has_block (layer_after 0x30000 [(2, replicate 65536 7)]) 1
   \<and> read_block no_faults (layer_after 0x30000 [(2, replicate 65536 7)]) 2 65536 = Inr (replicate 65536 7)"
proof -
  have "\<forall>w \<in> set [(2 :: u64, replicate 65536 (7 :: u8))]. write_ok 0x30000 w" by (simp add: write_ok_def)
  note h = snapshot_delta_history [OF _ this]
  have "packed_after [(2, replicate 65536 7)] = ({2}, [replicate 65536 7])" by (simp add: packed_after_def)
  moreover have "rank_of {2 :: nat} 2 = 0" by (simp add: rank_of_def)
  ultimately show ?thesis using h [of 2] h [of 1] by simp
qed

lemma rank_of_next:
  assumes "finite A" "a \<in> A" "a < b" "\<And>k. k \<in> A \<Longrightarrow> k \<le> a \<or> b \<le> k"
  shows "rank_of A b = Suc (rank_of A a)"
proof -
  have "A \<inter> {..<b} = insert a (A \<inter> {..<a})" using assms(2,3) by (force dest: assms(4))
  then show ?thesis using assms(1) by (simp add: rank_of_def)
qed

text \<open>
  C18. Data is rotated when a block is first written below one the layer already holds. The write reports success, but
  the blocks from the new one up change their contents: the new block reads as what the next higher block held, each
  block above it as what the next higher one held, and the highest block as the data just written. Blocks below are not
  affected. So a layer is a faithful copy of its disk only while new blocks arrive in ascending order.
\<close>

theorem snapshot_block_misplaced:
  assumes "unat vs \<le> 2 ^ 63" "\<forall>w \<in> set ws. write_ok vs w" "write_ok vs (i, data)" "i \<notin> fst ` set ws"
    and "j \<in> fst ` set ws" "i < j" "\<forall>k \<in> fst ` set ws. k < i \<or> j \<le> k"
    and "hi \<in> fst ` set ws" "\<forall>k \<in> fst ` set ws. k \<le> hi"
  shows "fst (write_block no_faults (layer_after vs ws) i data) = Inr ()
    \<and> read_block no_faults (layer_after vs (ws @ [(i, data)])) i 65536 = read_block no_faults (layer_after vs ws) j 65536
    \<and> (\<forall>a b. a \<in> fst ` set ws \<longrightarrow> b \<in> fst ` set ws \<longrightarrow> i < a \<longrightarrow> a < b \<longrightarrow> (\<forall>k \<in> fst ` set ws. k \<le> a \<or> b \<le> k) \<longrightarrow>
         read_block no_faults (layer_after vs (ws @ [(i, data)])) a 65536 = read_block no_faults (layer_after vs ws) b 65536)
    \<and> read_block no_faults (layer_after vs (ws @ [(i, data)])) hi 65536 = Inr (take 65536 data)
    \<and> (\<forall>a. a \<in> fst ` set ws \<longrightarrow> a < i \<longrightarrow>
         read_block no_faults (layer_after vs (ws @ [(i, data)])) a 65536 = read_block no_faults (layer_after vs ws) a 65536)"
proof -
  let ?l = "layer_after vs ws" and ?l' = "layer_after vs (ws @ [(i, data)])"
  obtain A D where p: "packed_after ws = (A, D)" by (cases "packed_after ws")
  note blocks = packed_after_blocks [of ws, unfolded p fst_conv snd_conv]
  note h = snapshot_read [OF assms(1,2)]
  have ok: "\<forall>w \<in> set (ws @ [(i, data)]). write_ok vs w" using assms(2,3) by simp
  note h' = snapshot_read [OF assms(1) ok]
  have ni: "unat i \<notin> A" and nj: "unat j \<in> A" and nt: "unat hi \<in> A"
    using assms(4,5,8) by (simp_all add: blocks(1) unat_mem_image)
  have p': "packed_after (ws @ [(i, data)]) = (insert (unat i) A, D @ [take 65536 data])"
    using ni by (simp add: packed_after_snoc p)
  have gap: "rank_of A (unat j) = rank_of A (unat i)"
    using assms(6,7) by (intro rank_of_gap) (auto simp: blocks(1) word_less_nat_alt word_le_nat_alt)
  have lt: "rank_of A (unat j) < length D" using rank_of_less [OF blocks(2) nj] blocks(3) by simp
  have "A \<inter> {..<unat hi} = A - {unat hi}"
    using assms(9) by (force simp: blocks(1) word_le_nat_alt)
  then have "Suc (rank_of A (unat hi)) = length D"
    using card_Suc_Diff1 [OF blocks(2) nt] blocks(3) by (simp only: rank_of_def)
  moreover have "unat i < unat hi" using assms(5,6,9) by (auto simp: word_le_nat_alt word_less_nat_alt)
  ultimately have "read_block no_faults ?l' hi 65536 = Inr (take 65536 data)"
    using nt by (simp add: h' p' rank_of_insert [OF blocks(2) ni])
  moreover have "read_block no_faults ?l' i 65536 = read_block no_faults ?l j 65536"
    using nj lt gap by (simp add: h h' p p' rank_of_insert [OF blocks(2) ni] nth_append)
  moreover have "read_block no_faults ?l' a 65536 = read_block no_faults ?l b 65536"
    if ab: "a \<in> fst ` set ws" "b \<in> fst ` set ws" "i < a" "a < b" "\<forall>k \<in> fst ` set ws. k \<le> a \<or> b \<le> k" for a b
  proof -
    have mem: "unat a \<in> A" "unat b \<in> A" using ab(1,2) by (simp_all add: blocks(1) unat_mem_image)
    have "rank_of A (unat b) = Suc (rank_of A (unat a))"
      using ab(4,5) mem by (intro rank_of_next [OF blocks(2)]) (auto simp: blocks(1) word_less_nat_alt word_le_nat_alt)
    moreover have "rank_of A (unat b) < length D" using rank_of_less [OF blocks(2) mem(2)] blocks(3) by simp
    ultimately show ?thesis
      using mem ab(3) by (simp add: h h' p p' rank_of_insert [OF blocks(2) ni] nth_append word_less_nat_alt)
  qed
  moreover have "read_block no_faults ?l' a 65536 = read_block no_faults ?l a 65536" if a: "a \<in> fst ` set ws" "a < i" for a
  proof -
    have mem: "unat a \<in> A" using a(1) by (simp add: blocks(1) unat_mem_image)
    have "rank_of A (unat a) < length D" using rank_of_less [OF blocks(2) mem] blocks(3) by simp
    then show ?thesis
      using mem a(2) by (simp add: h h' p p' rank_of_insert [OF blocks(2) ni] nth_append word_less_nat_alt)
  qed
  moreover have "fst (write_block no_faults ?l i data) = Inr ()"
    using layer_step_good(3) [OF layer_after_good(1) [OF assms(1,2)] assms(3)] by simp
  ultimately show ?thesis by blast
qed

theorem snapshot_block_misplaced_witness:
  "read_block no_faults (layer_after 0x30000 ([(1, replicate 65536 7), (2, replicate 65536 8)] @ [(0, replicate 65536 9)])) 0 65536 =
     read_block no_faults (layer_after 0x30000 [(1, replicate 65536 7), (2, replicate 65536 8)]) 1 65536
   \<and> read_block no_faults (layer_after 0x30000 ([(1, replicate 65536 7), (2, replicate 65536 8)] @ [(0, replicate 65536 9)])) 1 65536 =
     read_block no_faults (layer_after 0x30000 [(1, replicate 65536 7), (2, replicate 65536 8)]) 2 65536
   \<and> read_block no_faults (layer_after 0x30000 ([(1, replicate 65536 7), (2, replicate 65536 8)] @ [(0, replicate 65536 9)])) 2 65536 =
     Inr (replicate 65536 9)"
  using snapshot_block_misplaced [where vs = "0x30000" and ws = "[(1, replicate 65536 7), (2, replicate 65536 8)]" and i = 0
    and data = "replicate 65536 9" and j = 1 and hi = 2]
  by (simp add: write_ok_def)

end
