(* ===== verification/Base_Ref.thy ===== *)
theory Base_Ref
  imports Snapshot_Delta
begin

text \<open>
  Reference counts of shared base images (\<open>ternvale-snapshot/src/base_ref.rs\<close>). Each base has a sidecar file; acquiring
  and releasing read the whole file, change the count and write it back. The text of the file is represented by the value
  it parses to. Processes that do this at the same time are a step relation.
\<close>

section \<open>The sidecar\<close>

definition REF_MAGIC :: string where "REF_MAGIC = ''TVRC''"

definition REF_VERSION :: u32 where "REF_VERSION = 1"

record base_ref_file =
  br_magic :: string
  br_version :: u32
  br_base :: string
  br_count :: u64
  br_holders :: "string \<Rightarrow> u64 option"

definition ref_new :: "string \<Rightarrow> base_ref_file" where
  "ref_new base = \<lparr>br_magic = REF_MAGIC, br_version = REF_VERSION, br_base = base, br_count = 0, br_holders = Map.empty\<rparr>"

definition ref_validate :: "base_ref_file \<Rightarrow> snapshot_error option" where
  "ref_validate s =
     (if br_magic s \<noteq> REF_MAGIC then Some BadMagic
      else if br_version s \<noteq> REF_VERSION then Some (UnsupportedVersion (br_version s))
      else None)"

text \<open>A path without a file, an empty file, text that does not parse, and text that does.\<close>

datatype sidecar = Missing | EmptyFile | Unparsable | Parsed base_ref_file

definition read_ref_file :: "string \<Rightarrow> sidecar \<Rightarrow> snapshot_error + base_ref_file" where
  "read_ref_file canonical f =
     (case f of
        Missing \<Rightarrow> Inr (ref_new canonical)
      | EmptyFile \<Rightarrow> Inr (ref_new canonical)
      | Unparsable \<Rightarrow> Inl (InvalidManifest ''parse tvref'')
      | Parsed s \<Rightarrow> (case ref_validate s of Some err \<Rightarrow> Inl err | None \<Rightarrow> Inr s))"

definition holder_char :: "char \<Rightarrow> bool" where
  "holder_char ch \<longleftrightarrow>
     (let n = of_char ch :: nat in 48 \<le> n \<and> n \<le> 57 \<or> 65 \<le> n \<and> n \<le> 90 \<or> 97 \<le> n \<and> n \<le> 122 \<or> n = 45 \<or> n = 95)"

definition validate_holder :: "string \<Rightarrow> bool" where
  "validate_holder holder \<longleftrightarrow> holder \<noteq> [] \<and> list_all holder_char holder"

text \<open>\<open>lock_ref_file\<close> creates a missing file; it takes no lock.\<close>

definition lock_ref_file :: "sidecar \<Rightarrow> sidecar" where
  "lock_ref_file f = (if f = Missing then EmptyFile else f)"

definition held :: "base_ref_file \<Rightarrow> string \<Rightarrow> u64" where
  "held s holder = (case br_holders s holder of None \<Rightarrow> 0 | Some n \<Rightarrow> n)"

definition hold :: "string \<Rightarrow> base_ref_file \<Rightarrow> base_ref_file" where
  "hold holder s = s\<lparr>br_holders := (br_holders s)(holder \<mapsto> held s holder + 1), br_count := br_count s + 1\<rparr>"

text \<open>The change of \<open>release\<close>; \<open>None\<close> is its early return, which writes nothing.\<close>

definition unhold :: "string \<Rightarrow> base_ref_file \<Rightarrow> base_ref_file option" where
  "unhold holder s =
     (case br_holders s holder of
        None \<Rightarrow> None
      | Some cur \<Rightarrow>
          if cur = 0 then None
          else Some (s\<lparr>br_holders := (if cur - 1 = 0 then (br_holders s)(holder := None) else (br_holders s)(holder \<mapsto> cur - 1)),
                       br_count := saturating_sub (br_count s) 1\<rparr>))"

definition acquire :: "string \<Rightarrow> string \<Rightarrow> sidecar \<Rightarrow> (snapshot_error + u64) \<times> sidecar" where
  "acquire canonical holder f =
     (if \<not> validate_holder holder then (Inl (InvalidRequest ''invalid holder name''), f)
      else
        let f = lock_ref_file f in
        case read_ref_file canonical f of
          Inl err \<Rightarrow> (Inl err, f)
        | Inr s \<Rightarrow> let s = hold holder s in (Inr (br_count s), Parsed s))"

definition release :: "string \<Rightarrow> string \<Rightarrow> sidecar \<Rightarrow> (snapshot_error + u64) \<times> sidecar" where
  "release canonical holder f =
     (if \<not> validate_holder holder then (Inl (InvalidRequest ''invalid holder name''), f)
      else
        let f = lock_ref_file f in
        case read_ref_file canonical f of
          Inl err \<Rightarrow> (Inl err, f)
        | Inr s \<Rightarrow>
            (case unhold holder s of
               None \<Rightarrow> (Inr (br_count s), f)
             | Some s \<Rightarrow> (Inr (br_count s), Parsed s)))"

definition ref_count :: "string \<Rightarrow> sidecar \<Rightarrow> snapshot_error + u64" where
  "ref_count canonical f =
     (if f = Missing then Inr 0 else case read_ref_file canonical f of Inl err \<Rightarrow> Inl err | Inr s \<Rightarrow> Inr (br_count s))"

definition is_write_protected :: "string \<Rightarrow> sidecar \<Rightarrow> snapshot_error + bool" where
  "is_write_protected canonical f = (case ref_count canonical f of Inl err \<Rightarrow> Inl err | Inr n \<Rightarrow> Inr (0 < n))"

definition has_holder :: "string \<Rightarrow> string \<Rightarrow> sidecar \<Rightarrow> snapshot_error + bool" where
  "has_holder canonical holder f =
     (if f = Missing then Inr False
      else case read_ref_file canonical f of Inl err \<Rightarrow> Inl err | Inr s \<Rightarrow> Inr (0 < held s holder))"

section \<open>One process at a time\<close>

datatype ref_op = Acquire string | Release string

fun ref_step :: "string \<Rightarrow> sidecar \<Rightarrow> ref_op \<Rightarrow> sidecar" where
  "ref_step canonical f (Acquire holder) = snd (acquire canonical holder f)"
| "ref_step canonical f (Release holder) = snd (release canonical holder f)"

definition total_held :: "base_ref_file \<Rightarrow> nat" where
  "total_held s = (\<Sum>h \<in> dom (br_holders s). unat (held s h))"

definition ref_ok :: "nat \<Rightarrow> base_ref_file \<Rightarrow> bool" where
  "ref_ok n s \<longleftrightarrow> br_magic s = REF_MAGIC \<and> br_version s = REF_VERSION \<and> finite (dom (br_holders s))
     \<and> (\<forall>h k. br_holders s h = Some k \<longrightarrow> 0 < k) \<and> unat (br_count s) = total_held s \<and> unat (br_count s) \<le> n"

definition sidecar_ok :: "nat \<Rightarrow> sidecar \<Rightarrow> bool" where
  "sidecar_ok n f \<longleftrightarrow> (case f of Parsed s \<Rightarrow> ref_ok n s | Unparsable \<Rightarrow> False | _ \<Rightarrow> True)"

text \<open>What a list of operations should leave: each holder's acquisitions less its releases, never below zero.\<close>

fun holds_after :: "(string \<Rightarrow> nat) \<Rightarrow> ref_op list \<Rightarrow> (string \<Rightarrow> nat)" where
  "holds_after m [] = m"
| "holds_after m (Acquire k # ops) = holds_after (if validate_holder k then m(k := m k + 1) else m) ops"
| "holds_after m (Release k # ops) = holds_after (if validate_holder k then m(k := m k - 1) else m) ops"

definition sidecar_holds :: "string \<Rightarrow> sidecar \<Rightarrow> string \<Rightarrow> nat" where
  "sidecar_holds canonical f h = (case read_ref_file canonical f of Inl _ \<Rightarrow> 0 | Inr s \<Rightarrow> unat (held s h))"

lemma ref_new_ok: "ref_ok n (ref_new canonical)"
  by (simp add: ref_ok_def ref_new_def total_held_def)

lemma sidecar_read:
  assumes "sidecar_ok n f"
  obtains s where "read_ref_file canonical f = Inr s" "ref_ok n s" "read_ref_file canonical (lock_ref_file f) = Inr s"
    "sidecar_ok n (lock_ref_file f)"
  using assms ref_new_ok [of n canonical]
  by (cases f) (auto simp: sidecar_ok_def read_ref_file_def lock_ref_file_def ref_ok_def ref_validate_def)

lemma total_held_superset:
  assumes "finite A" "dom (br_holders s) \<subseteq> A"
  shows "total_held s = (\<Sum>h \<in> A. unat (held s h))"
  unfolding total_held_def
  using assms by (intro sum.mono_neutral_left) (auto simp: held_def split: option.split)

lemma held_le_total: "finite (dom (br_holders s)) \<Longrightarrow> unat (held s h) \<le> total_held s"
  using total_held_superset [of "insert h (dom (br_holders s))" s, OF _ subset_insertI]
    member_le_sum [of h "insert h (dom (br_holders s))" "\<lambda>h. unat (held s h)"] by auto

lemma total_held_change:
  assumes "finite (dom (br_holders s))" "\<And>k. held s' k = (if k = h then x else held s k)" "dom (br_holders s') \<subseteq> insert h (dom (br_holders s))"
  shows "total_held s' + unat (held s h) = total_held s + unat x"
proof -
  let ?A = "insert h (dom (br_holders s))"
  have "total_held s' = unat x + (\<Sum>k \<in> ?A - {h}. unat (held s k))"
    using total_held_superset [of ?A s'] assms by (simp add: sum.remove [of ?A h])
  moreover have "total_held s = unat (held s h) + (\<Sum>k \<in> ?A - {h}. unat (held s k))"
    using total_held_superset [of ?A s, OF _ subset_insertI] assms(1) by (simp add: sum.remove [of ?A h])
  ultimately show ?thesis by simp
qed

lemma hold_ok:
  assumes "ref_ok n s" "n + 1 < 2 ^ 64"
  shows "ref_ok (n + 1) (hold h s)" "unat (held (hold h s) k) = (if k = h then unat (held s h) + 1 else unat (held s k))"
proof -
  have fin: "finite (dom (br_holders s))" and tot: "unat (br_count s) = total_held s" "total_held s \<le> n"
    using assms(1) by (auto simp: ref_ok_def)
  have "unat (held s h) \<le> n" using held_le_total [OF fin] tot(2) order_trans by blast
  then have up: "unat (held s h + 1) = unat (held s h) + 1" "unat (br_count s + 1) = unat (br_count s) + 1"
    using assms(2) tot by (simp_all add: unat_add_no_overflow)
  have held: "held (hold h s) k = (if k = h then held s h + 1 else held s k)" for k by (simp add: hold_def held_def)
  have "total_held (hold h s) + unat (held s h) = total_held s + unat (held s h + 1)"
    by (rule total_held_change [OF fin held]) (auto simp: hold_def)
  then have t: "total_held (hold h s) = total_held s + 1" using up(1) by simp
  have "0 < held s h + 1" using up(1) by (simp add: word_less_nat_alt)
  then show "ref_ok (n + 1) (hold h s)"
    using assms(1) t up(2) tot by (simp add: ref_ok_def) (simp add: hold_def)
  show "unat (held (hold h s) k) = (if k = h then unat (held s h) + 1 else unat (held s k))" using held up(1) by simp
qed

lemma unhold_ok:
  assumes "ref_ok n s"
  shows "unhold h s = None \<Longrightarrow> held s h = 0"
    "unhold h s = Some s' \<Longrightarrow> ref_ok n s'"
    "unhold h s = Some s' \<Longrightarrow> unat (held s' k) = (if k = h then unat (held s h) - 1 else unat (held s k))"
proof -
  show "unhold h s = None \<Longrightarrow> held s h = 0" by (auto simp: unhold_def held_def split: option.splits if_splits)
  have fin: "finite (dom (br_holders s))" and tot: "unat (br_count s) = total_held s" "total_held s \<le> n"
    using assms(1) by (auto simp: ref_ok_def)
  assume u: "unhold h s = Some s'"
  then obtain cur where cur: "br_holders s h = Some cur" "cur \<noteq> 0" by (auto simp: unhold_def split: option.splits if_splits)
  then have h: "held s h = cur" "0 < unat cur" by (simp_all add: held_def unat_gt_0)
  have held: "held s' k = (if k = h then cur - 1 else held s k)" for k
    using u cur by (auto simp: unhold_def held_def split: if_splits)
  have dn: "unat (cur - 1) = unat cur - 1" using h(2) by (simp add: unat_sub word_le_nat_alt)
  have "total_held s' + unat (held s h) = total_held s + unat (cur - 1)"
    by (rule total_held_change [OF fin held]) (use u cur in \<open>auto simp: unhold_def split: if_splits\<close>)
  then have t: "total_held s' = total_held s - 1" using h dn by simp
  have "br_count s' = saturating_sub (br_count s) 1" using u cur by (auto simp: unhold_def split: if_splits)
  then have c: "unat (br_count s') = unat (br_count s) - 1" by (simp add: unat_saturating_sub)
  have "0 < cur - 1" if "cur \<noteq> 1" using that by (metis right_minus_eq word_neq_0_conv)
  then have "br_holders s' k = Some x \<Longrightarrow> 0 < x" for k x
    using u cur assms by (auto simp: unhold_def ref_ok_def split: if_splits)
  moreover have "finite (dom (br_holders s'))" using u cur fin by (auto simp: unhold_def split: if_splits)
  moreover have "br_magic s' = br_magic s" "br_version s' = br_version s" using u cur by (auto simp: unhold_def split: if_splits)
  ultimately show "ref_ok n s'" using assms t c tot by (simp add: ref_ok_def)
  show "unat (held s' k) = (if k = h then unat (held s h) - 1 else unat (held s k))" using held dn h(1) by simp
qed

lemma read_parsed: "ref_ok n s \<Longrightarrow> read_ref_file c (Parsed s) = Inr s" "ref_ok n s \<Longrightarrow> sidecar_ok n (Parsed s)"
  by (simp_all add: read_ref_file_def ref_validate_def ref_ok_def sidecar_ok_def)

lemma sidecar_ok_mono: "sidecar_ok n f \<Longrightarrow> sidecar_ok (n + 1) f"
  by (cases f) (simp_all add: sidecar_ok_def ref_ok_def)

lemma ref_step_ok:
  assumes "sidecar_ok n f" "n + 1 < 2 ^ 64"
  shows "sidecar_ok (n + 1) (ref_step c f op) \<and> sidecar_holds c (ref_step c f op) = holds_after (sidecar_holds c f) [op]"
proof -
  obtain s where s: "read_ref_file c f = Inr s" "ref_ok n s" "read_ref_file c (lock_ref_file f) = Inr s"
    "sidecar_ok n (lock_ref_file f)" using sidecar_read [OF assms(1)] .
  show ?thesis
  proof (cases op)
    case (Acquire h)
    show ?thesis
      using hold_ok [OF s(2) assms(2), of h] s sidecar_ok_mono [OF assms(1)]
      by (auto simp: Acquire acquire_def Let_def sidecar_holds_def read_parsed fun_eq_iff)
  next
    case (Release h)
    show ?thesis
    proof (cases "unhold h s")
      case None
      then show ?thesis
        using unhold_ok(1) [OF s(2) None] s sidecar_ok_mono [OF s(4)] sidecar_ok_mono [OF assms(1)]
        by (auto simp: Release release_def Let_def sidecar_holds_def fun_eq_iff)
    next
      case (Some s')
      note u = unhold_ok(2,3) [OF s(2) Some]
      show ?thesis
        using u s sidecar_ok_mono [OF assms(1)] sidecar_ok_mono [OF read_parsed(2) [OF u(1)]] Some
        by (auto simp: Release release_def Let_def sidecar_holds_def read_parsed(1) [OF u(1)] fun_eq_iff)
    qed
  qed
qed

lemma ref_run_ok:
  assumes "sidecar_ok n f" "n + length ops < 2 ^ 64"
  shows "sidecar_ok (n + length ops) (run (ref_step c) f ops)
    \<and> sidecar_holds c (run (ref_step c) f ops) = holds_after (sidecar_holds c f) ops"
  using assms
proof (induction ops arbitrary: n f)
  case (Cons op ops)
  have one: "sidecar_ok (n + 1) (ref_step c f op)" "sidecar_holds c (ref_step c f op) = holds_after (sidecar_holds c f) [op]"
    using ref_step_ok [OF Cons.prems(1), of c op] Cons.prems(2) by auto
  have "holds_after (sidecar_holds c f) (op # ops) = holds_after (holds_after (sidecar_holds c f) [op]) ops"
    by (cases op) simp_all
  then show ?case using Cons.IH [OF one(1)] Cons.prems(2) one(2) by simp
qed (simp add: fun_eq_iff)

text \<open>
  One process at a time, the counts are right: after any list of acquisitions and releases the sidecar records for each
  holder its acquisitions less its releases, and the base is write protected exactly while somebody holds it.
\<close>

lemma base_ref_sequential:
  assumes "length ops < 2 ^ 64"
  shows "sidecar_holds c (run (ref_step c) Missing ops) = holds_after (\<lambda>_. 0) ops
    \<and> is_write_protected c (run (ref_step c) Missing ops) = Inr (\<exists>h. 0 < holds_after (\<lambda>_. 0) ops h)"
proof -
  let ?f = "run (ref_step c) Missing ops"
  have "sidecar_ok 0 Missing" by (simp add: sidecar_ok_def)
  moreover have "sidecar_holds c Missing = (\<lambda>_. 0)" by (rule ext) (simp add: sidecar_holds_def read_ref_file_def ref_new_def held_def)
  ultimately have r: "sidecar_ok (length ops) ?f" "sidecar_holds c ?f = holds_after (\<lambda>_. 0) ops"
    using ref_run_ok [of 0 Missing ops c] assms by auto
  obtain s where s: "read_ref_file c ?f = Inr s" "ref_ok (length ops) s" using sidecar_read [OF r(1)] .
  have fin: "finite (dom (br_holders s))" "unat (br_count s) = total_held s" using s(2) by (auto simp: ref_ok_def)
  have "0 < total_held s \<longleftrightarrow> (\<exists>h. 0 < unat (held s h))"
  proof
    assume "0 < total_held s"
    then show "\<exists>h. 0 < unat (held s h)" unfolding total_held_def by (metis gr0I sum.neutral)
  next
    assume "\<exists>h. 0 < unat (held s h)"
    then show "0 < total_held s" using held_le_total [OF fin(1)] by (meson order.strict_trans2)
  qed
  then have "0 < br_count s \<longleftrightarrow> (\<exists>h. 0 < holds_after (\<lambda>_. 0) ops h)"
    using fin(2) s(1) by (simp add: word_less_nat_alt sidecar_holds_def flip: r(2))
  moreover have "is_write_protected c ?f = Inr (0 < br_count s)"
  proof (cases "?f = Missing")
    case True
    then have "s = ref_new c" using s(1) by (simp add: read_ref_file_def)
    then show ?thesis using True by (simp add: is_write_protected_def ref_count_def ref_new_def)
  qed (simp add: is_write_protected_def ref_count_def s(1))
  ultimately show ?thesis using r(2) by simp
qed

section \<open>Several processes\<close>

text \<open>
  A process reads the sidecar, then writes back what it computed. \<open>rs_returned\<close> are the calls that returned success.
\<close>

record ref_system =
  rs_file :: sidecar
  rs_pending :: "nat \<Rightarrow> (ref_op \<times> base_ref_file) option"
  rs_returned :: "(nat \<times> ref_op) list"

inductive ref_sys_step :: "string \<Rightarrow> ref_system \<Rightarrow> ref_system \<Rightarrow> bool" for c where
  acquire_reads: "validate_holder h \<Longrightarrow> rs_pending s t = None \<Longrightarrow> read_ref_file c (lock_ref_file (rs_file s)) = Inr b \<Longrightarrow>
    ref_sys_step c s (s\<lparr>rs_file := lock_ref_file (rs_file s), rs_pending := (rs_pending s)(t \<mapsto> (Acquire h, hold h b))\<rparr>)"
| release_reads: "validate_holder h \<Longrightarrow> rs_pending s t = None \<Longrightarrow> read_ref_file c (lock_ref_file (rs_file s)) = Inr b \<Longrightarrow>
    unhold h b = Some b' \<Longrightarrow>
    ref_sys_step c s (s\<lparr>rs_file := lock_ref_file (rs_file s), rs_pending := (rs_pending s)(t \<mapsto> (Release h, b'))\<rparr>)"
| writes: "rs_pending s t = Some (op, b) \<Longrightarrow>
    ref_sys_step c s (s\<lparr>rs_file := Parsed b, rs_pending := (rs_pending s)(t := None), rs_returned := rs_returned s @ [(t, op)]\<rparr>)"

definition ref_sys_init :: ref_system where
  "ref_sys_init = \<lparr>rs_file = Missing, rs_pending = Map.empty, rs_returned = []\<rparr>"

text \<open>
  Two processes that acquire at the same time lose one hold: both calls return success, the sidecar counts one, and when
  that holder releases, the base is no longer write protected although the other process still holds it.
\<close>

lemma base_ref_race:
  assumes "validate_holder a" "validate_holder b" "a \<noteq> b"
  shows "\<exists>s. (ref_sys_step c)\<^sup>*\<^sup>* ref_sys_init s
    \<and> rs_returned s = [(0, Acquire a), (1, Acquire b), (1, Release b)] \<and> rs_pending s = Map.empty
    \<and> is_write_protected c (rs_file s) = Inr False"
proof -
  let ?n = "ref_new c"
  define u where "u = (hold b ?n)\<lparr>br_holders := (br_holders (hold b ?n))(b := None), br_count := 0\<rparr>"
  define s1 :: ref_system where "s1 = \<lparr>rs_file = EmptyFile, rs_pending = [0 \<mapsto> (Acquire a, hold a ?n)], rs_returned = []\<rparr>"
  define s2 :: ref_system where
    "s2 = \<lparr>rs_file = EmptyFile, rs_pending = [0 \<mapsto> (Acquire a, hold a ?n), 1 \<mapsto> (Acquire b, hold b ?n)], rs_returned = []\<rparr>"
  define s3 :: ref_system where
    "s3 = \<lparr>rs_file = Parsed (hold a ?n), rs_pending = [1 \<mapsto> (Acquire b, hold b ?n)], rs_returned = [(0, Acquire a)]\<rparr>"
  define s4 :: ref_system where
    "s4 = \<lparr>rs_file = Parsed (hold b ?n), rs_pending = Map.empty, rs_returned = [(0, Acquire a), (1, Acquire b)]\<rparr>"
  define s5 where "s5 = s4\<lparr>rs_pending := [1 \<mapsto> (Release b, u)]\<rparr>"
  define s6 :: ref_system where
    "s6 = \<lparr>rs_file = Parsed u, rs_pending = Map.empty, rs_returned = [(0, Acquire a), (1, Acquire b), (1, Release b)]\<rparr>"
  have "ref_sys_step c ref_sys_init s1"
    using acquire_reads [OF assms(1), of ref_sys_init 0 c ?n]
    by (simp add: s1_def ref_sys_init_def lock_ref_file_def read_ref_file_def)
  moreover have "ref_sys_step c s1 s2"
    using acquire_reads [OF assms(2), of s1 1 c ?n]
    by (simp add: s2_def s1_def lock_ref_file_def read_ref_file_def)
  moreover have "ref_sys_step c s2 s3"
    using writes [of s2 0 "Acquire a" "hold a ?n" c] by (simp add: s3_def s2_def fun_upd_twist)
  moreover have "ref_sys_step c s3 s4"
    using writes [of s3 1 "Acquire b" "hold b ?n" c] by (simp add: s4_def s3_def)
  moreover have "unhold b (hold b ?n) = Some u"
    by (simp add: unhold_def u_def hold_def held_def ref_new_def saturating_sub_def)
  then have "ref_sys_step c s4 s5"
    using release_reads [OF assms(2), of s4 1 c "hold b ?n" u]
      read_parsed(1) [OF hold_ok(1) [OF ref_new_ok [of 0 c]], of c b]
    by (simp add: s5_def s4_def lock_ref_file_def)
  moreover have "ref_sys_step c s5 s6"
    using writes [of s5 1 "Release b" u c] by (simp add: s6_def s5_def s4_def)
  ultimately have "(ref_sys_step c)\<^sup>*\<^sup>* ref_sys_init s6" by (meson converse_rtranclp_into_rtranclp rtranclp.rtrancl_refl)
  moreover have "is_write_protected c (rs_file s6) = Inr False"
    by (simp add: s6_def is_write_protected_def ref_count_def read_ref_file_def ref_validate_def u_def hold_def ref_new_def)
  ultimately show ?thesis by (intro exI [of _ s6]) (simp add: s6_def)
qed

end
