(* ===== verification/Guest_Buffers.thy ===== *)
theory Guest_Buffers
  imports Used_Ring
begin

text \<open>
  Lists of guest buffers as devices see them: the addresses they cover in order, what reading them yields and what
  writing them changes, in terms of the map from addresses to bytes that guest memory refines.
\<close>

definition buf_addrs :: "buffer list \<Rightarrow> nat list" where
  "buf_addrs bs = concat (map (\<lambda>b. [unat (b_addr b)..<unat (b_addr b) + unat (b_len b)]) bs)"

definition buf_mapped :: "guest_memory \<Rightarrow> buffer \<Rightarrow> bool" where
  "buf_mapped m b \<longleftrightarrow> is_ok (read_bytes m (b_addr b) (unat (b_len b)))"

text \<open>The bytes at some addresses, and a map with bytes stored at some addresses, the later ones last.\<close>

definition view_at :: "guest_memory \<Rightarrow> nat list \<Rightarrow> u8 list" where
  "view_at m as = map (\<lambda>a. the (mem_view m a)) as"

definition spread :: "(nat \<Rightarrow> u8 option) \<Rightarrow> nat list \<Rightarrow> u8 list \<Rightarrow> nat \<Rightarrow> u8 option" where
  "spread v as bs = fold (\<lambda>(a, b) v. v(a := Some b)) (zip as bs) v"

lemma buf_addrs_simps [simp]:
  "buf_addrs [] = []" "buf_addrs (b # bs) = [unat (b_addr b)..<unat (b_addr b) + unat (b_len b)] @ buf_addrs bs"
  "buf_addrs (bs @ cs) = buf_addrs bs @ buf_addrs cs"
  by (simp_all add: buf_addrs_def)

lemma length_buf_addrs: "length (buf_addrs bs) = sum_list (map (\<lambda>b. unat (b_len b)) bs)"
  by (induction bs) simp_all

lemma view_at_simps [simp]: "view_at m [] = []" "view_at m (as @ as') = view_at m as @ view_at m as'" "length (view_at m as) = length as"
  by (simp_all add: view_at_def)

lemma spread_simps [simp]: "spread v [] bs = v" "spread v as [] = v" "spread v (a # as) (b # bs) = spread (v(a := Some b)) as bs"
  by (simp_all add: spread_def)

lemma spread_append: "length as = length bs \<Longrightarrow> spread v (as @ as') (bs @ bs') = spread (spread v as bs) as' bs'"
  by (simp add: spread_def)

lemma spread_outside: "k \<notin> set as \<Longrightarrow> spread v as bs k = v k"
proof (induction as arbitrary: v bs)
  case (Cons a as)
  then show ?case by (cases bs) simp_all
qed simp

lemma spread_nth: "distinct as \<Longrightarrow> i < length as \<Longrightarrow> i < length bs \<Longrightarrow> spread v as bs (as ! i) = Some (bs ! i)"
proof (induction as arbitrary: v bs i)
  case (Cons a as)
  then obtain b bs' where bs: "bs = b # bs'" by (cases bs) simp_all
  show ?case
  proof (cases i)
    case 0
    then show ?thesis using Cons.prems bs by (simp add: spread_outside)
  next
    case (Suc j)
    then show ?thesis using Cons bs by simp
  qed
qed simp

lemma spread_read: "distinct as \<Longrightarrow> length as = length bs \<Longrightarrow> map (spread v as bs) as = map Some bs"
  by (rule nth_equalityI) (simp_all add: spread_nth)

lemma spread_range: "spread v [a..<a + length bs] bs = view_write v a bs"
proof
  fix k
  show "spread v [a..<a + length bs] bs k = view_write v a bs k"
  proof (cases "a \<le> k \<and> k < a + length bs")
    case True
    then have "spread v [a..<a + length bs] bs ([a..<a + length bs] ! (k - a)) = Some (bs ! (k - a))"
      by (intro spread_nth) auto
    then show ?thesis using True by (simp add: view_write_def)
  qed (auto simp: view_write_def spread_outside)
qed

section \<open>Accesses to one buffer\<close>

lemma read_bytes_view_at:
  assumes "mem_inv m" "read_bytes m a n = Inr bs"
  shows "bs = view_at m [unat a..<unat a + n]"
  using mem.rd_len [OF assms] mem.rd_view [OF assms] by (auto simp: view_at_def intro!: nth_equalityI)

lemma mapped_read:
  assumes "mem_inv m" "buf_mapped m b"
  shows "read_bytes m (b_addr b) (unat (b_len b)) = Inr (view_at m [unat (b_addr b)..<unat (b_addr b) + unat (b_len b)])"
proof -
  obtain bs where "read_bytes m (b_addr b) (unat (b_len b)) = Inr bs" using assms(2) by (auto simp: buf_mapped_def is_ok_iff)
  then show ?thesis using read_bytes_view_at [OF assms(1)] by simp
qed

lemma unmapped_read: "\<not> buf_mapped m b \<Longrightarrow> \<exists>e. read_bytes m (b_addr b) (unat (b_len b)) = Inl e"
  by (cases "read_bytes m (b_addr b) (unat (b_len b))") (simp_all add: buf_mapped_def is_ok_def)

lemma mapped_prefix:
  assumes "mem_inv m" "buf_mapped m b" "n \<le> unat (b_len b)"
  shows "is_ok (read_bytes m (b_addr b) n)"
  using read_bytes_sub [OF assms(1), of "b_addr b" "unat (b_len b)" "b_addr b" n] assms(2,3) by (simp add: buf_mapped_def)

lemma write_prefix:
  assumes "mem_inv m" "buf_mapped m b" "length bs \<le> unat (b_len b)"
  obtains m' where "write_bytes m (b_addr b) bs = Inr m'" "mem_inv m'" "layout m' = layout m"
    "mem_view m' = spread (mem_view m) [unat (b_addr b)..<unat (b_addr b) + length bs] bs"
proof -
  obtain m' where m': "write_bytes m (b_addr b) bs = Inr m'"
    using mapped_prefix [OF assms] mem.wr_ok [OF assms(1), of "b_addr b" bs] by (auto simp: is_ok_iff)
  then show thesis
    using that mem.wr_inv [OF assms(1) m'] write_bytes_layout [OF m'] mem.wr_view [OF assms(1) m'] by (simp add: spread_range)
qed

lemma read_ok_layout: "layout m' = layout m \<Longrightarrow> is_ok (read_bytes m' a n) \<longleftrightarrow> is_ok (read_bytes m a n)"
  using find_region_layout [of m' m a n] by (auto simp: read_bytes_def is_ok_def res_bind_def Let_def split: sum.splits)

lemma mapped_layout: "layout m' = layout m \<Longrightarrow> buf_mapped m' = buf_mapped m"
  using read_ok_layout [of m' m] by (simp add: buf_mapped_def fun_eq_iff)

lemma read_same_view:
  assumes "mem_inv m" "mem_inv m'" "layout m' = layout m" "\<And>k. k < n \<Longrightarrow> mem_view m' (unat a + k) = mem_view m (unat a + k)"
    "is_ok (read_bytes m a n)"
  shows "read_bytes m' a n = read_bytes m a n"
proof -
  obtain bs bs' where b: "read_bytes m a n = Inr bs" "read_bytes m' a n = Inr bs'"
    using assms(5) read_ok_layout [OF assms(3), of a n] by (auto simp: is_ok_iff)
  have "bs' = bs" using assms(2) b(2)
    by (rule mem.rd_eqI) (use mem.rd_len [OF assms(1) b(1)] mem.rd_view [OF assms(1) b(1)] assms(4) in auto)
  then show ?thesis using b by simp
qed

section \<open>Chains a driver has published\<close>

text \<open>From ring position \<open>k\<close> up to the published index \<open>idx\<close> the available ring holds the chains \<open>cs\<close>.\<close>

fun published :: "guest_memory \<Rightarrow> split_queue \<Rightarrow> u16 \<Rightarrow> u16 \<Rightarrow> chain list \<Rightarrow> bool" where
  "published m q k idx [] \<longleftrightarrow> k = idx"
| "published m q k idx (c # cs) \<longleftrightarrow>
     k \<noteq> idx \<and> avail_entry m q k = Some (c_head c) \<and> chain_spec m q (c_head c) c \<and> published m q (k + 1) idx cs"

lemma published_length: "published m q k idx cs \<Longrightarrow> length cs = unat (idx - k)"
proof (induction cs arbitrary: k)
  case (Cons c cs)
  then have "unat (idx - k) = Suc (unat (idx - (k + 1)))" by (intro unat_diff_Suc) auto
  then show ?case using Cons by simp
qed simp

lemma published_last_avail [simp]: "published m (q\<lparr>last_avail := x\<rparr>) k idx cs = published m q k idx cs"
  by (induction cs arbitrary: k) simp_all

lemma pop_published:
  assumes "queue_inv q" "\<not> broken q" "avail_idx m q = Some idx" "published m q (last_avail q) idx (c # cs)"
  shows "pop m q = Some (q\<lparr>last_avail := last_avail q + 1\<rparr>, Some c)"
  by (cases rule: pop_spec [OF assms(1,2), of m]) (use assms(3,4) chain_spec_unique in auto)

lemma chains_published:
  assumes "queue_inv q" "\<not> broken q" "avail_idx m q = Some idx" "published m q (last_avail q) idx cs" "length cs < fuel"
  shows "chains fuel m q = Some (q\<lparr>last_avail := idx\<rparr>, cs)"
  using assms
proof (induction cs arbitrary: q fuel)
  case Nil
  then obtain f where f: "fuel = Suc f" by (cases fuel) simp_all
  have "last_avail q = idx" using Nil.prems(4) by simp
  moreover from this have "q\<lparr>last_avail := idx\<rparr> = q" by simp
  ultimately show ?case using Nil.prems(1-3) f by (simp add: pop_eq)
next
  case (Cons c cs)
  then obtain f where f: "fuel = Suc f" by (cases fuel) simp_all
  let ?q = "q\<lparr>last_avail := last_avail q + 1\<rparr>"
  have inv: "queue_inv ?q" using Cons.prems(1) by (simp add: queue_inv_def)
  have "chains f m ?q = Some (?q\<lparr>last_avail := idx\<rparr>, cs)"
    by (rule Cons.IH) (use Cons.prems inv f in auto)
  then show ?case using pop_published [OF Cons.prems(1-4)] f by simp
qed

lemma published_heads: "published m q k idx cs \<Longrightarrow> c \<in> set cs \<Longrightarrow> c_head c < sq_size q"
proof (induction cs arbitrary: k)
  case (Cons d cs)
  have "c_head d < sq_size q" using Cons.prems(1) by (simp add: chain_spec_def word_less_nat_alt)
  then show ?case using Cons by auto
qed simp

section \<open>Completions leave other memory alone\<close>

definition outside_ring :: "split_queue \<Rightarrow> nat list \<Rightarrow> bool" where
  "outside_ring q as \<longleftrightarrow> (\<forall>a \<in> set as. a < unat (sq_used q) + 2 \<or> ring_end q \<le> a)"

lemma outside_ring_used [simp]: "outside_ring (q\<lparr>used_idx := x\<rparr>) = outside_ring q" "outside_ring (q\<lparr>last_avail := y\<rparr>) = outside_ring q"
  by (simp_all add: outside_ring_def ring_end_def fun_eq_iff)

lemma used_view_last_avail [simp]:
  "used_elem m (q\<lparr>last_avail := x\<rparr>) = used_elem m q" "used_index m (q\<lparr>last_avail := x\<rparr>) = used_index m q"
  "used_slot (q\<lparr>last_avail := x\<rparr>) = used_slot q" "ring_end (q\<lparr>last_avail := x\<rparr>) = ring_end q"
  by (simp_all add: used_elem_def used_index_def used_slot_def ring_end_def fun_eq_iff)

lemma outside_ring_append [simp]: "outside_ring q (as @ bs) \<longleftrightarrow> outside_ring q as \<and> outside_ring q bs"
  by (auto simp: outside_ring_def)

lemma outside_ring_range:
  assumes "outside_ring q [a..<a + n]" "0 < n"
  shows "a + n \<le> unat (sq_used q) + 2 \<or> ring_end q \<le> a"
proof (rule ccontr)
  assume c: "\<not> (a + n \<le> unat (sq_used q) + 2 \<or> ring_end q \<le> a)"
  have "a < unat (sq_used q) + 2 \<or> ring_end q \<le> a" using assms by (auto simp: outside_ring_def)
  then have "unat (sq_used q) + 2 \<in> set [a..<a + n]" using c by auto
  then show False using assms(1) by (auto simp: outside_ring_def ring_end_def)
qed

lemma add_used_read:
  assumes "mem_inv m" "add_used m q head len = Some (m', q', True)" "outside_ring q [unat a..<unat a + n]"
  shows "read_bytes m' a n = read_bytes m a n"
proof (cases "n = 0")
  case False
  then show ?thesis using add_used_effect(7) [OF assms(1,2)] outside_ring_range [OF assms(3)] by simp
qed (simp add: read_bytes_def)

lemma add_used_view:
  assumes "mem_inv m" "add_used m q head len = Some (m', q', True)" "a < unat (sq_used q) + 2 \<or> ring_end q \<le> a"
  shows "mem_view m' a = mem_view m a"
proof -
  obtain m1 m2 elem len_at idx_at where
    at: "unat elem = unat (sq_used q) + 4 + 8 * used_slot q 0" "unat len_at = unat (sq_used q) + 8 + 8 * used_slot q 0"
      "unat idx_at = unat (sq_used q) + 2" and
    st: "write_u32 m elem (ucast head) = Inr m1" "write_u32 m1 len_at len = Inr m2" "write_u16 m2 idx_at (used_idx q + 1) = Inr m'" and
    head: "head < sq_size q"
    by (rule add_used_stores [OF assms(2)])
  note w = st [unfolded write_int_bytes]
  have inv1: "mem_inv m1" using mem.wr_inv [OF assms(1) w(1)] .
  have inv2: "mem_inv m2" using mem.wr_inv [OF inv1 w(2)] .
  have "0 < unat (sq_size q)" using head by (simp add: word_less_nat_alt)
  then have "used_slot q 0 < unat (sq_size q)" by (simp add: used_slot_def)
  then have "unat len_at + 4 \<le> ring_end q" using at(2) by (simp add: ring_end_def)
  then have "mem_view m' a = mem_view m2 a" "mem_view m2 a = mem_view m1 a" "mem_view m1 a = mem_view m a"
    using assms(3) at by (auto simp: mem.wr_view [OF inv2 w(3)] mem.wr_view [OF inv1 w(2)] mem.wr_view [OF assms(1) w(1)] view_write_def)
  then show ?thesis by simp
qed

section \<open>Concrete memories\<close>

text \<open>Two pages at the base of guest RAM that hold the given bytes and zeros elsewhere.\<close>

definition demo_mem :: "(nat \<times> u8) list \<Rightarrow> guest_memory" where
  "demo_mem bytes = \<lparr>regions = [\<lparr>r_gpa = 0x40000000, r_size = 0x8000, r_host = 0x200000, r_guest_mapped = False,
     r_data = (\<lambda>i. case map_of bytes i of None \<Rightarrow> 0 | Some b \<Rightarrow> b)\<rparr>]\<rparr>"

lemma demo_mem_inv: "mem_inv (demo_mem bytes)"
  by (simp add: mem_inv_def regions_ok_def region_ok_def region_hi_def demo_mem_def HOST_PAGE_SIZE_def)

lemma demo_mem_read:
  assumes "0x40000000 \<le> unat a" and "unat a + n \<le> 0x40008000"
  shows "read_bytes (demo_mem bytes) a n =
    Inr (map (\<lambda>k. case map_of bytes (unat a - 0x40000000 + k) of None \<Rightarrow> 0 | Some b \<Rightarrow> b) [0..<n])"
proof (cases "n = 0")
  case False
  have "find_region (demo_mem bytes) a n = Inr 0"
    using assms False
    by (subst find_region_iff [OF demo_mem_inv]) (simp_all add: demo_mem_def region_lo_def region_hi_def)
  moreover have "unat (a - 0x40000000) = unat a - 0x40000000"
    using assms(1) by (simp add: unat_sub word_le_nat_alt)
  ultimately show ?thesis using False by (simp add: read_bytes_def demo_mem_def)
qed (simp add: read_bytes_def)

lemma chain_spec_single:
  assumes "desc_at m (sq_desc q) (unat head) = Some d" "\<not> has_next d" "\<not> is_indirect d" "desc_ok m d" "unat head < unat (sq_size q)"
  shows "chain_spec m q head (chain_of head [d])"
proof -
  have "desc_path (desc_at m (sq_desc q)) (unat (sq_size q)) (unat head) [(unat head, d)]"
    using assms(1,2) by (auto intro!: desc_path.intros)
  moreover have "expands m q False [(unat head, d)] [d]" using assms(3,4) by (simp add: expands_single)
  ultimately show ?thesis using assms(5) unfolding chain_spec_def by blast
qed

text \<open>
  A chain that is out of order as a whole: a writable buffer in the main table, then an indirect table with a readable
  one. The device takes it, with the buffer of the table in front.
\<close>

definition misordered_bytes :: "(nat \<times> u8) list" where
  "misordered_bytes = [(1, 0x30), (3, 0x40), (8, 0x20), (12, 3), (14, 1),
                       (17, 0x40), (19, 0x40), (24, 0x10), (28, 4), (0x1002, 1),
                       (0x4001, 0x31), (0x4003, 0x40), (0x4008, 0x10)]"

definition misordered_queue :: split_queue where
  "misordered_queue = demo_queue\<lparr>indirect := True\<rparr>"

definition misordered_chain :: chain where
  "misordered_chain = \<lparr>c_head = 0, c_readable = [\<lparr>b_addr = 0x40003100, b_len = 16\<rparr>],
                       c_writable = [\<lparr>b_addr = 0x40003000, b_len = 32\<rparr>]\<rparr>"

lemma misordered_descs:
  "desc_at (demo_mem misordered_bytes) 0x40000000 0 = Some \<lparr>d_addr = 0x40003000, d_len = 32, d_flags = 3, d_next = 1\<rparr>"
  "desc_at (demo_mem misordered_bytes) 0x40000000 1 = Some \<lparr>d_addr = 0x40004000, d_len = 16, d_flags = 4, d_next = 0\<rparr>"
  "desc_at (demo_mem misordered_bytes) 0x40004000 0 = Some \<lparr>d_addr = 0x40003100, d_len = 16, d_flags = 0, d_next = 0\<rparr>"
  by (simp_all add: desc_at_def read_u16_def read_u32_def read_u64_def demo_mem_read misordered_bytes_def upt_widths)

lemma misordered_chain_taken:
  "chain_misordered (demo_mem misordered_bytes) misordered_queue 0 misordered_chain"
  "pop (demo_mem misordered_bytes) misordered_queue = Some (misordered_queue\<lparr>last_avail := 1\<rparr>, Some misordered_chain)"
proof -
  let ?m = "demo_mem misordered_bytes"
  let ?d0 = "\<lparr>d_addr = 0x40003000, d_len = 32, d_flags = 3, d_next = 1\<rparr>"
  let ?d1 = "\<lparr>d_addr = 0x40004000, d_len = 16, d_flags = 4, d_next = 0\<rparr>"
  let ?e = "\<lparr>d_addr = 0x40003100, d_len = 16, d_flags = 0, d_next = 0\<rparr>"
  have flags: "has_next ?d0" "\<not> has_next ?d1" "\<not> has_next ?e" "is_write ?d0" "\<not> is_write ?e"
    "\<not> is_indirect ?d0" "is_indirect ?d1" "\<not> is_indirect ?e"
    by (simp_all add: has_next_def is_write_def is_indirect_def NEXT_def WRITE_def INDIRECT_def)
  have ok: "desc_ok ?m ?d0" "desc_ok ?m ?e"
    by (simp_all add: desc_ok_def span_mapped_def checked_add_def read_u8_def demo_mem_read)
  have path: "desc_path (desc_at ?m 0x40000000) 4 0 [(0, ?d0), (1, ?d1)]" "desc_path (desc_at ?m 0x40004000) 1 0 [(0, ?e)]"
    using flags misordered_descs by (auto intro!: desc_path.intros)
  have q: "sq_size misordered_queue = 4" "sq_desc misordered_queue = 0x40000000" "indirect misordered_queue"
    "last_avail misordered_queue = 0" "queue_inv misordered_queue" "\<not> broken misordered_queue"
    using demo_queue_inv by (simp_all add: misordered_queue_def demo_queue_eq queue_inv_def)
  have "table_descs ?m misordered_queue ?d1 [?e]"
    using path(2) q(1) by (auto simp: table_descs_def intro!: exI [of _ "[(0, ?e)]"])
  then have "chain_descs ?m misordered_queue 0 [?d0] [?e]"
    using path(1) q(1-3) flags ok unfolding chain_descs_def by (auto intro!: exI [of _ "[(0, ?d0), (1, ?d1)]"])
  moreover have "misordered_chain = chain_of 0 ([?d0] @ [?e])"
    using flags by (simp add: chain_of_def misordered_chain_def buf_of_def)
  ultimately show mis: "chain_misordered ?m misordered_queue 0 misordered_chain"
    unfolding chain_misordered_def using flags by (intro exI [of _ "[?d0]"] exI [of _ "[?e]"]) (simp add: in_order_def)
  then have "chain_spec ?m misordered_queue 0 misordered_chain" by (simp add: chain_spec_cases)
  moreover have "avail_idx ?m misordered_queue = Some 1" "avail_entry ?m misordered_queue 0 = Some 0"
    by (simp_all add: avail_idx_def avail_entry_def misordered_queue_def demo_queue_eq read_u16_def demo_mem_read
        misordered_bytes_def upt_widths)
  ultimately show "pop ?m misordered_queue = Some (misordered_queue\<lparr>last_avail := 1\<rparr>, Some misordered_chain)"
    by (cases rule: pop_spec [OF q(5,6), of ?m]) (use q(4) chain_spec_unique in auto)
qed

lemma published_single:
  "k + 1 = idx \<Longrightarrow> avail_entry m q k = Some (c_head c) \<Longrightarrow> chain_spec m q (c_head c) c \<Longrightarrow> published m q k idx [c]"
  by auto

end
