(* ===== verification/Vsock_Conn.thy ===== *)
theory Vsock_Conn
  imports Prelude "HOL-Library.Sublist"
begin

text \<open>
  Vsock packet headers and one vsock stream (\<open>ternvale-devices/src/virtio/vsock/packet.rs\<close> and \<open>conn.rs\<close>): bytes are
  staged in both directions between the guest and a Unix stream of the host, and 32-bit counters that wrap around say how
  many bytes each side may still send. The Unix stream is represented by what went through it; the results of its
  non-blocking calls are arguments.
\<close>

section \<open>Packet headers\<close>

definition HDR_LEN :: nat where "HDR_LEN = 44"

definition MAX_PAYLOAD :: nat where "MAX_PAYLOAD = 64 * 1024"

definition TYPE_STREAM :: u16 where "TYPE_STREAM = 1"

definition OP_REQUEST :: u16 where "OP_REQUEST = 1"

definition OP_RESPONSE :: u16 where "OP_RESPONSE = 2"

definition OP_RST :: u16 where "OP_RST = 3"

definition OP_SHUTDOWN :: u16 where "OP_SHUTDOWN = 4"

definition OP_RW :: u16 where "OP_RW = 5"

definition OP_CREDIT_UPDATE :: u16 where "OP_CREDIT_UPDATE = 6"

definition OP_CREDIT_REQUEST :: u16 where "OP_CREDIT_REQUEST = 7"

lemmas op_defs = OP_REQUEST_def OP_RESPONSE_def OP_RST_def OP_SHUTDOWN_def OP_RW_def OP_CREDIT_UPDATE_def OP_CREDIT_REQUEST_def

definition SHUTDOWN_RCV :: u32 where "SHUTDOWN_RCV = 1"

definition SHUTDOWN_SEND :: u32 where "SHUTDOWN_SEND = 2"

definition SHUTDOWN_BOTH :: u32 where "SHUTDOWN_BOTH = SHUTDOWN_RCV OR SHUTDOWN_SEND"

record vsock_header =
  src_cid :: u64
  dst_cid :: u64
  src_port :: u32
  dst_port :: u32
  hdr_len :: u32
  hdr_kind :: u16
  hdr_op :: u16
  hdr_flags :: u32
  buf_alloc :: u32
  hdr_fwd_cnt :: u32

definition hdr_default :: vsock_header where
  "hdr_default = \<lparr>src_cid = 0, dst_cid = 0, src_port = 0, dst_port = 0, hdr_len = 0, hdr_kind = 0, hdr_op = 0,
     hdr_flags = 0, buf_alloc = 0, hdr_fwd_cnt = 0\<rparr>"

definition hdr_parse :: "u8 list \<Rightarrow> vsock_header option" where
  "hdr_parse bytes =
     (if length bytes < HDR_LEN then None
      else
        let b = take HDR_LEN bytes
        in Some \<lparr>src_cid = from_le (take 8 b), dst_cid = from_le (take 8 (drop 8 b)), src_port = from_le (take 4 (drop 16 b)),
                 dst_port = from_le (take 4 (drop 20 b)), hdr_len = from_le (take 4 (drop 24 b)),
                 hdr_kind = from_le (take 2 (drop 28 b)), hdr_op = from_le (take 2 (drop 30 b)),
                 hdr_flags = from_le (take 4 (drop 32 b)), buf_alloc = from_le (take 4 (drop 36 b)),
                 hdr_fwd_cnt = from_le (take 4 (drop 40 b))\<rparr>)"

definition hdr_encode :: "vsock_header \<Rightarrow> u8 list" where
  "hdr_encode h =
     to_le 8 (src_cid h) @ to_le 8 (dst_cid h) @ to_le 4 (src_port h) @ to_le 4 (dst_port h) @ to_le 4 (hdr_len h)
     @ to_le 2 (hdr_kind h) @ to_le 2 (hdr_op h) @ to_le 4 (hdr_flags h) @ to_le 4 (buf_alloc h) @ to_le 4 (hdr_fwd_cnt h)"

lemma length_hdr_encode [simp]: "length (hdr_encode h) = HDR_LEN"
  by (simp add: hdr_encode_def HDR_LEN_def)

lemma hdr_roundtrip: "hdr_parse (hdr_encode h @ payload) = Some h"
  by (simp add: hdr_parse_def hdr_encode_def HDR_LEN_def Let_def)

section \<open>A connection\<close>

definition BUF_ALLOC :: u32 where "BUF_ALLOC = 256 * 1024"

definition STAGE_MAX :: nat where "STAGE_MAX = 64 * 1024"

definition CREDIT_UPDATE_STEP :: u32 where "CREDIT_UPDATE_STEP = BUF_ALLOC div 4"

text \<open>Times are milliseconds of a monotonic clock.\<close>

datatype conn_state = Connecting nat | Established | Closing nat

text \<open>The Unix stream: bytes given to the host, bytes read from it, and whether the writing half was shut.\<close>

record unix_stream =
  us_written :: "u8 list"
  us_read :: "u8 list"
  us_shut :: bool

record conn =
  stream :: unix_stream
  cn_state :: conn_state
  peer_buf_alloc :: u32
  peer_fwd_cnt :: u32
  tx_cnt :: u32
  rx_cnt :: u32
  fwd_cnt :: u32
  last_fwd_sent :: u32
  to_host :: "u8 list"
  to_guest :: "u8 list"
  peer_shutdown :: u32
  host_write_shut :: bool
  host_eof :: bool
  shutdown_sent :: bool
  credit_requested :: bool

definition stream_new :: unix_stream where
  "stream_new = \<lparr>us_written = [], us_read = [], us_shut = False\<rparr>"

definition conn_new :: "unix_stream \<Rightarrow> conn_state \<Rightarrow> conn" where
  "conn_new s st = \<lparr>stream = s, cn_state = st, peer_buf_alloc = 0, peer_fwd_cnt = 0, tx_cnt = 0, rx_cnt = 0, fwd_cnt = 0,
     last_fwd_sent = 0, to_host = [], to_guest = [], peer_shutdown = 0, host_write_shut = False, host_eof = False,
     shutdown_sent = False, credit_requested = False\<rparr>"

definition update_peer :: "u32 \<Rightarrow> u32 \<Rightarrow> conn \<Rightarrow> conn" where
  "update_peer alloc fwd c = c\<lparr>peer_buf_alloc := alloc, peer_fwd_cnt := fwd\<rparr>"

definition peer_credit :: "conn \<Rightarrow> u32" where
  "peer_credit c = (let in_flight = tx_cnt c - peer_fwd_cnt c in saturating_sub (peer_buf_alloc c) in_flight)"

definition accept_payload :: "u8 list \<Rightarrow> conn \<Rightarrow> bool \<times> conn" where
  "accept_payload data c =
     (if unat BUF_ALLOC < length (to_host c) + length data then (False, c)
      else (True, c\<lparr>to_host := to_host c @ data, rx_cnt := rx_cnt c + of_nat (length data)\<rparr>))"

definition pending_to_host :: "conn \<Rightarrow> nat" where
  "pending_to_host c = length (to_host c)"

text \<open>
  What the calls on the stream return, in order; when the list ends the stream would block. A write takes at most the
  bytes it is given; a read returns at most the bytes it has room for.
\<close>

datatype write_result = Wrote nat | WriteWouldBlock | WriteInterrupted | WriteFailed

fun flush_loop :: "write_result list \<Rightarrow> nat \<Rightarrow> conn \<Rightarrow> nat option \<times> conn" where
  "flush_loop ws written c =
     (if to_host c = [] then (Some written, c)
      else case ws of
        [] \<Rightarrow> (Some written, c)
      | Wrote k # ws \<Rightarrow>
          let n = min k (length (to_host c)) in
          if n = 0 then (None, c)
          else flush_loop ws (written + n)
            (c\<lparr>stream := (stream c)\<lparr>us_written := us_written (stream c) @ take n (to_host c)\<rparr>, to_host := drop n (to_host c),
               fwd_cnt := fwd_cnt c + of_nat n\<rparr>)
      | WriteWouldBlock # ws \<Rightarrow> (Some written, c)
      | WriteInterrupted # ws \<Rightarrow> flush_loop ws written c
      | WriteFailed # ws \<Rightarrow> (None, c))"

declare flush_loop.simps [simp del]

text \<open>\<open>shut_ok\<close>: shutting the stream succeeded, or it was not connected any more. \<open>None\<close> is an error.\<close>

definition conn_flush :: "write_result list \<Rightarrow> bool \<Rightarrow> conn \<Rightarrow> nat option \<times> conn" where
  "conn_flush ws shut_ok c =
     (case flush_loop ws 0 c of
        (None, c) \<Rightarrow> (None, c)
      | (Some written, c) \<Rightarrow>
          if peer_shutdown c AND SHUTDOWN_SEND \<noteq> 0 \<and> to_host c = [] \<and> \<not> host_write_shut c then
            let c = c\<lparr>host_write_shut := True\<rparr> in
            if shut_ok then (Some written, c\<lparr>stream := (stream c)\<lparr>us_shut := True\<rparr>\<rparr>) else (None, c)
          else (Some written, c))"

datatype read_result = Got "u8 list" | Eof | ReadWouldBlock | ReadInterrupted | ReadFailed

text \<open>
  The loop of \<open>fill\<close>: the bytes taken from the stream, and whether its end was seen. An inner \<open>None\<close> is an error; the
  bytes of the earlier reads have then left the stream too.
\<close>

fun fill_loop :: "read_result list \<Rightarrow> nat \<Rightarrow> u8 list \<Rightarrow> u8 list \<times> bool option" where
  "fill_loop rs room buf =
     (if room \<le> length buf then (buf, Some False)
      else case rs of
        [] \<Rightarrow> (buf, Some False)
      | Got d # rs \<Rightarrow>
          let got = take (room - length buf) d in
          if got = [] then (buf, Some True) else fill_loop rs room (buf @ got)
      | Eof # rs \<Rightarrow> (buf, Some True)
      | ReadWouldBlock # rs \<Rightarrow> (buf, Some False)
      | ReadInterrupted # rs \<Rightarrow> fill_loop rs room buf
      | ReadFailed # rs \<Rightarrow> (buf, None))"

declare fill_loop.simps [simp del]

definition conn_fill :: "read_result list \<Rightarrow> conn \<Rightarrow> nat option \<times> conn" where
  "conn_fill rs c =
     (if cn_state c \<noteq> Established \<or> host_eof c \<or> peer_shutdown c AND SHUTDOWN_RCV \<noteq> 0 then (Some 0, c)
      else
        let credit = unat (peer_credit c) - length (to_guest c); room = min credit (STAGE_MAX - length (to_guest c)) in
        case fill_loop rs room [] of
          (buf, None) \<Rightarrow> (None, c\<lparr>stream := (stream c)\<lparr>us_read := us_read (stream c) @ buf\<rparr>\<rparr>)
        | (buf, Some eof) \<Rightarrow>
            (Some (length buf),
             c\<lparr>host_eof := eof, to_guest := to_guest c @ buf, stream := (stream c)\<lparr>us_read := us_read (stream c) @ buf\<rparr>\<rparr>))"

definition request_credit_update :: "conn \<Rightarrow> conn" where
  "request_credit_update c = c\<lparr>credit_requested := True\<rparr>"

definition credit_update_due :: "conn \<Rightarrow> bool" where
  "credit_update_due c \<longleftrightarrow> credit_requested c \<or> CREDIT_UPDATE_STEP \<le> fwd_cnt c - last_fwd_sent c"

definition shutdown_due :: "conn \<Rightarrow> bool" where
  "shutdown_due c \<longleftrightarrow> host_eof c \<and> to_guest c = [] \<and> \<not> shutdown_sent c"

definition wants_rx :: "conn \<Rightarrow> bool" where
  "wants_rx c \<longleftrightarrow> to_guest c \<noteq> [] \<and> 0 < peer_credit c \<or> credit_update_due c \<or> shutdown_due c"

definition next_packet :: "nat \<Rightarrow> conn \<Rightarrow> (u16 \<times> u32 \<times> u8 list) option \<times> conn" where
  "next_packet max_payload c =
     (let n = min (min (length (to_guest c)) max_payload) (unat (peer_credit c)) in
      if 0 < n then (Some (OP_RW, 0, take n (to_guest c)), c\<lparr>to_guest := drop n (to_guest c), tx_cnt := tx_cnt c + of_nat n\<rparr>)
      else if credit_update_due c then (Some (OP_CREDIT_UPDATE, 0, []), c)
      else if shutdown_due c then (Some (OP_SHUTDOWN, SHUTDOWN_BOTH, []), c\<lparr>shutdown_sent := True\<rparr>)
      else (None, c))"

definition stamp :: "conn \<Rightarrow> (u32 \<times> u32) \<times> conn" where
  "stamp c = ((BUF_ALLOC, fwd_cnt c), c\<lparr>last_fwd_sent := fwd_cnt c, credit_requested := False\<rparr>)"

section \<open>Histories of a connection\<close>

text \<open>
  Everything the muxer does to a connection. The state of a history is the connection, the payload bytes accepted from
  the guest, the payload bytes sent to it, how many bytes the last header sent to the guest said were forwarded, and how
  many bytes the calls of \<open>fill\<close> that ended in an error had already taken from the stream.
\<close>

datatype conn_op =
  UpdatePeer u32 u32 | AcceptPayload "u8 list" | Flush "write_result list" bool | Fill "read_result list"
| RequestCreditUpdate | PeerShutdown u32 | SetState conn_state | NextPacket nat | Stamp

record conn_history =
  ch_conn :: conn
  ch_accepted :: "u8 list"
  ch_sent :: "u8 list"
  ch_stamped :: nat
  ch_lost :: nat

fun conn_step :: "conn_history \<Rightarrow> conn_op \<Rightarrow> conn_history" where
  "conn_step h (UpdatePeer alloc fwd) = h\<lparr>ch_conn := update_peer alloc fwd (ch_conn h)\<rparr>"
| "conn_step h (AcceptPayload data) =
     (case accept_payload data (ch_conn h) of
        (ok, c) \<Rightarrow> h\<lparr>ch_conn := c, ch_accepted := (if ok then ch_accepted h @ data else ch_accepted h)\<rparr>)"
| "conn_step h (Flush ws ok) = h\<lparr>ch_conn := snd (conn_flush ws ok (ch_conn h))\<rparr>"
| "conn_step h (Fill rs) =
     (case conn_fill rs (ch_conn h) of
        (r, c) \<Rightarrow> h\<lparr>ch_conn := c, ch_lost := ch_lost h +
          (if r = None then length (us_read (stream c)) - length (us_read (stream (ch_conn h))) else 0)\<rparr>)"
| "conn_step h RequestCreditUpdate = h\<lparr>ch_conn := request_credit_update (ch_conn h)\<rparr>"
| "conn_step h (PeerShutdown flags) = h\<lparr>ch_conn := (ch_conn h)\<lparr>peer_shutdown := peer_shutdown (ch_conn h) OR flags AND SHUTDOWN_BOTH\<rparr>\<rparr>"
| "conn_step h (SetState st) = h\<lparr>ch_conn := (ch_conn h)\<lparr>cn_state := st\<rparr>\<rparr>"
| "conn_step h (NextPacket max_payload) =
     (case next_packet max_payload (ch_conn h) of
        (p, c) \<Rightarrow> h\<lparr>ch_conn := c, ch_sent := ch_sent h @ (case p of None \<Rightarrow> [] | Some (_, _, data) \<Rightarrow> data)\<rparr>)"
| "conn_step h Stamp = h\<lparr>ch_conn := snd (stamp (ch_conn h)), ch_stamped := length (us_written (stream (ch_conn h)))\<rparr>"

definition conn_start :: "conn_state \<Rightarrow> conn_history" where
  "conn_start st = \<lparr>ch_conn = conn_new stream_new st, ch_accepted = [], ch_sent = [], ch_stamped = 0, ch_lost = 0\<rparr>"

definition conn_inv :: "conn_history \<Rightarrow> bool" where
  "conn_inv h \<longleftrightarrow>
     us_written (stream (ch_conn h)) @ to_host (ch_conn h) = ch_accepted h
     \<and> subseq (ch_sent h @ to_guest (ch_conn h)) (us_read (stream (ch_conn h)))
     \<and> length (us_read (stream (ch_conn h))) = length (ch_sent h) + length (to_guest (ch_conn h)) + ch_lost h
     \<and> rx_cnt (ch_conn h) = of_nat (length (ch_accepted h))
     \<and> fwd_cnt (ch_conn h) = of_nat (length (us_written (stream (ch_conn h))))
     \<and> tx_cnt (ch_conn h) = of_nat (length (ch_sent h))
     \<and> last_fwd_sent (ch_conn h) = of_nat (ch_stamped h) \<and> ch_stamped h \<le> length (us_written (stream (ch_conn h)))
     \<and> length (to_host (ch_conn h)) \<le> unat BUF_ALLOC
     \<and> length (to_guest (ch_conn h)) \<le> STAGE_MAX
     \<and> (shutdown_sent (ch_conn h) \<longrightarrow> host_eof (ch_conn h) \<and> to_guest (ch_conn h) = [])"

text \<open>Flushing moves a prefix of the queue to the stream and counts it.\<close>

definition flushed :: "nat \<Rightarrow> conn \<Rightarrow> conn" where
  "flushed n c =
     c\<lparr>stream := (stream c)\<lparr>us_written := us_written (stream c) @ take n (to_host c)\<rparr>, to_host := drop n (to_host c),
       fwd_cnt := fwd_cnt c + of_nat n\<rparr>"

lemma flushed_0 [simp]: "flushed 0 c = c"
  by (simp add: flushed_def)

lemma flushed_flushed: "flushed m (flushed n c) = flushed (n + m) c"
  by (simp add: flushed_def take_add add.assoc add.commute [of m n])

lemma flush_loop_steps:
  "to_host c = [] \<Longrightarrow> flush_loop ws written c = (Some written, c)"
  "to_host c \<noteq> [] \<Longrightarrow> flush_loop [] written c = (Some written, c)"
  "to_host c \<noteq> [] \<Longrightarrow> flush_loop (Wrote k # ws) written c =
     (if k = 0 then (None, c)
      else flush_loop ws (written + min k (length (to_host c))) (flushed (min k (length (to_host c))) c))"
  "to_host c \<noteq> [] \<Longrightarrow> flush_loop (WriteWouldBlock # ws) written c = (Some written, c)"
  "to_host c \<noteq> [] \<Longrightarrow> flush_loop (WriteInterrupted # ws) written c = flush_loop ws written c"
  "to_host c \<noteq> [] \<Longrightarrow> flush_loop (WriteFailed # ws) written c = (None, c)"
  by (subst flush_loop.simps, simp add: Let_def flushed_def min_def)+

lemma flush_loop_moves:
  "\<exists>n \<le> length (to_host c). snd (flush_loop ws written c) = flushed n c
     \<and> (\<forall>k. fst (flush_loop ws written c) = Some k \<longrightarrow> k = written + n)"
proof (induction ws arbitrary: written c)
  case Nil
  show ?case by (cases "to_host c = []") (auto simp: flush_loop_steps intro!: exI [of _ 0])
next
  case (Cons w ws)
  show ?case
  proof (cases "to_host c = [] \<or> w \<in> {Wrote 0, WriteWouldBlock, WriteFailed}")
    case True
    then show ?thesis by (cases "to_host c = []") (auto simp: flush_loop_steps intro!: exI [of _ 0])
  next
    case ne: False
    show ?thesis
    proof (cases w)
      case (Wrote k)
      let ?n = "min k (length (to_host c))"
      have eq: "flush_loop (w # ws) written c = flush_loop ws (written + ?n) (flushed ?n c)"
        using ne Wrote by (auto simp: flush_loop_steps)
      obtain m where m: "m \<le> length (to_host (flushed ?n c))" "snd (flush_loop ws (written + ?n) (flushed ?n c)) = flushed m (flushed ?n c)"
        "\<forall>k. fst (flush_loop ws (written + ?n) (flushed ?n c)) = Some k \<longrightarrow> k = written + ?n + m"
        using Cons.IH by blast
      have "?n + m \<le> length (to_host c)" using m(1) by (auto simp: flushed_def)
      with m show ?thesis
        unfolding eq by (intro exI [of _ "?n + m"]) (simp add: flushed_flushed add.assoc)
    qed (use ne Cons.IH [of c written] in \<open>simp_all add: flush_loop_steps\<close>)
  qed
qed

text \<open>Reading appends at most the room there is.\<close>

lemma fill_loop_steps:
  "room \<le> length buf \<Longrightarrow> fill_loop rs room buf = (buf, Some False)"
  "length buf < room \<Longrightarrow> fill_loop [] room buf = (buf, Some False)"
  "length buf < room \<Longrightarrow> fill_loop (Got d # rs) room buf =
     (if d = [] then (buf, Some True) else fill_loop rs room (buf @ take (room - length buf) d))"
  "length buf < room \<Longrightarrow> fill_loop (Eof # rs) room buf = (buf, Some True)"
  "length buf < room \<Longrightarrow> fill_loop (ReadWouldBlock # rs) room buf = (buf, Some False)"
  "length buf < room \<Longrightarrow> fill_loop (ReadInterrupted # rs) room buf = fill_loop rs room buf"
  "length buf < room \<Longrightarrow> fill_loop (ReadFailed # rs) room buf = (buf, None)"
  by (subst fill_loop.simps, simp add: Let_def)+

lemma fill_loop_bound: "fill_loop rs room buf = (d, eof) \<Longrightarrow> length buf \<le> room \<Longrightarrow> length d \<le> room"
proof (induction rs arbitrary: buf)
  case Nil
  then show ?case by (cases "room \<le> length buf") (auto simp: fill_loop_steps)
next
  case (Cons r rs)
  show ?case
  proof (cases "room \<le> length buf")
    case True
    then show ?thesis using Cons.prems by (simp add: fill_loop_steps)
  next
    case False
    then show ?thesis
      using Cons.prems Cons.IH [of buf]
      by (cases r) (auto simp: fill_loop_steps not_le split: if_splits dest!: Cons.IH)
  qed
qed

lemma conn_flush_moves:
  fixes ws ok c
  defines "c' \<equiv> snd (conn_flush ws ok c)"
  obtains n where "n \<le> length (to_host c)" "us_written (stream c') = us_written (stream c) @ take n (to_host c)"
    "to_host c' = drop n (to_host c)" "fwd_cnt c' = fwd_cnt c + of_nat n" "us_read (stream c') = us_read (stream c)"
    "tx_cnt c' = tx_cnt c" "rx_cnt c' = rx_cnt c" "last_fwd_sent c' = last_fwd_sent c" "to_guest c' = to_guest c"
    "shutdown_sent c' = shutdown_sent c" "host_eof c' = host_eof c" "cn_state c' = cn_state c"
proof -
  obtain n where n: "n \<le> length (to_host c)" "snd (flush_loop ws 0 c) = flushed n c" using flush_loop_moves by blast
  obtain r where r: "flush_loop ws 0 c = (r, flushed n c)" using n(2) by (metis prod.collapse)
  show thesis
    by (rule that [OF n(1)]; cases r; cases "peer_shutdown (flushed n c) AND SHUTDOWN_SEND \<noteq> 0 \<and> to_host (flushed n c) = [] \<and> \<not> host_write_shut (flushed n c)"; cases ok)
      (simp_all add: c'_def conn_flush_def r Let_def flushed_def)
qed

lemma conn_flush_inv: "conn_inv h \<Longrightarrow> conn_inv (h\<lparr>ch_conn := snd (conn_flush ws ok (ch_conn h))\<rparr>)"
  by (rule conn_flush_moves [of "ch_conn h" ws ok]) (auto simp: conn_inv_def)

lemma conn_fill_inv: "conn_inv h \<Longrightarrow> conn_inv (conn_step h (Fill rs))"
proof -
  assume inv: "conn_inv h"
  let ?c = "ch_conn h"
  let ?room = "min (unat (peer_credit ?c) - length (to_guest ?c)) (STAGE_MAX - length (to_guest ?c))"
  obtain d eof where f: "fill_loop rs ?room [] = (d, eof)" by fastforce
  then have d: "length d \<le> ?room" using fill_loop_bound by fastforce
  show ?thesis
  proof (cases eof)
    case None
    then show ?thesis using inv f by (auto simp: conn_fill_def Let_def conn_inv_def intro: subseq_rev_drop_many)
  next
    case (Some e)
    have "subseq (ch_sent h @ to_guest ?c @ d) (us_read (stream ?c) @ d)"
      using inv subseq_append [of "ch_sent h @ to_guest ?c" d "us_read (stream ?c)"] by (simp add: conn_inv_def)
    then show ?thesis using inv f d Some by (auto simp: conn_fill_def Let_def conn_inv_def)
  qed
qed

lemma next_packet_cases:
  fixes m c
  defines "n \<equiv> min (min (length (to_guest c)) m) (unat (peer_credit c))"
  obtains "0 < n" "next_packet m c = (Some (OP_RW, 0, take n (to_guest c)), c\<lparr>to_guest := drop n (to_guest c), tx_cnt := tx_cnt c + of_nat n\<rparr>)"
  | "n = 0" "credit_update_due c" "next_packet m c = (Some (OP_CREDIT_UPDATE, 0, []), c)"
  | "n = 0" "shutdown_due c" "next_packet m c = (Some (OP_SHUTDOWN, SHUTDOWN_BOTH, []), c\<lparr>shutdown_sent := True\<rparr>)"
  | "n = 0" "\<not> credit_update_due c" "\<not> shutdown_due c" "next_packet m c = (None, c)"
  unfolding next_packet_def Let_def n_def [symmetric] by (metis gr0I)

lemma next_packet_inv: "conn_inv h \<Longrightarrow> conn_inv (conn_step h (NextPacket m))"
proof (cases rule: next_packet_cases [of "ch_conn h" m])
  case 1
  let ?n = "min (min (length (to_guest (ch_conn h))) m) (unat (peer_credit (ch_conn h)))"
  assume inv: "conn_inv h"
  have "to_guest (ch_conn h) \<noteq> []" using 1(1) by auto
  then have "\<not> shutdown_sent (ch_conn h)" using inv by (auto simp: conn_inv_def)
  moreover have "length (to_guest (ch_conn h)) \<le> STAGE_MAX" using inv by (simp add: conn_inv_def)
  then have "length (to_guest (ch_conn h)) - ?n \<le> STAGE_MAX" by linarith
  ultimately show ?thesis using inv by (simp add: 1(2)) (simp add: conn_inv_def)
next
  case 2
  assume "conn_inv h"
  then show ?thesis unfolding conn_inv_def conn_step.simps 2(3) by simp
next
  case 3
  assume "conn_inv h"
  then show ?thesis using 3(2) unfolding conn_inv_def conn_step.simps 3(3) shutdown_due_def by simp
next
  case 4
  assume "conn_inv h"
  then show ?thesis unfolding conn_inv_def conn_step.simps 4(4) by simp
qed

lemma conn_step_inv: "conn_inv h \<Longrightarrow> conn_inv (conn_step h op)"
proof (cases op)
  case (AcceptPayload data)
  then show "conn_inv h \<Longrightarrow> ?thesis" by (auto simp: conn_inv_def accept_payload_def)
next
  case (NextPacket m)
  then show "conn_inv h \<Longrightarrow> ?thesis" using next_packet_inv by simp
next
  case (Fill rs)
  then show "conn_inv h \<Longrightarrow> ?thesis" using conn_fill_inv by simp
qed (auto simp: conn_flush_inv, auto simp: conn_inv_def update_peer_def request_credit_update_def stamp_def)

interpretation vsock_conn: component conn_step conn_inv
  by unfold_locales (rule conn_step_inv)

lemma conn_start_inv: "conn_inv (conn_start st)"
  by (simp add: conn_inv_def conn_start_def conn_new_def stream_new_def)

text \<open>
  C12. A vsock stream invents and reorders nothing, and what it loses is known. After any sequence of packets, socket
  calls with any results and transmissions, the bytes given to the host followed by those still queued are exactly the
  payload accepted from the guest. The bytes sent to the guest followed by those still staged are a subsequence of what
  was read from the host, short of it by exactly the bytes that calls of \<open>fill\<close> ending in a read error had already taken
  from the socket; so they are all of it as long as no read fails after another one in the same call. Both queues stay
  within their bounds, and a SHUTDOWN is only sent after the end of the host's stream was seen and nothing is staged.
\<close>

theorem vsock_stream_exact:
  "let h = run conn_step (conn_start st) ops; c = ch_conn h in
     us_written (stream c) @ to_host c = ch_accepted h
     \<and> subseq (ch_sent h @ to_guest c) (us_read (stream c))
     \<and> length (us_read (stream c)) = length (ch_sent h @ to_guest c) + ch_lost h
     \<and> (if ch_lost h = 0 then ch_sent h @ to_guest c = us_read (stream c) else True)
     \<and> length (to_host c) \<le> unat BUF_ALLOC \<and> length (to_guest c) \<le> STAGE_MAX
     \<and> (if shutdown_sent c then host_eof c \<and> to_guest c = [] else True)"
proof -
  have "us_written (stream (ch_conn h)) @ to_host (ch_conn h) = ch_accepted h
      \<and> subseq (ch_sent h @ to_guest (ch_conn h)) (us_read (stream (ch_conn h)))
      \<and> length (us_read (stream (ch_conn h))) = length (ch_sent h @ to_guest (ch_conn h)) + ch_lost h
      \<and> (if ch_lost h = 0 then ch_sent h @ to_guest (ch_conn h) = us_read (stream (ch_conn h)) else True)
      \<and> length (to_host (ch_conn h)) \<le> unat BUF_ALLOC \<and> length (to_guest (ch_conn h)) \<le> STAGE_MAX
      \<and> (if shutdown_sent (ch_conn h) then host_eof (ch_conn h) \<and> to_guest (ch_conn h) = [] else True)" if "conn_inv h" for h
    using that subseq_same_length [of "ch_sent h @ to_guest (ch_conn h)" "us_read (stream (ch_conn h))"] by (auto simp: conn_inv_def)
  then show ?thesis using vsock_conn.run_inv [OF conn_start_inv, of st ops] unfolding Let_def by blast
qed

text \<open>
  Two reads in one call, the second of which fails: the bytes of the first are gone.
\<close>

lemma vsock_fill_drops:
  "let h = run conn_step (conn_start Established) [UpdatePeer 64 0, Fill [Got [1, 2, 3], ReadFailed]] in
     us_read (stream (ch_conn h)) = [1, 2, 3] \<and> to_guest (ch_conn h) = [] \<and> ch_sent h = [] \<and> ch_lost h = 3"
  by (simp add: conn_start_def conn_new_def stream_new_def update_peer_def conn_fill_def Let_def peer_credit_def
      saturating_sub_def STAGE_MAX_def fill_loop_steps)

text \<open>Credit: the counters wrap around, the number of bytes in flight does not.\<close>

lemma counter_difference:
  assumes "m \<le> n" "n - m < 2 ^ 32"
  shows "unat (of_nat n - of_nat m :: u32) = n - m"
  using assms by (simp flip: of_nat_diff add: unat_of_nat_small)

text \<open>
  C22. Flow control is exact in both directions, although its 32-bit counters wrap around. Towards the guest, if its last
  header told the truth (it has consumed \<open>F\<close> of the bytes sent, with window \<open>peer_buf_alloc\<close>), the next packet carries as
  much as is staged, fits the buffer and the window leaves, so the window is never overrun. Towards the host, a guest that
  respects the last \<open>fwd_cnt\<close> it was told is never refused. And credit cannot be lost: when such a guest has used up its
  window and the host has taken everything, a credit update is due.
\<close>

theorem vsock_credit_exact:
  fixes ops st
  defines "h \<equiv> run conn_step (conn_start st) ops"
  defines "c \<equiv> ch_conn h"
  assumes "peer_fwd_cnt c = of_nat F" "F \<le> length (ch_sent h)" "length (ch_sent h) - F < 2 ^ 32"
    and "length (ch_accepted h) + length data \<le> ch_stamped h + unat BUF_ALLOC"
  shows "(\<forall>d. fst (next_packet m c) = Some (OP_RW, 0, d) \<longrightarrow>
        length d = min (min (length (to_guest c)) m) (unat (peer_buf_alloc c) - (length (ch_sent h) - F))
        \<and> length (ch_sent h @ d) \<le> F + unat (peer_buf_alloc c))
    \<and> fst (accept_payload data c)
    \<and> (length (ch_accepted h) = ch_stamped h + unat BUF_ALLOC \<longrightarrow> to_host c = [] \<longrightarrow> wants_rx c)"
proof (intro conjI allI impI)
  have inv: "conn_inv h" unfolding h_def by (rule vsock_conn.run_inv [OF conn_start_inv])
  have "unat (tx_cnt c - peer_fwd_cnt c) = length (ch_sent h) - F"
    using inv assms(3-5) by (simp add: conn_inv_def c_def counter_difference)
  then have credit: "unat (peer_credit c) = unat (peer_buf_alloc c) - (length (ch_sent h) - F)"
    by (simp add: peer_credit_def Let_def unat_saturating_sub)
  fix d assume d: "fst (next_packet m c) = Some (OP_RW, 0, d)"
  show "length d = min (min (length (to_guest c)) m) (unat (peer_buf_alloc c) - (length (ch_sent h) - F))"
    using d by (cases rule: next_packet_cases [of c m]) (auto simp: credit op_defs)
  moreover have "0 < length d"
    using d by (cases rule: next_packet_cases [of c m]) (auto simp: op_defs min_def split: if_splits)
  ultimately show "length (ch_sent h @ d) \<le> F + unat (peer_buf_alloc c)" using assms(4) by auto
next
  have inv: "conn_inv h" unfolding h_def by (rule vsock_conn.run_inv [OF conn_start_inv])
  have "length (us_written (stream c)) + length (to_host c) = length (ch_accepted h)"
    using inv by (metis c_def conn_inv_def length_append)
  moreover have st: "ch_stamped h \<le> length (us_written (stream c))" using inv by (simp add: conn_inv_def c_def)
  ultimately have "length (to_host c) + length data \<le> unat BUF_ALLOC" using assms(6) by linarith
  then show "fst (accept_payload data c)" by (simp add: accept_payload_def)
  assume full: "length (ch_accepted h) = ch_stamped h + unat BUF_ALLOC" and "to_host c = []"
  then have w: "length (us_written (stream c)) = ch_stamped h + unat BUF_ALLOC"
    using inv by (simp add: conn_inv_def c_def)
  have "unat (fwd_cnt c - last_fwd_sent c) = unat BUF_ALLOC"
    using inv w counter_difference [of "ch_stamped h" "ch_stamped h + unat BUF_ALLOC"]
    by (simp add: conn_inv_def c_def BUF_ALLOC_def)
  then have "CREDIT_UPDATE_STEP \<le> fwd_cnt c - last_fwd_sent c"
    by (simp add: word_le_nat_alt CREDIT_UPDATE_STEP_def BUF_ALLOC_def)
  then show "wants_rx c" by (simp add: wants_rx_def credit_update_due_def)
qed

definition demo_conn_ops :: "conn_op list" where
  "demo_conn_ops = [UpdatePeer 4 0, Fill [Got [1, 2, 3, 4, 5, 6]], NextPacket 64, Stamp, UpdatePeer 4 4, Fill [Got [7, 8]]]"

theorem vsock_credit_exact_witness:
  "fst (accept_payload [9] (ch_conn (run conn_step (conn_start Established) demo_conn_ops)))
   \<and> (\<exists>d. fst (next_packet 1 (ch_conn (run conn_step (conn_start Established) demo_conn_ops))) = Some (OP_RW, 0, d) \<and> length d = 1)"
proof -
  define h where "h = run conn_step (conn_start Established) demo_conn_ops"
  have h: "peer_fwd_cnt (ch_conn h) = 4" "peer_buf_alloc (ch_conn h) = 4" "length (ch_sent h) = 4" "length (ch_accepted h) = 0"
    "ch_stamped h = 0" "length (to_guest (ch_conn h)) = 2" "tx_cnt (ch_conn h) = 4"
    unfolding h_def by (simp_all add: demo_conn_ops_def conn_start_def conn_new_def stream_new_def update_peer_def
      conn_fill_def Let_def peer_credit_def saturating_sub_def STAGE_MAX_def fill_loop_steps next_packet_def stamp_def)
  then have "\<exists>d. fst (next_packet 1 (ch_conn h)) = Some (OP_RW, 0, d)"
    by (simp add: next_packet_def Let_def peer_credit_def saturating_sub_def)
  then show ?thesis
    using vsock_credit_exact [where ops = demo_conn_ops and st = Established and F = 4 and data = "[9]" and m = 1, folded h_def] h
    unfolding h_def [symmetric] by (auto simp: BUF_ALLOC_def)
qed

end
