(* ===== verification/Vsock_Muxer.thy ===== *)
theory Vsock_Muxer
  imports Vsock_Conn "HOL-Library.Mapping" "HOL-Library.Product_Lexorder"
begin

text \<open>
  The connection table of a vsock device (\<open>ternvale-devices/src/virtio/vsock/muxer.rs\<close>): packets from the guest go to the
  connection of their port pair, host streams are polled, and packets for the guest are taken first from a control queue,
  then from the connections in turn. What the host side answers (connections accepted, results of socket calls) is an
  argument; counters for statistics are left out.
\<close>

definition HOST_CID :: u64 where "HOST_CID = 2"

definition HANDSHAKE_TIMEOUT :: nat where "HANDSHAKE_TIMEOUT = 2000"

definition EPHEMERAL_BASE :: u32 where "EPHEMERAL_BASE = 0x80000000"

type_synonym conn_key = "u32 \<times> u32"

record muxer =
  mx_guest_cid :: u64
  mx_conns :: "(conn_key, conn) mapping"
  mx_control :: "vsock_header list"
  mx_cursor :: "conn_key option"
  mx_next_port :: u32

definition muxer_new :: "u32 \<Rightarrow> muxer" where
  "muxer_new cid = \<lparr>mx_guest_cid = ucast cid, mx_conns = Mapping.empty, mx_control = [], mx_cursor = None,
     mx_next_port = EPHEMERAL_BASE\<rparr>"

definition muxer_reset :: "muxer \<Rightarrow> muxer" where
  "muxer_reset mx = mx\<lparr>mx_conns := Mapping.empty, mx_control := []\<rparr>"

section \<open>Answers\<close>

definition conn_header :: "u64 \<Rightarrow> conn_key \<Rightarrow> conn \<Rightarrow> u16 \<Rightarrow> u32 \<Rightarrow> u32 \<Rightarrow> vsock_header \<times> conn" where
  "conn_header cid key c op flags len =
     (case stamp c of
        ((alloc, fwd), c) \<Rightarrow>
          (\<lparr>src_cid = HOST_CID, dst_cid = cid, src_port = fst key, dst_port = snd key, hdr_len = len, hdr_kind = TYPE_STREAM,
            hdr_op = op, hdr_flags = flags, buf_alloc = alloc, hdr_fwd_cnt = fwd\<rparr>, c))"

definition rst_header :: "u64 \<Rightarrow> conn_key \<Rightarrow> u16 \<Rightarrow> vsock_header" where
  "rst_header cid key kind =
     hdr_default\<lparr>src_cid := HOST_CID, dst_cid := cid, src_port := fst key, dst_port := snd key, hdr_kind := kind, hdr_op := OP_RST\<rparr>"

definition mux_close :: "conn_key \<Rightarrow> muxer \<Rightarrow> muxer" where
  "mux_close key mx =
     mx\<lparr>mx_conns := Mapping.delete key (mx_conns mx), mx_control := mx_control mx @ [rst_header (mx_guest_cid mx) key TYPE_STREAM]\<rparr>"

definition reply_rst :: "vsock_header \<Rightarrow> muxer \<Rightarrow> muxer" where
  "reply_rst hdr mx =
     (if hdr_op hdr = OP_RST then mx
      else mx\<lparr>mx_control := mx_control mx @ [rst_header (mx_guest_cid mx) (dst_port hdr, src_port hdr) (hdr_kind hdr)]\<rparr>)"

definition finish_if_shut :: "conn_key \<Rightarrow> muxer \<Rightarrow> muxer" where
  "finish_if_shut key mx =
     (case Mapping.lookup (mx_conns mx) key of
        None \<Rightarrow> mx
      | Some c \<Rightarrow> if peer_shutdown c = SHUTDOWN_BOTH \<and> pending_to_host c = 0 then mux_close key mx else mx)"

section \<open>Packets from the guest\<close>

text \<open>\<open>connects\<close>: a host service listens on the port.\<close>

definition guest_connect :: "(u32 \<Rightarrow> bool) \<Rightarrow> conn_key \<Rightarrow> vsock_header \<Rightarrow> muxer \<Rightarrow> muxer" where
  "guest_connect connects key hdr mx =
     (if Mapping.lookup (mx_conns mx) key \<noteq> None then mux_close key mx
      else if \<not> connects (fst key) then reply_rst hdr mx
      else
        let c = update_peer (buf_alloc hdr) (hdr_fwd_cnt hdr) (conn_new stream_new Established);
            (response, c) = conn_header (mx_guest_cid mx) key c OP_RESPONSE 0 0
        in mx\<lparr>mx_conns := Mapping.update key c (mx_conns mx), mx_control := mx_control mx @ [response]\<rparr>)"

text \<open>The packet on an existing connection: whether it failed, and the connection afterwards.\<close>

definition conn_packet :: "write_result list \<Rightarrow> bool \<Rightarrow> vsock_header \<Rightarrow> u8 list \<Rightarrow> conn \<Rightarrow> bool \<times> conn" where
  "conn_packet ws shut_ok hdr payload c =
     (let c = update_peer (buf_alloc hdr) (hdr_fwd_cnt hdr) c; op = hdr_op hdr in
      if op = OP_RESPONSE then
        (case cn_state c of Connecting _ \<Rightarrow> (False, c\<lparr>cn_state := Established\<rparr>) | _ \<Rightarrow> (True, c))
      else if op = OP_RW then
        (if cn_state c \<noteq> Established then (True, c)
         else case accept_payload payload c of
           (False, c) \<Rightarrow> (True, c)
         | (True, c) \<Rightarrow> (case conn_flush ws shut_ok c of (r, c) \<Rightarrow> (r = None, c)))
      else if op = OP_CREDIT_UPDATE then (False, c)
      else if op = OP_CREDIT_REQUEST then (False, request_credit_update c)
      else if op = OP_SHUTDOWN then
        (case conn_flush ws shut_ok (c\<lparr>peer_shutdown := peer_shutdown c OR hdr_flags hdr AND SHUTDOWN_BOTH\<rparr>) of
           (r, c) \<Rightarrow> (r = None, c))
      else (True, c))"

definition handle_guest :: "(u32 \<Rightarrow> bool) \<Rightarrow> write_result list \<Rightarrow> bool \<Rightarrow> vsock_header \<Rightarrow> u8 list \<Rightarrow> muxer \<Rightarrow> muxer" where
  "handle_guest connects ws shut_ok hdr payload mx =
     (if src_cid hdr \<noteq> mx_guest_cid mx \<or> dst_cid hdr \<noteq> HOST_CID then mx
      else if hdr_kind hdr \<noteq> TYPE_STREAM then reply_rst hdr mx
      else
        let key = (dst_port hdr, src_port hdr) in
        if hdr_op hdr = OP_REQUEST then guest_connect connects key hdr mx
        else if hdr_op hdr = OP_RST then mx\<lparr>mx_conns := Mapping.delete key (mx_conns mx)\<rparr>
        else case Mapping.lookup (mx_conns mx) key of
          None \<Rightarrow> reply_rst hdr mx
        | Some c \<Rightarrow>
            (case conn_packet ws shut_ok hdr payload c of
               (failed, c) \<Rightarrow>
                 let mx = mx\<lparr>mx_conns := Mapping.update key c (mx_conns mx)\<rparr>
                 in if failed then mux_close key mx else finish_if_shut key mx))"

section \<open>The host side\<close>

text \<open>\<open>alloc_key\<close>: the next free local port, which may be searched for forever when all are taken.\<close>

definition port_after :: "u32 \<Rightarrow> u32" where
  "port_after p = (case checked_add p 1 of Some q \<Rightarrow> q | None \<Rightarrow> EPHEMERAL_BASE)"

partial_function (option) alloc_key :: "(conn_key, conn) mapping \<Rightarrow> u32 \<Rightarrow> u32 \<Rightarrow> (conn_key \<times> u32) option" where
  "alloc_key conns guest_port next_port =
     (if Mapping.lookup conns (next_port, guest_port) = None then Some ((next_port, guest_port), port_after next_port)
      else alloc_key conns guest_port (port_after next_port))"

definition host_request :: "nat \<Rightarrow> u32 \<Rightarrow> muxer \<Rightarrow> muxer option" where
  "host_request now guest_port mx =
     (case alloc_key (mx_conns mx) guest_port (mx_next_port mx) of
        None \<Rightarrow> None
      | Some (key, next_port) \<Rightarrow>
          (case conn_header (mx_guest_cid mx) key (conn_new stream_new (Connecting now)) OP_REQUEST 0 0 of
             (request, c) \<Rightarrow>
               Some (mx\<lparr>mx_next_port := next_port, mx_conns := Mapping.update key c (mx_conns mx),
                        mx_control := mx_control mx @ [request]\<rparr>)))"

fun host_requests :: "nat \<Rightarrow> u32 list \<Rightarrow> muxer \<Rightarrow> muxer option" where
  "host_requests now [] mx = Some mx"
| "host_requests now (p # ps) mx = (case host_request now p mx of None \<Rightarrow> None | Some mx \<Rightarrow> host_requests now ps mx)"

record socket_results =
  sr_writes :: "write_result list"
  sr_shut_ok :: bool
  sr_reads :: "read_result list"

text \<open>Polling one connection: whether it is to be aborted, and the connection afterwards.\<close>

definition poll_conn :: "nat \<Rightarrow> socket_results \<Rightarrow> conn \<Rightarrow> bool \<times> conn" where
  "poll_conn now sr c =
     (let moves = (case conn_flush (sr_writes sr) (sr_shut_ok sr) c of
                     (None, c) \<Rightarrow> (True, c)
                   | (Some _, c) \<Rightarrow> (case conn_fill (sr_reads sr) c of (r, c) \<Rightarrow> (r = None, c)))
      in case cn_state c of
           Connecting since \<Rightarrow> if HANDSHAKE_TIMEOUT < now - since then (True, c) else moves
         | Closing since \<Rightarrow> if HANDSHAKE_TIMEOUT < now - since then (True, c) else moves
         | Established \<Rightarrow> moves)"

definition poll_key :: "nat \<Rightarrow> (conn_key \<Rightarrow> socket_results) \<Rightarrow> conn_key \<Rightarrow> muxer \<Rightarrow> muxer" where
  "poll_key now sr key mx =
     (case Mapping.lookup (mx_conns mx) key of
        None \<Rightarrow> mx
      | Some c \<Rightarrow>
          (case poll_conn now (sr key) c of
             (failed, c) \<Rightarrow>
               let mx = mx\<lparr>mx_conns := Mapping.update key c (mx_conns mx)\<rparr>
               in if failed then mux_close key mx else finish_if_shut key mx))"

definition poll_host :: "nat \<Rightarrow> u32 list \<Rightarrow> (conn_key \<Rightarrow> socket_results) \<Rightarrow> muxer \<Rightarrow> muxer option" where
  "poll_host now accepted sr mx =
     map_option (\<lambda>mx. fold (poll_key now sr) (Mapping.ordered_keys (mx_conns mx)) mx) (host_requests now accepted mx)"

section \<open>Packets for the guest\<close>

definition has_rx :: "muxer \<Rightarrow> bool" where
  "has_rx mx \<longleftrightarrow> mx_control mx \<noteq> [] \<or>
     list_ex (\<lambda>k. case Mapping.lookup (mx_conns mx) k of None \<Rightarrow> False | Some c \<Rightarrow> wants_rx c) (Mapping.ordered_keys (mx_conns mx))"

definition rx_order :: "conn_key option \<Rightarrow> conn_key list \<Rightarrow> conn_key list" where
  "rx_order cursor keys =
     (case cursor of None \<Rightarrow> keys | Some cur \<Rightarrow> rotate (partition_point (\<lambda>k. k \<le> cur) keys) keys)"

definition conn_rx :: "nat \<Rightarrow> nat \<Rightarrow> u64 \<Rightarrow> conn_key \<Rightarrow> conn \<Rightarrow> (vsock_header \<times> u8 list) option \<times> conn" where
  "conn_rx max_payload now cid key c =
     (case (if wants_rx c then next_packet max_payload c else (None, c)) of
        (None, c) \<Rightarrow> (None, c)
      | (Some (op, flags, data), c) \<Rightarrow>
          let c = (if op = OP_SHUTDOWN then c\<lparr>cn_state := Closing now\<rparr> else c) in
          (case conn_header cid key c op flags (of_nat (length data)) of (hdr, c) \<Rightarrow> (Some (hdr, data), c)))"

fun rx_from :: "nat \<Rightarrow> nat \<Rightarrow> conn_key list \<Rightarrow> muxer \<Rightarrow> (vsock_header \<times> u8 list) option \<times> muxer" where
  "rx_from max_payload now [] mx = (None, mx)"
| "rx_from max_payload now (key # keys) mx =
     (case Mapping.lookup (mx_conns mx) key of
        None \<Rightarrow> rx_from max_payload now keys mx
      | Some c \<Rightarrow>
          (case conn_rx max_payload now (mx_guest_cid mx) key c of
             (out, c) \<Rightarrow>
               let mx = mx\<lparr>mx_conns := Mapping.update key c (mx_conns mx)\<rparr> in
               case out of
                 None \<Rightarrow> rx_from max_payload now keys mx
               | Some p \<Rightarrow> (Some p, mx\<lparr>mx_cursor := Some key\<rparr>)))"

definition next_rx :: "nat \<Rightarrow> nat \<Rightarrow> muxer \<Rightarrow> (vsock_header \<times> u8 list) option \<times> muxer" where
  "next_rx max_payload now mx =
     (case mx_control mx of
        hdr # rest \<Rightarrow> (Some (hdr, []), mx\<lparr>mx_control := rest\<rparr>)
      | [] \<Rightarrow> rx_from max_payload now (rx_order (mx_cursor mx) (Mapping.ordered_keys (mx_conns mx))) mx)"

section \<open>Connections stay sound\<close>

text \<open>A connection some history leads to.\<close>

definition conn_good :: "conn \<Rightarrow> bool" where
  "conn_good c \<longleftrightarrow> (\<exists>h. conn_inv h \<and> ch_conn h = c)"

lemma conn_good_step: "conn_inv h \<Longrightarrow> conn_good (ch_conn (conn_step h op))"
  unfolding conn_good_def using conn_step_inv by blast

lemma conn_good_ops:
  assumes "conn_good c"
  shows "conn_good (update_peer a f c)" "conn_good (snd (accept_payload d c))" "conn_good (snd (conn_flush ws ok c))"
    "conn_good (snd (conn_fill rs c))" "conn_good (request_credit_update c)" "conn_good (c\<lparr>cn_state := st\<rparr>)"
    "conn_good (c\<lparr>peer_shutdown := peer_shutdown c OR fl AND SHUTDOWN_BOTH\<rparr>)" "conn_good (snd (next_packet m c))"
    "conn_good (snd (stamp c))"
proof -
  obtain h where h: "conn_inv h" "ch_conn h = c" using assms by (auto simp: conn_good_def)
  note step = conn_good_step [OF h(1)]
  show "conn_good (update_peer a f c)" using step [of "UpdatePeer a f"] h(2) by simp
  show "conn_good (snd (accept_payload d c))" using step [of "AcceptPayload d"] h(2) by (simp split: prod.splits)
  show "conn_good (snd (conn_flush ws ok c))" using step [of "Flush ws ok"] h(2) by simp
  show "conn_good (snd (conn_fill rs c))" using step [of "Fill rs"] h(2) by (simp split: prod.splits)
  show "conn_good (request_credit_update c)" using step [of RequestCreditUpdate] h(2) by simp
  show "conn_good (c\<lparr>cn_state := st\<rparr>)" using step [of "SetState st"] h(2) by simp
  show "conn_good (c\<lparr>peer_shutdown := peer_shutdown c OR fl AND SHUTDOWN_BOTH\<rparr>)" using step [of "PeerShutdown fl"] h(2) by simp
  show "conn_good (snd (next_packet m c))" using step [of "NextPacket m"] h(2) by (simp split: prod.splits)
  show "conn_good (snd (stamp c))" using step [of Stamp] h(2) by simp
qed

lemma conn_good_new: "conn_good (conn_new stream_new st)"
  using conn_start_inv [of st] by (auto simp: conn_good_def conn_start_def intro!: exI [of _ "conn_start st"])

lemma conn_good_header: "conn_good c \<Longrightarrow> conn_good (snd (conn_header cid key c op fl len))"
  using conn_good_ops(9) [of c] by (auto simp: conn_header_def split: prod.split)

lemma conn_good_packet: "conn_good c \<Longrightarrow> conn_good (snd (conn_packet ws ok hdr payload c))"
proof -
  define u where "u = update_peer (buf_alloc hdr) (hdr_fwd_cnt hdr) c"
  assume "conn_good c"
  then have u: "conn_good u" unfolding u_def by (rule conn_good_ops(1))
  obtain a c1 where a: "accept_payload payload u = (a, c1)" by fastforce
  then have c1: "conn_good c1" using conn_good_ops(2) [OF u, of payload] by simp
  obtain r c2 where r: "conn_flush ws ok c1 = (r, c2)" by fastforce
  obtain q c3 where q: "conn_flush ws ok (u\<lparr>peer_shutdown := peer_shutdown u OR hdr_flags hdr AND SHUTDOWN_BOTH\<rparr>) = (q, c3)"
    by fastforce
  have "conn_good c2" using conn_good_ops(3) [OF c1, of ws ok] r by simp
  moreover have "conn_good c3" using conn_good_ops(3) [OF conn_good_ops(7) [OF u], of ws ok "hdr_flags hdr"] q by simp
  ultimately show ?thesis
    using u c1 conn_good_ops(5,6) [OF u]
    by (cases a; cases "cn_state u") (simp_all add: conn_packet_def Let_def a r q flip: u_def)
qed

lemma conn_good_poll: "conn_good c \<Longrightarrow> conn_good (snd (poll_conn now sr c))"
proof -
  assume c: "conn_good c"
  obtain r c1 where r: "conn_flush (sr_writes sr) (sr_shut_ok sr) c = (r, c1)" by fastforce
  then have c1: "conn_good c1" using conn_good_ops(3) [OF c, of "sr_writes sr" "sr_shut_ok sr"] by simp
  obtain q c2 where q: "conn_fill (sr_reads sr) c1 = (q, c2)" by fastforce
  then have "conn_good c2" using conn_good_ops(4) [OF c1, of "sr_reads sr"] by simp
  then show ?thesis using c c1 by (cases r; cases "cn_state c") (simp_all add: poll_conn_def r q)
qed

lemma conn_good_rx: "conn_good c \<Longrightarrow> conn_good (snd (conn_rx m now cid key c))"
proof -
  assume c: "conn_good c"
  obtain p c1 where p: "(if wants_rx c then next_packet m c else (None, c)) = (p, c1)" by fastforce
  then have c1: "conn_good c1" using conn_good_ops(8) [OF c, of m] c by (auto split: if_splits)
  show ?thesis
  proof (cases p)
    case None
    then show ?thesis using p c1 by (simp add: conn_rx_def)
  next
    case (Some a)
    obtain op flags data where a: "a = (op, flags, data)" by (cases a)
    let ?c = "if op = OP_SHUTDOWN then c1\<lparr>cn_state := Closing now\<rparr> else c1"
    have "conn_good ?c" using c1 conn_good_ops(6) [OF c1] by simp
    then show ?thesis
      using p Some a conn_good_header [of ?c cid key op flags "of_nat (length data)"]
      by (simp add: conn_rx_def Let_def split_beta)
  qed
qed

text \<open>
  The bytes a failed \<open>fill\<close> drops are the last of their connection: a poll in which a socket call fails, or the handshake
  or the close takes too long, removes the connection and tells the guest with a RST.
\<close>

lemma poll_key_failed:
  assumes "Mapping.lookup (mx_conns mx) key = Some c" "fst (poll_conn now (sr key) c)"
  shows "Mapping.lookup (mx_conns (poll_key now sr key mx)) key = None"
    and "mx_control (poll_key now sr key mx) = mx_control mx @ [rst_header (mx_guest_cid mx) key TYPE_STREAM]"
proof -
  obtain c' where "poll_conn now (sr key) c = (True, c')" using assms(2) by (cases "poll_conn now (sr key) c") simp
  then show "Mapping.lookup (mx_conns (poll_key now sr key mx)) key = None"
    "mx_control (poll_key now sr key mx) = mx_control mx @ [rst_header (mx_guest_cid mx) key TYPE_STREAM]"
    using assms(1) by (simp_all add: poll_key_def mux_close_def)
qed

lemma fill_failed_polled:
  "cn_state c = Established \<Longrightarrow> conn_flush (sr_writes sr) (sr_shut_ok sr) c = (Some n, c') \<Longrightarrow>
     fst (conn_fill (sr_reads sr) c') = None \<Longrightarrow> fst (poll_conn now sr c)"
  by (auto simp: poll_conn_def split: prod.split)

definition muxer_inv :: "muxer \<Rightarrow> bool" where
  "muxer_inv mx \<longleftrightarrow> finite (Mapping.keys (mx_conns mx)) \<and> EPHEMERAL_BASE \<le> mx_next_port mx
     \<and> (\<forall>k c. Mapping.lookup (mx_conns mx) k = Some c \<longrightarrow> conn_good c)"

lemma muxer_invD: "muxer_inv mx \<Longrightarrow> Mapping.lookup (mx_conns mx) k = Some c \<Longrightarrow> conn_good c"
  unfolding muxer_inv_def by blast

lemma muxer_inv_update: "muxer_inv mx \<Longrightarrow> conn_good c \<Longrightarrow> muxer_inv (mx\<lparr>mx_conns := Mapping.update key c (mx_conns mx)\<rparr>)"
  by (auto simp: muxer_inv_def lookup_update' split: if_splits)

lemma lookup_delete': "Mapping.lookup (Mapping.delete k m) x = (if x = k then None else Mapping.lookup m x)"
  by (simp add: lookup_delete_neq)

lemma muxer_inv_delete: "muxer_inv mx \<Longrightarrow> muxer_inv (mx\<lparr>mx_conns := Mapping.delete key (mx_conns mx)\<rparr>)"
  by (auto simp: muxer_inv_def lookup_delete' split: if_splits)

lemma muxer_inv_fields:
  "muxer_inv (mx\<lparr>mx_control := q\<rparr>) = muxer_inv mx" "muxer_inv (mx\<lparr>mx_cursor := k\<rparr>) = muxer_inv mx"
  by (simp_all add: muxer_inv_def)

lemma mux_close_inv: "muxer_inv mx \<Longrightarrow> muxer_inv (mux_close key mx)"
  using muxer_inv_delete [of mx key] by (simp add: mux_close_def muxer_inv_def)

lemma finish_if_shut_inv: "muxer_inv mx \<Longrightarrow> muxer_inv (finish_if_shut key mx)"
  by (simp add: finish_if_shut_def mux_close_inv split: option.split)

lemma reply_rst_inv: "muxer_inv mx \<Longrightarrow> muxer_inv (reply_rst hdr mx)"
  by (simp add: reply_rst_def muxer_inv_fields)

lemma guest_connect_inv: "muxer_inv mx \<Longrightarrow> muxer_inv (guest_connect connects key hdr mx)"
proof -
  assume inv: "muxer_inv mx"
  let ?c = "update_peer (buf_alloc hdr) (hdr_fwd_cnt hdr) (conn_new stream_new Established)"
  obtain h c where h: "conn_header (mx_guest_cid mx) key ?c OP_RESPONSE 0 0 = (h, c)" by fastforce
  then have "conn_good c" using conn_good_header [OF conn_good_ops(1) [OF conn_good_new]] by (metis snd_conv)
  then show ?thesis
    using inv muxer_inv_update [OF inv, of c key]
    by (simp add: guest_connect_def mux_close_inv reply_rst_inv h) (simp add: muxer_inv_def)
qed

lemma handle_guest_inv: "muxer_inv mx \<Longrightarrow> muxer_inv (handle_guest connects ws ok hdr payload mx)"
proof -
  assume inv: "muxer_inv mx"
  let ?key = "(dst_port hdr, src_port hdr)"
  show ?thesis
  proof (cases "Mapping.lookup (mx_conns mx) ?key")
    case None
    then show ?thesis using inv by (simp add: handle_guest_def Let_def reply_rst_inv guest_connect_inv muxer_inv_delete)
  next
    case (Some c)
    obtain f c1 where f: "conn_packet ws ok hdr payload c = (f, c1)" by fastforce
    have "conn_good c" using muxer_invD [OF inv Some] .
    then have "conn_good c1" using conn_good_packet f by (metis snd_conv)
    then show ?thesis
      using inv Some f
      by (simp add: handle_guest_def Let_def reply_rst_inv guest_connect_inv muxer_inv_delete mux_close_inv finish_if_shut_inv muxer_inv_update)
  qed
qed

lemma poll_key_inv: "muxer_inv mx \<Longrightarrow> muxer_inv (poll_key now sr key mx)"
proof -
  assume inv: "muxer_inv mx"
  show ?thesis
  proof (cases "Mapping.lookup (mx_conns mx) key")
    case None
    then show ?thesis using inv by (simp add: poll_key_def)
  next
    case (Some c)
    obtain f c1 where f: "poll_conn now (sr key) c = (f, c1)" by fastforce
    have "conn_good c" using muxer_invD [OF inv Some] .
    then have "conn_good c1" using conn_good_poll f by (metis snd_conv)
    then show ?thesis
      using inv Some f by (simp add: poll_key_def Let_def mux_close_inv finish_if_shut_inv muxer_inv_update)
  qed
qed

lemma rx_from_inv: "muxer_inv mx \<Longrightarrow> muxer_inv (snd (rx_from m now keys mx))"
proof (induction keys arbitrary: mx)
  case (Cons key keys)
  show ?case
  proof (cases "Mapping.lookup (mx_conns mx) key")
    case None
    then show ?thesis using Cons by simp
  next
    case (Some c)
    obtain out c1 where r: "conn_rx m now (mx_guest_cid mx) key c = (out, c1)" by fastforce
    have "conn_good c" using muxer_invD [OF Cons.prems Some] .
    then have "conn_good c1" using conn_good_rx r by (metis snd_conv)
    then have "muxer_inv (mx\<lparr>mx_conns := Mapping.update key c1 (mx_conns mx)\<rparr>)" by (rule muxer_inv_update [OF Cons.prems])
    then show ?thesis using Some r Cons.IH by (cases out) (simp_all add: muxer_inv_fields(2))
  qed
qed simp

lemma next_rx_inv: "muxer_inv mx \<Longrightarrow> muxer_inv (snd (next_rx m now mx))"
  by (simp add: next_rx_def rx_from_inv muxer_inv_fields split: list.split)

section \<open>Local ports\<close>

lemma port_after_nat:
  assumes "EPHEMERAL_BASE \<le> p"
  shows "unat (port_after p) = (if unat p = 2 ^ 32 - 1 then 2 ^ 31 else unat p + 1)"
proof (cases "unat p = 2 ^ 32 - 1")
  case True
  then have "checked_add p 1 = None" by (simp add: checked_add_None)
  then show ?thesis using True by (simp add: port_after_def EPHEMERAL_BASE_def)
next
  case False
  have "unat p < 2 ^ 32" using unsigned_less [of p, where 'a = nat] by simp
  with False have "unat p + unat (1 :: u32) < 2 ^ 32" by simp
  then show ?thesis
    using False by (simp add: port_after_def checked_add_def unat_add_no_overflow)
qed

lemma port_seq_nat:
  assumes "EPHEMERAL_BASE \<le> p"
  shows "unat ((port_after ^^ k) p) = 2 ^ 31 + (unat p - 2 ^ 31 + k) mod 2 ^ 31"
proof (induction k)
  case 0
  have "2 ^ 31 \<le> unat p" "unat p < 2 ^ 32"
    using assms unsigned_less [of p, where 'a = nat] by (simp_all add: EPHEMERAL_BASE_def word_le_nat_alt)
  then show ?case by simp
next
  case (Suc k)
  let ?q = "(port_after ^^ k) p" and ?x = "(unat p - 2 ^ 31 + k) mod 2 ^ 31"
  have "EPHEMERAL_BASE \<le> ?q" using Suc by (simp add: EPHEMERAL_BASE_def word_le_nat_alt)
  then have "unat (port_after ?q) = (if 2 ^ 31 + ?x = 2 ^ 32 - 1 then 2 ^ 31 else 2 ^ 31 + ?x + 1)"
    using Suc by (simp add: port_after_nat)
  moreover have "(unat p - 2 ^ 31 + Suc k) mod 2 ^ 31 = (if Suc ?x = 2 ^ 31 then 0 else Suc ?x)"
    by (simp add: mod_Suc)
  ultimately show ?case by simp
qed

lemma alloc_key_finds:
  "(\<And>j. j < k \<Longrightarrow> Mapping.lookup conns ((port_after ^^ j) p, g) \<noteq> None) \<Longrightarrow>
   Mapping.lookup conns ((port_after ^^ k) p, g) = None \<Longrightarrow>
   alloc_key conns g p = Some (((port_after ^^ k) p, g), port_after ((port_after ^^ k) p))"
proof (induction k arbitrary: p)
  case 0
  then show ?case by (simp add: alloc_key.simps)
next
  case (Suc k)
  obtain c where "Mapping.lookup conns (p, g) = Some c" using Suc.prems(1) [of 0] by auto
  moreover have "alloc_key conns g (port_after p) = Some (((port_after ^^ k) (port_after p), g), port_after ((port_after ^^ k) (port_after p)))"
  proof (rule Suc.IH)
    show "Mapping.lookup conns ((port_after ^^ j) (port_after p), g) \<noteq> None" if "j < k" for j
      using Suc.prems(1) [of "Suc j"] that by (simp add: funpow_swap1)
  qed (use Suc.prems(2) in \<open>simp add: funpow_swap1\<close>)
  ultimately show ?case by (subst alloc_key.simps) (simp add: funpow_swap1)
qed

lemma alloc_key_returns:
  assumes "finite (Mapping.keys conns)" "card (Mapping.keys conns) < 2 ^ 31" "EPHEMERAL_BASE \<le> p"
  obtains port where "alloc_key conns g p = Some ((port, g), port_after port)" "Mapping.lookup conns (port, g) = None"
    "EPHEMERAL_BASE \<le> port" "EPHEMERAL_BASE \<le> port_after port"
proof -
  let ?port = "\<lambda>k. (port_after ^^ k) p"
  have "\<exists>k < 2 ^ 31. Mapping.lookup conns (?port k, g) = None"
  proof (rule ccontr)
    assume "\<not> ?thesis"
    then have taken: "(\<lambda>k. (?port k, g)) ` {..<2 ^ 31} \<subseteq> Mapping.keys conns" by (auto simp: keys_dom_lookup)
    have "inj_on (\<lambda>k. (?port k, g)) {..<2 ^ 31}"
    proof (rule inj_onI)
      fix i j :: nat assume ij: "i \<in> {..<2 ^ 31}" "j \<in> {..<2 ^ 31}" "(?port i, g) = (?port j, g)"
      then have "unat (?port i) = unat (?port j)" by simp
      then have "(unat p - 2 ^ 31 + i) mod 2 ^ 31 = (unat p - 2 ^ 31 + j) mod 2 ^ 31"
        using port_seq_nat [OF assms(3)] by simp
      then obtain q1 q2 :: nat where "unat p - 2 ^ 31 + i + 2 ^ 31 * q1 = unat p - 2 ^ 31 + j + 2 ^ 31 * q2"
        unfolding nat_mod_eq_iff by blast
      then have "i + 2 ^ 31 * q1 = j + 2 ^ 31 * q2" by linarith
      then have "i mod 2 ^ 31 = j mod 2 ^ 31" by (metis mod_mult_self2)
      then show "i = j" using ij by simp
    qed
    then have "2 ^ 31 \<le> card (Mapping.keys conns)"
      using card_inj_on_le [OF _ taken assms(1)] by simp
    then show False using assms(2) by simp
  qed
  then obtain k where k: "Mapping.lookup conns (?port k, g) = None" "\<And>j. j < k \<Longrightarrow> Mapping.lookup conns (?port j, g) \<noteq> None"
    using exists_least_iff [of "\<lambda>k. Mapping.lookup conns (?port k, g) = None"] by blast
  have b: "EPHEMERAL_BASE \<le> ?port j" for j using port_seq_nat [OF assms(3), of j] by (simp add: EPHEMERAL_BASE_def word_le_nat_alt)
  show thesis using that [OF alloc_key_finds [OF k(2,1)] k(1) b] b [of "Suc k"] by simp
qed

lemma host_request_ok:
  assumes "muxer_inv mx" "card (Mapping.keys (mx_conns mx)) < 2 ^ 31"
  shows "\<exists>mx'. host_request now g mx = Some mx' \<and> muxer_inv mx' \<and> card (Mapping.keys (mx_conns mx')) = Suc (card (Mapping.keys (mx_conns mx)))"
proof -
  have fin: "finite (Mapping.keys (mx_conns mx))" "EPHEMERAL_BASE \<le> mx_next_port mx" using assms(1) by (simp_all add: muxer_inv_def)
  obtain port where p: "alloc_key (mx_conns mx) g (mx_next_port mx) = Some ((port, g), port_after port)"
    "Mapping.lookup (mx_conns mx) (port, g) = None" "EPHEMERAL_BASE \<le> port_after port"
    using alloc_key_returns [OF fin(1) assms(2) fin(2)] by metis
  obtain h c where h: "conn_header (mx_guest_cid mx) (port, g) (conn_new stream_new (Connecting now)) OP_REQUEST 0 0 = (h, c)" by fastforce
  then have "conn_good c" using conn_good_header [OF conn_good_new] by (metis snd_conv)
  then have "muxer_inv (mx\<lparr>mx_conns := Mapping.update (port, g) c (mx_conns mx)\<rparr>)" by (rule muxer_inv_update [OF assms(1)])
  then have "muxer_inv (mx\<lparr>mx_next_port := port_after port, mx_conns := Mapping.update (port, g) c (mx_conns mx),
      mx_control := mx_control mx @ [h]\<rparr>)"
    using p(3) by (simp add: muxer_inv_def)
  moreover have "(port, g) \<notin> Mapping.keys (mx_conns mx)" using p(2) by (simp add: keys_dom_lookup domIff)
  ultimately show ?thesis using fin(1) by (simp add: host_request_def p(1) h)
qed

lemma host_requests_ok:
  assumes "muxer_inv mx" "card (Mapping.keys (mx_conns mx)) + length ps < 2 ^ 31"
  shows "\<exists>mx'. host_requests now ps mx = Some mx' \<and> muxer_inv mx'"
  using assms
proof (induction ps arbitrary: mx)
  case (Cons g ps)
  have "card (Mapping.keys (mx_conns mx)) < 2 ^ 31" using Cons.prems(2) by simp
  from host_request_ok [OF Cons.prems(1) this] obtain mx1 where mx1: "host_request now g mx = Some mx1" "muxer_inv mx1"
    "card (Mapping.keys (mx_conns mx1)) = Suc (card (Mapping.keys (mx_conns mx)))"
    by blast
  then show ?case using Cons.IH [OF mx1(2)] Cons.prems(2) by simp
qed simp

lemma fold_poll_inv: "muxer_inv mx \<Longrightarrow> muxer_inv (fold (poll_key now sr) ks mx)"
  by (induction ks arbitrary: mx) (simp_all add: poll_key_inv)

text \<open>Polling returns: a local port is found as long as fewer than \<open>2 ^ 31\<close> connections are open.\<close>

lemma poll_host_returns:
  assumes "muxer_inv mx" "card (Mapping.keys (mx_conns mx)) + length accepted < 2 ^ 31"
  shows "\<exists>mx'. poll_host now accepted sr mx = Some mx' \<and> muxer_inv mx'"
proof -
  obtain mx1 where mx1: "host_requests now accepted mx = Some mx1" "muxer_inv mx1" using host_requests_ok [OF assms] by blast
  then show ?thesis using fold_poll_inv by (simp add: poll_host_def)
qed

section \<open>One packet, one connection\<close>

definition same_but :: "conn_key \<Rightarrow> muxer \<Rightarrow> muxer \<Rightarrow> bool" where
  "same_but key mx mx' \<longleftrightarrow>
     (\<forall>k. k \<noteq> key \<longrightarrow> Mapping.lookup (mx_conns mx') k = Mapping.lookup (mx_conns mx) k)
     \<and> mx_cursor mx' = mx_cursor mx \<and> mx_next_port mx' = mx_next_port mx \<and> mx_guest_cid mx' = mx_guest_cid mx"

definition answer_to :: "vsock_header \<Rightarrow> muxer \<Rightarrow> vsock_header \<Rightarrow> bool" where
  "answer_to hdr mx a \<longleftrightarrow>
     src_cid a = HOST_CID \<and> dst_cid a = mx_guest_cid mx \<and> src_port a = dst_port hdr \<and> dst_port a = src_port hdr
     \<and> (hdr_op a = OP_RST \<or> hdr_op a = OP_RESPONSE)"

text \<open>The effect of a packet on the rest of the table: other connections untouched, at most one answer, after the others.\<close>

definition packet_effect :: "vsock_header \<Rightarrow> muxer \<Rightarrow> muxer \<Rightarrow> bool" where
  "packet_effect hdr mx mx' \<longleftrightarrow>
     same_but (dst_port hdr, src_port hdr) mx mx'
     \<and> (mx_control mx' = mx_control mx \<or> (\<exists>a. mx_control mx' = mx_control mx @ [a] \<and> answer_to hdr mx a))"

lemma packet_effect_close:
  assumes "same_but (dst_port hdr, src_port hdr) mx mx'" "mx_control mx' = mx_control mx"
  shows "packet_effect hdr mx (mux_close (dst_port hdr, src_port hdr) mx')" "packet_effect hdr mx (finish_if_shut (dst_port hdr, src_port hdr) mx')"
    "packet_effect hdr mx mx'"
proof -
  show close: "packet_effect hdr mx (mux_close (dst_port hdr, src_port hdr) mx')"
    using assms by (auto simp: packet_effect_def same_but_def mux_close_def lookup_delete' answer_to_def rst_header_def)
  show same: "packet_effect hdr mx mx'" using assms by (simp add: packet_effect_def)
  show "packet_effect hdr mx (finish_if_shut (dst_port hdr, src_port hdr) mx')"
    using close same by (simp add: finish_if_shut_def split: option.split)
qed

lemma packet_effect_rst: "packet_effect hdr mx (reply_rst hdr mx)"
  by (simp add: packet_effect_def same_but_def reply_rst_def answer_to_def rst_header_def)

lemma same_but_update: "same_but key mx (mx\<lparr>mx_conns := Mapping.update key c (mx_conns mx)\<rparr>)"
  "same_but key mx (mx\<lparr>mx_conns := Mapping.delete key (mx_conns mx)\<rparr>)" "same_but key mx mx"
  by (simp_all add: same_but_def lookup_update' lookup_delete')

lemma handle_guest_effect: "packet_effect hdr mx (handle_guest connects ws ok hdr payload mx)"
proof -
  let ?key = "(dst_port hdr, src_port hdr)"
  have none: "packet_effect hdr mx mx" by (rule packet_effect_close(3) [OF same_but_update(3)]) simp
  have "packet_effect hdr mx (guest_connect connects ?key hdr mx)"
  proof -
    let ?c = "update_peer (buf_alloc hdr) (hdr_fwd_cnt hdr) (conn_new stream_new Established)"
    obtain h c where h: "conn_header (mx_guest_cid mx) ?key ?c OP_RESPONSE 0 0 = (h, c)" by fastforce
    then have "answer_to hdr mx h" by (auto simp: conn_header_def stamp_def answer_to_def)
    then have "packet_effect hdr mx (mx\<lparr>mx_conns := Mapping.update ?key c (mx_conns mx), mx_control := mx_control mx @ [h]\<rparr>)"
      by (simp add: packet_effect_def same_but_def lookup_update')
    then show ?thesis
      using packet_effect_close(1) [OF same_but_update(3) refl] packet_effect_rst by (simp add: guest_connect_def h)
  qed
  moreover have "packet_effect hdr mx (mx\<lparr>mx_conns := Mapping.delete ?key (mx_conns mx)\<rparr>)"
    by (rule packet_effect_close(3) [OF same_but_update(2)]) simp
  moreover have "packet_effect hdr mx (mux_close ?key (mx\<lparr>mx_conns := Mapping.update ?key c (mx_conns mx)\<rparr>))"
    "packet_effect hdr mx (finish_if_shut ?key (mx\<lparr>mx_conns := Mapping.update ?key c (mx_conns mx)\<rparr>))" for c
    by (rule packet_effect_close [OF same_but_update(1)]; simp)+
  ultimately show ?thesis
    using none packet_effect_rst
    by (simp add: handle_guest_def Let_def split: option.split prod.split)
qed

lemma handle_guest_drop:
  "hdr_op hdr \<noteq> OP_RST \<longrightarrow> Mapping.lookup (mx_conns mx) (dst_port hdr, src_port hdr) \<noteq> None \<longrightarrow>
   Mapping.lookup (mx_conns (handle_guest connects ws ok hdr payload mx)) (dst_port hdr, src_port hdr) = None \<longrightarrow>
   mx_control (handle_guest connects ws ok hdr payload mx)
     = mx_control mx @ [rst_header (mx_guest_cid mx) (dst_port hdr, src_port hdr) TYPE_STREAM]"
proof -
  have "Mapping.lookup (mx_conns (finish_if_shut key (mx\<lparr>mx_conns := Mapping.update key c (mx_conns mx)\<rparr>))) key = None \<Longrightarrow>
    mx_control (finish_if_shut key (mx\<lparr>mx_conns := Mapping.update key c (mx_conns mx)\<rparr>))
      = mx_control mx @ [rst_header (mx_guest_cid mx) key TYPE_STREAM]" for key c
    by (simp add: finish_if_shut_def mux_close_def split: if_splits)
  then show ?thesis
    by (simp add: handle_guest_def guest_connect_def reply_rst_def mux_close_def Let_def split: prod.split option.split)
qed

lemma handle_guest_opens:
  "Mapping.lookup (mx_conns mx) (dst_port hdr, src_port hdr) = None \<longrightarrow>
   Mapping.lookup (mx_conns (handle_guest connects ws ok hdr payload mx)) (dst_port hdr, src_port hdr) \<noteq> None \<longrightarrow>
   hdr_op hdr = OP_REQUEST \<and> connects (dst_port hdr)
   \<and> (\<exists>a. mx_control (handle_guest connects ws ok hdr payload mx) = mx_control mx @ [a] \<and> answer_to hdr mx a \<and> hdr_op a = OP_RESPONSE)"
  by (simp add: handle_guest_def guest_connect_def reply_rst_def mux_close_def conn_header_def stamp_def answer_to_def Let_def lookup_delete')

section \<open>Connections in turn\<close>

definition wanting :: "muxer \<Rightarrow> conn_key \<Rightarrow> bool" where
  "wanting mx k \<longleftrightarrow> (case Mapping.lookup (mx_conns mx) k of None \<Rightarrow> False | Some c \<Rightarrow> wants_rx c)"

lemma conn_rx_idle: "\<not> wants_rx c \<Longrightarrow> conn_rx m now cid key c = (None, c)"
  by (simp add: conn_rx_def)

lemma conn_rx_wanting:
  assumes "wants_rx c" "0 < m"
  shows "\<exists>hdr data c'. conn_rx m now cid key c = (Some (hdr, data), c') \<and> src_port hdr = fst key \<and> dst_port hdr = snd key"
proof -
  obtain op flags data c1 where "next_packet m c = (Some (op, flags, data), c1)"
    using assms by (cases rule: next_packet_cases [of c m]) (auto simp: wants_rx_def word_gt_0 min_def unsigned_eq_0_iff split: if_splits)
  then show ?thesis using assms(1) by (simp add: conn_rx_def conn_header_def Let_def split_beta)
qed

lemma update_same: "Mapping.lookup m k = Some v \<Longrightarrow> Mapping.update k v m = m"
  by (rule mapping_eqI) (auto simp: lookup_update')

lemma rx_from_idle: "list_all (\<lambda>k. \<not> wanting mx k) ks \<Longrightarrow> rx_from m now (ks @ ks') mx = rx_from m now ks' mx"
proof (induction ks)
  case (Cons k ks)
  then show ?case
    by (cases "Mapping.lookup (mx_conns mx) k") (simp_all add: wanting_def conn_rx_idle update_same)
qed simp

lemma rx_from_serves:
  assumes "Mapping.lookup (mx_conns mx) k = Some c" "wants_rx c" "0 < m"
  shows "rx_from m now (k # ks) mx =
    (fst (conn_rx m now (mx_guest_cid mx) k c),
     mx\<lparr>mx_conns := Mapping.update k (snd (conn_rx m now (mx_guest_cid mx) k c)) (mx_conns mx), mx_cursor := Some k\<rparr>)"
  using conn_rx_wanting [OF assms(2,3), of now "mx_guest_cid mx" k] assms(1) by auto

definition mx_order :: "muxer \<Rightarrow> conn_key list" where
  "mx_order mx = rx_order (mx_cursor mx) (Mapping.ordered_keys (mx_conns mx))"

lemma partition_point_cut:
  assumes "sorted (xs @ j # ys)" "distinct (xs @ j # ys)"
  shows "partition_point (\<lambda>k. k \<le> j) (xs @ j # ys) = Suc (length xs)"
proof -
  have "\<forall>x \<in> set xs. x \<le> j" using assms(1) by (auto simp: sorted_append)
  moreover have "takeWhile (\<lambda>k. k \<le> j) ys = []"
    using assms by (cases ys) (auto simp: sorted_append)
  ultimately show ?thesis by (simp add: partition_point_def)
qed

lemma rx_order_cut: "sorted (xs @ j # ys) \<Longrightarrow> distinct (xs @ j # ys) \<Longrightarrow> rx_order (Some j) (xs @ j # ys) = ys @ xs @ [j]"
  by (simp add: rx_order_def partition_point_cut rotate_append [of "xs @ [j]", simplified])

lemma rx_order_split: "\<exists>p. rx_order cur ks = drop p ks @ take p ks"
proof (cases cur)
  case None
  then show ?thesis by (auto simp: rx_order_def intro: exI [of _ 0])
next
  case (Some c)
  then show ?thesis by (auto simp: rx_order_def rotate_drop_take)
qed

lemma set_drop_take: "set (drop p xs) \<union> set (take p xs) = set xs"
  by (metis append_take_drop_id set_append sup_commute)

lemma distinct_drop_take: "distinct (drop p xs @ take p xs) = distinct xs"
  by (metis append_take_drop_id distinct_append inf_commute)

lemma set_mx_order: "set (mx_order mx) = set (Mapping.ordered_keys (mx_conns mx))"
  using rx_order_split [of "mx_cursor mx" "Mapping.ordered_keys (mx_conns mx)"] by (auto simp: mx_order_def set_drop_take)

text \<open>Serving a connection moves it, and those passed over, to the end of the order.\<close>

lemma rx_order_served:
  assumes "sorted ks" "distinct ks" "rx_order cur ks = as @ j # bs"
  shows "rx_order (Some j) ks = bs @ as @ [j]"
proof -
  obtain p where p: "as @ j # bs = drop p ks @ take p ks" using rx_order_split assms(3) by metis
  then have "set (as @ j # bs) = set ks" using set_drop_take [of p ks] by (simp only: set_append)
  then have "j \<in> set ks" by auto
  then obtain xs ys where ks: "ks = xs @ j # ys" using split_list [of j ks] by blast
  have "distinct (as @ j # bs)" using assms(2) unfolding p distinct_drop_take .
  then have nj: "j \<notin> set as" "j \<notin> set bs" by auto
  have nk: "j \<notin> set xs" "j \<notin> set ys" using assms(2) ks by auto
  have "ys @ xs = bs @ as"
  proof (cases "p \<le> length xs")
    case True
    then have "as @ j # bs = drop p xs @ j # ys @ take p xs" using p ks by simp
    then have "as = drop p xs" "bs = ys @ take p xs"
      using nj nk append_Cons_eq_iff [of j as bs "drop p xs" "ys @ take p xs"] by (auto dest: in_set_dropD in_set_takeD)
    then show ?thesis by simp
  next
    case False
    then obtain r where r: "p = length xs + Suc r" by (metis less_imp_Suc_add not_le add_Suc_right)
    then have "as @ j # bs = (drop r ys @ xs) @ j # take r ys" using p ks by simp
    then have "as = drop r ys @ xs \<and> bs = take r ys"
      using nj nk append_Cons_eq_iff [of j as bs "drop r ys @ xs" "take r ys"] by (auto dest: in_set_dropD in_set_takeD)
    then show ?thesis by simp
  qed
  then show ?thesis using rx_order_cut [of xs j ys] assms(1,2) ks by simp
qed

fun rx_run :: "(nat \<times> nat) list \<Rightarrow> muxer \<Rightarrow> (vsock_header \<times> u8 list) option list" where
  "rx_run [] mx = []"
| "rx_run ((max_payload, now) # calls) mx = (case next_rx max_payload now mx of (out, mx) \<Rightarrow> out # rx_run calls mx)"

lemma next_rx_serves:
  assumes "mx_control mx = []" "mx_order mx = as @ k # bs" "list_all (\<lambda>j. \<not> wanting mx j) as"
    "Mapping.lookup (mx_conns mx) k = Some c" "wants_rx c" "0 < m"
  shows "next_rx m now mx =
    (fst (conn_rx m now (mx_guest_cid mx) k c),
     mx\<lparr>mx_conns := Mapping.update k (snd (conn_rx m now (mx_guest_cid mx) k c)) (mx_conns mx), mx_cursor := Some k\<rparr>)"
  using assms(1,2) rx_from_idle [OF assms(3), of m now "k # bs"] rx_from_serves [OF assms(4-6), of now bs]
  by (simp add: next_rx_def mx_order_def)

lemma ordered_keys_update:
  "finite (Mapping.keys m) \<Longrightarrow> Mapping.lookup m k = Some v \<Longrightarrow> Mapping.ordered_keys (Mapping.update k w m) = Mapping.ordered_keys m"
proof -
  assume "Mapping.lookup m k = Some v"
  then have "k \<in> Mapping.keys m" by (simp add: keys_dom_lookup domI)
  then show ?thesis by (simp add: ordered_keys_def insert_absorb)
qed

lemma mx_order_served:
  assumes "finite (Mapping.keys (mx_conns mx))" "mx_order mx = as @ j # bs" "Mapping.lookup (mx_conns mx) j = Some c"
  shows "mx_order (mx\<lparr>mx_conns := Mapping.update j c' (mx_conns mx), mx_cursor := Some j\<rparr>) = bs @ as @ [j]"
  using rx_order_served [of "Mapping.ordered_keys (mx_conns mx)" "mx_cursor mx" as j bs] assms
  by (simp add: mx_order_def ordered_keys_update)

lemma first_wanting:
  obtains (no) "list_all (\<lambda>j. \<not> wanting mx j) as"
  | (first) a1 j a2 c where "as = a1 @ j # a2" "list_all (\<lambda>j. \<not> wanting mx j) a1"
      "Mapping.lookup (mx_conns mx) j = Some c" "wants_rx c"
proof (cases "\<exists>j \<in> set as. wanting mx j")
  case True
  from split_list_first_prop [OF this] obtain a1 j a2 where
    a: "as = a1 @ j # a2" "wanting mx j" "list_all (\<lambda>j. \<not> wanting mx j) a1"
    unfolding list_all_iff by blast
  then obtain c where "Mapping.lookup (mx_conns mx) j = Some c" "wants_rx c"
    unfolding wanting_def by (metis (no_types, lifting) option.case_eq_if option.collapse)
  then show ?thesis by (rule first [OF a(1,3)])
qed (use no in \<open>auto simp: list_all_iff\<close>)

lemma rx_run_reaches:
  assumes "finite (Mapping.keys (mx_conns mx))" "mx_control mx = []" "mx_order mx = as @ k # bs" "distinct (mx_order mx)"
    "Mapping.lookup (mx_conns mx) k = Some c" "wants_rx c" "length as < length calls" "\<forall>call \<in> set calls. 0 < fst call"
  shows "\<exists>i \<le> length as. rx_run calls mx ! i = fst (conn_rx (fst (calls ! i)) (snd (calls ! i)) (mx_guest_cid mx) k c)"
  using assms
proof (induction "length as" arbitrary: mx as bs calls rule: less_induct)
  case less
  obtain m now calls' where calls: "calls = (m, now) # calls'" using less.prems(7) by (cases calls) auto
  have m: "0 < m" using less.prems(8) calls by simp
  show ?case
  proof (cases rule: first_wanting [of mx as])
    case no
    then show ?thesis
      using next_rx_serves [OF less.prems(2,3) no less.prems(5,6) m, of now] calls by (auto intro: exI [of _ 0])
  next
    case (first a1 j a2 d)
    let ?d = "snd (conn_rx m now (mx_guest_cid mx) j d)"
    let ?mx = "mx\<lparr>mx_conns := Mapping.update j ?d (mx_conns mx), mx_cursor := Some j\<rparr>"
    have order: "mx_order mx = a1 @ j # (a2 @ k # bs)" using less.prems(3) first(1) by simp
    have step: "rx_run calls mx = fst (conn_rx m now (mx_guest_cid mx) j d) # rx_run calls' ?mx"
      using next_rx_serves [OF less.prems(2) order first(2-4) m, of now] by (simp add: calls)
    have "j \<noteq> k" using less.prems(4) order by auto
    have order': "mx_order ?mx = a2 @ k # (bs @ a1 @ [j])"
      using mx_order_served [OF less.prems(1) order first(3)] by simp
    have "\<exists>i \<le> length a2. rx_run calls' ?mx ! i = fst (conn_rx (fst (calls' ! i)) (snd (calls' ! i)) (mx_guest_cid ?mx) k c)"
    proof (rule less.hyps [OF _ _ _ order'])
      show "distinct (mx_order ?mx)" using less.prems(4) order order' by auto
      show "Mapping.lookup (mx_conns ?mx) k = Some c" using less.prems(5) \<open>j \<noteq> k\<close> by (simp add: lookup_update')
    qed (use less.prems first(1) calls in auto)
    then obtain i where "i \<le> length a2"
      "rx_run calls' ?mx ! i = fst (conn_rx (fst (calls' ! i)) (snd (calls' ! i)) (mx_guest_cid mx) k c)" by auto
    then show ?thesis using first(1) step calls by (intro exI [of _ "Suc i"]) simp
  qed
qed

lemma rx_run_fair:
  assumes "finite (Mapping.keys (mx_conns mx))" "mx_control mx = []" "Mapping.lookup (mx_conns mx) k = Some c" "wants_rx c"
    "card (Mapping.keys (mx_conns mx)) \<le> length calls" "\<forall>call \<in> set calls. 0 < fst call"
  shows "\<exists>i < card (Mapping.keys (mx_conns mx)).
    rx_run calls mx ! i = fst (conn_rx (fst (calls ! i)) (snd (calls ! i)) (mx_guest_cid mx) k c)"
proof -
  have "k \<in> set (mx_order mx)"
    using assms(1,3) by (simp add: set_mx_order ordered_keys_def) (simp add: keys_dom_lookup domI)
  then obtain as bs where order: "mx_order mx = as @ k # bs" by (meson split_list)
  obtain p where "mx_order mx = drop p (Mapping.ordered_keys (mx_conns mx)) @ take p (Mapping.ordered_keys (mx_conns mx))"
    unfolding mx_order_def using rx_order_split by blast
  then have d: "distinct (mx_order mx)" "length (mx_order mx) = card (Mapping.keys (mx_conns mx))"
    by (simp_all only: distinct_drop_take) (simp_all add: ordered_keys_def)
  then have "length as < card (Mapping.keys (mx_conns mx))" using order by simp
  moreover from this have "length as < length calls" using assms(5) by simp
  from rx_run_reaches [OF assms(1,2) order d(1) assms(3,4) this assms(6)]
  obtain i where "i \<le> length as" "rx_run calls mx ! i = fst (conn_rx (fst (calls ! i)) (snd (calls ! i)) (mx_guest_cid mx) k c)"
    by blast
  ultimately show ?thesis by (intro exI [of _ i]) simp
qed

section \<open>Reachable tables\<close>

lemma port_after_ephemeral: "EPHEMERAL_BASE \<le> p \<Longrightarrow> EPHEMERAL_BASE \<le> port_after p"
  by (auto simp: port_after_def checked_add_def word_le_nat_alt unat_word_ariths split: option.split)

lemma alloc_key_ephemeral:
  assumes "alloc_key conns g p = Some r" "EPHEMERAL_BASE \<le> p"
  shows "EPHEMERAL_BASE \<le> snd r"
proof -
  have "EPHEMERAL_BASE \<le> p \<longrightarrow> EPHEMERAL_BASE \<le> snd r"
  proof (rule alloc_key.raw_induct [OF _ assms(1), where P = "\<lambda>_ _ p r. EPHEMERAL_BASE \<le> p \<longrightarrow> EPHEMERAL_BASE \<le> snd r"])
    fix alloc :: "(conn_key, conn) mapping \<Rightarrow> u32 \<Rightarrow> u32 \<Rightarrow> (conn_key \<times> u32) option" and conns g p r
    assume ih: "\<And>conns g p r. alloc conns g p = Some r \<Longrightarrow> EPHEMERAL_BASE \<le> p \<longrightarrow> EPHEMERAL_BASE \<le> snd r"
      and step: "(if Mapping.lookup conns (p, g) = None then Some ((p, g), port_after p) else alloc conns g (port_after p)) = Some r"
    show "EPHEMERAL_BASE \<le> p \<longrightarrow> EPHEMERAL_BASE \<le> snd r"
    proof (cases "Mapping.lookup conns (p, g) = None")
      case True
      then have "snd r = port_after p" using step by auto
      then show ?thesis using port_after_ephemeral by simp
    next
      case False
      then have "alloc conns g (port_after p) = Some r" using step by (simp only: if_False)
      from ih [OF this] show ?thesis using port_after_ephemeral by blast
    qed
  qed
  then show ?thesis using assms(2) by simp
qed

lemma host_request_inv: "host_request now g mx = Some mx' \<Longrightarrow> muxer_inv mx \<Longrightarrow> muxer_inv mx'"
proof -
  assume req: "host_request now g mx = Some mx'" and inv: "muxer_inv mx"
  then obtain key n where a: "alloc_key (mx_conns mx) g (mx_next_port mx) = Some (key, n)"
    by (cases "alloc_key (mx_conns mx) g (mx_next_port mx)") (auto simp: host_request_def)
  obtain h c where h: "conn_header (mx_guest_cid mx) key (conn_new stream_new (Connecting now)) OP_REQUEST 0 0 = (h, c)" by fastforce
  then have "conn_good c" using conn_good_header [OF conn_good_new] by (metis snd_conv)
  then have "muxer_inv (mx\<lparr>mx_conns := Mapping.update key c (mx_conns mx)\<rparr>)" by (rule muxer_inv_update [OF inv])
  moreover have "EPHEMERAL_BASE \<le> n" using alloc_key_ephemeral [OF a] inv by (simp add: muxer_inv_def)
  ultimately show ?thesis using req by (auto simp: host_request_def a h muxer_inv_def)
qed

lemma host_requests_inv: "host_requests now ps mx = Some mx' \<Longrightarrow> muxer_inv mx \<Longrightarrow> muxer_inv mx'"
  by (induction ps arbitrary: mx) (auto split: option.splits dest: host_request_inv)

lemma poll_host_inv: "poll_host now accepted sr mx = Some mx' \<Longrightarrow> muxer_inv mx \<Longrightarrow> muxer_inv mx'"
proof -
  assume "poll_host now accepted sr mx = Some mx'" and inv: "muxer_inv mx"
  then obtain mx1 where mx1: "host_requests now accepted mx = Some mx1"
    "mx' = fold (poll_key now sr) (Mapping.ordered_keys (mx_conns mx1)) mx1"
    by (auto simp: poll_host_def)
  show ?thesis unfolding mx1(2) by (rule fold_poll_inv [OF host_requests_inv [OF mx1(1) inv]])
qed

inductive mux_reach :: "u32 \<Rightarrow> muxer \<Rightarrow> bool" for cid where
  mux_new: "mux_reach cid (muxer_new cid)"
| mux_reset: "mux_reach cid mx \<Longrightarrow> mux_reach cid (muxer_reset mx)"
| mux_guest: "mux_reach cid mx \<Longrightarrow> mux_reach cid (handle_guest connects ws shut_ok hdr payload mx)"
| mux_poll: "mux_reach cid mx \<Longrightarrow> poll_host now accepted sr mx = Some mx' \<Longrightarrow> mux_reach cid mx'"
| mux_rx: "mux_reach cid mx \<Longrightarrow> mux_reach cid (snd (next_rx max_payload now mx))"

lemma mux_reach_inv: "mux_reach cid mx \<Longrightarrow> muxer_inv mx"
proof (induction rule: mux_reach.induct)
  case mux_new
  then show ?case by (simp add: muxer_inv_def muxer_new_def)
next
  case (mux_reset mx)
  then show ?case by (simp add: muxer_inv_def muxer_reset_def)
qed (use handle_guest_inv poll_host_inv next_rx_inv in blast)+

lemma next_rx_none:
  assumes "muxer_inv mx" "0 < m"
  shows "fst (next_rx m now mx) = None \<longleftrightarrow> \<not> has_rx mx"
proof (cases "mx_control mx")
  case Nil
  have has: "has_rx mx \<longleftrightarrow> (\<exists>k \<in> set (mx_order mx). wanting mx k)"
    using Nil by (simp add: has_rx_def set_mx_order wanting_def list_ex_iff)
  show ?thesis
  proof (cases rule: first_wanting [of mx "mx_order mx"])
    case no
    then show ?thesis
      using rx_from_idle [OF no, of m now "[]"] Nil has by (auto simp: next_rx_def mx_order_def list_all_iff)
  next
    case (first a1 j a2 c)
    have "wanting mx j" using first(3,4) by (simp add: wanting_def)
    moreover have "fst (next_rx m now mx) \<noteq> None"
      using next_rx_serves [OF Nil first assms(2), of now] conn_rx_wanting [OF first(4) assms(2), of now "mx_guest_cid mx" j] by auto
    ultimately show ?thesis using has first(1) by auto
  qed
qed (simp add: next_rx_def has_rx_def)

text \<open>
  C16. No connection starves another. For every table the device can reach, a call with room for data returns a packet
  exactly when \<open>has_rx\<close> says there is one, and once the control queue is empty, a connection that wants to send gets its
  packet within as many calls as there are connections, whatever the others have to send.
\<close>

theorem vsock_round_robin:
  assumes "mux_reach cid mx" "\<forall>call \<in> set calls. 0 < fst call" "0 < m"
  shows "(fst (next_rx m now mx) = None \<longleftrightarrow> \<not> has_rx mx)
    \<and> (mx_control mx = [] \<longrightarrow> Mapping.lookup (mx_conns mx) k = Some c \<longrightarrow> wants_rx c \<longrightarrow>
        card (Mapping.keys (mx_conns mx)) \<le> length calls \<longrightarrow>
        (\<exists>i < card (Mapping.keys (mx_conns mx)). \<exists>hdr data.
           rx_run calls mx ! i = Some (hdr, data)
           \<and> rx_run calls mx ! i = fst (conn_rx (fst (calls ! i)) (snd (calls ! i)) (mx_guest_cid mx) k c)
           \<and> src_port hdr = fst k \<and> dst_port hdr = snd k))"
proof (intro conjI impI)
  have inv: "muxer_inv mx" by (rule mux_reach_inv [OF assms(1)])
  show "fst (next_rx m now mx) = None \<longleftrightarrow> \<not> has_rx mx" by (rule next_rx_none [OF inv assms(3)])
  assume c: "mx_control mx = []" "Mapping.lookup (mx_conns mx) k = Some c" "wants_rx c"
    "card (Mapping.keys (mx_conns mx)) \<le> length calls"
  have "finite (Mapping.keys (mx_conns mx))" using inv by (simp add: muxer_inv_def)
  from rx_run_fair [OF this c assms(2)] obtain i where i: "i < card (Mapping.keys (mx_conns mx))"
    "rx_run calls mx ! i = fst (conn_rx (fst (calls ! i)) (snd (calls ! i)) (mx_guest_cid mx) k c)" by blast
  then have "0 < fst (calls ! i)" using assms(2) c(4) by simp
  from conn_rx_wanting [OF c(3) this, of "snd (calls ! i)" "mx_guest_cid mx" k] obtain hdr data where
    "rx_run calls mx ! i = Some (hdr, data)" "src_port hdr = fst k" "dst_port hdr = snd k" using i(2) by auto
  then show "\<exists>i < card (Mapping.keys (mx_conns mx)). \<exists>hdr data.
      rx_run calls mx ! i = Some (hdr, data)
      \<and> rx_run calls mx ! i = fst (conn_rx (fst (calls ! i)) (snd (calls ! i)) (mx_guest_cid mx) k c)
      \<and> src_port hdr = fst k \<and> dst_port hdr = snd k"
    using i by blast
qed

definition demo_guest_hdr :: "u16 \<Rightarrow> u32 \<Rightarrow> vsock_header" where
  "demo_guest_hdr op port = hdr_default\<lparr>src_cid := 3, dst_cid := HOST_CID, src_port := port, dst_port := 80, hdr_kind := TYPE_STREAM,
     hdr_op := op, buf_alloc := 64\<rparr>"

definition demo_muxer0 :: muxer where
  "demo_muxer0 =
     handle_guest (\<lambda>_. True) [] True (demo_guest_hdr OP_CREDIT_REQUEST 1001) []
     (handle_guest (\<lambda>_. True) [] True (demo_guest_hdr OP_REQUEST 1001) []
     (handle_guest (\<lambda>_. True) [] True (demo_guest_hdr OP_REQUEST 1000) [] (muxer_new 3)))"

definition demo_muxer :: muxer where
  "demo_muxer = snd (next_rx 8 0 (snd (next_rx 8 0 demo_muxer0)))"

lemma demo_muxer_reach: "mux_reach 3 demo_muxer"
  unfolding demo_muxer_def demo_muxer0_def by (rule mux_rx | rule mux_guest | rule mux_new)+

lemma next_rx_control: "mx_control mx = hdr # rest \<Longrightarrow> next_rx m now mx = (Some (hdr, []), mx\<lparr>mx_control := rest\<rparr>)"
  by (simp add: next_rx_def)

lemmas demo_muxer_defs = handle_guest_def guest_connect_def muxer_new_def demo_guest_hdr_def HOST_CID_def
  op_defs TYPE_STREAM_def hdr_default_def conn_header_def stamp_def update_peer_def conn_new_def conn_packet_def
  request_credit_update_def finish_if_shut_def SHUTDOWN_BOTH_def SHUTDOWN_RCV_def SHUTDOWN_SEND_def BUF_ALLOC_def Let_def

lemma demo_muxer_answers:
  "\<exists>a b. mx_control demo_muxer0 = [a, b]"
  by (simp add: demo_muxer0_def demo_muxer_defs lookup_update')

lemma demo_muxer_eq: "demo_muxer = demo_muxer0\<lparr>mx_control := []\<rparr>"
proof -
  obtain a b where "mx_control demo_muxer0 = [a, b]" using demo_muxer_answers by blast
  then show ?thesis by (simp add: demo_muxer_def next_rx_control)
qed

lemma demo_muxer_state:
  "mx_control demo_muxer = []" "Mapping.keys (mx_conns demo_muxer) = {(80, 1000), (80, 1001)}" "mx_guest_cid demo_muxer = 3"
  "\<exists>c. Mapping.lookup (mx_conns demo_muxer) (80, 1001) = Some c \<and> wants_rx c"
  "\<exists>c. Mapping.lookup (mx_conns demo_muxer) (80, 1000) = Some c \<and> \<not> wants_rx c"
  by (simp_all add: demo_muxer_eq demo_muxer0_def demo_muxer_defs lookup_update' wants_rx_def credit_update_due_def
      shutdown_due_def CREDIT_UPDATE_STEP_def insert_commute)

theorem vsock_round_robin_witness:
  "\<exists>i < 2. \<exists>hdr data. rx_run [(8, 0), (8, 0)] demo_muxer ! i = Some (hdr, data) \<and> src_port hdr = 80 \<and> dst_port hdr = 1001"
proof -
  obtain c where c: "Mapping.lookup (mx_conns demo_muxer) (80, 1001) = Some c" "wants_rx c" using demo_muxer_state(4) by blast
  have calls: "\<forall>call \<in> set [(8 :: nat, 0 :: nat), (8, 0)]. 0 < fst call" "0 < (8 :: nat)" by simp_all
  have card: "card (Mapping.keys (mx_conns demo_muxer)) = 2" by (simp add: demo_muxer_state(2))
  then have len: "card (Mapping.keys (mx_conns demo_muxer)) \<le> length [(8 :: nat, 0 :: nat), (8, 0)]" by simp
  from vsock_round_robin [OF demo_muxer_reach calls, THEN conjunct2, rule_format, OF demo_muxer_state(1) c len]
  obtain i hdr data where "i < 2" "rx_run [(8, 0), (8, 0)] demo_muxer ! i = Some (hdr, data)" "src_port hdr = 80" "dst_port hdr = 1001"
    unfolding card fst_conv snd_conv by blast
  then show ?thesis by blast
qed

text \<open>
  C21. A packet from the guest affects its own connection only, and the guest learns of what the device does with it. Other
  connections, the queued answers, the round robin and the local ports are untouched; at most one answer is queued, from
  the host to the packet's own ports; a RST is never answered; when the device drops a connection on any other packet, it
  queues a RST for it; and a connection appears only for a REQUEST that a host service accepted, with a RESPONSE queued.
\<close>

theorem vsock_packet_isolated:
  fixes mx connects ws shut_ok hdr payload
  defines "key \<equiv> (dst_port hdr, src_port hdr)" and "mx' \<equiv> handle_guest connects ws shut_ok hdr payload mx"
  shows "same_but key mx mx'
    \<and> (mx_control mx' = mx_control mx \<or> (\<exists>a. mx_control mx' = mx_control mx @ [a] \<and> answer_to hdr mx a))
    \<and> (hdr_op hdr = OP_RST \<longrightarrow> mx_control mx' = mx_control mx)
    \<and> (hdr_op hdr \<noteq> OP_RST \<longrightarrow> Mapping.lookup (mx_conns mx) key \<noteq> None \<longrightarrow> Mapping.lookup (mx_conns mx') key = None \<longrightarrow>
        mx_control mx' = mx_control mx @ [rst_header (mx_guest_cid mx) key TYPE_STREAM])
    \<and> (Mapping.lookup (mx_conns mx) key = None \<longrightarrow> Mapping.lookup (mx_conns mx') key \<noteq> None \<longrightarrow>
        hdr_op hdr = OP_REQUEST \<and> connects (dst_port hdr)
        \<and> (\<exists>a. mx_control mx' = mx_control mx @ [a] \<and> answer_to hdr mx a \<and> hdr_op a = OP_RESPONSE))"
proof (intro conjI)
  have e: "packet_effect hdr mx mx'" unfolding mx'_def by (rule handle_guest_effect)
  show "same_but key mx mx'" "mx_control mx' = mx_control mx \<or> (\<exists>a. mx_control mx' = mx_control mx @ [a] \<and> answer_to hdr mx a)"
    using e by (simp_all add: packet_effect_def key_def)
  show "hdr_op hdr = OP_RST \<longrightarrow> mx_control mx' = mx_control mx"
    unfolding mx'_def by (simp add: handle_guest_def reply_rst_def op_defs Let_def)
  show "hdr_op hdr \<noteq> OP_RST \<longrightarrow> Mapping.lookup (mx_conns mx) key \<noteq> None \<longrightarrow> Mapping.lookup (mx_conns mx') key = None \<longrightarrow>
        mx_control mx' = mx_control mx @ [rst_header (mx_guest_cid mx) key TYPE_STREAM]"
    unfolding mx'_def key_def by (rule handle_guest_drop)
  show "Mapping.lookup (mx_conns mx) key = None \<longrightarrow> Mapping.lookup (mx_conns mx') key \<noteq> None \<longrightarrow>
        hdr_op hdr = OP_REQUEST \<and> connects (dst_port hdr)
        \<and> (\<exists>a. mx_control mx' = mx_control mx @ [a] \<and> answer_to hdr mx a \<and> hdr_op a = OP_RESPONSE)"
    unfolding mx'_def key_def by (rule handle_guest_opens)
qed

theorem vsock_packet_isolated_witness:
  "mx_control (handle_guest (\<lambda>_. True) [] True (demo_guest_hdr OP_REQUEST 1000) [] demo_muxer) = [rst_header 3 (80, 1000) TYPE_STREAM]"
proof -
  have "Mapping.lookup (mx_conns demo_muxer) (80, 1000) \<noteq> None" using demo_muxer_state(5) by auto
  moreover from this have
    "Mapping.lookup (mx_conns (handle_guest (\<lambda>_. True) [] True (demo_guest_hdr OP_REQUEST 1000) [] demo_muxer)) (80, 1000) = None"
    by (simp add: handle_guest_def demo_guest_hdr_def hdr_default_def demo_muxer_state(3) guest_connect_def mux_close_def Let_def)
  ultimately show ?thesis
    using vsock_packet_isolated [of "demo_guest_hdr OP_REQUEST 1000" demo_muxer "\<lambda>_. True" "[]" True "[]"]
    by (simp add: demo_guest_hdr_def demo_muxer_state(1,3) op_defs)
qed

end
