(* ===== verification/Vsock_Worker.thy ===== *)
theory Vsock_Worker
  imports Guest_Buffers Vsock_Muxer Virtio_Irq Virtio_Core
begin

text \<open>
  The worker thread of a vsock device (\<open>ternvale-devices/src/virtio/vsock/worker.rs\<close>): packets leave the TX queue for the
  connection table, packets of the table fill chains of the RX queue. Guest memory is locked for a TX pass and for one RX
  packet at a time. Statistics and traces are left out.
\<close>

definition INT_VRING :: u32 where "INT_VRING = 1"

definition RX_QUEUE :: u16 where "RX_QUEUE = 0"

definition TX_QUEUE :: u16 where "TX_QUEUE = 1"

section \<open>Packets in chains\<close>

text \<open>The gathering loop of \<open>read_tx\<close>.\<close>

fun read_bufs :: "guest_memory \<Rightarrow> buffer list \<Rightarrow> u8 list option" where
  "read_bufs m [] = Some []"
| "read_bufs m (b # bs) =
     (case read_bytes m (b_addr b) (unat (b_len b)) of
        Inl _ \<Rightarrow> None
      | Inr x \<Rightarrow> map_option (\<lambda>y. x @ y) (read_bufs m bs))"

definition saturating_total :: "buffer list \<Rightarrow> nat" where
  "saturating_total bs = fold (\<lambda>b acc. min (acc + unat (b_len b)) (2 ^ 64 - 1)) bs 0"

definition read_tx :: "guest_memory \<Rightarrow> chain \<Rightarrow> (vsock_header \<times> u8 list) option" where
  "read_tx m c =
     (if c_writable c \<noteq> [] then None
      else let n = saturating_total (c_readable c) in
        if \<not> (HDR_LEN \<le> n \<and> n \<le> HDR_LEN + MAX_PAYLOAD) then None
        else case read_bufs m (c_readable c) of
          None \<Rightarrow> None
        | Some bytes \<Rightarrow>
            (case hdr_parse bytes of
               None \<Rightarrow> None
             | Some hdr \<Rightarrow> if unat (hdr_len hdr) \<noteq> n - HDR_LEN then None else Some (hdr, drop HDR_LEN bytes)))"

text \<open>The scattering loop of \<open>write_rx\<close>; a failed write leaves the earlier ones.\<close>

fun write_bufs :: "guest_memory \<Rightarrow> buffer list \<Rightarrow> u8 list \<Rightarrow> guest_memory \<times> bool" where
  "write_bufs m [] bytes = (m, True)"
| "write_bufs m (b # bs) bytes =
     (if bytes = [] then (m, True)
      else let n = min (unat (b_len b)) (length bytes) in
        case write_bytes m (b_addr b) (take n bytes) of
          Inl _ \<Rightarrow> (m, False)
        | Inr m \<Rightarrow> write_bufs m bs (drop n bytes))"

definition write_rx :: "guest_memory \<Rightarrow> chain \<Rightarrow> vsock_header \<Rightarrow> u8 list \<Rightarrow> guest_memory \<times> u32" where
  "write_rx m c hdr payload =
     (let bytes = hdr_encode hdr @ payload in
      case write_bufs m (c_writable c) bytes of
        (m, False) \<Rightarrow> (m, 0)
      | (m, True) \<Rightarrow> (m, of_nat (length bytes)))"

section \<open>The worker\<close>

record bound =
  bd_key :: "u16 \<times> u64 \<times> u64 \<times> u64"
  bd_queue :: split_queue

record vsock_worker =
  vw_muxer :: muxer
  vw_memory :: guest_memory
  vw_irq :: virtio_irq
  vw_rx :: "bound option"
  vw_tx :: "bound option"

definition bind_slot :: "queue_notify \<Rightarrow> bound option \<Rightarrow> bound option" where
  "bind_slot n slot =
     (let key = (qn_size n, qn_desc n, qn_avail n, qn_used n) in
      if (case slot of None \<Rightarrow> False | Some b \<Rightarrow> bd_key b = key) then slot
      else Some \<lparr>bd_key = key,
             bd_queue = queue_new (qn_size n) (qn_desc n) (qn_avail n) (qn_used n)
               (qn_features n AND VIRTIO_F_INDIRECT_DESC \<noteq> 0) (qn_features n AND VIRTIO_F_EVENT_IDX \<noteq> 0)\<rparr>)"

definition worker_bind :: "queue_notify \<Rightarrow> vsock_worker \<Rightarrow> vsock_worker" where
  "worker_bind n w =
     (if qn_index n = RX_QUEUE then w\<lparr>vw_rx := bind_slot n (vw_rx w)\<rparr>
      else if qn_index n = TX_QUEUE then w\<lparr>vw_tx := bind_slot n (vw_tx w)\<rparr>
      else w)"

text \<open>The host's answers while a packet is handled.\<close>

record guest_answers =
  ga_connects :: "u32 \<Rightarrow> bool"
  ga_writes :: "write_result list"
  ga_shut_ok :: bool

fun tx_chains ::
  "guest_memory \<Rightarrow> split_queue \<Rightarrow> chain list \<Rightarrow> ((vsock_header \<times> u8 list) list \<times> bool \<times> guest_memory \<times> split_queue) option" where
  "tx_chains m q [] = Some ([], False, m, q)"
| "tx_chains m q (c # cs) =
     (case add_used m q (c_head c) 0 of
        None \<Rightarrow> None
      | Some (m', q', done) \<Rightarrow>
          (case tx_chains m' q' cs of
             None \<Rightarrow> None
           | Some (ps, completed, m'', q'') \<Rightarrow>
               Some ((case read_tx m c of None \<Rightarrow> ps | Some p \<Rightarrow> p # ps), done \<or> completed, m'', q'')))"

fun handle_packets :: "(nat \<Rightarrow> guest_answers) \<Rightarrow> nat \<Rightarrow> (vsock_header \<times> u8 list) list \<Rightarrow> muxer \<Rightarrow> muxer" where
  "handle_packets env k [] mx = mx"
| "handle_packets env k ((hdr, payload) # ps) mx =
     handle_packets env (Suc k) ps
       (handle_guest (ga_connects (env k)) (ga_writes (env k)) (ga_shut_ok (env k)) hdr payload mx)"

definition process_tx :: "(nat \<Rightarrow> guest_answers) \<Rightarrow> vsock_worker \<Rightarrow> vsock_worker option" where
  "process_tx env w =
     (case vw_tx w of
        None \<Rightarrow> Some w
      | Some bound \<Rightarrow>
          (case chains (2 ^ 16) (vw_memory w) (bd_queue bound) of
             None \<Rightarrow> None
           | Some (q, cs) \<Rightarrow>
               (case tx_chains (vw_memory w) q cs of
                  None \<Rightarrow> None
                | Some (ps, completed, m, q) \<Rightarrow>
                    let (q, needed) = (if completed then notification_needed m q else (q, False))
                    in Some (w\<lparr>vw_muxer := handle_packets env 0 ps (vw_muxer w), vw_memory := m,
                               vw_irq := (if needed then irq_raise INT_VRING (vw_irq w) else vw_irq w),
                               vw_tx := Some (bound\<lparr>bd_queue := q\<rparr>)\<rparr>))))"

text \<open>One turn of the loop of \<open>deliver_rx\<close>: whether it goes on, and the state afterwards.\<close>

definition rx_turn ::
  "nat \<Rightarrow> muxer \<Rightarrow> guest_memory \<Rightarrow> split_queue \<Rightarrow> (bool \<times> muxer \<times> guest_memory \<times> split_queue \<times> bool) option" where
  "rx_turn now mx m q =
     (case pop m q of
        None \<Rightarrow> None
      | Some (q, None) \<Rightarrow> Some (False, mx, m, q, False)
      | Some (q, Some c) \<Rightarrow>
          let capacity = sum_list (map (\<lambda>b. unat (b_len b)) (c_writable c)) in
          if c_readable c \<noteq> [] \<or> capacity \<le> HDR_LEN then
            map_option (\<lambda>(m, q, done). (True, mx, m, q, done)) (add_used m q (c_head c) 0)
          else
            (case next_rx (min (capacity - HDR_LEN) MAX_PAYLOAD) now mx of
               (None, mx) \<Rightarrow> map_option (\<lambda>(m, q, done). (False, mx, m, q, done)) (add_used m q (c_head c) 0)
             | (Some (hdr, payload), mx) \<Rightarrow>
                 (case write_rx m c hdr payload of
                    (m, used) \<Rightarrow> map_option (\<lambda>(m, q, done). (True, mx, m, q, done)) (add_used m q (c_head c) used))))"

partial_function (option) rx_loop ::
  "(nat \<Rightarrow> nat) \<Rightarrow> nat \<Rightarrow> muxer \<Rightarrow> guest_memory \<Rightarrow> split_queue \<Rightarrow> bool \<Rightarrow> (muxer \<times> guest_memory \<times> split_queue \<times> bool) option" where
  "rx_loop clock k mx m q completed =
     (if \<not> has_rx mx then Some (mx, m, q, completed)
      else case rx_turn (clock k) mx m q of
        None \<Rightarrow> None
      | Some (go_on, mx, m, q, done) \<Rightarrow>
          if go_on then rx_loop clock (Suc k) mx m q (completed \<or> done) else Some (mx, m, q, completed \<or> done))"

definition deliver_rx :: "(nat \<Rightarrow> nat) \<Rightarrow> vsock_worker \<Rightarrow> vsock_worker option" where
  "deliver_rx clock w =
     (case vw_rx w of
        None \<Rightarrow> Some w
      | Some bound \<Rightarrow>
          (case rx_loop clock 0 (vw_muxer w) (vw_memory w) (bd_queue bound) False of
             None \<Rightarrow> None
           | Some (mx, m, q, completed) \<Rightarrow>
               let (q, needed) = (if completed then notification_needed m q else (q, False))
               in Some (w\<lparr>vw_muxer := mx, vw_memory := m,
                          vw_irq := (if needed then irq_raise INT_VRING (vw_irq w) else vw_irq w),
                          vw_rx := Some (bound\<lparr>bd_queue := q\<rparr>)\<rparr>)))"

datatype kick = Notified queue_notify | ResetKick | PollTimeout

record turn_answers =
  ta_guest :: "nat \<Rightarrow> guest_answers"
  ta_now :: nat
  ta_accepted :: "u32 list"
  ta_sockets :: "conn_key \<Rightarrow> socket_results"
  ta_clock :: "nat \<Rightarrow> nat"

definition worker_turn :: "turn_answers \<Rightarrow> kick \<Rightarrow> vsock_worker \<Rightarrow> vsock_worker option" where
  "worker_turn ta k w =
     (case k of
        ResetKick \<Rightarrow> Some (w\<lparr>vw_rx := None, vw_tx := None, vw_muxer := muxer_reset (vw_muxer w)\<rparr>)
      | _ \<Rightarrow>
          let w = (case k of Notified n \<Rightarrow> worker_bind n w | _ \<Rightarrow> w) in
          (case process_tx (ta_guest ta) w of
             None \<Rightarrow> None
           | Some w \<Rightarrow>
               (case poll_host (ta_now ta) (ta_accepted ta) (ta_sockets ta) (vw_muxer w) of
                  None \<Rightarrow> None
                | Some mx \<Rightarrow> deliver_rx (ta_clock ta) (w\<lparr>vw_muxer := mx\<rparr>))))"

section \<open>Packets in guest memory\<close>

lemma read_bufs_eq:
  assumes "mem_inv m"
  shows "read_bufs m bs = (if list_all (buf_mapped m) bs then Some (view_at m (buf_addrs bs)) else None)"
proof (induction bs)
  case (Cons b bs)
  show ?case
  proof (cases "buf_mapped m b")
    case True
    then show ?thesis using Cons mapped_read [OF assms True] by simp
  next
    case False
    then show ?thesis using unmapped_read [OF False] by auto
  qed
qed simp

lemma saturating_total_eq: "saturating_total bs = min (length (buf_addrs bs)) (2 ^ 64 - 1)"
proof -
  have "fold (\<lambda>b acc. min (acc + unat (b_len b)) (2 ^ 64 - 1)) bs (min k (2 ^ 64 - 1)) = min (k + length (buf_addrs bs)) (2 ^ 64 - 1)" for k
  proof (induction bs arbitrary: k)
    case (Cons b bs)
    have "min (min k (2 ^ 64 - 1) + unat (b_len b)) (2 ^ 64 - 1) = min (k + unat (b_len b)) (2 ^ 64 - 1)" by linarith
    then show ?case using Cons [of "k + unat (b_len b)"] by (simp add: add.assoc)
  qed simp
  from this [of 0] show ?thesis by (simp add: saturating_total_def)
qed

text \<open>A chain carries a packet when its bytes are a header and as much payload as the header says.\<close>

lemma read_tx_packet:
  assumes "mem_inv m" "c_writable c = []" "list_all (buf_mapped m) (c_readable c)"
    "view_at m (buf_addrs (c_readable c)) = hdr_encode hdr @ payload" "unat (hdr_len hdr) = length payload" "length payload \<le> MAX_PAYLOAD"
  shows "read_tx m c = Some (hdr, payload)"
proof -
  have "length (buf_addrs (c_readable c)) = HDR_LEN + length payload"
    using arg_cong [OF assms(4), of length] by simp
  then have "saturating_total (c_readable c) = HDR_LEN + length payload"
    using assms(6) by (simp add: saturating_total_eq HDR_LEN_def MAX_PAYLOAD_def)
  then show ?thesis
    using assms(2-6) by (simp add: read_tx_def read_bufs_eq [OF assms(1)] hdr_roundtrip Let_def)
qed

lemma write_bufs_effect:
  assumes "mem_inv m" "list_all (buf_mapped m) bs" "length bytes \<le> length (buf_addrs bs)"
  shows "\<exists>m'. write_bufs m bs bytes = (m', True) \<and> mem_inv m' \<and> layout m' = layout m
    \<and> mem_view m' = spread (mem_view m) (take (length bytes) (buf_addrs bs)) bytes"
  using assms
proof (induction bs arbitrary: m bytes)
  case (Cons b bs)
  show ?case
  proof (cases "bytes = []")
    case True
    then show ?thesis using Cons.prems by simp
  next
    case False
    let ?n = "min (unat (b_len b)) (length bytes)"
    have b: "buf_mapped m b" "list_all (buf_mapped m) bs" using Cons.prems(2) by simp_all
    obtain m1 where m1: "write_bytes m (b_addr b) (take ?n bytes) = Inr m1" "mem_inv m1" "layout m1 = layout m"
      "mem_view m1 = spread (mem_view m) [unat (b_addr b)..<unat (b_addr b) + ?n] (take ?n bytes)"
      by (rule write_prefix [OF Cons.prems(1) b(1), of "take ?n bytes"]) auto
    have "list_all (buf_mapped m1) bs" using b(2) mapped_layout [OF m1(3)] by simp
    moreover have "length (drop ?n bytes) \<le> length (buf_addrs bs)" using Cons.prems(3) by auto
    ultimately obtain m' where m': "write_bufs m1 bs (drop ?n bytes) = (m', True)" "mem_inv m'" "layout m' = layout m1"
      "mem_view m' = spread (mem_view m1) (take (length bytes - ?n) (buf_addrs bs)) (drop ?n bytes)"
      using Cons.IH [OF m1(2), of "drop ?n bytes"] by auto
    have as: "take (length bytes) (buf_addrs (b # bs)) = [unat (b_addr b)..<unat (b_addr b) + ?n] @ take (length bytes - ?n) (buf_addrs bs)"
      by (cases "length bytes \<le> unat (b_len b)") (simp_all add: min_def)
    have "spread (mem_view m) (take (length bytes) (buf_addrs (b # bs))) (take ?n bytes @ drop ?n bytes)
      = spread (mem_view m1) (take (length bytes - ?n) (buf_addrs bs)) (drop ?n bytes)"
      unfolding m1(4) as by (rule spread_append) simp
    then have "mem_view m' = spread (mem_view m) (take (length bytes) (buf_addrs (b # bs))) bytes" using m'(4) by simp
    then show ?thesis using False m1(1,3) m' by (simp add: Let_def)
  qed
qed simp

lemma write_rx_effect:
  assumes "mem_inv m" "list_all (buf_mapped m) (c_writable c)" "HDR_LEN + length payload \<le> length (buf_addrs (c_writable c))"
  defines "as \<equiv> take (HDR_LEN + length payload) (buf_addrs (c_writable c))"
  obtains m' where "write_rx m c hdr payload = (m', of_nat (HDR_LEN + length payload))" "mem_inv m'" "layout m' = layout m"
    "mem_view m' = spread (mem_view m) as (hdr_encode hdr @ payload)"
proof -
  obtain m' where "write_bufs m (c_writable c) (hdr_encode hdr @ payload) = (m', True)" "mem_inv m'" "layout m' = layout m"
    "mem_view m' = spread (mem_view m) as (hdr_encode hdr @ payload)"
    using write_bufs_effect [OF assms(1,2), of "hdr_encode hdr @ payload"] assms(3) by (auto simp: as_def)
  then show thesis using that by (simp add: write_rx_def)
qed

section \<open>A pass over the TX queue\<close>

lemma read_tx_frame:
  assumes "mem_inv m" "add_used m q head len = Some (m', q', True)" "outside_ring q (buf_addrs (c_readable c))"
  shows "read_tx m' c = read_tx m c"
proof -
  have "read_bufs m' bs = read_bufs m bs" if "outside_ring q (buf_addrs bs)" for bs
    using that by (induction bs) (simp_all add: add_used_read [OF assms(1,2)] split: sum.split)
  then show ?thesis using assms(3) by (simp add: read_tx_def Let_def)
qed

lemma tx_chains_eq:
  assumes "mem_inv m" "queue_inv q" "\<not> broken q" "ring_mapped m q" "\<forall>c \<in> set cs. c_head c < sq_size q"
    "\<forall>c \<in> set cs. outside_ring q (buf_addrs (c_readable c))"
  shows "\<exists>m' q'. add_used_all m q (map (\<lambda>c. (c_head c, 0)) cs) = Some (m', q')
    \<and> tx_chains m q cs = Some (List.map_filter (read_tx m) cs, cs \<noteq> [], m', q')"
  using assms
proof (induction cs arbitrary: m q)
  case Nil
  then show ?case by (simp add: map_filter_simps)
next
  case (Cons c cs)
  have "c_head c < sq_size q" using Cons.prems(5) by simp
  from add_used_succeeds [OF Cons.prems(1-3) this Cons.prems(4), where len = 0]
  obtain m1 where m1: "add_used m q (c_head c) 0 = Some (m1, q\<lparr>used_idx := used_idx q + 1\<rparr>, True)" by blast
  let ?q = "q\<lparr>used_idx := used_idx q + 1\<rparr>"
  have inv: "mem_inv m1" by (rule add_used_effect(1) [OF Cons.prems(1) m1])
  have ring: "ring_mapped m1 ?q" by (rule ring_mapped_keeps [OF Cons.prems(1) m1 Cons.prems(4)])
  obtain m' q' where rest: "add_used_all m1 ?q (map (\<lambda>c. (c_head c, 0)) cs) = Some (m', q')"
    "tx_chains m1 ?q cs = Some (List.map_filter (read_tx m1) cs, cs \<noteq> [], m', q')"
    using Cons.IH [OF inv _ _ ring] Cons.prems by (auto simp: queue_inv_def)
  have "List.map_filter (read_tx m1) cs = List.map_filter (read_tx m) cs"
    using Cons.prems(6) read_tx_frame [OF Cons.prems(1) m1] by (simp add: map_filter_def cong: filter_cong)
  then have "tx_chains m q (c # cs) = Some (List.map_filter (read_tx m) (c # cs), c # cs \<noteq> [], m', q')"
    using m1 rest(2) by (simp add: map_filter_simps split: option.split)
  moreover have "add_used_all m q (map (\<lambda>c. (c_head c, 0)) (c # cs)) = Some (m', q')"
    using m1 rest(1) by (simp add: add_used_all_Cons)
  ultimately show ?case by blast
qed

lemma process_tx_eq:
  fixes w bd
  defines "m \<equiv> vw_memory w" and "q \<equiv> bd_queue bd"
  assumes "vw_tx w = Some bd" "mem_inv m" "queue_inv q" "\<not> broken q" "ring_mapped m q"
    "avail_idx m q = Some idx" "published m q (last_avail q) idx cs"
    "\<forall>c \<in> set cs. outside_ring q (buf_addrs (c_readable c))"
  obtains w' q' where "process_tx env w = Some w'"
    "vw_muxer w' = handle_packets env 0 (List.map_filter (read_tx m) cs) (vw_muxer w)"
    "add_used_all m (q\<lparr>last_avail := idx\<rparr>) (map (\<lambda>c. (c_head c, 0)) cs) = Some (vw_memory w', q')"
    "vw_irq w' = (if cs \<noteq> [] \<and> snd (notification_needed (vw_memory w') q') then irq_raise INT_VRING (vw_irq w) else vw_irq w)"
    "vw_rx w' = vw_rx w"
proof -
  let ?q = "q\<lparr>last_avail := idx\<rparr>"
  have "length cs < 2 ^ 16" using published_length [OF assms(9)] unsigned_less [of "idx - last_avail q", where 'a = nat] by simp
  from chains_published [OF assms(5,6,8,9) this] have chains: "chains (2 ^ 16) m q = Some (?q, cs)" .
  have heads: "\<forall>c \<in> set cs. c_head c < sq_size ?q" using published_heads [OF assms(9)] by simp
  have "queue_inv ?q" "\<not> broken ?q" "ring_mapped m ?q" "\<forall>c \<in> set cs. outside_ring ?q (buf_addrs (c_readable c))"
    using assms(5-7,10) by (simp_all add: queue_inv_def ring_mapped_def ring_end_def)
  from tx_chains_eq [OF assms(4) this(1-3) heads this(4)] obtain m' q' where tx:
    "add_used_all m ?q (map (\<lambda>c. (c_head c, 0)) cs) = Some (m', q')"
    "tx_chains m ?q cs = Some (List.map_filter (read_tx m) cs, cs \<noteq> [], m', q')" by blast
  let ?n = "if cs \<noteq> [] then notification_needed m' q' else (q', False)"
  let ?w = "w\<lparr>vw_muxer := handle_packets env 0 (List.map_filter (read_tx m) cs) (vw_muxer w), vw_memory := m',
     vw_irq := (if snd ?n then irq_raise INT_VRING (vw_irq w) else vw_irq w), vw_tx := Some (bd\<lparr>bd_queue := fst ?n\<rparr>)\<rparr>"
  have "process_tx env w = Some ?w"
    using tx(2) assms(3) chains by (simp add: process_tx_def m_def q_def split_beta)
  then show thesis by (rule that) (use tx(1) in auto)
qed

section \<open>One packet into the RX queue\<close>

lemma next_packet_fits: "fst (next_packet m c) = Some (op, fl, data) \<Longrightarrow> length data \<le> m"
  by (cases rule: next_packet_cases [of c m]) auto

lemma conn_rx_fits: "fst (conn_rx m now cid key c) = Some (hdr, data) \<Longrightarrow> length data \<le> m"
proof -
  obtain p c1 where p: "next_packet m c = (p, c1)" by fastforce
  assume "fst (conn_rx m now cid key c) = Some (hdr, data)"
  then show ?thesis using p next_packet_fits [of m c]
    by (cases p) (auto simp: conn_rx_def Let_def split: if_splits prod.splits)
qed

lemma rx_from_fits: "fst (rx_from m now ks mx) = Some (hdr, data) \<Longrightarrow> length data \<le> m"
proof (induction ks arbitrary: mx)
  case (Cons k ks)
  show ?case
  proof (cases "Mapping.lookup (mx_conns mx) k")
    case None
    then show ?thesis using Cons by simp
  next
    case (Some c)
    obtain out c1 where o: "conn_rx m now (mx_guest_cid mx) k c = (out, c1)" by fastforce
    show ?thesis using Cons Some o conn_rx_fits [of m now "mx_guest_cid mx" k c hdr data] by (cases out) (simp_all add: Let_def)
  qed
qed simp

lemma next_rx_fits: "fst (next_rx m now mx) = Some (hdr, data) \<Longrightarrow> length data \<le> m"
  by (cases "mx_control mx") (auto simp: next_rx_def dest: rx_from_fits)

lemma handle_packets_fold:
  "handle_packets env k ps mx =
     fold (\<lambda>(i, hdr, payload). handle_guest (ga_connects (env i)) (ga_writes (env i)) (ga_shut_ok (env i)) hdr payload)
       (enumerate k ps) mx"
proof (induction ps arbitrary: k mx)
  case (Cons p ps)
  then show ?case by (cases p) simp
qed simp

text \<open>
  C15. Packets the guest sends arrive. When the driver has published chains whose buffers lie outside the used ring, a pass
  over the TX queue returns, hands the packets of the well-formed chains to the connection table one after the other in the
  order of the ring, the first one to the table as it was and each next one to the table the one before left, completes every chain in that order, and raises an interrupt exactly when the queue asks for one. A chain is well formed
  whenever its bytes are an encoded header followed by the payload the header announces.
\<close>

theorem vsock_tx_path:
  fixes w bd
  defines "m \<equiv> vw_memory w" and "q \<equiv> bd_queue bd"
  assumes "vw_tx w = Some bd" "mem_inv m" "queue_inv q" "\<not> broken q" "ring_mapped m q"
    "avail_idx m q = Some idx" "published m q (last_avail q) idx cs"
    "\<forall>c \<in> set cs. outside_ring q (buf_addrs (c_readable c))"
  shows "\<exists>w' q'. process_tx env w = Some w'
      \<and> vw_muxer w' =
          fold (\<lambda>(i, hdr, payload). handle_guest (ga_connects (env i)) (ga_writes (env i)) (ga_shut_ok (env i)) hdr payload)
            (enumerate 0 (List.map_filter (read_tx m) cs)) (vw_muxer w)
      \<and> add_used_all m (q\<lparr>last_avail := idx\<rparr>) (map (\<lambda>c. (c_head c, 0)) cs) = Some (vw_memory w', q')
      \<and> vw_irq w' = (if cs \<noteq> [] \<and> snd (notification_needed (vw_memory w') q') then irq_raise INT_VRING (vw_irq w) else vw_irq w)
    \<and> (\<forall>c hdr payload. c_writable c = [] \<longrightarrow> list_all (buf_mapped m) (c_readable c) \<longrightarrow>
         view_at m (buf_addrs (c_readable c)) = hdr_encode hdr @ payload \<longrightarrow> unat (hdr_len hdr) = length payload \<longrightarrow>
         length payload \<le> MAX_PAYLOAD \<longrightarrow> read_tx m c = Some (hdr, payload))"
proof -
  obtain w' q' where "process_tx env w = Some w'"
    "vw_muxer w' = handle_packets env 0 (List.map_filter (read_tx m) cs) (vw_muxer w)"
    "add_used_all m (q\<lparr>last_avail := idx\<rparr>) (map (\<lambda>c. (c_head c, 0)) cs) = Some (vw_memory w', q')"
    "vw_irq w' = (if cs \<noteq> [] \<and> snd (notification_needed (vw_memory w') q') then irq_raise INT_VRING (vw_irq w) else vw_irq w)"
    using process_tx_eq [OF assms(3-10) [unfolded m_def q_def]] unfolding m_def q_def by metis
  moreover have "\<forall>c hdr payload. c_writable c = [] \<longrightarrow> list_all (buf_mapped m) (c_readable c) \<longrightarrow>
      view_at m (buf_addrs (c_readable c)) = hdr_encode hdr @ payload \<longrightarrow> unat (hdr_len hdr) = length payload \<longrightarrow>
      length payload \<le> MAX_PAYLOAD \<longrightarrow> read_tx m c = Some (hdr, payload)"
    using read_tx_packet [OF assms(4)] by blast
  ultimately show ?thesis unfolding handle_packets_fold by blast
qed

text \<open>A TX queue of four entries with two chains: the header of a connection request, and a RST for that connection.\<close>

definition demo_tx_bytes :: "(nat \<times> u8) list" where
  "demo_tx_bytes = [(1, 0x30), (3, 0x40), (8, 44), (17, 0x31), (19, 0x40), (24, 44), (0x1002, 2), (0x1006, 1),
     (0x3000, 3), (0x3008, 2), (0x3010, 0xe8), (0x3011, 3), (0x3014, 80), (0x301c, 1), (0x301e, 1), (0x3024, 64),
     (0x3100, 3), (0x3108, 2), (0x3110, 0xe8), (0x3111, 3), (0x3114, 80), (0x311c, 1), (0x311e, 3), (0x3124, 64)]"

definition demo_tx_memory :: guest_memory where
  "demo_tx_memory = demo_mem demo_tx_bytes"

definition demo_tx_chain :: "u16 \<Rightarrow> u64 \<Rightarrow> chain" where
  "demo_tx_chain head a = \<lparr>c_head = head, c_readable = [\<lparr>b_addr = a, b_len = 44\<rparr>], c_writable = []\<rparr>"

definition demo_tx_chains :: "chain list" where
  "demo_tx_chains = [demo_tx_chain 0 0x40003000, demo_tx_chain 1 0x40003100]"

definition demo_worker :: vsock_worker where
  "demo_worker = \<lparr>vw_muxer = muxer_new 3, vw_memory = demo_tx_memory, vw_irq = irq_new, vw_rx = None,
     vw_tx = Some \<lparr>bd_key = (4, 0x40000000, 0x40001000, 0x40002000), bd_queue = demo_queue\<rparr>\<rparr>"

lemma demo_tx_read:
  assumes "0x40000000 \<le> unat a" "unat a + n \<le> 0x40008000"
  shows "read_bytes demo_tx_memory a n =
    Inr (map (\<lambda>k. case map_of demo_tx_bytes (unat a - 0x40000000 + k) of None \<Rightarrow> 0 | Some b \<Rightarrow> b) [0..<n])"
  unfolding demo_tx_memory_def using assms by (rule demo_mem_read)

lemma demo_tx_chain_spec:
  assumes "desc_at demo_tx_memory 0x40000000 (unat head) = Some \<lparr>d_addr = a, d_len = 44, d_flags = 0, d_next = 0\<rparr>"
    and "unat head < 4" "0x40000000 \<le> unat a" "unat a + 44 \<le> 0x40008000"
  shows "chain_spec demo_tx_memory demo_queue head (demo_tx_chain head a)"
proof -
  let ?d = "\<lparr>d_addr = a, d_len = 44, d_flags = 0, d_next = 0\<rparr>"
  have sum: "unat (a + 43) = unat a + 43" using assms(4) by (intro trans [OF unat_add_no_overflow]) simp_all
  have "desc_ok demo_tx_memory ?d"
    using assms(3,4) sum by (simp add: desc_ok_def span_mapped_def checked_add_def read_u8_def demo_tx_read)
  with assms(1,2) have "chain_spec demo_tx_memory demo_queue head (chain_of head [?d])"
    by (intro chain_spec_single) (simp_all add: has_next_def is_indirect_def NEXT_def demo_queue_eq)
  moreover have "demo_tx_chain head a = chain_of head [?d]" by (simp add: demo_tx_chain_def chain_of_def buf_of_def is_write_def)
  ultimately show ?thesis by simp
qed

lemma demo_tx_published:
  "avail_idx demo_tx_memory demo_queue = Some 2" "published demo_tx_memory demo_queue 0 2 demo_tx_chains"
proof -
  show "avail_idx demo_tx_memory demo_queue = Some 2"
    by (simp add: avail_idx_def demo_queue_eq read_u16_def demo_tx_read upt_widths demo_tx_bytes_def)
  have "desc_at demo_tx_memory 0x40000000 (unat (0 :: u16)) = Some \<lparr>d_addr = 0x40003000, d_len = 44, d_flags = 0, d_next = 0\<rparr>"
    "desc_at demo_tx_memory 0x40000000 (unat (1 :: u16)) = Some \<lparr>d_addr = 0x40003100, d_len = 44, d_flags = 0, d_next = 0\<rparr>"
    by (simp_all add: desc_at_def read_u16_def read_u32_def read_u64_def demo_tx_read upt_widths demo_tx_bytes_def)
  then have "chain_spec demo_tx_memory demo_queue 0 (demo_tx_chain 0 0x40003000)"
    "chain_spec demo_tx_memory demo_queue 1 (demo_tx_chain 1 0x40003100)"
    by (auto intro!: demo_tx_chain_spec)
  moreover have "avail_entry demo_tx_memory demo_queue 0 = Some 0" "avail_entry demo_tx_memory demo_queue 1 = Some 1"
    by (simp_all add: avail_entry_def demo_queue_eq read_u16_def demo_tx_read upt_widths demo_tx_bytes_def)
  moreover have "c_head (demo_tx_chain h a) = h" for h a by (simp add: demo_tx_chain_def)
  ultimately show "published demo_tx_memory demo_queue 0 2 demo_tx_chains" by (simp add: demo_tx_chains_def)
qed

lemma demo_hdr_bytes: "hdr_encode (demo_guest_hdr op 1000) =
  [3, 0, 0, 0, 0, 0, 0, 0, 2, 0, 0, 0, 0, 0, 0, 0, 232, 3, 0, 0, 80, 0, 0, 0, 0, 0, 0, 0, 1, 0] @ to_le 2 op
    @ [0, 0, 0, 0, 64, 0, 0, 0, 0, 0, 0, 0]"
proof -
  have le: "to_le 8 (3 :: u64) = [3, 0, 0, 0, 0, 0, 0, 0]" "to_le 8 (2 :: u64) = [2, 0, 0, 0, 0, 0, 0, 0]"
    "to_le 4 (1000 :: u32) = [232, 3, 0, 0]" "to_le 4 (80 :: u32) = [80, 0, 0, 0]" "to_le 4 (0 :: u32) = [0, 0, 0, 0]"
    "to_le 2 (1 :: u16) = [1, 0]" "to_le 4 (64 :: u32) = [64, 0, 0, 0]"
    by code_simp+
  show ?thesis by (simp add: hdr_encode_def demo_guest_hdr_def hdr_default_def HOST_CID_def TYPE_STREAM_def le)
qed

lemma demo_tx_packet:
  assumes "0x40000000 \<le> unat a" "unat a + 44 \<le> 0x40008000"
    and "map (\<lambda>k. case map_of demo_tx_bytes (unat a - 0x40000000 + k) of None \<Rightarrow> 0 | Some b \<Rightarrow> b) [0..<44] =
      hdr_encode (demo_guest_hdr op 1000)"
  shows "view_at demo_tx_memory (buf_addrs (c_readable (demo_tx_chain h a))) = hdr_encode (demo_guest_hdr op 1000) @ []"
    and "list_all (buf_mapped demo_tx_memory) (c_readable (demo_tx_chain h a))"
proof -
  have rd: "read_bytes demo_tx_memory a 44 = Inr (hdr_encode (demo_guest_hdr op 1000))"
    using demo_tx_read [OF assms(1,2)] assms(3) by simp
  have inv: "mem_inv demo_tx_memory" by (simp add: demo_tx_memory_def demo_mem_inv)
  show "view_at demo_tx_memory (buf_addrs (c_readable (demo_tx_chain h a))) = hdr_encode (demo_guest_hdr op 1000) @ []"
    using read_bytes_view_at [OF inv rd] by (simp add: demo_tx_chain_def)
  show "list_all (buf_mapped demo_tx_memory) (c_readable (demo_tx_chain h a))" using rd by (simp add: demo_tx_chain_def buf_mapped_def)
qed

theorem vsock_tx_path_witness:
  "\<exists>w'. process_tx (\<lambda>_. \<lparr>ga_connects = (\<lambda>_. True), ga_writes = [], ga_shut_ok = True\<rparr>) demo_worker = Some w'
    \<and> Mapping.keys (mx_conns (vw_muxer w')) = {} \<and> map hdr_op (mx_control (vw_muxer w')) = [OP_RESPONSE]"
proof -
  let ?env = "\<lambda>_ :: nat. \<lparr>ga_connects = (\<lambda>_. True), ga_writes = [], ga_shut_ok = True\<rparr>"
  let ?bd = "\<lparr>bd_key = (4, 0x40000000, 0x40001000, 0x40002000), bd_queue = demo_queue\<rparr>"
  have w: "vw_tx demo_worker = Some ?bd" "vw_memory demo_worker = demo_tx_memory" "bd_queue ?bd = demo_queue" "vw_muxer demo_worker = muxer_new 3"
    by (simp_all add: demo_worker_def)
  have inv: "mem_inv demo_tx_memory" by (simp add: demo_tx_memory_def demo_mem_inv)
  have ring: "ring_mapped demo_tx_memory demo_queue" by (simp add: ring_mapped_def ring_end_def demo_queue_eq demo_tx_read)
  have out: "\<forall>c \<in> set demo_tx_chains. outside_ring demo_queue (buf_addrs (c_readable c))"
    by (simp add: demo_tx_chains_def demo_tx_chain_def outside_ring_def ring_end_def demo_queue_eq)
  from vsock_tx_path [OF w(1), unfolded w(2-4), OF inv demo_queue_inv ring demo_tx_published(1) _ out, where env = ?env] demo_tx_published(2)
  obtain w' where w': "process_tx ?env demo_worker = Some w'"
    "vw_muxer w' = fold (\<lambda>(i, hdr, payload). handle_guest (\<lambda>_. True) [] True hdr payload)
       (enumerate 0 (List.map_filter (read_tx demo_tx_memory) demo_tx_chains)) (muxer_new 3)"
    and tx: "\<And>c hdr payload. c_writable c = [] \<Longrightarrow> list_all (buf_mapped demo_tx_memory) (c_readable c) \<Longrightarrow>
         view_at demo_tx_memory (buf_addrs (c_readable c)) = hdr_encode hdr @ payload \<Longrightarrow> unat (hdr_len hdr) = length payload \<Longrightarrow>
         length payload \<le> MAX_PAYLOAD \<Longrightarrow> read_tx demo_tx_memory c = Some (hdr, payload)"
    by (auto simp: demo_queue_eq)
  have ops: "to_le 2 OP_REQUEST = [1, 0]" "to_le 2 OP_RST = [3, 0]" by code_simp+
  have bytes: "map (\<lambda>k. case map_of demo_tx_bytes (unat (0x40003000 :: u64) - 0x40000000 + k) of None \<Rightarrow> 0 | Some b \<Rightarrow> b) [0..<44] =
      hdr_encode (demo_guest_hdr OP_REQUEST 1000)"
    "map (\<lambda>k. case map_of demo_tx_bytes (unat (0x40003100 :: u64) - 0x40000000 + k) of None \<Rightarrow> 0 | Some b \<Rightarrow> b) [0..<44] =
      hdr_encode (demo_guest_hdr OP_RST 1000)"
    by (simp_all add: upt_conv_Cons demo_hdr_bytes ops demo_tx_bytes_def)
  have at: "0x40000000 \<le> unat (0x40003000 :: u64)" "unat (0x40003000 :: u64) + 44 \<le> 0x40008000"
    "0x40000000 \<le> unat (0x40003100 :: u64)" "unat (0x40003100 :: u64) + 44 \<le> 0x40008000" by simp_all
  have small: "c_writable (demo_tx_chain h a) = []" "unat (hdr_len (demo_guest_hdr op 1000)) = length ([] :: u8 list)"
    "length ([] :: u8 list) \<le> MAX_PAYLOAD" for h a op
    by (simp_all add: demo_tx_chain_def demo_guest_hdr_def hdr_default_def)
  note p = demo_tx_packet [OF at(1,2) bytes(1), of 0] demo_tx_packet [OF at(3,4) bytes(2), of 1]
  have "read_tx demo_tx_memory (demo_tx_chain 0 0x40003000) = Some (demo_guest_hdr OP_REQUEST 1000, [])"
    "read_tx demo_tx_memory (demo_tx_chain 1 0x40003100) = Some (demo_guest_hdr OP_RST 1000, [])"
    using tx [OF small(1) p(2) p(1) small(2,3)] tx [OF small(1) p(4) p(3) small(2,3)] .
  then have "vw_muxer w' = handle_guest (\<lambda>_. True) [] True (demo_guest_hdr OP_RST 1000) []
      (handle_guest (\<lambda>_. True) [] True (demo_guest_hdr OP_REQUEST 1000) [] (muxer_new 3))"
    using w'(2) by (simp add: map_filter_simps demo_tx_chains_def)
  then show ?thesis using w'(1) by (simp add: demo_muxer_defs)
qed

text \<open>
  C14. Packets for the guest arrive whole. When a chain with room for more than a header is next in the RX queue, its buffers
  are mapped, do not overlap and lie outside the used ring, and the connection table has a packet, a turn of the delivery
  loop takes exactly the packet \<open>next_rx\<close> returns, stores its header and payload in the buffers of the chain in order,
  completes that chain with the number of bytes stored, and changes no other byte outside the used ring.
\<close>

theorem vsock_rx_path:
  fixes c m q
  defines "as \<equiv> buf_addrs (c_writable c)"
  assumes "mem_inv m" "queue_inv q" "\<not> broken q" "ring_mapped m q" "avail_idx m q = Some idx" "published m q (last_avail q) idx (c # cs)"
    "c_readable c = []" "HDR_LEN < length as" "list_all (buf_mapped m) (c_writable c)" "distinct as" "outside_ring q as"
    "mux_reach cid mx" "has_rx mx"
  shows "\<exists>hdr payload mx' m'.
      next_rx (min (length as - HDR_LEN) MAX_PAYLOAD) now mx = (Some (hdr, payload), mx')
      \<and> rx_turn now mx m q = Some (True, mx', m', q\<lparr>last_avail := last_avail q + 1, used_idx := used_idx q + 1\<rparr>, True)
      \<and> map (mem_view m') (take (HDR_LEN + length payload) as) = map Some (hdr_encode hdr @ payload)
      \<and> (\<forall>a. a \<notin> set (take (HDR_LEN + length payload) as) \<longrightarrow> a < unat (sq_used q) + 2 \<or> ring_end q \<le> a \<longrightarrow> mem_view m' a = mem_view m a)
      \<and> used_elem m' q (used_slot q 0) = Some (ucast (c_head c), of_nat (HDR_LEN + length payload))
      \<and> used_index m' q = Some (used_idx q + 1)"
proof -
  let ?max = "min (length as - HDR_LEN) MAX_PAYLOAD" and ?q = "q\<lparr>last_avail := last_avail q + 1\<rparr>"
  have "0 < ?max" using assms(9) by (simp add: MAX_PAYLOAD_def)
  then have "fst (next_rx ?max now mx) \<noteq> None" using next_rx_none [OF mux_reach_inv [OF assms(13)]] assms(14) by blast
  then obtain hdr payload mx' where rx: "next_rx ?max now mx = (Some (hdr, payload), mx')" by (metis fst_conv option.exhaust surj_pair)
  then have len: "HDR_LEN + length payload \<le> length as" using next_rx_fits [of ?max now mx hdr payload] assms(9) by auto
  let ?as = "take (HDR_LEN + length payload) as"
  obtain m1 where m1: "write_rx m c hdr payload = (m1, of_nat (HDR_LEN + length payload))" "mem_inv m1" "layout m1 = layout m"
    "mem_view m1 = spread (mem_view m) ?as (hdr_encode hdr @ payload)"
    using write_rx_effect [OF assms(2,10), of payload hdr] len unfolding as_def by blast
  have q: "queue_inv ?q" "\<not> broken ?q" "c_head c < sq_size ?q" "ring_mapped m1 ?q"
    using assms(3-5) published_heads [OF assms(7)] read_ok_layout [OF m1(3)] by (simp_all add: queue_inv_def ring_mapped_def ring_end_def)
  obtain m' where m': "add_used m1 ?q (c_head c) (of_nat (HDR_LEN + length payload)) = Some (m', ?q\<lparr>used_idx := used_idx ?q + 1\<rparr>, True)"
    by (rule add_used_succeeds [OF m1(2) q])
  note eff = add_used_effect [OF m1(2) m'] and view = add_used_view [OF m1(2) m']
  have pop: "pop m q = Some (?q, Some c)" by (rule pop_published [OF assms(3,4,6,7)])
  have cap: "sum_list (map (\<lambda>b. unat (b_len b)) (c_writable c)) = length as" by (simp add: as_def length_buf_addrs)
  have turn: "rx_turn now mx m q = Some (True, mx', m', ?q\<lparr>used_idx := used_idx ?q + 1\<rparr>, True)"
    using assms(8,9) rx m1(1) m' by (simp add: rx_turn_def pop cap Let_def)
  have "map (mem_view m') ?as = map (mem_view m1) ?as"
  proof (rule map_cong [OF refl])
    fix a assume "a \<in> set ?as"
    then have "a \<in> set as" by (rule in_set_takeD)
    then show "mem_view m' a = mem_view m1 a" using assms(12) by (intro view) (auto simp: outside_ring_def ring_end_def)
  qed
  moreover have "map (mem_view m1) ?as = map Some (hdr_encode hdr @ payload)"
    unfolding m1(4) by (rule spread_read) (use assms(11) len in simp_all)
  ultimately have stored: "map (mem_view m') ?as = map Some (hdr_encode hdr @ payload)" by simp
  have "mem_view m' a = mem_view m a" if "a \<notin> set ?as" "a < unat (sq_used q) + 2 \<or> ring_end q \<le> a" for a
    using view [of a] that spread_outside [OF that(1)] by (simp add: m1(4) ring_end_def)
  moreover have "used_elem m' q (used_slot q 0) = Some (ucast (c_head c), of_nat (HDR_LEN + length payload))"
    "used_index m' q = Some (used_idx q + 1)"
    using eff(4,5) by simp_all
  ultimately show ?thesis using rx turn stored by auto
qed

text \<open>An RX queue of four entries with one writable buffer of 64 bytes.\<close>

definition demo_rx_memory :: guest_memory where
  "demo_rx_memory = demo_mem [(1, 0x30), (3, 0x40), (8, 64), (12, 2), (0x1002, 1)]"

definition demo_rx_chain :: chain where
  "demo_rx_chain = \<lparr>c_head = 0, c_readable = [], c_writable = [\<lparr>b_addr = 0x40003000, b_len = 64\<rparr>]\<rparr>"

lemmas demo_rx_read = demo_mem_read [of _ _ "[(1, 0x30), (3, 0x40), (8, 64), (12, 2), (0x1002, 1)]", folded demo_rx_memory_def]

lemma demo_rx_published:
  "avail_idx demo_rx_memory demo_queue = Some 1" "published demo_rx_memory demo_queue 0 1 [demo_rx_chain]"
proof -
  show "avail_idx demo_rx_memory demo_queue = Some 1"
    by (simp add: avail_idx_def demo_queue_eq read_u16_def demo_rx_read upt_widths)
  let ?d = "\<lparr>d_addr = 0x40003000, d_len = 64, d_flags = 2, d_next = 0\<rparr>"
  have "desc_at demo_rx_memory (sq_desc demo_queue) (unat (0 :: u16)) = Some ?d"
    by (simp add: desc_at_def demo_queue_eq read_u16_def read_u32_def read_u64_def demo_rx_read upt_widths)
  then have "chain_spec demo_rx_memory demo_queue 0 (chain_of 0 [?d])"
    by (rule chain_spec_single)
      (simp_all add: has_next_def is_indirect_def NEXT_def INDIRECT_def desc_ok_def span_mapped_def checked_add_def read_u8_def demo_rx_read demo_queue_eq)
  moreover have "demo_rx_chain = chain_of 0 [?d]"
    by (simp add: demo_rx_chain_def chain_of_def buf_of_def is_write_def WRITE_def)
  moreover have "avail_entry demo_rx_memory demo_queue 0 = Some 0"
    by (simp add: avail_entry_def demo_queue_eq read_u16_def demo_rx_read upt_widths)
  moreover have "c_head demo_rx_chain = 0" by (simp add: demo_rx_chain_def)
  ultimately show "published demo_rx_memory demo_queue 0 1 [demo_rx_chain]" by (intro published_single) simp_all
qed

theorem vsock_rx_path_witness:
  "\<exists>mx' m' q'. rx_turn 0 demo_muxer demo_rx_memory demo_queue = Some (True, mx', m', q', True) \<and> used_index m' demo_queue = Some 1"
proof -
  let ?as = "buf_addrs (c_writable demo_rx_chain)"
  have inv: "mem_inv demo_rx_memory" by (simp add: demo_rx_memory_def demo_mem_inv)
  have ring: "ring_mapped demo_rx_memory demo_queue" by (simp add: ring_mapped_def ring_end_def demo_queue_eq demo_rx_read)
  have pub: "published demo_rx_memory demo_queue (last_avail demo_queue) 1 [demo_rx_chain]"
    using demo_rx_published(2) by (simp add: demo_queue_eq)
  have c: "c_readable demo_rx_chain = []" "HDR_LEN < length ?as" "list_all (buf_mapped demo_rx_memory) (c_writable demo_rx_chain)"
    "distinct ?as" "outside_ring demo_queue ?as"
    by (simp_all add: demo_rx_chain_def HDR_LEN_def buf_mapped_def demo_rx_read outside_ring_def ring_end_def demo_queue_eq)
  obtain d where d: "Mapping.lookup (mx_conns demo_muxer) (80, 1001) = Some d" "wants_rx d" using demo_muxer_state(4) by blast
  have "has_rx demo_muxer" using d by (auto simp: has_rx_def list_ex_iff ordered_keys_def demo_muxer_state(2))
  from vsock_rx_path [OF inv demo_queue_inv ring demo_rx_published(1) pub c demo_muxer_reach this, of 0]
  show ?thesis by (auto simp: demo_queue_eq)
qed

end
