(* ===== verification/Snapshot_Stack.thy ===== *)
theory Snapshot_Stack
  imports Snapshot_Delta
begin

text \<open>
  A disk made of a read-only base image and snapshot layers, newest last (\<open>ternvale-snapshot/src/stack.rs\<close>). Reads go
  through the layers from the newest to the base; writes copy a block into the newest layer. The layers of a stack are
  distinct files.
\<close>

section \<open>The stack\<close>

record stack_manifest =
  man_base :: string
  man_deltas :: "string list"

record image_stack =
  st_base :: "u8 list"
  st_layers :: "delta_layer list"
  st_virtual_size :: u64
  st_read_only :: bool

text \<open>The block size of a stack is always \<open>DEFAULT_BLOCK_SIZE\<close>.\<close>

definition BS :: nat where "BS = unat DEFAULT_BLOCK_SIZE"

definition BS64 :: u64 where "BS64 = ucast DEFAULT_BLOCK_SIZE"

text \<open>\<open>fs\<close> is the contents of the host's files, \<open>fl\<close> the calls that fail, by path.\<close>

fun open_layers ::
  "(string \<Rightarrow> faults) \<Rightarrow> (string \<Rightarrow> u8 list option) \<Rightarrow> bool \<Rightarrow> nat \<Rightarrow> u64 \<Rightarrow> nat \<Rightarrow> string list \<Rightarrow> snapshot_error + delta_layer list"
where
  "open_layers fl fs read_only layers virtual_size index [] = Inr []"
| "open_layers fl fs read_only layers virtual_size index (p # ps) =
     (let writable = (\<not> read_only \<and> index + 1 = layers) in
      case layer_open (fl p) (fs p) writable of
        Inl err \<Rightarrow> Inl err
      | Inr l \<Rightarrow>
          if dh_virtual_size (dl_header l) \<noteq> virtual_size then Inl (InvalidManifest ''delta virtual_size != base'')
          else case open_layers fl fs read_only layers virtual_size (index + 1) ps of
            Inl err \<Rightarrow> Inl err
          | Inr ls \<Rightarrow> Inr (l # ls))"

definition open_manifest ::
  "(string \<Rightarrow> faults) \<Rightarrow> (string \<Rightarrow> u8 list option) \<Rightarrow> stack_manifest \<Rightarrow> bool \<Rightarrow> snapshot_error + image_stack" where
  "open_manifest fl fs man read_only =
     (case (fl (man_base man) OpenFile, fs (man_base man), fl (man_base man) StatFile) of
        (None, Some base, None) \<Rightarrow>
          (let base_len = of_nat (length base) :: u64; virtual_size = base_len - base_len mod BS64 in
           case open_layers fl fs read_only (length (man_deltas man)) virtual_size 0 (man_deltas man) of
             Inl err \<Rightarrow> Inl err
           | Inr ls \<Rightarrow> Inr \<lparr>st_base = base, st_layers = ls, st_virtual_size = virtual_size, st_read_only = read_only\<rparr>)
      | _ \<Rightarrow> Inl Io)"

section \<open>Reading\<close>

datatype io_error = InvalidInput string | PermissionDenied string | OtherError snapshot_error | BaseFailed

definition chunk_until_block_end :: "u64 \<Rightarrow> nat" where
  "chunk_until_block_end off =
     (let block_start = off div BS64 * BS64; block_end = block_start + BS64 in unat (min (block_end - off) BS64))"

text \<open>A block buffer of the stack after a layer stored its own block at the start.\<close>

definition in_buffer :: "u8 list \<Rightarrow> u8 list" where
  "in_buffer data = data @ replicate (BS - length data) 0"

fun newest_block :: "faults \<Rightarrow> delta_layer list \<Rightarrow> u64 \<Rightarrow> snapshot_error + u8 list option" where
  "newest_block fl [] i = Inr None"
| "newest_block fl (l # ls) i =
     (if has_block l i then
        (case read_block fl l i BS of Inl err \<Rightarrow> Inl err | Inr data \<Rightarrow> Inr (Some (in_buffer data)))
      else newest_block fl ls i)"

definition read_block_resolved_below :: "faults \<Rightarrow> image_stack \<Rightarrow> nat \<Rightarrow> u64 \<Rightarrow> snapshot_error + u8 list option" where
  "read_block_resolved_below fl st below i =
     newest_block fl (rev (take (min below (length (st_layers st))) (st_layers st))) i"

definition read_block_resolved :: "faults \<Rightarrow> image_stack \<Rightarrow> u64 \<Rightarrow> snapshot_error + u8 list option" where
  "read_block_resolved fl st i = read_block_resolved_below fl st (length (st_layers st)) i"

text \<open>The loop of \<open>read_base\<close> reads until the buffer is full, a read fails or the file ends; then the rest is zero.\<close>

definition read_base :: "faults \<Rightarrow> image_stack \<Rightarrow> nat \<Rightarrow> u64 \<Rightarrow> io_error + u8 list" where
  "read_base fl st len off =
     (if st_virtual_size st < saturating_add off (of_nat len) then Inl (InvalidInput ''read past end'')
      else if fl ReadBase \<noteq> None then Inl BaseFailed
      else let got = take len (drop (unat off) (st_base st)) in Inr (got @ replicate (len - length got) 0))"

definition read_span :: "faults \<Rightarrow> image_stack \<Rightarrow> nat \<Rightarrow> u64 \<Rightarrow> io_error + u8 list" where
  "read_span fl st len off =
     (let block_index = off div BS64; within = unat (off mod BS64) in
      if within = 0 \<and> len = BS then
        (case read_block_resolved fl st block_index of
           Inl err \<Rightarrow> Inl (OtherError err)
         | Inr (Some data) \<Rightarrow> Inr data
         | Inr None \<Rightarrow> read_base fl st len off)
      else
        (case read_block_resolved fl st block_index of
           Inl err \<Rightarrow> Inl (OtherError err)
         | Inr (Some data) \<Rightarrow> Inr (take len (drop within data))
         | Inr None \<Rightarrow>
             (case read_base fl st BS (block_index * BS64) of
                Inl err \<Rightarrow> Inl err
              | Inr block \<Rightarrow> Inr (take len (drop within block)))))"

lemma BS_facts: "BS = 65536" "BS64 = 65536" "unat BS64 = BS" "0 < BS"
  by (simp_all add: BS_def BS64_def DEFAULT_BLOCK_SIZE_def)

lemma chunk_until_block_end_nat: "chunk_until_block_end off = BS - unat off mod BS"
proof -
  have le: "off div BS64 * BS64 = off - off mod BS64"
    by (simp add: minus_mod_eq_div_mult)
  have d: "off div BS64 * BS64 + BS64 - off = BS64 - off mod BS64" unfolding le by simp
  have "off mod BS64 \<le> BS64" by (simp add: word_le_nat_alt unat_mod BS_facts)
  then have u: "unat (BS64 - off mod BS64) = BS - unat off mod BS" by (simp add: unat_sub unat_mod BS_facts)
  have m: "min (BS64 - off mod BS64) BS64 = BS64 - off mod BS64"
    by (rule min_absorb1) (use u in \<open>simp add: word_le_nat_alt BS_facts(3)\<close>)
  show ?thesis unfolding chunk_until_block_end_def Let_def d m u ..
qed

lemma chunk_pos: "0 < chunk_until_block_end off"
  using mod_less_divisor [OF BS_facts(4), of "unat off"] by (simp add: chunk_until_block_end_nat)

function read_spans :: "faults \<Rightarrow> image_stack \<Rightarrow> nat \<Rightarrow> u64 \<Rightarrow> io_error + u8 list" where
  "read_spans fl st n off =
     (if n = 0 then Inr []
      else
        let chunk = min n (chunk_until_block_end off) in
        case read_span fl st chunk off of
          Inl err \<Rightarrow> Inl err
        | Inr bytes \<Rightarrow>
            (case read_spans fl st (n - chunk) (off + of_nat chunk) of
               Inl err \<Rightarrow> Inl err
             | Inr rest \<Rightarrow> Inr (bytes @ rest)))"
  by pat_completeness auto
termination
  by (relation "measure (\<lambda>(_, _, n, _). n)") (use chunk_pos in auto)

declare read_spans.simps [simp del]

definition stack_read_at :: "faults \<Rightarrow> image_stack \<Rightarrow> nat \<Rightarrow> u64 \<Rightarrow> io_error + u8 list" where
  "stack_read_at fl st len offset =
     (if st_virtual_size st < saturating_add offset (of_nat len) then Inl (InvalidInput ''read past end'')
      else read_spans fl st len offset)"

section \<open>Writing\<close>

definition read_block_for_cow :: "faults \<Rightarrow> image_stack \<Rightarrow> nat \<Rightarrow> u64 \<Rightarrow> snapshot_error + u8 list" where
  "read_block_for_cow fl st t i =
     (if has_block (st_layers st ! t) i then
        (case read_block fl (st_layers st ! t) i BS of Inl err \<Rightarrow> Inl err | Inr data \<Rightarrow> Inr (in_buffer data))
      else
        (case read_block_resolved_below fl st t i of
           Inl err \<Rightarrow> Inl err
         | Inr (Some data) \<Rightarrow> Inr data
         | Inr None \<Rightarrow> (case read_base fl st BS (i * BS64) of Inl _ \<Rightarrow> Inl Io | Inr block \<Rightarrow> Inr block)))"

definition write_span :: "faults \<Rightarrow> image_stack \<Rightarrow> nat \<Rightarrow> u8 list \<Rightarrow> u64 \<Rightarrow> (io_error + unit) \<times> image_stack" where
  "write_span fl st t buf off =
     (let block_index = off div BS64; within = unat (off mod BS64) in
      case read_block_for_cow fl st t block_index of
        Inl err \<Rightarrow> (Inl (OtherError err), st)
      | Inr block \<Rightarrow>
          (case write_block fl (st_layers st ! t) block_index
                  (take within block @ buf @ drop (within + length buf) block) of
             (r, l) \<Rightarrow> (map_sum OtherError id r, st\<lparr>st_layers := (st_layers st)[t := l]\<rparr>)))"

function write_spans :: "faults \<Rightarrow> image_stack \<Rightarrow> nat \<Rightarrow> u8 list \<Rightarrow> u64 \<Rightarrow> (io_error + unit) \<times> image_stack" where
  "write_spans fl st t buf off =
     (if buf = [] then (Inr (), st)
      else
        let chunk = min (length buf) (chunk_until_block_end off) in
        case write_span fl st t (take chunk buf) off of
          (Inl err, st) \<Rightarrow> (Inl err, st)
        | (Inr _, st) \<Rightarrow> write_spans fl st t (drop chunk buf) (off + of_nat chunk))"
  by pat_completeness auto
termination
  by (relation "measure (\<lambda>(_, _, _, buf, _). length buf)") (use chunk_pos in auto)

declare write_spans.simps [simp del]

definition stack_write_at :: "faults \<Rightarrow> image_stack \<Rightarrow> u8 list \<Rightarrow> u64 \<Rightarrow> (io_error + unit) \<times> image_stack" where
  "stack_write_at fl st buf offset =
     (if st_read_only st then (Inl (PermissionDenied ''read-only stack''), st)
      else if st_virtual_size st < saturating_add offset (of_nat (length buf)) then (Inl (InvalidInput ''write past end''), st)
      else if st_layers st = [] then (Inl (PermissionDenied ''stack has no writable delta layer''), st)
      else write_spans fl st (length (st_layers st) - 1) buf offset)"

section \<open>The disk a stack shows\<close>

fun newest :: "delta_layer list \<Rightarrow> nat \<Rightarrow> u8 list option" where
  "newest [] n = None"
| "newest (l # ls) n = (case packed_read (packed_of l) n of Some d \<Rightarrow> Some d | None \<Rightarrow> newest ls n)"

definition block_at :: "image_stack \<Rightarrow> nat \<Rightarrow> u8 list" where
  "block_at st n =
     (case newest (rev (st_layers st)) n of Some d \<Rightarrow> d | None \<Rightarrow> take BS (drop (n * BS) (st_base st)))"

definition byte_at :: "image_stack \<Rightarrow> nat \<Rightarrow> u8" where
  "byte_at st a = block_at st (a div BS) ! (a mod BS)"

definition disk :: "image_stack \<Rightarrow> u8 list" where
  "disk st = map (byte_at st) [0..<unat (st_virtual_size st)]"

definition layer_fits :: "nat \<Rightarrow> delta_layer \<Rightarrow> bool" where
  "layer_fits n l \<longleftrightarrow> delta_inv l \<and> bsize l = BS \<and> nblocks l = n div BS"

definition stack_inv :: "image_stack \<Rightarrow> bool" where
  "stack_inv st \<longleftrightarrow>
     unat (st_virtual_size st) \<le> 2 ^ 63 \<and> BS dvd unat (st_virtual_size st)
     \<and> unat (st_virtual_size st) \<le> length (st_base st)
     \<and> (\<forall>l \<in> set (st_layers st). layer_fits (unat (st_virtual_size st)) l)
     \<and> (\<not> st_read_only st \<longrightarrow> st_layers st \<noteq> [] \<longrightarrow> dl_writable (last (st_layers st)))"

lemma packed_block_length:
  assumes "delta_inv l" "packed_read (packed_of l) n = Some d"
  shows "length d = bsize l" "n \<in> blocks_in l"
proof -
  show n: "n \<in> blocks_in l" using assms(2) by (simp add: packed_of_def split: if_splits)
  then have r: "rank_of (blocks_in l) n < card (blocks_in l)" by (intro rank_of_less) auto
  then have "d = slot_at l (rank_of (blocks_in l) n)" using n assms(2) by (simp add: packed_of_def)
  then show "length d = bsize l" using read_slot [OF assms(1) r] by (simp add: read_exact_at_length)
qed

lemma newest_block_view:
  assumes "\<forall>l \<in> set ls. layer_fits n l"
  shows "newest_block no_faults ls i = Inr (newest ls (unat i))"
  using assms
proof (induction ls)
  case (Cons l ls)
  have l: "delta_inv l" "bsize l = BS" using Cons.prems by (simp_all add: layer_fits_def)
  have h: "has_block l i \<longleftrightarrow> packed_read (packed_of l) (unat i) \<noteq> None"
    by (simp add: has_block_def bitmap_test_allocated packed_of_def)
  show ?case
  proof (cases "packed_read (packed_of l) (unat i)")
    case None
    then show ?thesis using h Cons by simp
  next
    case (Some d)
    then have "in_buffer d = d" using packed_block_length(1) [OF l(1) Some] l(2) by (simp add: in_buffer_def)
    then show ?thesis using h Some read_block_refines [OF l(1), of BS i] l(2) by simp
  qed
qed simp

lemma newest_length:
  assumes "\<forall>l \<in> set ls. layer_fits n l" "newest ls k = Some d"
  shows "length d = BS"
  using assms
proof (induction ls)
  case (Cons l ls)
  then show ?case
    by (auto simp: layer_fits_def dest: packed_block_length split: option.splits)
qed simp

lemma block_at_length:
  assumes "stack_inv st" "n < unat (st_virtual_size st) div BS"
  shows "length (block_at st n) = BS"
proof -
  have "Suc n * BS \<le> unat (st_virtual_size st) div BS * BS" using assms(2) by (intro mult_le_mono1) simp
  also have "\<dots> \<le> length (st_base st)" using assms(1) by (simp add: stack_inv_def)
  finally show ?thesis
    using assms(1) newest_length [of "rev (st_layers st)" "unat (st_virtual_size st)" n]
    by (auto simp: block_at_def stack_inv_def split: option.split)
qed

lemma block_range:
  assumes "stack_inv st" "unat off < unat (st_virtual_size st)"
  shows "unat (off div BS64) = unat off div BS" "unat off div BS < unat (st_virtual_size st) div BS"
    "unat (off div BS64 * BS64) = unat off div BS * BS"
proof -
  show u: "unat (off div BS64) = unat off div BS" by (simp add: unat_div BS_facts)
  have "unat (st_virtual_size st) = unat (st_virtual_size st) div BS * BS" using assms(1) by (simp add: stack_inv_def)
  then show "unat off div BS < unat (st_virtual_size st) div BS"
    using assms(2) by (metis less_mult_imp_div_less)
  have "unat off div BS * BS \<le> unat off" by simp
  also have "unat off < 2 ^ 64" using unsigned_less [of off, where 'a = nat] by simp
  finally show "unat (off div BS64 * BS64) = unat off div BS * BS"
    using u BS_facts(3) by (simp add: unat_word_ariths)
qed

lemma base_block:
  assumes "stack_inv st" "n < unat (st_virtual_size st) div BS" "unat i = n"
  shows "read_base no_faults st BS (i * BS64) = Inr (take BS (drop (n * BS) (st_base st)))"
proof -
  have "Suc n * BS \<le> unat (st_virtual_size st) div BS * BS" using assms(2) by (intro mult_le_mono1) simp
  also have "\<dots> = unat (st_virtual_size st)" using assms(1) by (simp add: stack_inv_def)
  finally have le: "n * BS + BS \<le> unat (st_virtual_size st)" by simp
  have vs: "unat (st_virtual_size st) \<le> 2 ^ 63" "unat (st_virtual_size st) \<le> length (st_base st)"
    using assms(1) by (simp_all add: stack_inv_def)
  have "n * BS < 2 ^ 64" using le vs(1) by simp
  then have u: "unat (i * BS64) = n * BS" using assms(3) BS_facts(3) by (simp add: unat_word_ariths)
  have "unat (of_nat BS :: u64) = BS" by (simp add: BS_facts)
  then have "\<not> st_virtual_size st < saturating_add (i * BS64) (of_nat BS)"
    using le vs(1) u by (simp add: word_less_nat_alt unat_saturating_add)
  then show ?thesis using le vs(2) u by (simp add: read_base_def Let_def)
qed

lemma resolved_block:
  assumes "stack_inv st" "unat off < unat (st_virtual_size st)"
  shows "read_block_resolved no_faults st (off div BS64) = Inr (newest (rev (st_layers st)) (unat off div BS))"
  using assms newest_block_view [of "rev (st_layers st)" "unat (st_virtual_size st)" "off div BS64"] block_range(1) [OF assms]
  by (simp add: read_block_resolved_def read_block_resolved_below_def stack_inv_def)

lemma read_span_view:
  assumes "stack_inv st" "0 < len" "unat off + len \<le> unat (st_virtual_size st)" "len \<le> chunk_until_block_end off"
  shows "read_span no_faults st len off = Inr (take len (drop (unat off mod BS) (block_at st (unat off div BS))))"
proof -
  have off: "unat off < unat (st_virtual_size st)" using assms(2,3) by linarith
  note range = block_range [OF assms(1) off]
  note base = base_block [OF assms(1) range(2,1)] and res = resolved_block [OF assms(1) off]
  have w: "unat (off mod BS64) = unat off mod BS" by (simp add: unat_mod BS_facts)
  have whole: "off = off div BS64 * BS64" if "unat off mod BS = 0"
    using that range(3) by (metis div_mult_mod_eq add_0_right word_unat_eq_iff)
  show ?thesis
  proof (cases "newest (rev (st_layers st)) (unat off div BS)")
    case None
    then show ?thesis
      using base whole by (auto simp: read_span_def Let_def res w block_at_def)
  next
    case (Some d)
    then have "length d = BS"
      using newest_length [of "rev (st_layers st)" "unat (st_virtual_size st)"] assms(1) by (auto simp: stack_inv_def)
    then show ?thesis using Some by (auto simp: read_span_def Let_def res w block_at_def)
  qed
qed

lemma unat_advance:
  fixes off :: u64
  assumes "unat off + n \<le> 2 ^ 63"
  shows "unat (off + of_nat n) = unat off + n"
proof -
  have "unat (of_nat n :: u64) = n" using assms by (intro unat_of_nat_small) simp
  then show ?thesis using assms by (simp add: unat_add_no_overflow)
qed

lemma block_shift:
  fixes a k m :: nat
  assumes "a mod m + k < m"
  shows "(a + k) div m = a div m" "(a + k) mod m = a mod m + k"
proof -
  have "a + k = a mod m + k + a div m * m" using div_mult_mod_eq [of a m] by linarith
  moreover have "(x + q * m) div m = q \<and> (x + q * m) mod m = x" if "x < m" for x q using that by simp
  ultimately show "(a + k) div m = a div m" "(a + k) mod m = a mod m + k" using assms by metis+
qed

text \<open>The bytes of one block, from any of its addresses on.\<close>

lemma block_slice:
  assumes "a mod BS + n \<le> BS" "length (block_at st (a div BS)) = BS"
  shows "take n (drop (a mod BS) (block_at st (a div BS))) = map (byte_at st) [a..<a + n]"
proof (rule nth_equalityI)
  show "length (take n (drop (a mod BS) (block_at st (a div BS)))) = length (map (byte_at st) [a..<a + n])"
    using assms by simp
  fix k assume "k < length (take n (drop (a mod BS) (block_at st (a div BS))))"
  then have k: "a mod BS + k < BS" "k < n" using assms by auto
  show "take n (drop (a mod BS) (block_at st (a div BS))) ! k = map (byte_at st) [a..<a + n] ! k"
    using k assms by (simp add: byte_at_def block_shift)
qed

lemma read_spans_view:
  assumes "stack_inv st" "unat off + n \<le> unat (st_virtual_size st)"
  shows "read_spans no_faults st n off = Inr (map (byte_at st) [unat off..<unat off + n])"
  using assms
proof (induction n arbitrary: off rule: less_induct)
  case (less n)
  show ?case
  proof (cases "n = 0")
    case True
    then show ?thesis by (simp add: read_spans.simps)
  next
    case False
    define c where "c = min n (chunk_until_block_end off)"
    have c: "0 < c" "c \<le> n" "c \<le> chunk_until_block_end off" using False chunk_pos by (simp_all add: c_def)
    have vs: "unat (st_virtual_size st) \<le> 2 ^ 63" using less.prems(1) by (simp add: stack_inv_def)
    have w: "unat off mod BS + c \<le> BS" using c(3) mod_less_divisor [OF BS_facts(4), of "unat off"] by (simp add: chunk_until_block_end_nat)
    have lt: "unat off < unat (st_virtual_size st)" using less.prems(2) c(1,2) by linarith
    have "read_span no_faults st c off = Inr (map (byte_at st) [unat off..<unat off + c])"
      using less.prems c block_slice [OF w block_at_length [OF less.prems(1) block_range(2) [OF less.prems(1) lt]]]
      by (simp add: read_span_view)
    moreover have adv: "unat (off + of_nat c) = unat off + c" using less.prems(2) c(2) vs by (intro unat_advance) linarith
    moreover have "read_spans no_faults st (n - c) (off + of_nat c) =
        Inr (map (byte_at st) [unat off + c..<unat off + n])"
      using less.IH [of "n - c" "off + of_nat c"] less.prems c adv by simp
    moreover have "[unat off..<unat off + n] = [unat off..<unat off + c] @ [unat off + c..<unat off + n]"
      using c(2) by (metis le_add_diff_inverse upt_add_eq_append le_add1 add.assoc)
    ultimately show ?thesis using False by (subst read_spans.simps) (simp add: Let_def flip: c_def)
  qed
qed

lemma disk_slice: "a + n \<le> unat (st_virtual_size st) \<Longrightarrow> take n (drop a (disk st)) = map (byte_at st) [a..<a + n]"
  by (auto simp: disk_def drop_map take_map intro!: nth_equalityI)

lemma stack_read_at_disk:
  assumes "stack_inv st" "unat off + n \<le> unat (st_virtual_size st)"
  shows "stack_read_at no_faults st n off = Inr (take n (drop (unat off) (disk st)))"
proof -
  have vs: "unat (st_virtual_size st) \<le> 2 ^ 63" using assms(1) by (simp add: stack_inv_def)
  have "unat (of_nat n :: u64) = n" using assms(2) vs by (intro unat_of_nat_small) simp
  then have "\<not> st_virtual_size st < saturating_add off (of_nat n)"
    using assms(2) vs by (simp add: word_less_nat_alt unat_saturating_add)
  then show ?thesis using read_spans_view [OF assms] disk_slice [OF assms(2)] by (simp add: stack_read_at_def)
qed

section \<open>Writing to the disk\<close>

text \<open>A block the newest layer can take: it holds it already, or it is above all it holds.\<close>

definition takes_block :: "image_stack \<Rightarrow> nat \<Rightarrow> bool" where
  "takes_block st n \<longleftrightarrow> n \<in> blocks_in (last (st_layers st)) \<or> (\<forall>m \<in> blocks_in (last (st_layers st)). m < n)"

lemma packed_write_map:
  assumes "delta_inv l" "n \<in> blocks_in l \<or> (\<forall>m \<in> blocks_in l. m < n)"
  shows "packed_read (packed_write n d (packed_of l)) k = (if k = n then Some d else packed_read (packed_of l) k)"
proof (cases "n \<in> blocks_in l")
  case True
  then have r: "rank_of (blocks_in l) n < card (blocks_in l)" by (intro rank_of_less) auto
  have "k \<in> blocks_in l \<Longrightarrow> k \<noteq> n \<Longrightarrow> rank_of (blocks_in l) k \<noteq> rank_of (blocks_in l) n"
    using True rank_of_inj by blast
  then show ?thesis using True r by (auto simp: packed_of_def)
next
  case False
  then have above: "\<forall>m \<in> blocks_in l. m < n" using assms(2) by blast
  then have "rank_of (blocks_in l) n = card (blocks_in l)" by (intro rank_of_above) blast
  moreover have "rank_of (blocks_in l) k < card (blocks_in l)" if "k \<in> blocks_in l"
    using that by (intro rank_of_less) auto
  ultimately show ?thesis
    using False above by (auto simp: packed_of_def rank_of_insert nth_append)
qed

lemma cow_block:
  assumes "stack_inv st" "st_layers st \<noteq> []" "unat i < unat (st_virtual_size st) div BS"
  shows "read_block_for_cow no_faults st (length (st_layers st) - 1) i = Inr (block_at st (unat i))"
proof -
  obtain ls l where st: "st_layers st = ls @ [l]" using assms(2) by (metis rev_exhaust)
  then have top: "st_layers st ! (length (st_layers st) - 1) = l" by (simp add: nth_append)
  have fits: "\<forall>k \<in> set (rev (st_layers st)). layer_fits (unat (st_virtual_size st)) k" using assms(1) by (simp add: stack_inv_def)
  then have l: "delta_inv l" "bsize l = BS" "\<forall>k \<in> set (rev ls). layer_fits (unat (st_virtual_size st)) k"
    by (simp_all add: st layer_fits_def)
  have h: "has_block l i \<longleftrightarrow> packed_read (packed_of l) (unat i) \<noteq> None"
    by (simp add: has_block_def bitmap_test_allocated packed_of_def)
  show ?thesis
  proof (cases "packed_read (packed_of l) (unat i)")
    case None
    have "read_block_resolved_below no_faults st (length (st_layers st) - 1) i = Inr (newest (rev ls) (unat i))"
      using newest_block_view [OF l(3)] by (simp add: read_block_resolved_below_def st)
    then show ?thesis
      using None h base_block [OF assms(1,3) refl] top
      by (simp add: read_block_for_cow_def block_at_def st split: option.split)
  next
    case (Some d)
    then have "in_buffer d = d" using packed_block_length(1) [OF l(1) Some] l(2) by (simp add: in_buffer_def)
    then show ?thesis
      using Some h read_block_refines [OF l(1), of BS i] l(2) top by (simp add: read_block_for_cow_def block_at_def st)
  qed
qed

text \<open>One span inside a block.\<close>

lemma write_span_block:
  fixes off :: u64
  defines "n \<equiv> unat off div BS"
  assumes inv: "stack_inv st" "\<not> st_read_only st" "st_layers st \<noteq> []"
    and buf: "buf \<noteq> []" "unat off + length buf \<le> unat (st_virtual_size st)" "length buf \<le> chunk_until_block_end off"
    and takes: "takes_block st n"
  obtains st' where "write_span no_faults st (length (st_layers st) - 1) buf off = (Inr (), st')" "stack_inv st'"
    "st_layers st' \<noteq> []" "length (st_layers st') = length (st_layers st)" "\<not> st_read_only st'" "st_virtual_size st' = st_virtual_size st"
    "blocks_in (last (st_layers st')) = insert n (blocks_in (last (st_layers st)))"
    "\<And>k. block_at st' k = (if k = n
        then take (unat off mod BS) (block_at st n) @ buf @ drop (unat off mod BS + length buf) (block_at st n) else block_at st k)"
proof -
  obtain ls l where st: "st_layers st = ls @ [l]" using inv(3) by (metis rev_exhaust)
  then have top: "st_layers st ! (length (st_layers st) - 1) = l" by (simp add: nth_append)
  have off: "unat off < unat (st_virtual_size st)" using buf(1,2) by (cases buf) simp_all
  note range = block_range [OF inv(1) off]
  have l: "delta_inv l" "bsize l = BS" "nblocks l = unat (st_virtual_size st) div BS" "dl_writable l"
    using inv by (simp_all add: stack_inv_def layer_fits_def st)
  define d where "d = take (unat off mod BS) (block_at st n) @ buf @ drop (unat off mod BS + length buf) (block_at st n)"
  have blk: "length (block_at st n) = BS" unfolding n_def by (rule block_at_length [OF inv(1) range(2)])
  have w: "unat off mod BS + length buf \<le> BS"
    using buf(3) mod_less_divisor [OF BS_facts(4), of "unat off"] by (simp add: chunk_until_block_end_nat)
  then have len: "length d = BS" using blk by (simp add: d_def)
  obtain l' where l': "write_block no_faults l (off div BS64) d = (Inr (), l')" "delta_inv l'"
    "packed_of l' = packed_write n d (packed_of l)" "dl_writable l'" "dl_header l' = dl_header l"
    using write_block_refines [OF l(1,4), of d "off div BS64"] len l(2,3) range(1,2) unfolding n_def
    by (metis order_refl take_all)
  let ?st = "st\<lparr>st_layers := ls @ [l']\<rparr>"
  have "read_block_for_cow no_faults st (length (st_layers st) - 1) (off div BS64) = Inr (block_at st n)"
    using cow_block [OF inv(1,3)] range(1,2) by (simp add: n_def)
  moreover have "unat (off mod BS64) = unat off mod BS" by (simp add: unat_mod BS_facts)
  ultimately have "write_span no_faults st (length (st_layers st) - 1) buf off = (Inr (), ?st)"
    using l'(1) top by (simp add: write_span_def Let_def st d_def)
  moreover have "stack_inv ?st"
    using inv l' l by (simp add: stack_inv_def layer_fits_def st bsize_def nblocks_def)
  moreover have "blocks_in l' = insert n (blocks_in l)"
  proof -
    have "blocks_in l' = fst (packed_of l')" by (simp add: packed_of_def)
    also have "\<dots> = insert n (blocks_in l)" unfolding l'(3) by (auto simp: packed_of_def)
    finally show ?thesis .
  qed
  moreover have "block_at ?st k = (if k = n then d else block_at st k)" for k
  proof -
    have "packed_read (packed_of l') k = (if k = n then Some d else packed_read (packed_of l) k)"
      unfolding l'(3) by (rule packed_write_map [OF l(1)]) (use takes in \<open>simp add: takes_block_def st\<close>)
    then show ?thesis by (simp add: block_at_def st split: option.split)
  qed
  ultimately show thesis using that [of ?st] inv(2) st unfolding d_def by simp
qed

text \<open>The bytes of a disk after \<open>buf\<close> is stored at \<open>a\<close>.\<close>

definition splice_at :: "nat \<Rightarrow> u8 list \<Rightarrow> u8 list \<Rightarrow> u8 list" where
  "splice_at a buf d = take a d @ buf @ drop (a + length buf) d"

lemma length_splice_at [simp]: "a + length buf \<le> length d \<Longrightarrow> length (splice_at a buf d) = length d"
  by (simp add: splice_at_def)

lemma nth_splice_at:
  assumes "a + length buf \<le> length d" "k < length d"
  shows "splice_at a buf d ! k = (if a \<le> k \<and> k < a + length buf then buf ! (k - a) else d ! k)"
  using assms by (auto simp: splice_at_def nth_append)

lemma splice_at_append:
  assumes "a + length xs + length ys \<le> length d"
  shows "splice_at (a + length xs) ys (splice_at a xs d) = splice_at a (xs @ ys) d"
  using assms by (auto simp: nth_splice_at nth_append intro!: nth_equalityI)

lemma length_disk [simp]: "length (disk st) = unat (st_virtual_size st)"
  by (simp add: disk_def)

lemma write_span_disk:
  fixes off :: u64
  assumes inv: "stack_inv st" "\<not> st_read_only st" "st_layers st \<noteq> []"
    and buf: "buf \<noteq> []" "unat off + length buf \<le> unat (st_virtual_size st)" "length buf \<le> chunk_until_block_end off"
    and takes: "takes_block st (unat off div BS)"
  obtains st' where "write_span no_faults st (length (st_layers st) - 1) buf off = (Inr (), st')" "stack_inv st'"
    "st_layers st' \<noteq> []" "length (st_layers st') = length (st_layers st)" "\<not> st_read_only st'" "st_virtual_size st' = st_virtual_size st"
    "blocks_in (last (st_layers st')) = insert (unat off div BS) (blocks_in (last (st_layers st)))"
    "disk st' = splice_at (unat off) buf (disk st)"
proof -
  let ?n = "unat off div BS" and ?w = "unat off mod BS"
  obtain st' where st': "write_span no_faults st (length (st_layers st) - 1) buf off = (Inr (), st')" "stack_inv st'"
    "st_layers st' \<noteq> []" "length (st_layers st') = length (st_layers st)" "\<not> st_read_only st'" "st_virtual_size st' = st_virtual_size st"
    "blocks_in (last (st_layers st')) = insert ?n (blocks_in (last (st_layers st)))"
    and blocks: "\<And>k. block_at st' k = (if k = ?n then take ?w (block_at st ?n) @ buf @ drop (?w + length buf) (block_at st ?n) else block_at st k)"
    using write_span_block [OF assms] by blast
  have off: "unat off < unat (st_virtual_size st)" using buf(1,2) by (cases buf) simp_all
  have blk: "length (block_at st ?n) = BS" by (rule block_at_length [OF inv(1) block_range(2) [OF inv(1) off]])
  have w: "?w + length buf \<le> BS"
    using buf(3) mod_less_divisor [OF BS_facts(4), of "unat off"] by (simp add: chunk_until_block_end_nat)
  have "byte_at st' a = (if unat off \<le> a \<and> a < unat off + length buf then buf ! (a - unat off) else byte_at st a)" for a
  proof (cases "a div BS = ?n")
    case True
    then have a: "a = a mod BS + ?n * BS" "a mod BS < BS" using BS_facts(4) by (simp_all flip: True)
    have o: "unat off = ?w + ?n * BS" by simp
    have "unat off \<le> a \<longleftrightarrow> ?w \<le> a mod BS" "a < unat off + length buf \<longleftrightarrow> a mod BS < ?w + length buf" "a - unat off = a mod BS - ?w"
      using a(1) o by linarith+
    then show ?thesis using True blk w a(2) by (auto simp: byte_at_def blocks nth_append)
  next
    case False
    have "\<not> (unat off \<le> a \<and> a < unat off + length buf)"
    proof
      assume "unat off \<le> a \<and> a < unat off + length buf"
      then obtain k where k: "a = unat off + k" "k < length buf" by (metis le_Suc_ex add_less_cancel_left)
      then have "?w + k < BS" using w by linarith
      then show False using False k(1) by (simp add: block_shift)
    qed
    then show ?thesis using False by (auto simp: byte_at_def blocks)
  qed
  then have "disk st' = splice_at (unat off) buf (disk st)"
    using buf(2) st'(6) by (auto simp: nth_splice_at disk_def intro!: nth_equalityI)
  with st' show thesis by (rule that)
qed

definition touched :: "nat \<Rightarrow> nat \<Rightarrow> nat set" where
  "touched a n = (\<lambda>j. (a + j) div BS) ` {..<n}"

lemma touched_first: "0 < n \<Longrightarrow> a div BS \<in> touched a n"
  unfolding touched_def by (rule image_eqI [of _ _ 0]) simp_all

lemma touched_rest: "c \<le> n \<Longrightarrow> touched (a + c) (n - c) \<subseteq> touched a n"
  unfolding touched_def by (auto simp: add.assoc intro!: image_eqI)

lemma touched_block:
  assumes "0 < c" "a mod BS + c \<le> BS"
  shows "touched a c = {a div BS}"
proof -
  have "(a + j) div BS = a div BS" if "j < c" for j using that assms(2) by (intro block_shift) simp
  then show ?thesis using assms(1) by (auto simp: touched_def)
qed

lemma touched_split: "c \<le> n \<Longrightarrow> touched a n = touched a c \<union> touched (a + c) (n - c)"
proof -
  assume "c \<le> n"
  then have "{..<n} = {..<c} \<union> (+) c ` {..<n - c}"
    unfolding lessThan_atLeast0 image_add_atLeastLessThan by auto
  then show ?thesis by (auto simp: touched_def image_Un image_image add.assoc)
qed

lemma write_spans_disk:
  assumes "stack_inv st" "\<not> st_read_only st" "st_layers st \<noteq> []" "unat off + length buf \<le> unat (st_virtual_size st)"
    and "\<forall>k \<in> touched (unat off) (length buf). takes_block st k"
  shows "\<exists>st'. write_spans no_faults st (length (st_layers st) - 1) buf off = (Inr (), st') \<and> stack_inv st'
    \<and> st_layers st' \<noteq> [] \<and> \<not> st_read_only st' \<and> st_virtual_size st' = st_virtual_size st
    \<and> blocks_in (last (st_layers st')) = blocks_in (last (st_layers st)) \<union> touched (unat off) (length buf)
    \<and> disk st' = splice_at (unat off) buf (disk st)"
  using assms
proof (induction "length buf" arbitrary: st off buf rule: less_induct)
  case less
  show ?case
  proof (cases "buf = []")
    case True
    then show ?thesis using less.prems by (simp add: write_spans.simps touched_def splice_at_def)
  next
    case False
    define c where "c = min (length buf) (chunk_until_block_end off)"
    have c: "0 < c" "c \<le> length buf" "c \<le> chunk_until_block_end off" using False chunk_pos by (simp_all add: c_def)
    have w: "unat off mod BS + c \<le> BS" using c(3) mod_less_divisor [OF BS_facts(4), of "unat off"] by (simp add: chunk_until_block_end_nat)
    have vs: "unat (st_virtual_size st) \<le> 2 ^ 63" using less.prems(1) by (simp add: stack_inv_def)
    have adv: "unat (off + of_nat c) = unat off + c" using less.prems(4) c(2) vs by (intro unat_advance) linarith
    have first: "takes_block st (unat off div BS)" using less.prems(5) touched_first [of "length buf"] False by simp
    obtain st1 where st1: "write_span no_faults st (length (st_layers st) - 1) (take c buf) off = (Inr (), st1)" "stack_inv st1"
      "st_layers st1 \<noteq> []" "length (st_layers st1) = length (st_layers st)" "\<not> st_read_only st1" "st_virtual_size st1 = st_virtual_size st"
      "blocks_in (last (st_layers st1)) = insert (unat off div BS) (blocks_in (last (st_layers st)))"
      "disk st1 = splice_at (unat off) (take c buf) (disk st)"
      by (rule write_span_disk [OF less.prems(1-3), of "take c buf" off]) (use less.prems(4) c first False in simp_all)
    have rest: "\<forall>k \<in> touched (unat off + c) (length buf - c). takes_block st1 k"
    proof
      fix k assume k: "k \<in> touched (unat off + c) (length buf - c)"
      then have "takes_block st k" using less.prems(5) touched_rest [OF c(2)] by blast
      moreover have "unat off div BS < k"
      proof -
        have "c < length buf" using k by (auto simp: touched_def)
        then have "c = BS - unat off mod BS" by (simp add: c_def chunk_until_block_end_nat min_def split: if_splits)
        then have "unat off + c = unat off div BS * BS + BS"
          using div_mult_mod_eq [of "unat off" BS] mod_less_divisor [OF BS_facts(4), of "unat off"] by linarith
        then have "unat off + c = Suc (unat off div BS) * BS" by simp
        moreover obtain j where "k = (unat off + c + j) div BS" using k by (auto simp: touched_def)
        ultimately have "k = (j + Suc (unat off div BS) * BS) div BS" by (simp add: add.commute)
        then have "k = Suc (unat off div BS) + j div BS" using BS_facts(4) by (simp only: div_mult_self1)
        then show ?thesis by simp
      qed
      ultimately show "takes_block st1 k" by (auto simp: takes_block_def st1(7))
    qed
    have shorter: "length (drop c buf) < length buf" using c(1,2) by simp
    have fits: "unat (off + of_nat c) + length (drop c buf) \<le> unat (st_virtual_size st1)"
      using adv c(2) less.prems(4) st1(6) by simp
    obtain st2 where st2: "write_spans no_faults st1 (length (st_layers st1) - 1) (drop c buf) (off + of_nat c) = (Inr (), st2)"
      "stack_inv st2" "st_layers st2 \<noteq> []" "\<not> st_read_only st2" "st_virtual_size st2 = st_virtual_size st1"
      "blocks_in (last (st_layers st2)) = blocks_in (last (st_layers st1)) \<union> touched (unat off + c) (length buf - c)"
      "disk st2 = splice_at (unat off + c) (drop c buf) (disk st1)"
      using less.hyps [OF shorter st1(2,5,3) fits] rest unfolding adv length_drop by blast
    have "write_spans no_faults st (length (st_layers st) - 1) buf off = (Inr (), st2)"
      using False st1(1,4) st2(1) by (subst write_spans.simps) (simp add: Let_def flip: c_def)
    moreover have "disk st2 = splice_at (unat off) buf (disk st)"
      unfolding st2(7) st1(8) using splice_at_append [of "unat off" "take c buf" "drop c buf" "disk st"] c(2) less.prems(4)
      by simp
    moreover have "blocks_in (last (st_layers st2)) = blocks_in (last (st_layers st)) \<union> touched (unat off) (length buf)"
      unfolding st2(6) st1(7) touched_split [OF c(2)] touched_block [OF c(1) w] by blast
    ultimately show ?thesis using st1(6) st2 by simp
  qed
qed

section \<open>Opening a stack\<close>

lemma write_block_header: "dl_header (snd (write_block fl l i data)) = dl_header l"
  by (simp add: write_block_def Let_def split: prod.split bool.split)

lemma layer_fits_after:
  assumes "unat vs \<le> 2 ^ 63" "\<forall>w \<in> set ws. write_ok vs w"
  shows "layer_fits (unat vs) (layer_after vs ws)" "dl_header (layer_after vs ws) = fresh_header vs"
    "blocks_in (layer_after vs ws) = unat ` fst ` set ws"
proof -
  note good = layer_after_good [OF assms]
  show "layer_fits (unat vs) (layer_after vs ws)" using good(1) by (simp add: layer_good_def layer_fits_def BS_facts)
  show "blocks_in (layer_after vs ws) = unat ` fst ` set ws"
    using good(2) packed_after_blocks(1) [of ws] by (metis fst_conv packed_of_def)
  have "dl_header (run layer_step l ws) = dl_header l" for l
    by (induction ws arbitrary: l) (simp_all add: layer_step_def write_block_header)
  then show "dl_header (layer_after vs ws) = fresh_header vs"
    using layer_created(5) [OF assms(1)] by (simp add: layer_after_def)
qed

text \<open>A file some layer left behind, after the writes \<open>ws\<close>.\<close>

definition delta_file :: "u64 \<Rightarrow> block_write list \<Rightarrow> u8 list \<Rightarrow> bool" where
  "delta_file vs ws f \<longleftrightarrow> (\<forall>w \<in> set ws. write_ok vs w) \<and> f = dl_file (layer_after vs ws)"

lemma open_layers_ok:
  assumes "unat vs \<le> 2 ^ 63" "BS dvd unat vs"
    and "\<forall>p \<in> set ps. \<exists>f. fs p = Some f \<and> delta_file vs (hist p) f" "length ps + index = layers"
  shows "\<exists>ls. open_layers (\<lambda>_. no_faults) fs False layers vs index ps = Inr ls \<and> (\<forall>l \<in> set ls. layer_fits (unat vs) l)
    \<and> length ls = length ps \<and> (ps \<noteq> [] \<longrightarrow> dl_writable (last ls) \<and> blocks_in (last ls) = unat ` fst ` set (hist (last ps)))"
  using assms(3,4)
proof (induction ps arbitrary: index)
  case (Cons p ps)
  let ?l = "layer_after vs (hist p)" and ?w = "index + 1 = layers"
  have p: "\<forall>w \<in> set (hist p). write_ok vs w" "fs p = Some (dl_file ?l)" using Cons.prems(1) by (auto simp: delta_file_def)
  note l = layer_fits_after [OF assms(1) p(1)]
  have o: "layer_open no_faults (fs p) ?w = Inr (?l\<lparr>dl_writable := ?w\<rparr>)"
    using l(1) layer_reopen p(2) by (simp add: layer_fits_def)
  have "vs - vs mod 65536 = vs"
  proof -
    have "unat (vs mod 65536) = 0" using assms(2) by (simp add: unat_mod BS_facts dvd_eq_mod_eq_0)
    then have "vs mod 65536 = 0" by (simp only: unat_eq_zero)
    then show ?thesis by simp
  qed
  then have v: "dh_virtual_size (dl_header ?l) = vs"
    by (simp add: l(2) fresh_header_def Let_def DEFAULT_BLOCK_SIZE_def)
  obtain ls where ls: "open_layers (\<lambda>_. no_faults) fs False layers vs (index + 1) ps = Inr ls"
    "\<forall>l \<in> set ls. layer_fits (unat vs) l" "length ls = length ps"
    "ps \<noteq> [] \<longrightarrow> dl_writable (last ls) \<and> blocks_in (last ls) = unat ` fst ` set (hist (last ps))"
    using Cons.IH [of "index + 1"] Cons.prems by auto
  have "layer_fits (unat vs) (?l\<lparr>dl_writable := ?w\<rparr>)"
    using l(1) by (simp add: layer_fits_def delta_inv_writable bsize_def nblocks_def)
  moreover have "ps = [] \<Longrightarrow> ?w" using Cons.prems(2) by simp
  ultimately show ?case using o v ls l(3) by (cases "ps = []") (auto simp: Let_def)
qed simp

lemma open_manifest_ok:
  assumes "fs (man_base man) = Some base" "length base \<le> 2 ^ 63" "unat vs = length base - length base mod BS"
    and "\<forall>p \<in> set (man_deltas man). \<exists>f. fs p = Some f \<and> delta_file vs (hist p) f" "man_deltas man \<noteq> []"
  obtains st where "open_manifest (\<lambda>_. no_faults) fs man False = Inr st" "stack_inv st" "\<not> st_read_only st" "st_layers st \<noteq> []"
    "st_virtual_size st = vs" "blocks_in (last (st_layers st)) = unat ` fst ` set (hist (last (man_deltas man)))"
proof -
  let ?n = "of_nat (length base) :: u64"
  have n: "unat ?n = length base" using assms(2) by (intro unat_of_nat_small) simp
  have "?n mod BS64 \<le> ?n" by (simp add: word_le_nat_alt unat_mod)
  then have "unat (?n - ?n mod BS64) = unat vs" using assms(3) n by (simp add: unat_sub unat_mod BS_facts(3))
  then have v: "?n - ?n mod BS64 = vs" by (simp add: word_unat_eq_iff)
  have "unat vs \<le> length base" "BS dvd unat vs" unfolding assms(3) by (simp_all add: minus_mod_eq_mult_div)
  then have vs: "unat vs \<le> 2 ^ 63" "BS dvd unat vs" "unat vs \<le> length base" using assms(2) by linarith+
  obtain ls where ls: "open_layers (\<lambda>_. no_faults) fs False (length (man_deltas man)) vs 0 (man_deltas man) = Inr ls"
    "\<forall>l \<in> set ls. layer_fits (unat vs) l" "length ls = length (man_deltas man)" "dl_writable (last ls)"
    "blocks_in (last ls) = unat ` fst ` set (hist (last (man_deltas man)))"
    using open_layers_ok [OF vs(1,2) assms(4), of 0] assms(5) by auto
  let ?st = "\<lparr>st_base = base, st_layers = ls, st_virtual_size = vs, st_read_only = False\<rparr>"
  have "open_manifest (\<lambda>_. no_faults) fs man False = Inr ?st"
    using assms(1) v ls(1) by (simp add: open_manifest_def Let_def)
  moreover have "stack_inv ?st" using vs ls by (simp add: stack_inv_def)
  moreover have "ls \<noteq> []" using ls(3) assms(5) by auto
  ultimately show thesis using that [of ?st] ls(5) by simp
qed

section \<open>Histories of a stack\<close>

type_synonym disk_write = "u64 \<times> u8 list"

definition stack_step :: "image_stack \<Rightarrow> disk_write \<Rightarrow> image_stack" where
  "stack_step st w = snd (stack_write_at no_faults st (snd w) (fst w))"

text \<open>
  Writes that lie on the disk and bring new blocks to the newest layer, which already holds the blocks \<open>B\<close>, in ascending
  order.
\<close>

fun in_order :: "nat \<Rightarrow> nat set \<Rightarrow> disk_write list \<Rightarrow> bool" where
  "in_order vs B [] \<longleftrightarrow> True"
| "in_order vs B ((off, buf) # ws) \<longleftrightarrow>
     unat off + length buf \<le> vs
     \<and> (\<forall>k \<in> touched (unat off) (length buf). k \<in> B \<or> (\<forall>m \<in> B. m < k))
     \<and> in_order vs (B \<union> touched (unat off) (length buf)) ws"

definition disk_after :: "u8 list \<Rightarrow> disk_write list \<Rightarrow> u8 list" where
  "disk_after d ws = foldl (\<lambda>d w. splice_at (unat (fst w)) (snd w) d) d ws"

lemma stack_write_at_disk:
  assumes "stack_inv st" "\<not> st_read_only st" "st_layers st \<noteq> []" "unat off + length buf \<le> unat (st_virtual_size st)"
    and "\<forall>k \<in> touched (unat off) (length buf). takes_block st k"
  shows "\<exists>st'. stack_write_at no_faults st buf off = (Inr (), st') \<and> stack_inv st'
    \<and> st_layers st' \<noteq> [] \<and> \<not> st_read_only st' \<and> st_virtual_size st' = st_virtual_size st
    \<and> blocks_in (last (st_layers st')) = blocks_in (last (st_layers st)) \<union> touched (unat off) (length buf)
    \<and> disk st' = splice_at (unat off) buf (disk st)"
proof -
  have vs: "unat (st_virtual_size st) \<le> 2 ^ 63" using assms(1) by (simp add: stack_inv_def)
  have "unat (of_nat (length buf) :: u64) = length buf" using assms(4) vs by (intro unat_of_nat_small) simp
  then have "\<not> st_virtual_size st < saturating_add off (of_nat (length buf))"
    using assms(4) vs by (simp add: word_less_nat_alt unat_saturating_add)
  then have "stack_write_at no_faults st buf off = write_spans no_faults st (length (st_layers st) - 1) buf off"
    using assms(2,3) by (simp add: stack_write_at_def)
  then show ?thesis using write_spans_disk [OF assms] by simp
qed

lemma stack_run_disk:
  assumes "stack_inv st" "\<not> st_read_only st" "st_layers st \<noteq> []"
    and "in_order (unat (st_virtual_size st)) (blocks_in (last (st_layers st))) ws"
  shows "stack_inv (run stack_step st ws) \<and> disk (run stack_step st ws) = disk_after (disk st) ws"
  using assms
proof (induction ws arbitrary: st)
  case (Cons w ws)
  obtain off buf where w: "w = (off, buf)" by (cases w)
  obtain st' where st': "stack_write_at no_faults st buf off = (Inr (), st')" "stack_inv st'" "st_layers st' \<noteq> []"
    "\<not> st_read_only st'" "st_virtual_size st' = st_virtual_size st"
    "blocks_in (last (st_layers st')) = blocks_in (last (st_layers st)) \<union> touched (unat off) (length buf)"
    "disk st' = splice_at (unat off) buf (disk st)"
    using stack_write_at_disk [OF Cons.prems(1-3), of off buf] Cons.prems(4) by (auto simp: w takes_block_def)
  then have "in_order (unat (st_virtual_size st')) (blocks_in (last (st_layers st'))) ws"
    using Cons.prems(4) by (simp add: w)
  with Cons.IH [OF st'(2,4,3)] show ?case by (simp add: stack_step_def w st' disk_after_def)
qed (simp add: disk_after_def)

text \<open>
  C13. A layered disk is the disk. Open a base image with any number of snapshot layers written earlier, and write to it
  in any sizes and at any places, as long as blocks new to the newest layer come in ascending order: then every read
  returns exactly the bytes of a plain disk that started with the stack's contents and took the same writes. Copying
  blocks, the search through the layers and the splitting at block boundaries are invisible.
\<close>

theorem snapshot_stack_disk:
  assumes "fs (man_base man) = Some base" "length base \<le> 2 ^ 63" "unat vs = length base - length base mod BS"
    and "\<forall>p \<in> set (man_deltas man). \<exists>f. fs p = Some f \<and> delta_file vs (hist p) f" "man_deltas man \<noteq> []"
    and "distinct (man_base man # man_deltas man)"
    and "in_order (unat vs) (unat ` fst ` set (hist (last (man_deltas man)))) ws" "unat off + n \<le> unat vs"
  shows "\<exists>st. open_manifest (\<lambda>_. no_faults) fs man False = Inr st \<and> length (disk st) = unat vs
    \<and> stack_read_at no_faults (run stack_step st ws) n off = Inr (take n (drop (unat off) (disk_after (disk st) ws)))"
proof -
  obtain st where st: "open_manifest (\<lambda>_. no_faults) fs man False = Inr st" "stack_inv st" "\<not> st_read_only st" "st_layers st \<noteq> []"
    "st_virtual_size st = vs" "blocks_in (last (st_layers st)) = unat ` fst ` set (hist (last (man_deltas man)))"
    by (rule open_manifest_ok [OF assms(1-5)])
  note r = stack_run_disk [OF st(2-4), of ws]
  have ord: "in_order (unat (st_virtual_size st)) (blocks_in (last (st_layers st))) ws" using assms(7) by (simp add: st)
  have "length (disk (run stack_step st ws)) = length (disk st)"
  proof -
    have "length (disk_after d ws) = length d" if "in_order (length d) B ws" for d B
      using that by (induction "length d" B ws arbitrary: d rule: in_order.induct) (auto simp: disk_after_def)
    then show ?thesis using r ord by simp
  qed
  then have "unat off + n \<le> unat (st_virtual_size (run stack_step st ws))" using assms(8) st(5) by simp
  with r [OF ord] have "stack_read_at no_faults (run stack_step st ws) n off = Inr (take n (drop (unat off) (disk_after (disk st) ws)))"
    using stack_read_at_disk by metis
  then show ?thesis using st(1,5) by auto
qed

definition demo_files :: "string \<Rightarrow> u8 list option" where
  "demo_files = [''base.img'' \<mapsto> replicate 0x30000 0, ''top.tdelta'' \<mapsto> dl_file (layer_after 0x30000 [])]"

definition demo_manifest :: stack_manifest where
  "demo_manifest = \<lparr>man_base = ''base.img'', man_deltas = [''top.tdelta'']\<rparr>"

theorem snapshot_stack_disk_witness:
  "\<exists>st. open_manifest (\<lambda>_. no_faults) demo_files demo_manifest False = Inr st
    \<and> stack_read_at no_faults (run stack_step st [(0xffff, [1, 2])]) 2 0xffff = Inr [1, 2]"
proof -
  have "\<exists>st. open_manifest (\<lambda>_. no_faults) demo_files demo_manifest False = Inr st \<and> length (disk st) = unat (0x30000 :: u64)
    \<and> stack_read_at no_faults (run stack_step st [(0xffff, [1, 2])]) 2 0xffff =
        Inr (take 2 (drop (unat (0xffff :: u64)) (disk_after (disk st) [(0xffff, [1, 2])])))"
  proof (rule snapshot_stack_disk [where base = "replicate 0x30000 0" and hist = "\<lambda>_. []"])
    show "in_order (unat (0x30000 :: u64)) (unat ` fst ` set []) [(0xffff, [1, 2])]" by simp
  qed (simp_all add: demo_files_def demo_manifest_def delta_file_def BS_facts)
  then show ?thesis by (auto simp: disk_after_def splice_at_def)
qed

end
