(* ===== verification/Blk_Backend.thy ===== *)
theory Blk_Backend
  imports Guest_Buffers Snapshot_Stack
begin

text \<open>
  The storage behind a virtio-blk device (\<open>ternvale-devices/src/virtio/blk/backend.rs\<close>, \<open>vectored.rs\<close>): a raw file read and
  written with \<open>preadv\<close> and \<open>pwritev\<close> on guest memory, or a snapshot stack. The kernel may move fewer bytes than asked for
  in each call; how many is an argument. An \<open>iovec\<close> is written as the guest buffer it points to: the pointer comes from
  \<open>host_ptr\<close>, and within a region host and guest addresses differ by a constant.
\<close>

definition SECTOR :: u64 where "SECTOR = 512"

definition IOV_MAX :: nat where "IOV_MAX = 64"

datatype disk_cache = Writeback | Writethrough | CacheNone

datatype disk_flush = FlushSafe | FlushFast

record file_backend =
  fb_file :: "u8 list"
  fb_bytes :: u64
  fb_read_only :: bool
  fb_cache :: disk_cache
  fb_flush :: disk_flush

datatype blk_backend = FileB file_backend | StackB image_stack

datatype blk_io_error = GuestRange memory_error | PastEnd | ReadOnlyDisk | ShortWrite | OsFailed | StackFailed io_error

text \<open>What the host answers: bytes moved by the \<open>k\<close>-th vectored call, success of a sync, failures of stack files.\<close>

datatype sys_result = Moved nat | SysFailed

record blk_env =
  env_sys :: "nat \<Rightarrow> sys_result"
  env_sync :: "disk_flush \<Rightarrow> bool"
  env_stack_sync :: bool
  env_faults :: faults

section \<open>Vectored transfers\<close>

fun iov_of :: "guest_memory \<Rightarrow> buffer list \<Rightarrow> memory_error + buffer list" where
  "iov_of m [] = Inr []"
| "iov_of m (b # bs) =
     (if b_len b = 0 then iov_of m bs
      else case host_ptr m (b_addr b) (unat (b_len b)) of
        Inl err \<Rightarrow> Inl err
      | Inr _ \<Rightarrow> (case iov_of m bs of Inl err \<Rightarrow> Inl err | Inr iov \<Rightarrow> Inr (b # iov)))"

fun advance_iov :: "nat \<Rightarrow> buffer list \<Rightarrow> buffer list" where
  "advance_iov skip [] = []"
| "advance_iov skip (b # iov) =
     (if skip = 0 then b # iov
      else if unat (b_len b) \<le> skip then \<lparr>b_addr = 0, b_len = 0\<rparr> # advance_iov (skip - unat (b_len b)) iov
      else \<lparr>b_addr = b_addr b + of_nat skip, b_len = b_len b - of_nat skip\<rparr> # iov)"

text \<open>Stores and loads through the pointers of an iovec list.\<close>

definition poke :: "guest_memory \<Rightarrow> u64 \<Rightarrow> u8 list \<Rightarrow> guest_memory" where
  "poke m a bytes = (case write_bytes m a bytes of Inl _ \<Rightarrow> m | Inr m \<Rightarrow> m)"

fun iov_store :: "guest_memory \<Rightarrow> buffer list \<Rightarrow> u8 list \<Rightarrow> guest_memory" where
  "iov_store m [] bytes = m"
| "iov_store m (b # iov) bytes =
     (let n = min (unat (b_len b)) (length bytes) in iov_store (poke m (b_addr b) (take n bytes)) iov (drop n bytes))"

definition iov_load :: "guest_memory \<Rightarrow> buffer list \<Rightarrow> nat \<Rightarrow> u8 list" where
  "iov_load m iov n = take n (view_at m (buf_addrs iov))"

definition iov_bytes :: "buffer list \<Rightarrow> nat" where
  "iov_bytes iov = sum_list (map (\<lambda>b. unat (b_len b)) iov)"

definition preadv_count :: "nat \<Rightarrow> u8 list \<Rightarrow> buffer list \<Rightarrow> u64 \<Rightarrow> nat" where
  "preadv_count k file iov off =
     (let limit = min (iov_bytes iov) (length file - unat off) in if limit = 0 then 0 else min limit (max 1 k))"

definition pwritev_count :: "nat \<Rightarrow> buffer list \<Rightarrow> nat" where
  "pwritev_count k iov = min (iov_bytes iov) k"

text \<open>
  The inner loops of \<open>vectored\<close>, with the number of the next call. A read ends with the number of bytes read, which is
  below \<open>want\<close> when the file ended.
\<close>

function read_calls ::
  "(nat \<Rightarrow> sys_result) \<Rightarrow> nat \<Rightarrow> u8 list \<Rightarrow> buffer list \<Rightarrow> u64 \<Rightarrow> nat \<Rightarrow> nat \<Rightarrow> guest_memory \<Rightarrow>
   (blk_io_error + nat \<times> nat \<times> u64) \<times> guest_memory" where
  "read_calls sys k file iov off moved want m =
     (if want \<le> moved then (Inr (k, moved, off), m)
      else case sys k of
        SysFailed \<Rightarrow> (Inl OsFailed, m)
      | Moved j \<Rightarrow>
          let n = preadv_count j file iov off in
          if n = 0 then (Inr (Suc k, moved, off), m)
          else read_calls sys (Suc k) file (advance_iov n iov) (off + of_nat n) (moved + n) want
                 (iov_store m iov (take n (drop (unat off) file))))"
  by pat_completeness auto
termination
  by (relation "measure (\<lambda>(_, _, _, _, _, moved, want, _). want - moved)") auto

function write_calls ::
  "(nat \<Rightarrow> sys_result) \<Rightarrow> nat \<Rightarrow> u8 list \<Rightarrow> buffer list \<Rightarrow> u64 \<Rightarrow> nat \<Rightarrow> nat \<Rightarrow> guest_memory \<Rightarrow>
   (blk_io_error + nat \<times> u64) \<times> u8 list" where
  "write_calls sys k file iov off moved want m =
     (if want \<le> moved then (Inr (k, off), file)
      else case sys k of
        SysFailed \<Rightarrow> (Inl OsFailed, file)
      | Moved j \<Rightarrow>
          let n = pwritev_count j iov in
          if n = 0 then (Inl ShortWrite, file)
          else write_calls sys (Suc k) (write_all_at file (unat off) (iov_load m iov n)) (advance_iov n iov)
                 (off + of_nat n) (moved + n) want m)"
  by pat_completeness auto
termination
  by (relation "measure (\<lambda>(_, _, _, _, _, moved, want, _). want - moved)") auto

declare read_calls.simps [simp del] write_calls.simps [simp del]

fun zero_rest :: "guest_memory \<Rightarrow> buffer list \<Rightarrow> nat \<Rightarrow> (blk_io_error + unit) \<times> guest_memory" where
  "zero_rest m [] skip = (Inr (), m)"
| "zero_rest m (b # bs) skip =
     (if unat (b_len b) \<le> skip then zero_rest m bs (skip - unat (b_len b))
      else case host_ptr m (b_addr b + of_nat skip) (unat (b_len b) - skip) of
        Inl err \<Rightarrow> (Inl (GuestRange err), m)
      | Inr _ \<Rightarrow> zero_rest (poke m (b_addr b + of_nat skip) (replicate (unat (b_len b) - skip) 0)) bs 0)"

function vectored_read ::
  "(nat \<Rightarrow> sys_result) \<Rightarrow> nat \<Rightarrow> u8 list \<Rightarrow> guest_memory \<Rightarrow> buffer list \<Rightarrow> u64 \<Rightarrow> (blk_io_error + unit) \<times> guest_memory" where
  "vectored_read sys k file m bufs off =
     (if bufs = [] then (Inr (), m)
      else let chunk = take IOV_MAX bufs in
        case iov_of m chunk of
          Inl err \<Rightarrow> (Inl (GuestRange err), m)
        | Inr iov \<Rightarrow>
            if iov = [] then vectored_read sys k file m (drop IOV_MAX bufs) off
            else case read_calls sys k file iov off 0 (iov_bytes iov) m of
              (Inl err, m) \<Rightarrow> (Inl err, m)
            | (Inr (k, moved, off), m) \<Rightarrow>
                if moved < iov_bytes iov then zero_rest m chunk moved
                else vectored_read sys k file m (drop IOV_MAX bufs) off)"
  by pat_completeness auto
termination
  by (relation "measure (\<lambda>(_, _, _, _, bufs, _). length bufs)") (auto simp: IOV_MAX_def)

function vectored_write ::
  "(nat \<Rightarrow> sys_result) \<Rightarrow> nat \<Rightarrow> u8 list \<Rightarrow> guest_memory \<Rightarrow> buffer list \<Rightarrow> u64 \<Rightarrow> (blk_io_error + unit) \<times> u8 list" where
  "vectored_write sys k file m bufs off =
     (if bufs = [] then (Inr (), file)
      else let chunk = take IOV_MAX bufs in
        case iov_of m chunk of
          Inl err \<Rightarrow> (Inl (GuestRange err), file)
        | Inr iov \<Rightarrow>
            if iov = [] then vectored_write sys k file m (drop IOV_MAX bufs) off
            else case write_calls sys k file iov off 0 (iov_bytes iov) m of
              (Inl err, file) \<Rightarrow> (Inl err, file)
            | (Inr (k, off), file) \<Rightarrow> vectored_write sys k file m (drop IOV_MAX bufs) off)"
  by pat_completeness auto
termination
  by (relation "measure (\<lambda>(_, _, _, _, bufs, _). length bufs)") (auto simp: IOV_MAX_def)

declare vectored_read.simps [simp del] vectored_write.simps [simp del]

section \<open>Transfers through a stack\<close>

fun copy_read_guest :: "faults \<Rightarrow> image_stack \<Rightarrow> guest_memory \<Rightarrow> buffer list \<Rightarrow> u64 \<Rightarrow> (blk_io_error + unit) \<times> guest_memory" where
  "copy_read_guest fl st m [] off = (Inr (), m)"
| "copy_read_guest fl st m (b # bs) off =
     (if b_len b = 0 then copy_read_guest fl st m bs off
      else case stack_read_at fl st (unat (b_len b)) off of
        Inl err \<Rightarrow> (Inl (StackFailed err), m)
      | Inr tmp \<Rightarrow>
          (case host_ptr m (b_addr b) (unat (b_len b)) of
             Inl err \<Rightarrow> (Inl (GuestRange err), m)
           | Inr _ \<Rightarrow> copy_read_guest fl st (poke m (b_addr b) tmp) bs (off + ucast (b_len b))))"

fun copy_write_guest :: "faults \<Rightarrow> image_stack \<Rightarrow> guest_memory \<Rightarrow> buffer list \<Rightarrow> u64 \<Rightarrow> (blk_io_error + unit) \<times> image_stack" where
  "copy_write_guest fl st m [] off = (Inr (), st)"
| "copy_write_guest fl st m (b # bs) off =
     (if b_len b = 0 then copy_write_guest fl st m bs off
      else case read_bytes m (b_addr b) (unat (b_len b)) of
        Inl err \<Rightarrow> (Inl (GuestRange err), st)
      | Inr tmp \<Rightarrow>
          (case stack_write_at fl st tmp off of
             (Inl err, st) \<Rightarrow> (Inl (StackFailed err), st)
           | (Inr _, st) \<Rightarrow> copy_write_guest fl st m bs (off + ucast (b_len b))))"

section \<open>The backend\<close>

definition bufs_total :: "buffer list \<Rightarrow> u64" where
  "bufs_total bufs = sum_list (map (\<lambda>b. ucast (b_len b)) bufs)"

definition file_read_guest :: "blk_env \<Rightarrow> file_backend \<Rightarrow> guest_memory \<Rightarrow> buffer list \<Rightarrow> u64 \<Rightarrow> (blk_io_error + unit) \<times> guest_memory" where
  "file_read_guest env fb m bufs off =
     (if fb_bytes fb < saturating_add off (bufs_total bufs) then (Inl PastEnd, m)
      else vectored_read (env_sys env) 0 (fb_file fb) m bufs off)"

definition check_write :: "file_backend \<Rightarrow> u64 \<Rightarrow> u64 \<Rightarrow> blk_io_error + unit" where
  "check_write fb off len =
     (if fb_read_only fb then Inl ReadOnlyDisk else if fb_bytes fb < saturating_add off len then Inl PastEnd else Inr ())"

definition file_flush :: "blk_env \<Rightarrow> file_backend \<Rightarrow> blk_io_error + unit" where
  "file_flush env fb = (if env_sync env (fb_flush fb) then Inr () else Inl OsFailed)"

definition after_write :: "blk_env \<Rightarrow> file_backend \<Rightarrow> blk_io_error + unit" where
  "after_write env fb = (if fb_cache fb = Writethrough then file_flush env fb else Inr ())"

definition file_write_guest :: "blk_env \<Rightarrow> file_backend \<Rightarrow> guest_memory \<Rightarrow> buffer list \<Rightarrow> u64 \<Rightarrow> (blk_io_error + unit) \<times> file_backend" where
  "file_write_guest env fb m bufs off =
     (case check_write fb off (bufs_total bufs) of
        Inl err \<Rightarrow> (Inl err, fb)
      | Inr _ \<Rightarrow>
          (case vectored_write (env_sys env) 0 (fb_file fb) m bufs off of
             (Inl err, file) \<Rightarrow> (Inl err, fb\<lparr>fb_file := file\<rparr>)
           | (Inr _, file) \<Rightarrow> (after_write env fb, fb\<lparr>fb_file := file\<rparr>)))"

fun be_capacity :: "blk_backend \<Rightarrow> u64" where
  "be_capacity (FileB fb) = fb_bytes fb div SECTOR"
| "be_capacity (StackB st) = st_virtual_size st div SECTOR"

fun be_read_only :: "blk_backend \<Rightarrow> bool" where
  "be_read_only (FileB fb) = fb_read_only fb"
| "be_read_only (StackB st) = st_read_only st"

fun be_read_guest :: "blk_env \<Rightarrow> blk_backend \<Rightarrow> guest_memory \<Rightarrow> buffer list \<Rightarrow> u64 \<Rightarrow> (blk_io_error + unit) \<times> guest_memory" where
  "be_read_guest env (FileB fb) m bufs off = file_read_guest env fb m bufs off"
| "be_read_guest env (StackB st) m bufs off = copy_read_guest (env_faults env) st m bufs off"

fun be_write_guest :: "blk_env \<Rightarrow> blk_backend \<Rightarrow> guest_memory \<Rightarrow> buffer list \<Rightarrow> u64 \<Rightarrow> (blk_io_error + unit) \<times> blk_backend" where
  "be_write_guest env (FileB fb) m bufs off = map_prod id FileB (file_write_guest env fb m bufs off)"
| "be_write_guest env (StackB st) m bufs off = map_prod id StackB (copy_write_guest (env_faults env) st m bufs off)"

fun be_flush :: "blk_env \<Rightarrow> blk_backend \<Rightarrow> blk_io_error + unit" where
  "be_flush env (FileB fb) = file_flush env fb"
| "be_flush env (StackB st) = (if st_layers st = [] \<or> env_stack_sync env then Inr () else Inl OsFailed)"

section \<open>The addresses an iovec list covers\<close>

lemma mapped_bound:
  assumes "mem_inv m" "buf_mapped m b" "b_len b \<noteq> 0"
  shows "unat (b_addr b) + unat (b_len b) < 2 ^ 64"
proof -
  have "is_ok (read_bytes m (b_addr b) (unat (b_len b)))" using assms(2) by (simp add: buf_mapped_def)
  then have "\<exists>i. find_region m (b_addr b) (unat (b_len b)) = Inr i"
    using assms(3) by (auto simp: read_bytes_def access_def is_ok_def res_bind_def unat_eq_zero Let_def split: sum.splits if_splits)
  then obtain i where i: "i < length (regions m)" "unat (b_addr b) + unat (b_len b) \<le> region_hi (regions m ! i)"
    using find_region_iff [OF assms(1), of "unat (b_len b)" "b_addr b"] assms(3) by (auto simp: unat_gt_0)
  have "region_ok (regions m ! i)" using assms(1) i(1) by (simp add: mem_inv_def regions_ok_def)
  then show ?thesis using i(2) by (simp add: region_ok_def)
qed

lemma host_ptr_mapped: "b_len b \<noteq> 0 \<Longrightarrow> is_ok (host_ptr m (b_addr b) (unat (b_len b))) \<longleftrightarrow> buf_mapped m b"
  by (auto simp: host_ptr_def buf_mapped_def read_bytes_def is_ok_def res_bind_def unat_eq_zero Let_def split: sum.splits)

lemma iov_of_mapped:
  assumes "list_all (buf_mapped m) bs"
  shows "iov_of m bs = Inr (filter (\<lambda>b. b_len b \<noteq> 0) bs)"
  using assms
proof (induction bs)
  case (Cons b bs)
  show ?case
  proof (cases "b_len b = 0")
    case False
    then have "is_ok (host_ptr m (b_addr b) (unat (b_len b)))" using Cons.prems host_ptr_mapped by simp
    then show ?thesis using Cons False by (auto simp: is_ok_iff)
  qed (use Cons in simp)
qed simp

lemma buf_addrs_filter [simp]: "buf_addrs (filter (\<lambda>b. b_len b \<noteq> 0) bs) = buf_addrs bs"
  by (induction bs) simp_all

lemma iov_bytes_addrs: "iov_bytes iov = length (buf_addrs iov)"
  by (simp add: iov_bytes_def length_buf_addrs)

lemma empty_mapped: "buf_mapped m \<lparr>b_addr = 0, b_len = 0\<rparr>"
  by (simp add: buf_mapped_def read_bytes_def)

lemma buffer_tail:
  assumes "mem_inv m" "buf_mapped m b" "skip < unat (b_len b)"
  defines "t \<equiv> \<lparr>b_addr = b_addr b + of_nat skip, b_len = b_len b - of_nat skip\<rparr>"
  shows "unat (b_addr t) = unat (b_addr b) + skip" "unat (b_len t) = unat (b_len b) - skip" "buf_mapped m t"
proof -
  have nz: "b_len b \<noteq> 0" using assms(3) by auto
  note bound = mapped_bound [OF assms(1,2) nz]
  have len: "unat (b_len b) < 2 ^ 32" using unsigned_less [of "b_len b", where 'a = nat] by simp
  have s64: "unat (of_nat skip :: u64) = skip" using bound assms(3) by (intro unat_of_nat_small) simp
  have s32: "unat (of_nat skip :: u32) = skip" using len assms(3) by (intro unat_of_nat_small) simp
  show a: "unat (b_addr t) = unat (b_addr b) + skip"
    unfolding t_def using bound assms(3) s64 by (simp add: unat_add_no_overflow)
  show l: "unat (b_len t) = unat (b_len b) - skip"
    unfolding t_def using assms(3) s32 by (simp add: unat_sub word_le_nat_alt)
  show "buf_mapped m t"
    using read_bytes_sub [OF assms(1), of "b_addr b" "unat (b_len b)" "b_addr t" "unat (b_len t)"] assms(2,3) a l
    by (simp add: buf_mapped_def)
qed

lemma advance_iov_addrs:
  assumes "mem_inv m" "list_all (buf_mapped m) iov"
  shows "buf_addrs (advance_iov n iov) = drop n (buf_addrs iov)" "list_all (buf_mapped m) (advance_iov n iov)"
proof -
  have "buf_addrs (advance_iov n iov) = drop n (buf_addrs iov) \<and> list_all (buf_mapped m) (advance_iov n iov)"
    using assms(2)
  proof (induction iov arbitrary: n)
    case (Cons b iov)
    have b: "buf_mapped m b" "list_all (buf_mapped m) iov" using Cons.prems by simp_all
    consider "n = 0" | "0 < n" "unat (b_len b) \<le> n" | "0 < n" "n < unat (b_len b)" by linarith
    then show ?case
    proof cases
      case 2
      then show ?thesis using Cons.IH [OF b(2), of "n - unat (b_len b)"] empty_mapped by simp
    next
      case 3
      then show ?thesis using buffer_tail [OF assms(1) b(1) 3(2)] b(2) by simp
    qed (use Cons.prems in simp)
  qed simp
  then show "buf_addrs (advance_iov n iov) = drop n (buf_addrs iov)" "list_all (buf_mapped m) (advance_iov n iov)" by simp_all
qed

lemma iov_store_effect:
  assumes "mem_inv m" "list_all (buf_mapped m) iov" "length bytes \<le> length (buf_addrs iov)"
  shows "mem_inv (iov_store m iov bytes) \<and> layout (iov_store m iov bytes) = layout m
    \<and> mem_view (iov_store m iov bytes) = spread (mem_view m) (take (length bytes) (buf_addrs iov)) bytes"
  using assms
proof (induction iov arbitrary: m bytes)
  case (Cons b iov)
  let ?n = "min (unat (b_len b)) (length bytes)"
  have b: "buf_mapped m b" "list_all (buf_mapped m) iov" using Cons.prems(2) by simp_all
  obtain m1 where m1: "write_bytes m (b_addr b) (take ?n bytes) = Inr m1" "mem_inv m1" "layout m1 = layout m"
    "mem_view m1 = spread (mem_view m) [unat (b_addr b)..<unat (b_addr b) + ?n] (take ?n bytes)"
    by (rule write_prefix [OF Cons.prems(1) b(1), of "take ?n bytes"]) auto
  have "list_all (buf_mapped m1) iov" using b(2) mapped_layout [OF m1(3)] by simp
  moreover have "length (drop ?n bytes) \<le> length (buf_addrs iov)" using Cons.prems(3) by auto
  ultimately have ih: "mem_inv (iov_store m1 iov (drop ?n bytes))" "layout (iov_store m1 iov (drop ?n bytes)) = layout m1"
    "mem_view (iov_store m1 iov (drop ?n bytes)) = spread (mem_view m1) (take (length bytes - ?n) (buf_addrs iov)) (drop ?n bytes)"
    using Cons.IH [OF m1(2), of "drop ?n bytes"] by auto
  have as: "take (length bytes) (buf_addrs (b # iov)) = [unat (b_addr b)..<unat (b_addr b) + ?n] @ take (length bytes - ?n) (buf_addrs iov)"
    by (cases "length bytes \<le> unat (b_len b)") (simp_all add: min_def)
  have "spread (mem_view m) (take (length bytes) (buf_addrs (b # iov))) (take ?n bytes @ drop ?n bytes)
    = spread (mem_view m1) (take (length bytes - ?n) (buf_addrs iov)) (drop ?n bytes)"
    unfolding m1(4) as by (rule spread_append) simp
  moreover have "iov_store m (b # iov) bytes = iov_store m1 iov (drop ?n bytes)"
    using m1(1) by (simp add: poke_def Let_def)
  ultimately show ?case using ih m1(3) by simp
qed simp

section \<open>Transfers move everything, however the kernel splits them\<close>

definition sys_ok :: "(nat \<Rightarrow> sys_result) \<Rightarrow> bool" where
  "sys_ok sys \<longleftrightarrow> (\<forall>k. \<exists>j > 0. sys k = Moved j)"

lemma view_at_take: "view_at m (take n as) = take n (view_at m as)" "view_at m (drop n as) = drop n (view_at m as)"
  by (simp_all add: view_at_def take_map drop_map)

lemma take_drop_split: "n \<le> k \<Longrightarrow> take k (drop a xs) = take n (drop a xs) @ take (k - n) (drop (a + n) xs)"
  by (metis add.commute drop_drop le_add_diff_inverse take_add)

lemma read_calls_effect:
  assumes "mem_inv m" "list_all (buf_mapped m) iov" "moved + iov_bytes iov = want" "unat off + iov_bytes iov \<le> length file"
    "length file < 2 ^ 64" "sys_ok sys"
  shows "\<exists>k' m'. read_calls sys k file iov off moved want m = (Inr (k', want, off + of_nat (iov_bytes iov)), m')
    \<and> mem_inv m' \<and> layout m' = layout m
    \<and> mem_view m' = spread (mem_view m) (buf_addrs iov) (take (iov_bytes iov) (drop (unat off) file))"
  using assms
proof (induction "iov_bytes iov" arbitrary: iov m off moved k rule: less_induct)
  case less
  show ?case
  proof (cases "iov_bytes iov = 0")
    case True
    then show ?thesis using less.prems by (simp add: read_calls.simps iov_bytes_addrs)
  next
    case False
    obtain j where j: "sys k = Moved j" "0 < j" using less.prems(6) by (auto simp: sys_ok_def)
    define n where "n = preadv_count j file iov off"
    have n: "0 < n" "n \<le> iov_bytes iov" using False less.prems(4) by (auto simp: n_def preadv_count_def Let_def)
    let ?bytes = "take n (drop (unat off) file)" and ?iov = "advance_iov n iov"
    let ?m = "iov_store m iov ?bytes"
    have lb: "length ?bytes = n" using less.prems(4) n(2) by simp
    then have st: "mem_inv ?m" "layout ?m = layout m" "mem_view ?m = spread (mem_view m) (take n (buf_addrs iov)) ?bytes"
      using iov_store_effect [OF less.prems(1,2), of ?bytes] n(2) by (simp_all add: iov_bytes_addrs)
    note adv = advance_iov_addrs [OF less.prems(1,2), of n]
    have rest: "iov_bytes ?iov = iov_bytes iov - n" by (simp add: iov_bytes_addrs adv(1))
    have off: "unat (off + of_nat n) = unat off + n"
      using less.prems(4,5) n(2) unat_of_nat_small [of n, where 'a = 64] by (subst unat_add_no_overflow) simp_all
    have "\<exists>k' m'. read_calls sys (Suc k) file ?iov (off + of_nat n) (moved + n) want ?m
        = (Inr (k', want, off + of_nat n + of_nat (iov_bytes ?iov)), m')
      \<and> mem_inv m' \<and> layout m' = layout ?m
      \<and> mem_view m' = spread (mem_view ?m) (buf_addrs ?iov) (take (iov_bytes ?iov) (drop (unat (off + of_nat n)) file))"
    proof (rule less.hyps)
      show "list_all (buf_mapped ?m) ?iov" using adv(2) mapped_layout [OF st(2)] by simp
    qed (use n rest off st less.prems in simp_all)
    then obtain k' m' where m': "read_calls sys (Suc k) file ?iov (off + of_nat n) (moved + n) want ?m
        = (Inr (k', want, off + of_nat n + of_nat (iov_bytes iov - n)), m')" "mem_inv m'" "layout m' = layout m"
      "mem_view m' = spread (mem_view ?m) (drop n (buf_addrs iov)) (take (iov_bytes iov - n) (drop (unat off + n) file))"
      unfolding rest off adv(1) st(2) by blast
    have "read_calls sys k file iov off moved want m = read_calls sys (Suc k) file ?iov (off + of_nat n) (moved + n) want ?m"
      using less.prems(3) False j n(1) by (subst read_calls.simps) (simp add: Let_def flip: n_def)
    moreover have "off + of_nat n + of_nat (iov_bytes iov - n) = off + of_nat (iov_bytes iov)"
      using n(2) by (simp add: of_nat_diff)
    moreover have "spread (mem_view ?m) (drop n (buf_addrs iov)) (take (iov_bytes iov - n) (drop (unat off + n) file))
      = spread (mem_view m) (buf_addrs iov) (take (iov_bytes iov) (drop (unat off) file))"
    proof -
      have "length (take n (buf_addrs iov)) = length ?bytes" using lb n(2) by (simp add: iov_bytes_addrs)
      from spread_append [OF this, of "mem_view m" "drop n (buf_addrs iov)" "take (iov_bytes iov - n) (drop (unat off + n) file)"]
      show ?thesis unfolding st(3) take_drop_split [OF n(2), symmetric] by simp
    qed
    ultimately show ?thesis using m' by simp
  qed
qed

lemma write_all_at_splice: "off + length bytes \<le> length f \<Longrightarrow> write_all_at f off bytes = splice_at off bytes f"
  by (simp add: write_all_at_def splice_at_def)

lemma write_calls_effect:
  assumes "mem_inv m" "list_all (buf_mapped m) iov" "moved + iov_bytes iov = want" "unat off + iov_bytes iov \<le> length f"
    "length f < 2 ^ 64" "sys_ok sys"
  shows "\<exists>k'. write_calls sys k f iov off moved want m
    = (Inr (k', off + of_nat (iov_bytes iov)), splice_at (unat off) (view_at m (buf_addrs iov)) f)"
  using assms
proof (induction "iov_bytes iov" arbitrary: iov f off moved k rule: less_induct)
  case less
  show ?case
  proof (cases "iov_bytes iov = 0")
    case True
    then show ?thesis using less.prems by (simp add: write_calls.simps iov_bytes_addrs splice_at_def)
  next
    case False
    obtain j where j: "sys k = Moved j" "0 < j" using less.prems(6) by (auto simp: sys_ok_def)
    define n where "n = pwritev_count j iov"
    have n: "0 < n" "n \<le> iov_bytes iov" using False j(2) by (auto simp: n_def pwritev_count_def)
    let ?iov = "advance_iov n iov" and ?xs = "view_at m (buf_addrs iov)"
    let ?g = "splice_at (unat off) (take n ?xs) f"
    note adv = advance_iov_addrs [OF less.prems(1,2), of n]
    have rest: "iov_bytes ?iov = iov_bytes iov - n" by (simp add: iov_bytes_addrs adv(1))
    have off: "unat (off + of_nat n) = unat off + n"
      using less.prems(4,5) n(2) unat_of_nat_small [of n, where 'a = 64] by (subst unat_add_no_overflow) simp_all
    have lx: "length (take n ?xs) = n" using n(2) by (simp add: iov_bytes_addrs)
    have stored: "write_all_at f (unat off) (iov_load m iov n) = ?g"
      using write_all_at_splice [of "unat off" "take n ?xs" f] lx less.prems(4) n(2) by (simp add: iov_load_def)
    have "\<exists>k'. write_calls sys (Suc k) ?g ?iov (off + of_nat n) (moved + n) want m
        = (Inr (k', off + of_nat n + of_nat (iov_bytes ?iov)), splice_at (unat (off + of_nat n)) (view_at m (buf_addrs ?iov)) ?g)"
      by (rule less.hyps) (use n rest off adv(2) lx less.prems in simp_all)
    then obtain k' where k': "write_calls sys (Suc k) ?g ?iov (off + of_nat n) (moved + n) want m
        = (Inr (k', off + of_nat n + of_nat (iov_bytes iov - n)), splice_at (unat off + n) (drop n ?xs) ?g)"
      unfolding rest off adv(1) view_at_take by blast
    have "write_calls sys k f iov off moved want m = write_calls sys (Suc k) ?g ?iov (off + of_nat n) (moved + n) want m"
      using less.prems(3) False j n(1) stored by (subst write_calls.simps) (simp add: Let_def flip: n_def)
    moreover have "off + of_nat n + of_nat (iov_bytes iov - n) = off + of_nat (iov_bytes iov)"
      using n(2) by (simp add: of_nat_diff)
    moreover have "splice_at (unat off + n) (drop n ?xs) ?g = splice_at (unat off) ?xs f"
      using splice_at_append [of "unat off" "take n ?xs" "drop n ?xs" f] lx less.prems(4) n(2) by (simp add: iov_bytes_addrs)
    ultimately show ?thesis using k' by simp
  qed
qed

lemma chunk_addrs: "buf_addrs bufs = buf_addrs (take n bufs) @ buf_addrs (drop n bufs)"
  by (metis append_take_drop_id buf_addrs_simps(3))

lemma iov_empty: "filter (\<lambda>b. b_len b \<noteq> 0) bs = [] \<Longrightarrow> buf_addrs bs = []"
  by (metis buf_addrs_filter buf_addrs_simps(1))

lemma list_all_split: "list_all P xs \<longleftrightarrow> list_all P (take n xs) \<and> list_all P (drop n xs)"
  by (metis append_take_drop_id list_all_append)

lemma list_all_filter: "list_all P xs \<Longrightarrow> list_all P (filter Q xs)"
  by (simp add: list_all_iff)

lemma vectored_read_effect:
  assumes "mem_inv m" "list_all (buf_mapped m) bufs" "unat off + length (buf_addrs bufs) \<le> length f" "length f < 2 ^ 64" "sys_ok sys"
  shows "\<exists>m'. vectored_read sys k f m bufs off = (Inr (), m') \<and> mem_inv m' \<and> layout m' = layout m
    \<and> mem_view m' = spread (mem_view m) (buf_addrs bufs) (take (length (buf_addrs bufs)) (drop (unat off) f))"
  using assms
proof (induction "length bufs" arbitrary: bufs m off k rule: less_induct)
  case less
  show ?case
  proof (cases "bufs = []")
    case True
    then show ?thesis using less.prems by (simp add: vectored_read.simps)
  next
    case False
    let ?chunk = "take IOV_MAX bufs" and ?rest = "drop IOV_MAX bufs"
    let ?iov = "filter (\<lambda>b. b_len b \<noteq> 0) ?chunk" and ?n = "length (buf_addrs (take IOV_MAX bufs))"
    have maps: "list_all (buf_mapped m) ?chunk" "list_all (buf_mapped m) ?rest" using less.prems(2) list_all_split by blast+
    have iov: "iov_of m ?chunk = Inr ?iov" "iov_bytes ?iov = ?n" by (simp_all add: iov_of_mapped [OF maps(1)] iov_bytes_addrs)
    have shorter: "length ?rest < length bufs" using False by (simp add: IOV_MAX_def)
    have len: "length (buf_addrs bufs) = ?n + length (buf_addrs ?rest)" using arg_cong [OF chunk_addrs [of bufs IOV_MAX], of length] by simp
    show ?thesis
    proof (cases "?iov = []")
      case True
      then have z: "buf_addrs ?chunk = []" by (rule iov_empty)
      then have "buf_addrs bufs = buf_addrs ?rest" using chunk_addrs [of bufs IOV_MAX] by simp
      moreover have "vectored_read sys k f m bufs off = vectored_read sys k f m ?rest off"
        using False iov True by (subst vectored_read.simps) simp
      ultimately show ?thesis using less.hyps [OF shorter less.prems(1) maps(2) _ less.prems(4,5), of off k] less.prems(3) by simp
    next
      case ne: False
      have fits: "unat off + iov_bytes ?iov \<le> length f" using less.prems(3) len iov(2) by simp
      obtain k1 m1 where m1: "read_calls sys k f ?iov off 0 (iov_bytes ?iov) m = (Inr (k1, iov_bytes ?iov, off + of_nat ?n), m1)"
        "mem_inv m1" "layout m1 = layout m" "mem_view m1 = spread (mem_view m) (buf_addrs ?chunk) (take ?n (drop (unat off) f))"
        using read_calls_effect [OF less.prems(1) list_all_filter [OF maps(1)] _ fits less.prems(4,5), where moved = 0 and k = k]
        unfolding iov(2) by auto
      have off: "unat (off + of_nat ?n) = unat off + ?n"
        using fits iov(2) less.prems(4) unat_of_nat_small [of ?n, where 'a = 64] by (subst unat_add_no_overflow) simp_all
      have "vectored_read sys k f m bufs off = vectored_read sys k1 f m1 ?rest (off + of_nat ?n)"
        using False iov ne m1(1) by (subst vectored_read.simps) simp
      moreover have "list_all (buf_mapped m1) ?rest" using maps(2) mapped_layout [OF m1(3)] by simp
      ultimately obtain m' where m': "vectored_read sys k f m bufs off = (Inr (), m')" "mem_inv m'" "layout m' = layout m"
        "mem_view m' = spread (mem_view m1) (buf_addrs ?rest) (take (length (buf_addrs ?rest)) (drop (unat off + ?n) f))"
        using less.hyps [OF shorter m1(2) _ _ less.prems(4,5), of "off + of_nat ?n" k1] less.prems(3) off len m1(3) by auto
      have "length (buf_addrs ?chunk) = length (take ?n (drop (unat off) f))" using less.prems(3) len by simp
      from spread_append [OF this, of "mem_view m" "buf_addrs ?rest" "take (length (buf_addrs ?rest)) (drop (unat off + ?n) f)"]
      have "mem_view m' = spread (mem_view m) (buf_addrs bufs) (take (length (buf_addrs bufs)) (drop (unat off) f))"
        unfolding m'(4) m1(4) chunk_addrs [of bufs IOV_MAX, symmetric]
        using take_drop_split [of ?n "length (buf_addrs bufs)" "unat off" f] len by simp
      then show ?thesis using m' by simp
    qed
  qed
qed

lemma vectored_write_effect:
  assumes "mem_inv m" "list_all (buf_mapped m) bufs" "unat off + length (buf_addrs bufs) \<le> length f" "length f < 2 ^ 64" "sys_ok sys"
  shows "vectored_write sys k f m bufs off = (Inr (), splice_at (unat off) (view_at m (buf_addrs bufs)) f)"
  using assms
proof (induction "length bufs" arbitrary: bufs f off k rule: less_induct)
  case less
  show ?case
  proof (cases "bufs = []")
    case True
    then show ?thesis using less.prems by (simp add: vectored_write.simps splice_at_def)
  next
    case False
    let ?chunk = "take IOV_MAX bufs" and ?rest = "drop IOV_MAX bufs"
    let ?iov = "filter (\<lambda>b. b_len b \<noteq> 0) ?chunk" and ?n = "length (buf_addrs (take IOV_MAX bufs))"
    have maps: "list_all (buf_mapped m) ?chunk" "list_all (buf_mapped m) ?rest" using less.prems(2) list_all_split by blast+
    have iov: "iov_of m ?chunk = Inr ?iov" "iov_bytes ?iov = ?n" by (simp_all add: iov_of_mapped [OF maps(1)] iov_bytes_addrs)
    have shorter: "length ?rest < length bufs" using False by (simp add: IOV_MAX_def)
    have len: "length (buf_addrs bufs) = ?n + length (buf_addrs ?rest)" using arg_cong [OF chunk_addrs [of bufs IOV_MAX], of length] by simp
    show ?thesis
    proof (cases "?iov = []")
      case True
      then have z: "buf_addrs ?chunk = []" by (rule iov_empty)
      then have "buf_addrs bufs = buf_addrs ?rest" using chunk_addrs [of bufs IOV_MAX] by simp
      moreover have "vectored_write sys k f m bufs off = vectored_write sys k f m ?rest off"
        using False iov True by (subst vectored_write.simps) simp
      ultimately show ?thesis using less.hyps [OF shorter less.prems(1) maps(2) _ less.prems(4,5), of off k] less.prems(3) by simp
    next
      case ne: False
      let ?f = "splice_at (unat off) (view_at m (buf_addrs ?chunk)) f"
      have fits: "unat off + iov_bytes ?iov \<le> length f" using less.prems(3) len iov(2) by simp
      obtain k1 where k1: "write_calls sys k f ?iov off 0 (iov_bytes ?iov) m = (Inr (k1, off + of_nat ?n), ?f)"
        using write_calls_effect [OF less.prems(1) list_all_filter [OF maps(1)] _ fits less.prems(4,5), where moved = 0 and k = k]
        unfolding iov(2) by auto
      have off: "unat (off + of_nat ?n) = unat off + ?n"
        using fits iov(2) less.prems(4) unat_of_nat_small [of ?n, where 'a = 64] by (subst unat_add_no_overflow) simp_all
      have "vectored_write sys k f m bufs off = vectored_write sys k1 ?f m ?rest (off + of_nat ?n)"
        using False iov ne k1 by (subst vectored_write.simps) simp
      also have "\<dots> = (Inr (), splice_at (unat (off + of_nat ?n)) (view_at m (buf_addrs ?rest)) ?f)"
        by (rule less.hyps [OF shorter less.prems(1) maps(2)]) (use less.prems(3-5) off len in simp_all)
      also have "splice_at (unat (off + of_nat ?n)) (view_at m (buf_addrs ?rest)) ?f = splice_at (unat off) (view_at m (buf_addrs bufs)) f"
        unfolding off using splice_at_append [of "unat off" "view_at m (buf_addrs ?chunk)" "view_at m (buf_addrs ?rest)" f] len less.prems(3)
        by (simp flip: view_at_simps(2) chunk_addrs)
      finally show ?thesis .
    qed
  qed
qed

section \<open>The disk a backend shows\<close>

fun be_disk :: "blk_backend \<Rightarrow> u8 list" where
  "be_disk (FileB fb) = take (unat (fb_bytes fb)) (fb_file fb)"
| "be_disk (StackB st) = disk st"

fun be_inv :: "blk_backend \<Rightarrow> bool" where
  "be_inv (FileB fb) \<longleftrightarrow> unat (fb_bytes fb) \<le> length (fb_file fb) \<and> length (fb_file fb) \<le> 2 ^ 63"
| "be_inv (StackB st) \<longleftrightarrow> stack_inv st"

text \<open>A host whose calls all succeed; vectored calls may still be short.\<close>

definition env_ok :: "blk_env \<Rightarrow> bool" where
  "env_ok env \<longleftrightarrow> sys_ok (env_sys env) \<and> (\<forall>mode. env_sync env mode) \<and> env_stack_sync env \<and> env_faults env = no_faults"

text \<open>Where a write is taken whole: anywhere in a file, and in a stack where new blocks come in ascending order.\<close>

fun be_takes :: "blk_backend \<Rightarrow> nat \<Rightarrow> nat \<Rightarrow> bool" where
  "be_takes (FileB fb) off n \<longleftrightarrow> True"
| "be_takes (StackB st) off n \<longleftrightarrow> st_layers st \<noteq> [] \<and> (\<forall>k \<in> Snapshot_Stack.touched off n. takes_block st k)"

lemma be_disk_length: "be_inv be \<Longrightarrow> length (be_disk be) \<le> 2 ^ 63"
  by (cases be) (simp_all add: stack_inv_def)

lemma be_capacity_disk: "be_inv be \<Longrightarrow> unat (be_capacity be) = length (be_disk be) div 512"
  by (cases be) (simp_all add: SECTOR_def unat_div)

lemma unat_buf_len: "unat (ucast (b_len b) :: u64) = unat (b_len b)"
proof -
  have "unat (b_len b) < 2 ^ 32" using unsigned_less [of "b_len b", where 'a = nat] by simp
  then have "unat (b_len b) < 2 ^ 64" by (rule order.strict_trans2) simp
  then show ?thesis by (simp add: unsigned_ucast_eq take_bit_nat_eq_self)
qed

lemma bufs_total_addrs:
  assumes "length (buf_addrs bufs) < 2 ^ 64"
  shows "unat (bufs_total bufs) = length (buf_addrs bufs)"
  using assms
proof (induction bufs)
  case Nil
  then show ?case by (simp add: bufs_total_def)
next
  case (Cons b bufs)
  have "unat (bufs_total bufs) = length (buf_addrs bufs)" using Cons by simp
  then show ?case using Cons.prems unat_add_no_overflow [of "ucast (b_len b)" "bufs_total bufs"] by (simp add: bufs_total_def unat_buf_len)
qed

lemma not_past_end:
  fixes off n len :: u64
  assumes "unat off + unat len \<le> unat n" "unat n \<le> 2 ^ 63"
  shows "\<not> n < saturating_add off len"
  using assms by (simp add: word_less_nat_alt unat_saturating_add)

lemma file_in_bounds:
  assumes "be_inv (FileB fb)" "unat off + length (buf_addrs bufs) \<le> length (be_disk (FileB fb))"
  shows "\<not> fb_bytes fb < saturating_add off (bufs_total bufs)" "unat off + length (buf_addrs bufs) \<le> length (fb_file fb)"
    "length (fb_file fb) < 2 ^ 64"
proof -
  have b: "unat off + length (buf_addrs bufs) \<le> unat (fb_bytes fb)" "unat (fb_bytes fb) \<le> 2 ^ 63" using assms by simp_all
  then show "\<not> fb_bytes fb < saturating_add off (bufs_total bufs)"
    using bufs_total_addrs [of bufs] by (intro not_past_end) simp_all
qed (use assms in simp_all)

lemma copy_read_guest_effect:
  assumes "stack_inv st" "mem_inv m" "list_all (buf_mapped m) bufs" "unat off + length (buf_addrs bufs) \<le> length (disk st)"
  shows "\<exists>m'. copy_read_guest no_faults st m bufs off = (Inr (), m') \<and> mem_inv m' \<and> layout m' = layout m
    \<and> mem_view m' = spread (mem_view m) (buf_addrs bufs) (take (length (buf_addrs bufs)) (drop (unat off) (disk st)))"
  using assms
proof (induction bufs arbitrary: m off)
  case (Cons b bufs)
  show ?case
  proof (cases "b_len b = 0")
    case True
    then show ?thesis using Cons by simp
  next
    case False
    let ?n = "unat (b_len b)" and ?off = "off + ucast (b_len b)"
    let ?tmp = "take ?n (drop (unat off) (disk st))"
    have vs: "length (disk st) \<le> 2 ^ 63" using Cons.prems(1) by (simp add: stack_inv_def)
    have b: "buf_mapped m b" "list_all (buf_mapped m) bufs" using Cons.prems(3) by simp_all
    have rd: "stack_read_at no_faults st ?n off = Inr ?tmp"
      using Cons.prems(4) by (intro stack_read_at_disk [OF Cons.prems(1)]) simp
    have lt: "length ?tmp = ?n" using Cons.prems(4) by simp
    obtain m1 where m1: "write_bytes m (b_addr b) ?tmp = Inr m1" "mem_inv m1" "layout m1 = layout m"
      "mem_view m1 = spread (mem_view m) [unat (b_addr b)..<unat (b_addr b) + ?n] ?tmp"
      using write_prefix [OF Cons.prems(2) b(1), of ?tmp] unfolding lt by blast
    have off: "unat ?off = unat off + ?n"
      using Cons.prems(4) vs unat_add_no_overflow [of off "ucast (b_len b)"] by (simp add: unat_buf_len)
    have ptr: "is_ok (host_ptr m (b_addr b) ?n)" using b(1) host_ptr_mapped [OF False] by blast
    have "list_all (buf_mapped m1) bufs" using b(2) mapped_layout [OF m1(3)] by simp
    moreover have "unat ?off + length (buf_addrs bufs) \<le> length (disk st)" using Cons.prems(4) off by simp
    ultimately obtain m' where m': "copy_read_guest no_faults st m1 bufs ?off = (Inr (), m')" "mem_inv m'" "layout m' = layout m1"
      "mem_view m' = spread (mem_view m1) (buf_addrs bufs) (take (length (buf_addrs bufs)) (drop (unat off + ?n) (disk st)))"
      using Cons.IH [OF Cons.prems(1) m1(2), of ?off] unfolding off by blast
    have "length [unat (b_addr b)..<unat (b_addr b) + ?n] = length ?tmp" using lt by simp
    from spread_append [OF this, of "mem_view m" "buf_addrs bufs" "take (length (buf_addrs bufs)) (drop (unat off + ?n) (disk st))"]
    have "mem_view m' = spread (mem_view m) (buf_addrs (b # bufs)) (take (length (buf_addrs (b # bufs))) (drop (unat off) (disk st)))"
      unfolding m'(4) m1(4) using take_drop_split [of ?n "length (buf_addrs (b # bufs))" "unat off" "disk st"] by simp
    then show ?thesis using False rd ptr m1 m' by (auto simp: is_ok_iff poke_def)
  qed
qed simp

lemma be_read_effect:
  assumes "be_inv be" "env_ok env" "mem_inv m" "list_all (buf_mapped m) bufs" "unat off + length (buf_addrs bufs) \<le> length (be_disk be)"
  obtains m' where "be_read_guest env be m bufs off = (Inr (), m')" "mem_inv m'" "layout m' = layout m"
    "mem_view m' = spread (mem_view m) (buf_addrs bufs) (take (length (buf_addrs bufs)) (drop (unat off) (be_disk be)))"
proof (cases be)
  case (FileB fb)
  note f = file_in_bounds [OF assms(1) [unfolded FileB] assms(5) [unfolded FileB]]
  have "take (length (buf_addrs bufs)) (drop (unat off) (take (unat (fb_bytes fb)) (fb_file fb)))
      = take (length (buf_addrs bufs)) (drop (unat off) (fb_file fb))"
    using assms(1,5) FileB by (simp add: drop_take)
  then show thesis
    using vectored_read_effect [OF assms(3,4) f(2,3), of "env_sys env" 0] assms(2) f(1) FileB that
    by (auto simp: file_read_guest_def env_ok_def)
next
  case (StackB st)
  then show thesis
    using copy_read_guest_effect [of st m bufs off] assms that by (auto simp: env_ok_def)
qed

lemma touched_mono: "c \<le> n \<Longrightarrow> Snapshot_Stack.touched a c \<subseteq> Snapshot_Stack.touched a n"
  unfolding Snapshot_Stack.touched_def by auto

lemma touched_order:
  assumes "j \<in> Snapshot_Stack.touched a c" "k \<in> Snapshot_Stack.touched (a + c) n"
  shows "j \<le> k"
proof -
  obtain x y where "j = (a + x) div BS" "x < c" "k = (a + c + y) div BS" using assms by (auto simp: Snapshot_Stack.touched_def)
  then show ?thesis by (auto intro: div_le_mono)
qed

lemma copy_write_guest_effect:
  assumes "stack_inv st" "\<not> st_read_only st" "st_layers st \<noteq> []" "mem_inv m" "list_all (buf_mapped m) bufs"
    "unat off + length (buf_addrs bufs) \<le> unat (st_virtual_size st)"
    "\<forall>k \<in> Snapshot_Stack.touched (unat off) (length (buf_addrs bufs)). takes_block st k"
  shows "\<exists>st'. copy_write_guest no_faults st m bufs off = (Inr (), st') \<and> stack_inv st' \<and> \<not> st_read_only st'
    \<and> st_virtual_size st' = st_virtual_size st \<and> disk st' = splice_at (unat off) (view_at m (buf_addrs bufs)) (disk st)"
  using assms
proof (induction bufs arbitrary: st off)
  case Nil
  then show ?case by (simp add: splice_at_def)
next
  case (Cons b bufs)
  show ?case
  proof (cases "b_len b = 0")
    case True
    then show ?thesis using Cons by simp
  next
    case False
    let ?n = "unat (b_len b)" and ?r = "length (buf_addrs bufs)" and ?off = "off + ucast (b_len b)"
    let ?tmp = "view_at m [unat (b_addr b)..<unat (b_addr b) + ?n]"
    have vs: "unat (st_virtual_size st) \<le> 2 ^ 63" using Cons.prems(1) by (simp add: stack_inv_def)
    have b: "buf_mapped m b" "list_all (buf_mapped m) bufs" using Cons.prems(5) by simp_all
    have fits: "unat off + length ?tmp \<le> unat (st_virtual_size st)" using Cons.prems(6) by simp
    have takes: "\<forall>k \<in> Snapshot_Stack.touched (unat off) (length ?tmp). takes_block st k"
      using Cons.prems(7) touched_mono [of ?n "?n + ?r" "unat off"] by auto
    obtain st1 where st1: "stack_write_at no_faults st ?tmp off = (Inr (), st1)" "stack_inv st1" "st_layers st1 \<noteq> []" "\<not> st_read_only st1"
      "st_virtual_size st1 = st_virtual_size st"
      "blocks_in (last (st_layers st1)) = blocks_in (last (st_layers st)) \<union> Snapshot_Stack.touched (unat off) ?n"
      "disk st1 = splice_at (unat off) ?tmp (disk st)"
      using stack_write_at_disk [OF Cons.prems(1-3) fits takes] by auto
    have off: "unat ?off = unat off + ?n"
      using Cons.prems(6) vs unat_add_no_overflow [of off "ucast (b_len b)"] by (simp add: unat_buf_len)
    have "takes_block st1 k" if k: "k \<in> Snapshot_Stack.touched (unat off + ?n) ?r" for k
    proof -
      have "k \<in> Snapshot_Stack.touched (unat off) (?n + ?r)" using touched_rest [of ?n "?n + ?r" "unat off"] k by auto
      then have "takes_block st k" using Cons.prems(7) by simp
      then show ?thesis using touched_order [OF _ k] unfolding takes_block_def st1(6) by (metis Un_iff order_le_less)
    qed
    then obtain st2 where st2: "copy_write_guest no_faults st1 m bufs ?off = (Inr (), st2)" "stack_inv st2" "\<not> st_read_only st2"
      "st_virtual_size st2 = st_virtual_size st1" "disk st2 = splice_at (unat off + ?n) (view_at m (buf_addrs bufs)) (disk st1)"
      using Cons.IH [OF st1(2,4,3) Cons.prems(4) b(2), of ?off] Cons.prems(6) st1(5) unfolding off by auto
    have "disk st2 = splice_at (unat off) (view_at m (buf_addrs (b # bufs))) (disk st)"
      unfolding st2(5) st1(7) using splice_at_append [of "unat off" ?tmp "view_at m (buf_addrs bufs)" "disk st"] Cons.prems(6) by simp
    then show ?thesis using False mapped_read [OF Cons.prems(4) b(1)] st1(1,5) st2 by simp
  qed
qed

lemma splice_at_take: "a + length bs \<le> n \<Longrightarrow> n \<le> length f \<Longrightarrow> take n (splice_at a bs f) = splice_at a bs (take n f)"
  by (rule nth_equalityI) (simp_all add: nth_splice_at)

lemma be_write_effect:
  assumes "be_inv be" "env_ok env" "\<not> be_read_only be" "mem_inv m" "list_all (buf_mapped m) bufs"
    "unat off + length (buf_addrs bufs) \<le> length (be_disk be)" "be_takes be (unat off) (length (buf_addrs bufs))"
  obtains be' where "be_write_guest env be m bufs off = (Inr (), be')" "be_inv be'" "\<not> be_read_only be'"
    "be_disk be' = splice_at (unat off) (view_at m (buf_addrs bufs)) (be_disk be)"
proof (cases be)
  case (FileB fb)
  note f = file_in_bounds [OF assms(1) [unfolded FileB] assms(6) [unfolded FileB]]
  let ?f = "splice_at (unat off) (view_at m (buf_addrs bufs)) (fb_file fb)"
  have w: "vectored_write (env_sys env) 0 (fb_file fb) m bufs off = (Inr (), ?f)"
    using assms(2) by (intro vectored_write_effect [OF assms(4,5) f(2,3)]) (simp add: env_ok_def)
  have "after_write env fb = Inr ()" using assms(2) by (simp add: after_write_def file_flush_def env_ok_def)
  then have "be_write_guest env be m bufs off = (Inr (), FileB (fb\<lparr>fb_file := ?f\<rparr>))"
    using FileB w f(1) assms(3) by (simp add: file_write_guest_def check_write_def)
  moreover have "take (unat (fb_bytes fb)) ?f = splice_at (unat off) (view_at m (buf_addrs bufs)) (take (unat (fb_bytes fb)) (fb_file fb))"
    using assms(1,6) FileB by (intro splice_at_take) simp_all
  ultimately show thesis using that [of "FileB (fb\<lparr>fb_file := ?f\<rparr>)"] FileB assms(1,3) f(2) by simp
next
  case (StackB st)
  have st: "stack_inv st" "\<not> st_read_only st" "st_layers st \<noteq> []" "unat off + length (buf_addrs bufs) \<le> unat (st_virtual_size st)"
    "\<forall>k \<in> Snapshot_Stack.touched (unat off) (length (buf_addrs bufs)). takes_block st k" "env_faults env = no_faults"
    using assms StackB by (simp_all add: env_ok_def)
  from copy_write_guest_effect [OF st(1-3) assms(4,5) st(4,5)] obtain st' where
    "copy_write_guest no_faults st m bufs off = (Inr (), st')" "stack_inv st'" "\<not> st_read_only st'"
    "disk st' = splice_at (unat off) (view_at m (buf_addrs bufs)) (disk st)" by blast
  then show thesis using that [of "StackB st'"] StackB st(6) by simp
qed

section \<open>What a device relies on\<close>

text \<open>
  The contract of a disk: a read fills the buffers with the bytes of the disk, a write it takes stores the bytes of the
  buffers. Raw files and snapshot stacks both keep it.
\<close>

locale guest_disk =
  fixes rd :: "'env \<Rightarrow> 'b \<Rightarrow> guest_memory \<Rightarrow> buffer list \<Rightarrow> u64 \<Rightarrow> ('e + unit) \<times> guest_memory"
    and wr :: "'env \<Rightarrow> 'b \<Rightarrow> guest_memory \<Rightarrow> buffer list \<Rightarrow> u64 \<Rightarrow> ('e + unit) \<times> 'b"
    and contents :: "'b \<Rightarrow> u8 list" and inv_disk :: "'b \<Rightarrow> bool" and host_ok :: "'env \<Rightarrow> bool" and takes :: "'b \<Rightarrow> nat \<Rightarrow> nat \<Rightarrow> bool"
  assumes rd_effect: "inv_disk b \<Longrightarrow> host_ok env \<Longrightarrow> mem_inv m \<Longrightarrow> list_all (buf_mapped m) bufs
      \<Longrightarrow> unat off + length (buf_addrs bufs) \<le> length (contents b)
      \<Longrightarrow> \<exists>m'. rd env b m bufs off = (Inr (), m') \<and> mem_inv m' \<and> layout m' = layout m
        \<and> mem_view m' = spread (mem_view m) (buf_addrs bufs) (take (length (buf_addrs bufs)) (drop (unat off) (contents b)))"
    and wr_effect: "inv_disk b \<Longrightarrow> host_ok env \<Longrightarrow> mem_inv m \<Longrightarrow> list_all (buf_mapped m) bufs
      \<Longrightarrow> unat off + length (buf_addrs bufs) \<le> length (contents b) \<Longrightarrow> takes b (unat off) (length (buf_addrs bufs))
      \<Longrightarrow> \<exists>b'. wr env b m bufs off = (Inr (), b') \<and> inv_disk b'
        \<and> contents b' = splice_at (unat off) (view_at m (buf_addrs bufs)) (contents b)"
begin

text \<open>What was written is read back, whatever buffers and transfers carry it.\<close>

lemma write_read:
  assumes "inv_disk b" "host_ok env" "host_ok env'" "mem_inv m" "list_all (buf_mapped m) out" "list_all (buf_mapped m) inb"
    "unat off + length (buf_addrs out) \<le> length (contents b)" "takes b (unat off) (length (buf_addrs out))"
    "length (buf_addrs inb) = length (buf_addrs out)" "distinct (buf_addrs inb)"
  shows "\<exists>b' m'. wr env b m out off = (Inr (), b') \<and> rd env' b' m inb off = (Inr (), m')
    \<and> map (mem_view m') (buf_addrs inb) = map Some (view_at m (buf_addrs out))"
proof -
  obtain b' where b': "wr env b m out off = (Inr (), b')" "inv_disk b'"
    "contents b' = splice_at (unat off) (view_at m (buf_addrs out)) (contents b)"
    using wr_effect [OF assms(1,2,4,5,7,8)] by blast
  have len: "unat off + length (buf_addrs inb) \<le> length (contents b')" using b'(3) assms(7,9) by simp
  obtain m' where m': "rd env' b' m inb off = (Inr (), m')"
    "mem_view m' = spread (mem_view m) (buf_addrs inb) (take (length (buf_addrs inb)) (drop (unat off) (contents b')))"
    using rd_effect [OF b'(2) assms(3,4,6) len] by blast
  have "take (length (buf_addrs inb)) (drop (unat off) (contents b')) = view_at m (buf_addrs out)"
    unfolding b'(3) splice_at_def using assms(7,9) by simp
  then have "map (mem_view m') (buf_addrs inb) = map Some (view_at m (buf_addrs out))"
    using m'(2) assms(9,10) by (simp add: spread_read)
  then show ?thesis using b'(1) m'(1) by blast
qed

end

interpretation backend: guest_disk be_read_guest be_write_guest be_disk be_inv env_ok "\<lambda>be off n. \<not> be_read_only be \<and> be_takes be off n"
proof unfold_locales
  fix b env m bufs and off :: u64
  assume "be_inv b" "env_ok env" "mem_inv m" "list_all (buf_mapped m) bufs" "unat off + length (buf_addrs bufs) \<le> length (be_disk b)"
  then show "\<exists>m'. be_read_guest env b m bufs off = (Inr (), m') \<and> mem_inv m' \<and> layout m' = layout m
      \<and> mem_view m' = spread (mem_view m) (buf_addrs bufs) (take (length (buf_addrs bufs)) (drop (unat off) (be_disk b)))"
    using be_read_effect by metis
next
  fix b env m bufs and off :: u64
  assume "be_inv b" "env_ok env" "mem_inv m" "list_all (buf_mapped m) bufs" "unat off + length (buf_addrs bufs) \<le> length (be_disk b)"
    "\<not> be_read_only b \<and> be_takes b (unat off) (length (buf_addrs bufs))"
  then show "\<exists>b'. be_write_guest env b m bufs off = (Inr (), b') \<and> be_inv b'
      \<and> be_disk b' = splice_at (unat off) (view_at m (buf_addrs bufs)) (be_disk b)"
    using be_write_effect by metis
qed

end
