(* ===== verification/Blk_Request.thy ===== *)
theory Blk_Request
  imports Blk_Backend
begin

text \<open>
  One virtio-blk request (\<open>ternvale-devices/src/virtio/blk/request.rs\<close>): the header in the readable buffers of a chain, data
  in its readable or writable ones, the status in the last writable byte. Sums of buffer lengths wrap at 32 bits, as in a
  release build. Statistics are left out.
\<close>

definition VIRTIO_BLK_T_IN :: u32 where "VIRTIO_BLK_T_IN = 0"

definition VIRTIO_BLK_T_OUT :: u32 where "VIRTIO_BLK_T_OUT = 1"

definition VIRTIO_BLK_T_FLUSH :: u32 where "VIRTIO_BLK_T_FLUSH = 4"

definition VIRTIO_BLK_T_GET_ID :: u32 where "VIRTIO_BLK_T_GET_ID = 8"

definition VIRTIO_BLK_S_OK :: u8 where "VIRTIO_BLK_S_OK = 0"

definition VIRTIO_BLK_S_IOERR :: u8 where "VIRTIO_BLK_S_IOERR = 1"

definition VIRTIO_BLK_S_UNSUPP :: u8 where "VIRTIO_BLK_S_UNSUPP = 2"

definition ID_BYTES :: nat where "ID_BYTES = 20"

lemmas blk_consts = VIRTIO_BLK_T_IN_def VIRTIO_BLK_T_OUT_def VIRTIO_BLK_T_FLUSH_def VIRTIO_BLK_T_GET_ID_def
  VIRTIO_BLK_S_OK_def VIRTIO_BLK_S_IOERR_def VIRTIO_BLK_S_UNSUPP_def

section \<open>Copies between buffers and slices\<close>

text \<open>\<open>copy_from\<close> fills a slice of \<open>n\<close> bytes.\<close>

fun copy_from :: "guest_memory \<Rightarrow> buffer list \<Rightarrow> nat \<Rightarrow> u8 list option" where
  "copy_from m [] n = (if 0 < n then None else Some [])"
| "copy_from m (b # bs) n =
     (if n = 0 then Some []
      else let k = min (unat (b_len b)) n in
        if k = 0 then copy_from m bs n
        else case read_bytes m (b_addr b) k of
          Inl _ \<Rightarrow> None
        | Inr x \<Rightarrow> map_option (\<lambda>y. x @ y) (copy_from m bs (n - k)))"

fun copy_to :: "guest_memory \<Rightarrow> buffer list \<Rightarrow> u8 list \<Rightarrow> bool \<times> guest_memory" where
  "copy_to m [] src = (True, m)"
| "copy_to m (b # bs) src =
     (if src = [] then (True, m)
      else let k = min (unat (b_len b)) (length src) in
        if k = 0 then copy_to m bs src
        else case write_bytes m (b_addr b) (take k src) of
          Inl _ \<Rightarrow> (False, m)
        | Inr m \<Rightarrow> copy_to m bs (drop k src))"

section \<open>The parts of a chain\<close>

definition chain_status :: "chain \<Rightarrow> u64 option" where
  "chain_status c =
     (if c_writable c = [] then None
      else let b = last (c_writable c) in
        if b_len b = 0 then None else Some (b_addr b + ucast (b_len b) - 1))"

definition parse :: "guest_memory \<Rightarrow> chain \<Rightarrow> (u32 \<times> u64 \<times> u64) option" where
  "parse m c =
     (case copy_from m (c_readable c) 16 of
        None \<Rightarrow> None
      | Some hdr \<Rightarrow>
          (case chain_status c of
             None \<Rightarrow> None
           | Some status_addr \<Rightarrow> Some (from_le (take 4 hdr), from_le (take 8 (drop 8 hdr)), status_addr)))"

definition data_bytes :: "chain \<Rightarrow> u32 \<Rightarrow> u32" where
  "data_bytes c ty =
     (if ty = VIRTIO_BLK_T_IN \<or> ty = VIRTIO_BLK_T_GET_ID then saturating_sub (sum_list (map b_len (c_writable c))) 1
      else if ty = VIRTIO_BLK_T_OUT then saturating_sub (sum_list (map b_len (c_readable c))) 16
      else 0)"

definition data_writable :: "chain \<Rightarrow> buffer list" where
  "data_writable c =
     (let bs = c_writable c;
          bs = (if bs \<noteq> [] \<and> 0 < b_len (last bs) then butlast bs @ [(last bs)\<lparr>b_len := b_len (last bs) - 1\<rparr>] else bs)
      in rev (dropWhile (\<lambda>b. b_len b = 0) (rev bs)))"

fun out_readable :: "u32 \<Rightarrow> buffer list \<Rightarrow> buffer list" where
  "out_readable skip [] = []"
| "out_readable skip (b # bs) =
     (if b_len b \<le> skip then out_readable (skip - b_len b) bs
      else \<lparr>b_addr = b_addr b + ucast skip, b_len = b_len b - skip\<rparr> # out_readable 0 bs)"

definition in_range :: "blk_backend \<Rightarrow> u64 \<Rightarrow> u32 \<Rightarrow> bool" where
  "in_range be sector len =
     (if len = 0 then sector \<le> be_capacity be
      else
        let sectors = (if len mod ucast SECTOR = 0 then len div ucast SECTOR else len div ucast SECTOR + 1)
        in case checked_add sector (ucast sectors) of None \<Rightarrow> False | Some e \<Rightarrow> e \<le> be_capacity be)"

section \<open>Requests\<close>

definition read_req :: "blk_env \<Rightarrow> guest_memory \<Rightarrow> blk_backend \<Rightarrow> chain \<Rightarrow> u64 \<Rightarrow> u32 \<Rightarrow> u8 \<times> guest_memory" where
  "read_req env m be c sector len =
     (if \<not> in_range be sector len then (VIRTIO_BLK_S_IOERR, m)
      else case be_read_guest env be m (data_writable c) (sector * SECTOR) of
        (Inl _, m) \<Rightarrow> (VIRTIO_BLK_S_IOERR, m)
      | (Inr _, m) \<Rightarrow> (VIRTIO_BLK_S_OK, m))"

definition write_req :: "blk_env \<Rightarrow> guest_memory \<Rightarrow> blk_backend \<Rightarrow> chain \<Rightarrow> u64 \<Rightarrow> u32 \<Rightarrow> u8 \<times> blk_backend" where
  "write_req env m be c sector len =
     (if be_read_only be then (VIRTIO_BLK_S_IOERR, be)
      else if \<not> in_range be sector len then (VIRTIO_BLK_S_IOERR, be)
      else case be_write_guest env be m (out_readable 16 (c_readable c)) (sector * SECTOR) of
        (Inl _, be) \<Rightarrow> (VIRTIO_BLK_S_IOERR, be)
      | (Inr _, be) \<Rightarrow> (VIRTIO_BLK_S_OK, be))"

definition flush_req :: "blk_env \<Rightarrow> blk_backend \<Rightarrow> u8" where
  "flush_req env be = (case be_flush env be of Inl _ \<Rightarrow> VIRTIO_BLK_S_IOERR | Inr _ \<Rightarrow> VIRTIO_BLK_S_OK)"

definition get_id :: "guest_memory \<Rightarrow> chain \<Rightarrow> u8 list \<Rightarrow> u8 \<times> guest_memory" where
  "get_id m c serial =
     (case copy_to m (data_writable c) serial of
        (False, m) \<Rightarrow> (VIRTIO_BLK_S_IOERR, m)
      | (True, m) \<Rightarrow> (VIRTIO_BLK_S_OK, m))"

definition write_status_byte :: "guest_memory \<Rightarrow> u64 option \<Rightarrow> u8 \<Rightarrow> u32 \<times> guest_memory" where
  "write_status_byte m addr status =
     (case addr of
        None \<Rightarrow> (0, m)
      | Some a \<Rightarrow> (case write_u8 m a status of Inl _ \<Rightarrow> (0, m) | Inr m \<Rightarrow> (1, m)))"

text \<open>\<open>process\<close>: the length for the used ring, guest memory and the backend afterwards.\<close>

definition process :: "blk_env \<Rightarrow> u8 list \<Rightarrow> chain \<Rightarrow> guest_memory \<Rightarrow> blk_backend \<Rightarrow> u32 \<times> guest_memory \<times> blk_backend" where
  "process env serial c m be =
     (case parse m c of
        None \<Rightarrow> (case write_status_byte m (chain_status c) VIRTIO_BLK_S_IOERR of (used, m) \<Rightarrow> (used, m, be))
      | Some (ty, sector, status_addr) \<Rightarrow>
          let len = data_bytes c ty;
              (status, written, m, be) =
                (if ty = VIRTIO_BLK_T_IN then
                   case read_req env m be c sector len of (s, m) \<Rightarrow> (s, if s = VIRTIO_BLK_S_OK then len else 0, m, be)
                 else if ty = VIRTIO_BLK_T_OUT then
                   case write_req env m be c sector len of (s, be) \<Rightarrow> (s, 0, m, be)
                 else if ty = VIRTIO_BLK_T_FLUSH then (flush_req env be, 0, m, be)
                 else if ty = VIRTIO_BLK_T_GET_ID then
                   case get_id m c serial of (s, m) \<Rightarrow> (s, if s = VIRTIO_BLK_S_OK then of_nat ID_BYTES else 0, m, be)
                 else (VIRTIO_BLK_S_UNSUPP, 0, m, be))
          in case write_status_byte m (Some status_addr) status of (used, m) \<Rightarrow> (used + written, m, be))"

section \<open>The addresses of data, header and status\<close>

lemma copy_from_view:
  assumes "mem_inv m" "list_all (buf_mapped m) bs" "n \<le> length (buf_addrs bs)"
  shows "copy_from m bs n = Some (take n (view_at m (buf_addrs bs)))"
  using assms
proof (induction bs arbitrary: n)
  case (Cons b bs)
  define k where "k = min (unat (b_len b)) n"
  have b: "buf_mapped m b" "list_all (buf_mapped m) bs" using Cons.prems(2) by simp_all
  show ?case
  proof (cases "n = 0 \<or> k = 0")
    case True
    then have "n = 0 \<or> unat (b_len b) = 0 \<and> 0 < n" by (auto simp: k_def min_def split: if_splits)
    then show ?thesis using Cons b by auto
  next
    case False
    obtain x where x: "read_bytes m (b_addr b) k = Inr x"
      using mapped_prefix [OF Cons.prems(1) b(1), of k] by (auto simp: is_ok_iff k_def)
    then have "x = view_at m [unat (b_addr b)..<unat (b_addr b) + k]" by (rule read_bytes_view_at [OF Cons.prems(1)])
    moreover have "take n (buf_addrs (b # bs)) = [unat (b_addr b)..<unat (b_addr b) + k] @ take (n - k) (buf_addrs bs)"
      by (cases "n \<le> unat (b_len b)") (simp_all add: k_def min_def)
    ultimately have "take n (view_at m (buf_addrs (b # bs))) = x @ take (n - k) (view_at m (buf_addrs bs))"
      by (metis view_at_simps(2) view_at_take(1))
    moreover have "copy_from m bs (n - k) = Some (take (n - k) (view_at m (buf_addrs bs)))"
      using Cons.IH [OF Cons.prems(1) b(2)] Cons.prems(3) by (auto simp: k_def)
    ultimately show ?thesis using False x by (simp add: Let_def flip: k_def)
  qed
qed simp

lemma trailing_empty: "buf_addrs (rev (dropWhile (\<lambda>b. b_len b = 0) (rev bs))) = buf_addrs bs"
proof (induction bs rule: rev_induct)
  case (snoc b bs)
  then show ?case by simp
qed simp

lemma trailing_subset: "set (rev (dropWhile P (rev bs))) \<subseteq> set bs"
  by (metis set_dropWhileD set_rev subsetI)

definition has_status :: "chain \<Rightarrow> bool" where
  "has_status c \<longleftrightarrow> c_writable c \<noteq> [] \<and> b_len (last (c_writable c)) \<noteq> 0"

lemma data_writable_addrs:
  assumes "mem_inv m" "list_all (buf_mapped m) (c_writable c)" "has_status c"
  shows "buf_addrs (data_writable c) = butlast (buf_addrs (c_writable c))" "list_all (buf_mapped m) (data_writable c)"
    "\<exists>a. chain_status c = Some a \<and> unat a = last (buf_addrs (c_writable c)) \<and> is_ok (read_bytes m a 1)"
    "buf_addrs (c_writable c) \<noteq> []"
proof -
  obtain bs b where c: "c_writable c = bs @ [b]" using assms(3) by (metis has_status_def rev_exhaust)
  have b: "buf_mapped m b" "list_all (buf_mapped m) bs" "b_len b \<noteq> 0" using assms(2,3) by (simp_all add: c has_status_def)
  let ?d = "b\<lparr>b_len := b_len b - 1\<rparr>" and ?n = "unat (b_len b)"
  have n: "0 < ?n" using b(3) by (simp add: unat_gt_0)
  have len: "unat (b_len b - 1) = ?n - 1" using b(3) by (simp add: unat_minus_one)
  have d: "data_writable c = rev (dropWhile (\<lambda>b. b_len b = 0) (rev (bs @ [?d])))"
    unfolding data_writable_def Let_def c using b(3) by (simp add: word_gt_0)
  have upt: "[unat (b_addr b)..<unat (b_addr b) + ?n] = [unat (b_addr b)..<unat (b_addr b) + (?n - 1)] @ [unat (b_addr b) + (?n - 1)]"
    using upt_Suc_append [of "unat (b_addr b)" "unat (b_addr b) + (?n - 1)"] n by simp
  show "buf_addrs (data_writable c) = butlast (buf_addrs (c_writable c))"
    unfolding d trailing_empty c by (simp add: len upt butlast_append del: upt_Suc)
  show "buf_addrs (c_writable c) \<noteq> []" using n by (simp add: c)
  have "buf_mapped m ?d" using mapped_prefix [OF assms(1) b(1), of "?n - 1"] by (simp add: buf_mapped_def len)
  then have "list_all (buf_mapped m) (bs @ [?d])" using b(2) by simp
  then show "list_all (buf_mapped m) (data_writable c)"
    unfolding d using trailing_subset [of "\<lambda>b. b_len b = 0" "bs @ [?d]"] by (auto simp: list_all_iff)
  let ?a = "b_addr b + ucast (b_len b) - 1"
  have s: "unat (ucast (b_len b) :: u64) = ?n" by (rule unat_buf_len)
  have sum: "unat (b_addr b + ucast (b_len b)) = unat (b_addr b) + ?n"
    using mapped_bound [OF assms(1) b(1,3)] s unat_add_no_overflow [of "b_addr b" "ucast (b_len b)"] by simp
  then have "b_addr b + ucast (b_len b) \<noteq> 0" using n by (metis add_is_0 neq0_conv unat_0)
  then have a: "unat ?a = unat (b_addr b) + (?n - 1)" using sum n by (simp add: unat_minus_one)
  have "is_ok (read_bytes m ?a 1)"
    using read_bytes_sub [OF assms(1), of "b_addr b" ?n ?a 1] b(1) a n by (simp add: buf_mapped_def)
  moreover have "last (buf_addrs (c_writable c)) = unat (b_addr b) + (?n - 1)" by (simp add: c upt del: upt_Suc)
  ultimately show "\<exists>a. chain_status c = Some a \<and> unat a = last (buf_addrs (c_writable c)) \<and> is_ok (read_bytes m a 1)"
    using b(3) a by (simp add: chain_status_def c)
qed

lemma out_readable_addrs:
  assumes "mem_inv m" "list_all (buf_mapped m) bs"
  shows "buf_addrs (out_readable skip bs) = drop (unat skip) (buf_addrs bs)" "list_all (buf_mapped m) (out_readable skip bs)"
proof -
  have "buf_addrs (out_readable skip bs) = drop (unat skip) (buf_addrs bs) \<and> list_all (buf_mapped m) (out_readable skip bs)"
    using assms(2)
  proof (induction bs arbitrary: skip)
    case (Cons b bs)
    have b: "buf_mapped m b" "list_all (buf_mapped m) bs" using Cons.prems by simp_all
    show ?case
    proof (cases "b_len b \<le> skip")
      case True
      then have "unat (skip - b_len b) = unat skip - unat (b_len b)" by (rule unat_sub)
      then show ?thesis using True Cons.IH [OF b(2), of "skip - b_len b"] by (simp add: word_le_nat_alt)
    next
      case False
      then have lt: "unat skip < unat (b_len b)" by (simp add: word_le_nat_alt)
      have "(of_nat (unat skip) :: u64) = ucast skip" "(of_nat (unat skip) :: u32) = skip" by simp_all
      then show ?thesis
        using False lt buffer_tail [OF assms(1) b(1) lt] Cons.IH [OF b(2), of 0] by simp
    qed
  qed simp
  then show "buf_addrs (out_readable skip bs) = drop (unat skip) (buf_addrs bs)" "list_all (buf_mapped m) (out_readable skip bs)" by simp_all
qed

lemma sum_lengths:
  assumes "length (buf_addrs bs) < 2 ^ 32"
  shows "unat (sum_list (map b_len bs)) = length (buf_addrs bs)"
  using assms
proof (induction bs)
  case (Cons b bs)
  then have "unat (sum_list (map b_len bs)) = length (buf_addrs bs)" by simp
  then show ?case using Cons.prems unat_add_no_overflow [of "b_len b" "sum_list (map b_len bs)"] by simp
qed simp

lemma div_ceil_nat: "(if n mod 512 = 0 then n div 512 else n div 512 + 1) = (n + 511) div 512" for n :: nat
proof -
  have "n + 511 = (n mod 512 + 511) + n div 512 * 512" using mod_mult_div_eq [of n 512] by linarith
  then have "(n + 511) div 512 = n div 512 + (n mod 512 + 511) div 512" by (simp only: div_mult_self1)
  moreover have "(n mod 512 + 511) div 512 = (if n mod 512 = 0 then 0 else 1)"
    using mod_less_divisor [of 512 n] by (auto intro: div_nat_eqI)
  ultimately show ?thesis by simp
qed

lemma in_range_nat:
  assumes "be_inv be"
  shows "in_range be sector len \<longleftrightarrow> unat sector + (unat len + 511) div 512 \<le> length (be_disk be) div 512"
proof (cases "len = 0")
  case True
  then show ?thesis by (simp add: in_range_def word_le_nat_alt be_capacity_disk [OF assms])
next
  case False
  define sectors :: u32 where "sectors = (if len mod 512 = 0 then len div 512 else len div 512 + 1)"
  have "unat len < 2 ^ 32" using unsigned_less [of len, where 'a = nat] by simp
  then have "unat (len div 512) + 1 < 2 ^ 32" by (simp add: unat_div)
  then have "unat sectors = (if unat len mod 512 = 0 then unat len div 512 else unat len div 512 + 1)"
    using unat_add_no_overflow [of "len div 512" 1] by (simp add: sectors_def word_unat_eq_iff unat_mod unat_div)
  also have "\<dots> = (unat len + 511) div 512" by (rule div_ceil_nat)
  finally have s: "unat (ucast sectors :: u64) = (unat len + 511) div 512"
    using unat_buf_len [of "\<lparr>b_addr = 0, b_len = sectors\<rparr>"] by simp
  have lt: "length (be_disk be) div 512 < 2 ^ 64" using be_disk_length [OF assms] by simp
  have "ucast SECTOR = (512 :: u32)" by (simp add: SECTOR_def)
  then have eq: "in_range be sector len = (case checked_add sector (ucast sectors) of None \<Rightarrow> False | Some e \<Rightarrow> e \<le> be_capacity be)"
    using False unfolding in_range_def Let_def sectors_def by (simp only: if_False)
  show ?thesis
  proof (cases "checked_add sector (ucast sectors :: u64)")
    case None
    then have "2 ^ 64 \<le> unat sector + (unat len + 511) div 512" using s by (simp add: checked_add_None)
    then show ?thesis using lt unfolding eq None by simp
  next
    case (Some e)
    then have "unat e = unat sector + (unat len + 511) div 512" using s by (simp add: checked_add_Some)
    then show ?thesis unfolding eq Some by (simp add: word_le_nat_alt be_capacity_disk [OF assms])
  qed
qed

lemma unat_sector:
  assumes "be_inv be" "unat sector \<le> length (be_disk be) div 512"
  shows "unat (sector * SECTOR) = unat sector * 512"
proof -
  have "unat sector * 512 \<le> length (be_disk be)" using assms(2) by simp
  also have "\<dots> \<le> 2 ^ 63" by (rule be_disk_length [OF assms(1)])
  finally show ?thesis by (simp add: unat_word_ariths SECTOR_def)
qed

lemma write_status_byte_effect:
  assumes "mem_inv m" "is_ok (read_bytes m a 1)"
  obtains m' where "write_status_byte m (Some a) status = (1, m')" "mem_inv m'" "layout m' = layout m"
    "mem_view m' = (mem_view m)(unat a := Some status)"
proof -
  have "to_le 1 status = [status]" by (simp add: to_le_def)
  then have w: "write_u8 m a status = write_bytes m a [status]" by (simp add: write_u8_def)
  obtain m' where m': "write_bytes m a [status] = Inr m'"
    using mem.wr_ok [OF assms(1), of a "[status]"] assms(2) by (auto simp: is_ok_iff)
  have "view_write (mem_view m) (unat a) [status] = (mem_view m)(unat a := Some status)"
    by (auto simp: view_write_def fun_eq_iff)
  then show thesis
    using that m' mem.wr_inv [OF assms(1) m'] write_bytes_layout [OF m'] mem.wr_view [OF assms(1) m'] by (simp add: write_status_byte_def w)
qed

text \<open>A chain that carries a request of type \<open>ty\<close> at \<open>sector\<close>.\<close>

definition request :: "guest_memory \<Rightarrow> chain \<Rightarrow> u32 \<Rightarrow> u64 \<Rightarrow> bool" where
  "request m c ty sector \<longleftrightarrow>
     list_all (buf_mapped m) (c_readable c) \<and> list_all (buf_mapped m) (c_writable c) \<and> has_status c
     \<and> length (buf_addrs (c_readable c)) < 2 ^ 32 \<and> length (buf_addrs (c_writable c)) < 2 ^ 32
     \<and> 16 \<le> length (buf_addrs (c_readable c))
     \<and> from_le (take 4 (view_at m (buf_addrs (c_readable c)))) = ty
     \<and> from_le (take 8 (drop 8 (view_at m (buf_addrs (c_readable c))))) = sector"

definition data_in :: "chain \<Rightarrow> nat list" where
  "data_in c = butlast (buf_addrs (c_writable c))"

definition data_out :: "chain \<Rightarrow> nat list" where
  "data_out c = drop 16 (buf_addrs (c_readable c))"

definition status_at :: "chain \<Rightarrow> nat" where
  "status_at c = last (buf_addrs (c_writable c))"

lemma request_parse:
  assumes "mem_inv m" "request m c ty sector"
  obtains a where "parse m c = Some (ty, sector, a)" "unat a = status_at c" "is_ok (read_bytes m a 1)"
proof -
  let ?v = "view_at m (buf_addrs (c_readable c))"
  have "copy_from m (c_readable c) 16 = Some (take 16 ?v)"
    using assms(2) by (intro copy_from_view [OF assms(1)]) (simp_all add: request_def)
  moreover have "take 4 (take 16 ?v) = take 4 ?v" "take 8 (drop 8 (take 16 ?v)) = take 8 (drop 8 ?v)"
    by (simp_all add: drop_take)
  ultimately show thesis
    using data_writable_addrs(3) [OF assms(1), of c] assms(2) that by (auto simp: request_def parse_def status_at_def)
qed

lemma request_lengths:
  assumes "mem_inv m" "request m c ty sector"
  shows "unat (data_bytes c VIRTIO_BLK_T_IN) = length (data_in c)" "unat (data_bytes c VIRTIO_BLK_T_OUT) = length (data_out c)"
  using assms(2) sum_lengths [of "c_writable c"] sum_lengths [of "c_readable c"]
  by (simp_all add: request_def data_bytes_def blk_consts unat_saturating_sub data_in_def data_out_def)

lemma request_fits:
  fixes n sector len :: nat
  assumes "sector + (n + 511) div 512 \<le> len div 512"
  shows "sector * 512 + n \<le> len"
proof -
  have "n \<le> (n + 511) div 512 * 512" using mod_mult_div_eq [of "n + 511" 512] mod_less_divisor [of 512 "n + 511"] by linarith
  moreover have "(sector + (n + 511) div 512) * 512 \<le> len div 512 * 512" using assms by simp
  moreover have "len div 512 * 512 \<le> len" by simp
  ultimately show ?thesis by (simp add: add_mult_distrib)
qed

text \<open>
  A request for the identifier whose writable buffers hold nothing but the status byte is answered with success and a
  used length of 21, more than the chain has room for.
\<close>

lemma copy_to_empty: "buf_addrs bs = [] \<Longrightarrow> copy_to m bs src = (True, m)"
  by (induction bs) (auto simp: Let_def)

lemma blk_get_id_short:
  assumes "mem_inv m" "request m c VIRTIO_BLK_T_GET_ID sector" "data_in c = []"
  shows "length (buf_addrs (c_writable c)) = 1"
    "\<exists>m'. process env serial c m be = (21, m', be) \<and> mem_view m' = (mem_view m)(status_at c := Some VIRTIO_BLK_S_OK)"
proof -
  have w: "list_all (buf_mapped m) (c_writable c)" "has_status c" using assms(2) by (simp_all add: request_def)
  note d = data_writable_addrs [OF assms(1) w]
  show "length (buf_addrs (c_writable c)) = 1"
    using assms(3) d(4) by (cases "buf_addrs (c_writable c)" rule: rev_cases) (simp_all add: data_in_def)
  obtain a where p: "parse m c = Some (VIRTIO_BLK_T_GET_ID, sector, a)" "unat a = status_at c" "is_ok (read_bytes m a 1)"
    by (rule request_parse [OF assms(1,2)])
  have id: "get_id m c serial = (VIRTIO_BLK_S_OK, m)" using d(1) assms(3) by (simp add: get_id_def data_in_def copy_to_empty)
  obtain m' where m': "write_status_byte m (Some a) VIRTIO_BLK_S_OK = (1, m')"
    "mem_view m' = (mem_view m)(status_at c := Some VIRTIO_BLK_S_OK)"
    using write_status_byte_effect [OF assms(1) p(3), of VIRTIO_BLK_S_OK] unfolding p(2) by blast
  have "VIRTIO_BLK_T_GET_ID \<noteq> VIRTIO_BLK_T_IN" "VIRTIO_BLK_T_GET_ID \<noteq> VIRTIO_BLK_T_OUT" "VIRTIO_BLK_T_GET_ID \<noteq> VIRTIO_BLK_T_FLUSH"
    by (simp_all add: blk_consts)
  then show "\<exists>m'. process env serial c m be = (21, m', be) \<and> mem_view m' = (mem_view m)(status_at c := Some VIRTIO_BLK_S_OK)"
    using p(1) id m' by (simp add: process_def ID_BYTES_def)
qed

text \<open>
  C8. A read request returns the disk. When the range is on the disk and the writable buffers are mapped and do not
  overlap, then, however the kernel splits the transfer, the data buffers hold exactly the bytes of the disk from the
  sector on, the status byte is OK, the used length counts both, no other byte of guest memory has changed, and neither
  has the disk. This holds for raw files and for snapshot stacks.
\<close>

theorem blk_read_exact:
  assumes "be_inv be" "env_ok env" "mem_inv m" "request m c VIRTIO_BLK_T_IN sector" "distinct (buf_addrs (c_writable c))"
    "unat sector + (length (data_in c) + 511) div 512 \<le> length (be_disk be) div 512"
  shows "\<exists>m'. process env serial c m be = (of_nat (length (data_in c)) + 1, m', be) \<and> mem_inv m'
    \<and> map (mem_view m') (data_in c) = map Some (take (length (data_in c)) (drop (unat sector * 512) (be_disk be)))
    \<and> mem_view m' (status_at c) = Some VIRTIO_BLK_S_OK
    \<and> (\<forall>a. a \<notin> set (buf_addrs (c_writable c)) \<longrightarrow> mem_view m' a = mem_view m a)"
proof -
  let ?as = "data_in c" and ?off = "unat sector * 512"
  have w: "list_all (buf_mapped m) (c_writable c)" "has_status c" using assms(4) by (simp_all add: request_def)
  note d = data_writable_addrs [OF assms(3) w]
  have as: "buf_addrs (c_writable c) = ?as @ [status_at c]" using d(4) by (simp add: data_in_def status_at_def)
  obtain a where p: "parse m c = Some (VIRTIO_BLK_T_IN, sector, a)" "unat a = status_at c" "is_ok (read_bytes m a 1)"
    by (rule request_parse [OF assms(3,4)])
  note len = request_lengths(1) [OF assms(3,4)]
  have range: "in_range be sector (data_bytes c VIRTIO_BLK_T_IN)" using assms(6) by (simp add: in_range_nat [OF assms(1)] len)
  have sec: "unat (sector * SECTOR) = ?off" using assms(6) by (intro unat_sector [OF assms(1)]) linarith
  have fits: "?off + length ?as \<le> length (be_disk be)" by (rule request_fits [OF assms(6)])
  obtain m1 where m1: "be_read_guest env be m (data_writable c) (sector * SECTOR) = (Inr (), m1)" "mem_inv m1" "layout m1 = layout m"
    "mem_view m1 = spread (mem_view m) ?as (take (length ?as) (drop ?off (be_disk be)))"
    using backend.rd_effect [OF assms(1-3) d(2), of "sector * SECTOR"] fits unfolding sec d(1) data_in_def by blast
  have ok: "is_ok (read_bytes m1 a 1)" using p(3) read_ok_layout [OF m1(3)] by simp
  obtain m' where m': "write_status_byte m1 (Some a) VIRTIO_BLK_S_OK = (1, m')" "mem_inv m'"
    "mem_view m' = (mem_view m1)(status_at c := Some VIRTIO_BLK_S_OK)"
    using write_status_byte_effect [OF m1(2) ok, of VIRTIO_BLK_S_OK] unfolding p(2) by blast
  have "data_bytes c VIRTIO_BLK_T_IN = of_nat (length ?as)" unfolding len [symmetric] by simp
  then have "process env serial c m be = (of_nat (length ?as) + 1, m', be)"
    using p(1) range m1(1) m'(1) by (simp add: process_def read_req_def)
  moreover have "map (mem_view m') ?as = map (mem_view m1) ?as" using assms(5) unfolding as by (auto simp: m'(3))
  moreover have "map (mem_view m1) ?as = map Some (take (length ?as) (drop ?off (be_disk be)))"
    unfolding m1(4) using assms(5) fits unfolding as by (intro spread_read) simp_all
  moreover have "mem_view m' b = mem_view m b" if "b \<notin> set (buf_addrs (c_writable c))" for b
    using that unfolding as by (simp add: m'(3) m1(4) spread_outside)
  ultimately show ?thesis using m'(2,3) by simp
qed

text \<open>A disk of two sectors and a chain that reads four bytes of the second one.\<close>

definition demo_disk :: file_backend where
  "demo_disk = \<lparr>fb_file = replicate 512 7 @ replicate 512 9, fb_bytes = 1024, fb_read_only = False, fb_cache = Writeback, fb_flush = FlushSafe\<rparr>"

definition demo_env :: blk_env where
  "demo_env = \<lparr>env_sys = (\<lambda>_. Moved 3), env_sync = (\<lambda>_. True), env_stack_sync = True, env_faults = no_faults\<rparr>"

definition demo_blk_chain :: "u32 \<Rightarrow> u32 \<Rightarrow> chain" where
  "demo_blk_chain r w = \<lparr>c_head = 0, c_readable = [\<lparr>b_addr = 0x40000000, b_len = r\<rparr>], c_writable = [\<lparr>b_addr = 0x40000100, b_len = w\<rparr>]\<rparr>"

lemma demo_disk_ok: "be_inv (FileB demo_disk)" "env_ok demo_env" "length (be_disk (FileB demo_disk)) = 1024"
  by (simp_all add: demo_disk_def demo_env_def env_ok_def sys_ok_def)

lemma demo_request:
  assumes "16 \<le> unat r" "unat r < 0x8000" "0 < unat w" "unat w < 0x7f00"
    "from_le (map (\<lambda>k. case map_of bytes k of None \<Rightarrow> 0 | Some b \<Rightarrow> b) [0..<4]) = ty"
    "from_le (map (\<lambda>k. case map_of bytes k of None \<Rightarrow> 0 | Some b \<Rightarrow> b) [8..<16]) = sector"
  shows "request (demo_mem bytes) (demo_blk_chain r w) ty sector"
proof -
  have "view_at (demo_mem bytes) (buf_addrs (c_readable (demo_blk_chain r w)))
      = map (\<lambda>k. case map_of bytes k of None \<Rightarrow> 0 | Some b \<Rightarrow> b) [0..<unat r]"
    using read_bytes_view_at [OF demo_mem_inv demo_mem_read, of "0x40000000" "unat r" bytes] assms(2) by (simp add: demo_blk_chain_def)
  then show ?thesis
    using assms by (simp add: request_def buf_mapped_def demo_mem_read has_status_def demo_blk_chain_def take_map drop_map word_unat_eq_iff)
qed

theorem blk_read_exact_witness:
  "\<exists>m'. process demo_env [] (demo_blk_chain 16 5) (demo_mem [(8, 1)]) (FileB demo_disk) = (5, m', FileB demo_disk)
    \<and> map (mem_view m') [0x40000100..<0x40000104] = map Some [9, 9, 9, 9]"
proof -
  have d: "data_in (demo_blk_chain 16 5) = [0x40000100..<0x40000104]" by (simp add: data_in_def demo_blk_chain_def)
  have l: "length [0x40000100..<0x40000104 :: nat] = 4" by simp
  have req: "request (demo_mem [(8, 1)]) (demo_blk_chain 16 5) VIRTIO_BLK_T_IN 1"
    by (rule demo_request) (simp_all add: blk_consts upt_rec)
  have dist: "distinct (buf_addrs (c_writable (demo_blk_chain 16 5)))" by (simp add: demo_blk_chain_def)
  have range: "unat (1 :: u64) + (length (data_in (demo_blk_chain 16 5)) + 511) div 512 \<le> length (be_disk (FileB demo_disk)) div 512"
    unfolding d demo_disk_ok(3) by simp
  obtain m' where "process demo_env [] (demo_blk_chain 16 5) (demo_mem [(8, 1)]) (FileB demo_disk) = (5, m', FileB demo_disk)"
    "map (mem_view m') [0x40000100..<0x40000104] = map Some (take 4 (drop 512 (be_disk (FileB demo_disk))))"
    using blk_read_exact [OF demo_disk_ok(1,2) demo_mem_inv req dist range, of "[]"] unfolding d l by (auto simp del: be_disk.simps upt_rec_numeral)
  moreover have "take 4 (drop 512 (be_disk (FileB demo_disk))) = replicate 4 9" by (simp add: demo_disk_def)
  moreover have "replicate 4 (9 :: u8) = [9, 9, 9, 9]" by (simp add: numeral_eq_Suc)
  ultimately show ?thesis by (auto simp del: be_disk.simps upt_rec_numeral)
qed

text \<open>
  C9. A write request stores its data. When the range is on the disk, the disk afterwards is the disk before with the
  bytes of the readable buffers behind the header stored from the sector on, in order, and nothing else; guest memory
  changes in the status byte only, which is OK. For a raw file this needs nothing else; a snapshot stack must be able to
  take the blocks, that is, blocks new to the newest layer come in ascending order.
\<close>

theorem blk_write_exact:
  assumes "be_inv be" "env_ok env" "mem_inv m" "request m c VIRTIO_BLK_T_OUT sector" "\<not> be_read_only be"
    "unat sector + (length (data_out c) + 511) div 512 \<le> length (be_disk be) div 512"
    "be_takes be (unat sector * 512) (length (data_out c))"
  shows "\<exists>m' be'. process env serial c m be = (1, m', be') \<and> mem_inv m' \<and> be_inv be'
    \<and> be_disk be' = splice_at (unat sector * 512) (view_at m (data_out c)) (be_disk be)
    \<and> mem_view m' = (mem_view m)(status_at c := Some VIRTIO_BLK_S_OK)"
proof -
  let ?as = "data_out c" and ?off = "unat sector * 512"
  have r: "list_all (buf_mapped m) (c_readable c)" using assms(4) by (simp add: request_def)
  note d = out_readable_addrs [OF assms(3) r, of 16]
  have as: "buf_addrs (out_readable 16 (c_readable c)) = ?as" using d(1) by (simp add: data_out_def)
  obtain a where p: "parse m c = Some (VIRTIO_BLK_T_OUT, sector, a)" "unat a = status_at c" "is_ok (read_bytes m a 1)"
    by (rule request_parse [OF assms(3,4)])
  note len = request_lengths(2) [OF assms(3,4)]
  have range: "in_range be sector (data_bytes c VIRTIO_BLK_T_OUT)" using assms(6) by (simp add: in_range_nat [OF assms(1)] len)
  have sec: "unat (sector * SECTOR) = ?off" using assms(6) by (intro unat_sector [OF assms(1)]) linarith
  have fits: "?off + length ?as \<le> length (be_disk be)" by (rule request_fits [OF assms(6)])
  obtain be' where be': "be_write_guest env be m (out_readable 16 (c_readable c)) (sector * SECTOR) = (Inr (), be')" "be_inv be'"
    "be_disk be' = splice_at ?off (view_at m ?as) (be_disk be)"
    using backend.wr_effect [OF assms(1-3) d(2), of "sector * SECTOR"] fits assms(5,7) unfolding sec as by blast
  obtain m' where m': "write_status_byte m (Some a) VIRTIO_BLK_S_OK = (1, m')" "mem_inv m'"
    "mem_view m' = (mem_view m)(status_at c := Some VIRTIO_BLK_S_OK)"
    using write_status_byte_effect [OF assms(3) p(3), of VIRTIO_BLK_S_OK] unfolding p(2) by blast
  have "VIRTIO_BLK_T_OUT \<noteq> VIRTIO_BLK_T_IN" by (simp add: blk_consts)
  then have "process env serial c m be = (1, m', be')"
    using p(1) range be'(1) m'(1) assms(5) by (simp add: process_def write_req_def)
  then show ?thesis using be'(2,3) m'(2,3) by blast
qed

theorem blk_write_exact_witness:
  "\<exists>m' be'. process demo_env [] (demo_blk_chain 17 1) (demo_mem [(0, 1), (8, 1), (16, 5)]) (FileB demo_disk) = (1, m', be')
    \<and> be_disk be' = splice_at 512 [5] (be_disk (FileB demo_disk))"
proof -
  let ?m = "demo_mem [(0, 1), (8, 1), (16, 5)]"
  have d: "data_out (demo_blk_chain 17 1) = [0x40000010]" by (simp add: data_out_def demo_blk_chain_def upt_rec)
  have "read_bytes ?m 0x40000010 1 = Inr [5]" by (simp add: demo_mem_read)
  then have v: "view_at ?m [0x40000010] = [5]" using read_bytes_view_at [OF demo_mem_inv, of _ "0x40000010" 1 "[5]"] by (simp add: upt_rec)
  have req: "request ?m (demo_blk_chain 17 1) VIRTIO_BLK_T_OUT 1"
    by (rule demo_request) (simp_all add: blk_consts upt_rec)
  have range: "unat (1 :: u64) + (length (data_out (demo_blk_chain 17 1)) + 511) div 512 \<le> length (be_disk (FileB demo_disk)) div 512"
    unfolding d demo_disk_ok(3) by simp
  have rw: "\<not> be_read_only (FileB demo_disk)" by (simp add: demo_disk_def)
  show ?thesis
    using blk_write_exact [OF demo_disk_ok(1,2) demo_mem_inv req rw range, of "[]"] unfolding d v by (auto simp del: be_disk.simps)
qed

section \<open>Requests keep guest memory well formed\<close>

lemma poke_inv: "mem_inv m \<Longrightarrow> mem_inv (poke m a bs)"
  by (auto simp: poke_def dest: mem.wr_inv split: sum.split)

lemma iov_store_inv: "mem_inv m \<Longrightarrow> mem_inv (iov_store m iov bs)"
  by (induction iov arbitrary: m bs) (simp_all add: Let_def poke_inv)

lemma read_calls_inv: "mem_inv m \<Longrightarrow> mem_inv (snd (read_calls sys k f iov off moved want m))"
proof (induction sys k f iov off moved want m rule: read_calls.induct)
  case (1 sys k f iov off moved want m)
  then show ?case
    by (subst read_calls.simps) (auto simp: Let_def iov_store_inv split: sys_result.split)
qed

lemma zero_rest_inv: "mem_inv m \<Longrightarrow> mem_inv (snd (zero_rest m bs skip))"
  by (induction m bs skip rule: zero_rest.induct) (auto simp: poke_inv split: sum.split)

lemma vectored_read_inv: "mem_inv m \<Longrightarrow> mem_inv (snd (vectored_read sys k f m bufs off))"
proof (induction sys k f m bufs off rule: vectored_read.induct)
  case (1 sys k f m bufs off)
  show ?case
  proof (cases "bufs = []")
    case True
    then show ?thesis using "1.prems" by (subst vectored_read.simps) simp
  next
    case False
    let ?chunk = "take IOV_MAX bufs"
    show ?thesis
    proof (cases "iov_of m ?chunk")
      case (Inl e)
      then show ?thesis using "1.prems" False by (subst vectored_read.simps) simp
    next
      case (Inr iov)
      show ?thesis
      proof (cases "iov = []")
        case True
        then show ?thesis using "1.IH"(1) [OF False refl Inr True "1.prems"] False Inr by (subst vectored_read.simps) simp
      next
        case ne: False
        obtain r m1 where rd: "read_calls sys k f iov off 0 (iov_bytes iov) m = (r, m1)" by fastforce
        then have m1: "mem_inv m1" using read_calls_inv [OF "1.prems"] by (metis snd_conv)
        show ?thesis
        proof (cases r)
          case (Inl e)
          then show ?thesis using m1 False Inr ne rd by (subst vectored_read.simps) simp
        next
          case r: (Inr a)
          obtain k1 moved off1 where a: "a = (k1, moved, off1)" by (cases a) auto
          show ?thesis
          proof (cases "moved < iov_bytes iov")
            case True
            then show ?thesis using zero_rest_inv [OF m1] False Inr ne rd r a by (subst vectored_read.simps) simp
          next
            case le: False
            then show ?thesis
              using "1.IH"(2) [OF False refl Inr ne rd [symmetric] r a [symmetric] refl le m1] False Inr ne rd r a
              by (subst vectored_read.simps) simp
          qed
        qed
      qed
    qed
  qed
qed

lemma copy_read_guest_inv: "mem_inv m \<Longrightarrow> mem_inv (snd (copy_read_guest fl st m bufs off))"
  by (induction fl st m bufs off rule: copy_read_guest.induct) (auto simp: poke_inv split: sum.split)

lemma copy_to_inv: "mem_inv m \<Longrightarrow> mem_inv (snd (copy_to m bs src))"
  by (induction m bs src rule: copy_to.induct) (auto simp: Let_def dest: mem.wr_inv split: sum.split)

lemma write_status_byte_inv: "mem_inv m \<Longrightarrow> mem_inv (snd (write_status_byte m a status))"
  by (auto simp: write_status_byte_def write_u8_def dest: mem.wr_inv split: option.split sum.split)

lemma be_read_guest_inv:
  assumes "mem_inv m" "be_read_guest env be m bufs off = (r, m')"
  shows "mem_inv m'"
proof (cases be)
  case (FileB fb)
  then show ?thesis
    using assms vectored_read_inv [OF assms(1), of "env_sys env" 0 "fb_file fb" bufs off]
    by (auto simp: file_read_guest_def split: if_splits)
next
  case (StackB st)
  then show ?thesis using assms copy_read_guest_inv [OF assms(1), of "env_faults env" st bufs off] by simp
qed

lemma read_req_inv: "mem_inv m \<Longrightarrow> mem_inv (snd (read_req env m be c sector len))"
  by (auto simp: read_req_def dest: be_read_guest_inv split: prod.split sum.split)

lemma get_id_inv: "mem_inv m \<Longrightarrow> mem_inv (snd (get_id m c serial))"
  using copy_to_inv [of m "data_writable c" serial]
  by (cases "copy_to m (data_writable c) serial") (auto simp: get_id_def split: bool.split)

lemma process_inv:
  assumes "mem_inv m" "process env serial c m be = (used, m', be')"
  shows "mem_inv m'"
proof -
  have "\<exists>m1 a s. mem_inv m1 \<and> m' = snd (write_status_byte m1 a s)"
  proof (cases "parse m c")
    case None
    then have "m' = snd (write_status_byte m (chain_status c) VIRTIO_BLK_S_IOERR)" using assms(2) by (simp add: process_def split: prod.splits)
    then show ?thesis using assms(1) by blast
  next
    case (Some h)
    obtain ty sector a where h: "h = (ty, sector, a)" by (cases h) auto
    let ?m1 = "if ty = VIRTIO_BLK_T_IN then snd (read_req env m be c sector (data_bytes c ty))
      else if ty = VIRTIO_BLK_T_GET_ID then snd (get_id m c serial) else m"
    have "\<exists>s. m' = snd (write_status_byte ?m1 (Some a) s)"
      using assms(2) Some h by (auto simp: process_def Let_def blk_consts split: prod.splits if_splits) (metis snd_conv)+
    moreover have "mem_inv ?m1" using assms(1) by (simp add: read_req_inv get_id_inv)
    ultimately show ?thesis by blast
  qed
  then show ?thesis using write_status_byte_inv by blast
qed

section \<open>What a request can reach of a raw disk\<close>

lemma advance_iov_bytes: "iov_bytes (advance_iov n iov) = iov_bytes iov - n"
proof (induction iov arbitrary: n)
  case (Cons b iov)
  have "unat (b_len b - of_nat n) = unat (b_len b) - n" if "n < unat (b_len b)"
  proof -
    have "n < 2 ^ 32" using that unsigned_less [of "b_len b", where 'a = nat] by simp
    then have "unat (of_nat n :: u32) = n" by (intro unat_of_nat_small) simp
    then show ?thesis using that by (simp add: unat_sub word_le_nat_alt)
  qed
  then show ?case using Cons.IH by (auto simp: iov_bytes_def)
qed (simp add: iov_bytes_def)

text \<open>Files of the same length that agree outside a range.\<close>

definition same_outside :: "nat \<Rightarrow> nat \<Rightarrow> u8 list \<Rightarrow> u8 list \<Rightarrow> bool" where
  "same_outside lo hi f f' \<longleftrightarrow> length f' = length f \<and> (\<forall>i < length f. i < lo \<or> hi \<le> i \<longrightarrow> f' ! i = f ! i)"

lemma same_outside_refl [simp]: "same_outside lo hi f f"
  by (simp add: same_outside_def)

lemma same_outside_trans: "same_outside a b f g \<Longrightarrow> same_outside c d g h \<Longrightarrow> lo \<le> a \<Longrightarrow> b \<le> hi \<Longrightarrow> lo \<le> c \<Longrightarrow> d \<le> hi \<Longrightarrow> same_outside lo hi f h"
  by (auto simp: same_outside_def)

lemma write_same_outside:
  assumes "off + length bytes \<le> length f"
  shows "same_outside off (off + length bytes) f (write_all_at f off bytes)"
  unfolding write_all_at_splice [OF assms] using assms by (auto simp: same_outside_def splice_at_def nth_append)

lemma iov_load_length: "n \<le> iov_bytes iov \<Longrightarrow> length (iov_load m iov n) = n"
  by (simp add: iov_load_def iov_bytes_addrs)

lemma write_calls_frame:
  assumes "moved + iov_bytes iov = want" "unat off + iov_bytes iov \<le> length f" "length f < 2 ^ 64"
    "write_calls sys k f iov off moved want m = (r, f')"
  shows "same_outside (unat off) (unat off + iov_bytes iov) f f'
    \<and> (\<forall>k' off'. r = Inr (k', off') \<longrightarrow> unat off' = unat off + iov_bytes iov)"
  using assms
proof (induction "want - moved" arbitrary: k f iov off moved rule: less_induct)
  case less
  show ?case
  proof (cases "want \<le> moved")
    case True
    then show ?thesis using less.prems by (subst (asm) write_calls.simps) auto
  next
    case False
    show ?thesis
    proof (cases "sys k")
      case (Moved j)
      let ?n = "pwritev_count j iov"
      show ?thesis
      proof (cases "?n = 0")
        case True
        then show ?thesis using less.prems(4) False Moved by (subst (asm) write_calls.simps) auto
      next
        case ne: False
        let ?f = "write_all_at f (unat off) (iov_load m iov ?n)" and ?off = "off + of_nat ?n" and ?iov = "advance_iov ?n iov"
        have n: "?n \<le> iov_bytes iov" by (simp add: pwritev_count_def)
        have len: "length (iov_load m iov ?n) = ?n" by (rule iov_load_length [OF n])
        have here: "same_outside (unat off) (unat off + ?n) f ?f"
          using write_same_outside [of "unat off" "iov_load m iov ?n" f] n less.prems(2) unfolding len by simp
        have "unat (of_nat ?n :: u64) = ?n" using n less.prems(2,3) by (intro unat_of_nat_small) simp
        then have off: "unat ?off = unat off + ?n" using n less.prems(2,3) by (subst unat_add_no_overflow) simp_all
        have bytes: "iov_bytes ?iov = iov_bytes iov - ?n" by (rule advance_iov_bytes)
        have fl: "length ?f = length f" using here by (simp add: same_outside_def)
        have call: "write_calls sys (Suc k) ?f ?iov ?off (moved + ?n) want m = (r, f')"
          using less.prems(4) False Moved ne by (subst (asm) write_calls.simps) (simp add: Let_def)
        have dec: "want - (moved + ?n) < want - moved" using False ne by simp
        have "same_outside (unat ?off) (unat ?off + iov_bytes ?iov) ?f f'
            \<and> (\<forall>k' off'. r = Inr (k', off') \<longrightarrow> unat off' = unat ?off + iov_bytes ?iov)"
          by (rule less.hyps [OF dec _ _ _ call]) (use less.prems n in \<open>simp_all add: bytes off fl del: length_write_all_at\<close>)
        then show ?thesis using here n by (auto simp: off bytes intro: same_outside_trans)
      qed
    next
      case SysFailed
      then show ?thesis using less.prems(4) False by (subst (asm) write_calls.simps) auto
    qed
  qed
qed

lemma iov_of_bytes: "iov_of m bs = Inr iov \<Longrightarrow> iov_bytes iov = length (buf_addrs bs)"
  by (induction bs arbitrary: iov) (auto simp: iov_bytes_def split: if_splits sum.splits)

lemma vectored_write_frame:
  assumes "unat off + length (buf_addrs bufs) \<le> length f" "length f < 2 ^ 64" "vectored_write sys k f m bufs off = (r, f')"
  shows "same_outside (unat off) (unat off + length (buf_addrs bufs)) f f'"
  using assms
proof (induction "length bufs" arbitrary: k f off bufs rule: less_induct)
  case less
  show ?case
  proof (cases "bufs = []")
    case True
    then show ?thesis using less.prems(3) by (subst (asm) vectored_write.simps) auto
  next
    case False
    let ?chunk = "take IOV_MAX bufs" and ?rest = "drop IOV_MAX bufs"
    have shorter: "length ?rest < length bufs" using False by (simp add: IOV_MAX_def)
    have len: "length (buf_addrs bufs) = length (buf_addrs ?chunk) + length (buf_addrs ?rest)" by (subst chunk_addrs [of bufs IOV_MAX]) simp
    show ?thesis
    proof (cases "iov_of m ?chunk")
      case (Inl e)
      then show ?thesis using less.prems(3) False by (subst (asm) vectored_write.simps) auto
    next
      case (Inr iov)
      note bytes = iov_of_bytes [OF Inr]
      show ?thesis
      proof (cases "iov = []")
        case True
        then have "vectored_write sys k f m ?rest off = (r, f')"
          using less.prems(3) False Inr by (subst (asm) vectored_write.simps) auto
        then show ?thesis
          using less.hyps [OF shorter _ less.prems(2)] less.prems(1) len bytes True by (auto simp: iov_bytes_def)
      next
        case ne: False
        obtain r1 f1 where w: "write_calls sys k f iov off 0 (iov_bytes iov) m = (r1, f1)" by fastforce
        note fr = write_calls_frame [OF _ _ less.prems(2) w, simplified, unfolded bytes]
        have fits: "unat off + length (buf_addrs ?chunk) \<le> length f" using less.prems(1) len by simp
        show ?thesis
        proof (cases r1)
          case (Inl e)
          then have "f' = f1" using less.prems(3) False Inr ne w by (subst (asm) vectored_write.simps) auto
          then show ?thesis using fr fits len by (auto intro: same_outside_trans [OF _ same_outside_refl])
        next
          case r1: (Inr p)
          obtain k1 off1 where p: "p = (k1, off1)" by fastforce
          have off1: "unat off1 = unat off + length (buf_addrs ?chunk)" using fr fits r1 p by auto
          have f1: "same_outside (unat off) (unat off + length (buf_addrs ?chunk)) f f1" using fr fits by auto
          then have l1: "length f1 = length f" by (simp add: same_outside_def)
          have "vectored_write sys k1 f1 m ?rest off1 = (r, f')"
            using less.prems(3) False Inr ne w r1 p by (subst (asm) vectored_write.simps) auto
          then have "same_outside (unat off1) (unat off1 + length (buf_addrs ?rest)) f1 f'"
            using less.hyps [OF shorter, of off1 f1 k1] less.prems(1,2) off1 l1 len by simp
          then show ?thesis using f1 by (auto simp: off1 len intro: same_outside_trans)
        qed
      qed
    qed
  qed
qed

lemma out_readable_length: "length (buf_addrs (out_readable skip bs)) = length (buf_addrs bs) - unat skip"
proof (induction bs arbitrary: skip)
  case (Cons b bs)
  have "unat (skip - b_len b) = unat skip - unat (b_len b)" if "b_len b \<le> skip" using that by (rule unat_sub)
  moreover have "unat (b_len b - skip) = unat (b_len b) - unat skip" if "\<not> b_len b \<le> skip" using that by (intro unat_sub) simp
  ultimately show ?case using Cons.IH by (auto simp: word_le_nat_alt)
qed simp

lemma file_write_frame:
  assumes "be_inv (FileB fb)" "length (buf_addrs bufs) < 2 ^ 64" "file_write_guest env fb m bufs off = (r, fb')"
  shows "\<exists>f'. fb' = fb\<lparr>fb_file := f'\<rparr> \<and> same_outside (unat off) (unat off + length (buf_addrs bufs)) (fb_file fb) f'"
proof (cases "check_write fb off (bufs_total bufs)")
  case (Inl e)
  then show ?thesis using assms(3) by (intro exI [of _ "fb_file fb"]) (simp add: file_write_guest_def)
next
  case (Inr u)
  then have "unat (saturating_add off (bufs_total bufs)) \<le> unat (fb_bytes fb)"
    by (auto simp: check_write_def word_le_nat_alt word_less_nat_alt split: if_splits)
  then have "unat off + length (buf_addrs bufs) \<le> length (fb_file fb)"
    using assms(1) bufs_total_addrs [OF assms(2)] by (auto simp: unat_saturating_add split: if_splits)
  moreover obtain r1 f1 where w: "vectored_write (env_sys env) 0 (fb_file fb) m bufs off = (r1, f1)" by fastforce
  ultimately have "same_outside (unat off) (unat off + length (buf_addrs bufs)) (fb_file fb) f1"
    using vectored_write_frame [OF _ _ w] assms(1) by simp
  moreover have "fb' = fb\<lparr>fb_file := f1\<rparr>" using assms(3) w Inr by (auto simp: file_write_guest_def split: sum.splits)
  ultimately show ?thesis by blast
qed

text \<open>
  C19. Whatever the guest puts into a chain and however host calls fail or come short, a request to a raw disk keeps the
  length of the file, and a byte of it changes only if the header is a write, the disk is not read-only, and the byte
  lies in the range that starts at the header's sector and is as long as the data behind the header.
\<close>

theorem blk_disk_isolated:
  assumes "be_inv (FileB fb)" "length (buf_addrs (c_readable c)) < 2 ^ 64" "process env serial c m (FileB fb) = (used, m', be')"
  shows "\<exists>f'. be' = FileB (fb\<lparr>fb_file := f'\<rparr>) \<and> length f' = length (fb_file fb)
    \<and> (\<forall>i < length f'. f' ! i \<noteq> fb_file fb ! i \<longrightarrow>
        (\<exists>sector a. parse m c = Some (VIRTIO_BLK_T_OUT, sector, a) \<and> \<not> fb_read_only fb
           \<and> unat sector * 512 \<le> i \<and> i < unat sector * 512 + length (data_out c)))"
proof -
  have same: ?thesis if "be' = FileB fb"
    using that by (intro exI [of _ "fb_file fb"]) simp
  show ?thesis
  proof (cases "parse m c")
    case None
    then show ?thesis using assms(3) same by (auto simp: process_def split: prod.splits)
  next
    case (Some h)
    obtain ty sector a where h: "h = (ty, sector, a)" by (cases h) auto
    show ?thesis
    proof (cases "ty = VIRTIO_BLK_T_OUT \<and> \<not> fb_read_only fb \<and> in_range (FileB fb) sector (data_bytes c ty)")
      case False
      then have "be' = FileB fb"
        using assms(3) Some h by (auto simp: process_def Let_def write_req_def blk_consts split: prod.splits if_splits)
      then show ?thesis by (rule same)
    next
      case True
      obtain r fb' where w: "file_write_guest env fb m (out_readable 16 (c_readable c)) (sector * SECTOR) = (r, fb')" by fastforce
      have "be' = FileB fb'"
        using assms(3) Some h True w by (auto simp: process_def Let_def write_req_def blk_consts split: prod.splits sum.splits)
      moreover have len: "length (buf_addrs (out_readable 16 (c_readable c))) = length (data_out c)"
        by (simp add: out_readable_length data_out_def)
      moreover have "unat (sector * SECTOR) = unat sector * 512"
        using True in_range_nat [OF assms(1)] by (intro unat_sector [OF assms(1)]) auto
      moreover have "length (buf_addrs (out_readable 16 (c_readable c))) < 2 ^ 64"
        using assms(2) by (simp add: out_readable_length)
      ultimately obtain f' where "be' = FileB (fb\<lparr>fb_file := f'\<rparr>)"
        "same_outside (unat sector * 512) (unat sector * 512 + length (data_out c)) (fb_file fb) f'"
        using file_write_frame [OF assms(1) _ w] by auto
      then show ?thesis using True Some h by (intro exI [of _ f']) (auto simp: same_outside_def not_less)
    qed
  qed
qed

theorem blk_disk_isolated_witness:
  "\<exists>used m' f'. process (demo_env\<lparr>env_sys := (\<lambda>_. SysFailed)\<rparr>) [] (demo_blk_chain 17 1) (demo_mem [(0, 1), (8, 1), (16, 5)])
      (FileB demo_disk) = (used, m', FileB (demo_disk\<lparr>fb_file := f'\<rparr>))
    \<and> length f' = 1024 \<and> f' ! 0 = 7"
proof -
  let ?m = "demo_mem [(0, 1), (8, 1), (16, 5)]" and ?c = "demo_blk_chain 17 1" and ?env = "demo_env\<lparr>env_sys := (\<lambda>_. SysFailed)\<rparr>"
  have req: "request ?m ?c VIRTIO_BLK_T_OUT 1" by (rule demo_request) (simp_all add: blk_consts upt_rec)
  obtain a where p: "parse ?m ?c = Some (VIRTIO_BLK_T_OUT, 1, a)" using request_parse [OF demo_mem_inv req] by blast
  have len: "length (buf_addrs (c_readable ?c)) < 2 ^ 64" by (simp add: demo_blk_chain_def)
  obtain used m' be' where run: "process ?env [] ?c ?m (FileB demo_disk) = (used, m', be')" by (metis prod_cases3)
  obtain f' where f': "be' = FileB (demo_disk\<lparr>fb_file := f'\<rparr>)" "length f' = length (fb_file demo_disk)"
    "\<forall>i < length f'. f' ! i \<noteq> fb_file demo_disk ! i \<longrightarrow>
        (\<exists>sector a. parse ?m ?c = Some (VIRTIO_BLK_T_OUT, sector, a) \<and> \<not> fb_read_only demo_disk
           \<and> unat sector * 512 \<le> i \<and> i < unat sector * 512 + length (data_out ?c))"
    using blk_disk_isolated [OF demo_disk_ok(1) len run] by blast
  have d: "length (fb_file demo_disk) = 1024" "fb_file demo_disk ! 0 = 7" by (simp_all add: demo_disk_def nth_append del: nth_Cons_0)
  have "f' ! 0 = fb_file demo_disk ! 0"
  proof (rule ccontr)
    assume "f' ! 0 \<noteq> fb_file demo_disk ! 0"
    then have "unat (1 :: u64) * 512 \<le> 0" using f'(2,3) p d(1) by force
    then show False by simp
  qed
  then show ?thesis using run f'(1,2) d by auto
qed

end
