(* ===== verification/Blk_Pool.thy ===== *)
theory Blk_Pool
  imports Blk_Request Virtio_Core "HOL-Library.Multiset"
begin

text \<open>
  The virtio-blk device (\<open>ternvale-devices/src/virtio/blk.rs\<close>, \<open>blk/media.rs\<close>) and its threads (\<open>blk/pool.rs\<close>): a
  coordinator takes kicks from a channel, pops the chains of the queue and sends them as jobs over a bounded channel; the
  workers take jobs, drop those of an older generation, run a request and complete it on the queue bound at that moment.
  Each thread is a program counter and a step function; a step is what happens between two points where another thread
  can intervene. A worker between its request and its completion holds the lock of guest memory.
\<close>

section \<open>The medium\<close>

definition VIRTIO_BLK_F_SEG_MAX :: u64 where "VIRTIO_BLK_F_SEG_MAX = 0x4"

definition VIRTIO_BLK_F_RO :: u64 where "VIRTIO_BLK_F_RO = 0x20"

definition VIRTIO_BLK_F_BLK_SIZE :: u64 where "VIRTIO_BLK_F_BLK_SIZE = 0x40"

definition VIRTIO_BLK_F_FLUSH :: u64 where "VIRTIO_BLK_F_FLUSH = 0x200"

definition VIRTIO_BLK_F_MQ :: u64 where "VIRTIO_BLK_F_MQ = 0x1000"

datatype blk_media = DiskMedia bool | Optical

fun media_read_only :: "blk_media \<Rightarrow> bool" where
  "media_read_only (DiskMedia ro) = ro"
| "media_read_only Optical = True"

fun block_size :: "blk_media \<Rightarrow> u32 option" where
  "block_size (DiskMedia ro) = None"
| "block_size Optical = Some 2048"

fun media_features :: "blk_media \<Rightarrow> u64" where
  "media_features (DiskMedia ro) = (if ro then VIRTIO_BLK_F_FLUSH OR VIRTIO_BLK_F_RO else VIRTIO_BLK_F_FLUSH)"
| "media_features Optical = VIRTIO_BLK_F_RO OR VIRTIO_BLK_F_BLK_SIZE"

text \<open>\<open>blk_config_space\<close>: 36 bytes with \<open>capacity\<close> at 0, \<open>seg_max\<close> at 12, \<open>blk_size\<close> at 20 and \<open>num_queues\<close> at 34.\<close>

definition blk_config_space :: "blk_media \<Rightarrow> u64 \<Rightarrow> u16 \<Rightarrow> u8 list" where
  "blk_config_space media capacity queues =
     to_le 8 capacity @ replicate 4 0 @ to_le 4 (64 :: u32) @ replicate 4 0
     @ (case block_size media of None \<Rightarrow> replicate 4 0 | Some bytes \<Rightarrow> to_le 4 bytes) @ replicate 10 0 @ to_le 2 queues"

definition read_le :: "u8 list \<Rightarrow> u64 \<Rightarrow> u8 \<Rightarrow> u64" where
  "read_le bytes off n =
     (if length bytes \<le> unat off then 0
      else from_le (take (min (min (unat n) 8) (length bytes - unat off)) (drop (unat off) bytes)))"

record blk_options =
  bo_io_workers :: u16
  bo_queue_depth :: u16
  bo_num_queues :: u16

definition feature_bits :: "blk_media \<Rightarrow> blk_options \<Rightarrow> u64" where
  "feature_bits media opts =
     (let bits = media_features media OR VIRTIO_F_EVENT_IDX OR VIRTIO_F_INDIRECT_DESC OR VIRTIO_BLK_F_SEG_MAX
      in if 1 < bo_num_queues opts then bits OR VIRTIO_BLK_F_MQ else bits)"

text \<open>The device as its transport sees it.\<close>

definition blk_device :: "blk_media \<Rightarrow> blk_options \<Rightarrow> u64 \<Rightarrow> virtio_device" where
  "blk_device media opts capacity =
     (fixed_device 2 (max 1 (bo_num_queues opts)))
       \<lparr>device_features := feature_bits media opts,
        queue_num_max := (\<lambda>_. max 16 (bo_queue_depth opts)),
        read_config := read_le (blk_config_space media capacity (bo_num_queues opts))\<rparr>"

text \<open>The driver reads back the capacity, \<open>seg_max\<close>, the block size and the number of queues.\<close>

lemma from_le_to_le_ucast:
  assumes "LENGTH('b) \<le> 8 * n"
  shows "from_le (to_le n (w :: 'b::len word)) = (ucast w :: 'a::len word)"
proof (rule bit_word_eqI)
  fix k assume "k < LENGTH('a)"
  moreover have "bit (ucast (drop_bit (8 * (k div 8)) w) :: u8) (k mod 8) = bit w k" by (simp add: bit_simps)
  moreover have "k div 8 < n \<longleftrightarrow> k < 8 * n" by auto
  moreover have "bit w k \<Longrightarrow> k < 8 * n" using bit_imp_le_length [of w k] assms by simp
  ultimately show "bit (from_le (to_le n w) :: 'a word) k = bit (ucast w :: 'a word) k"
    by (auto simp: bit_from_le bit_simps nth_to_le)
qed

lemma from_le_zeros: "from_le (replicate n 0) = 0"
  by (induction n) simp_all

lemma blk_config_fields:
  "read_le (blk_config_space media capacity queues) 0 8 = capacity"
  "read_le (blk_config_space media capacity queues) 12 4 = 64"
  "read_le (blk_config_space media capacity queues) 20 4 = (case block_size media of None \<Rightarrow> 0 | Some bytes \<Rightarrow> ucast bytes)"
  "read_le (blk_config_space media capacity queues) 34 2 = ucast queues"
proof -
  show "read_le (blk_config_space media capacity queues) 0 8 = capacity" by (simp add: read_le_def blk_config_space_def)
  show "read_le (blk_config_space media capacity queues) 12 4 = 64"
    by (simp add: read_le_def blk_config_space_def from_le_to_le_ucast)
  show "read_le (blk_config_space media capacity queues) 20 4 = (case block_size media of None \<Rightarrow> 0 | Some bytes \<Rightarrow> ucast bytes)"
    by (cases media) (simp_all add: read_le_def blk_config_space_def from_le_to_le_ucast from_le_zeros)
  show "read_le (blk_config_space media capacity queues) 34 2 = ucast queues"
    by (cases media) (simp_all add: read_le_def blk_config_space_def from_le_to_le_ucast)
qed

lemma blk_read_only_offered: "feature_bits media opts AND VIRTIO_BLK_F_RO \<noteq> 0 \<longleftrightarrow> media_read_only media"
  by (cases media) (auto simp: feature_bits_def Let_def VIRTIO_BLK_F_RO_def VIRTIO_BLK_F_FLUSH_def VIRTIO_BLK_F_SEG_MAX_def
      VIRTIO_BLK_F_MQ_def VIRTIO_BLK_F_BLK_SIZE_def VIRTIO_F_EVENT_IDX_def VIRTIO_F_INDIRECT_DESC_def)

section \<open>The pool\<close>

record job =
  j_generation :: u64
  j_queue :: u16
  j_chain :: chain

record queue_slot =
  sl_queue :: split_queue
  sl_rings :: "u16 \<times> u64 \<times> u64 \<times> u64"

datatype blk_kick = KickNotify queue_notify | KickReset

text \<open>Where the coordinator is: at \<open>recv\<close>, clearing slots from the given one on, before \<open>pop_chains\<close>, sending jobs, returned.\<close>

datatype coordinator = CRecv | CClear nat | CPop queue_notify | CSend "job list" | CReturned

text \<open>
  Where a worker is: at \<open>recv\<close>, before the generation check, before \<open>run_job\<close> takes the lock of guest memory, before
  \<open>run_job\<close> takes the lock of the slot, returned.
\<close>

datatype worker = WRecv | WCheck job | WRun job | WDone job u32 | WReturned

record pool =
  p_kicks :: "blk_kick list"
  p_open :: bool
  p_coord :: coordinator
  p_generation :: u64
  p_slots :: "queue_slot option list"
  p_jobs :: "job list"
  p_depth :: nat
  p_workers :: "worker list"
  p_memory :: guest_memory
  p_backend :: blk_backend
  p_irq :: virtio_irq
  p_serial :: "u8 list"

definition pool_spawn :: "blk_options \<Rightarrow> blk_backend \<Rightarrow> guest_memory \<Rightarrow> virtio_irq \<Rightarrow> u8 list \<Rightarrow> pool" where
  "pool_spawn opts be m irq serial =
     \<lparr>p_kicks = [], p_open = True, p_coord = CRecv, p_generation = 1,
      p_slots = replicate (unat (max 1 (bo_num_queues opts))) None,
      p_jobs = [], p_depth = unat (max 1 (bo_queue_depth opts)),
      p_workers = replicate (unat (max 1 (bo_io_workers opts))) WRecv,
      p_memory = m, p_backend = be, p_irq = irq, p_serial = serial\<rparr>"

text \<open>The calls of the device: \<open>notify\<close>, \<open>status_changed\<close> and the drop of the pool, which closes the channel.\<close>

definition blk_send :: "blk_kick \<Rightarrow> pool \<Rightarrow> pool" where
  "blk_send k p = (if p_open p then p\<lparr>p_kicks := p_kicks p @ [k]\<rparr> else p)"

definition blk_status_changed :: "u32 \<Rightarrow> pool \<Rightarrow> pool" where
  "blk_status_changed status p = (if status = 0 then blk_send KickReset p else p)"

definition pool_drop :: "pool \<Rightarrow> pool" where
  "pool_drop p = p\<lparr>p_open := False\<rparr>"

text \<open>
  What a step did: \<open>Popped\<close> the chains of jobs, gave a job up, answered one on the queue with its length and whether
  \<open>add_used\<close> took it, or sent a kick.
\<close>

datatype pool_event = Internal | Popped "job list" | Abandoned job | Answered job u32 bool | Kicked blk_kick

definition memory_locked :: "pool \<Rightarrow> bool" where
  "memory_locked p \<longleftrightarrow> list_ex (\<lambda>w. case w of WDone _ _ \<Rightarrow> True | _ \<Rightarrow> False) (p_workers p)"

definition slot_for :: "queue_notify \<Rightarrow> queue_slot option \<Rightarrow> queue_slot" where
  "slot_for n slot =
     (let key = (qn_size n, qn_desc n, qn_avail n, qn_used n);
          fresh = \<lparr>sl_queue = queue_new (qn_size n) (qn_desc n) (qn_avail n) (qn_used n)
                     (qn_features n AND VIRTIO_F_INDIRECT_DESC \<noteq> 0) (qn_features n AND VIRTIO_F_EVENT_IDX \<noteq> 0),
                   sl_rings = key\<rparr>
      in case slot of None \<Rightarrow> fresh | Some have \<Rightarrow> if sl_rings have \<noteq> key then fresh else have)"

text \<open>\<open>pop_chains\<close>: \<open>None\<close> is a panic, an inner \<open>None\<close> an unknown queue.\<close>

definition pop_chains :: "queue_notify \<Rightarrow> pool \<Rightarrow> (chain list option \<times> pool) option" where
  "pop_chains n p =
     (let i = unat (qn_index n) in
      if length (p_slots p) \<le> i then Some (None, p)
      else let slot = slot_for n (p_slots p ! i) in
        case chains (2 ^ 16) (p_memory p) (sl_queue slot) of
          None \<Rightarrow> None
        | Some (q, cs) \<Rightarrow> Some (Some cs, p\<lparr>p_slots := (p_slots p)[i := Some (slot\<lparr>sl_queue := q\<rparr>)]\<rparr>))"

text \<open>A step that is not possible is \<open>None\<close>: the thread waits for a message, for room in the channel or for a lock.\<close>

definition coord_step :: "pool \<Rightarrow> (pool_event \<times> pool) option" where
  "coord_step p =
     (case p_coord p of
        CRecv \<Rightarrow>
          (case p_kicks p of
             [] \<Rightarrow> if p_open p then None else Some (Internal, p\<lparr>p_coord := CReturned\<rparr>)
           | KickReset # ks \<Rightarrow>
               Some (Internal, p\<lparr>p_kicks := ks, p_generation := p_generation p + 1, p_coord := CClear 0\<rparr>)
           | KickNotify n # ks \<Rightarrow> Some (Internal, p\<lparr>p_kicks := ks, p_coord := CPop n\<rparr>))
      | CClear k \<Rightarrow>
          if k < length (p_slots p) then Some (Internal, p\<lparr>p_slots := (p_slots p)[k := None], p_coord := CClear (Suc k)\<rparr>)
          else Some (Internal, p\<lparr>p_coord := CRecv\<rparr>)
      | CPop n \<Rightarrow>
          if unat (qn_index n) < length (p_slots p) \<and> memory_locked p then None
          else (case pop_chains n p of
             None \<Rightarrow> None
           | Some (None, p) \<Rightarrow> Some (Internal, p\<lparr>p_coord := CRecv\<rparr>)
           | Some (Some cs, p) \<Rightarrow>
               let js = map (\<lambda>c. \<lparr>j_generation = p_generation p, j_queue = qn_index n, j_chain = c\<rparr>) cs
               in Some (Popped js, p\<lparr>p_coord := CSend js\<rparr>))
      | CSend [] \<Rightarrow> Some (Internal, p\<lparr>p_coord := CRecv\<rparr>)
      | CSend (j # js) \<Rightarrow>
          if length (p_jobs p) < p_depth p then Some (Internal, p\<lparr>p_jobs := p_jobs p @ [j], p_coord := CSend js\<rparr>)
          else None
      | CReturned \<Rightarrow> None)"

text \<open>The end of \<open>run_job\<close>, after the request.\<close>

definition complete_job :: "job \<Rightarrow> u32 \<Rightarrow> pool \<Rightarrow> (pool_event \<times> pool) option" where
  "complete_job j used p =
     (let i = unat (j_queue j) in
      if length (p_slots p) \<le> i then Some (Abandoned j, p)
      else case p_slots p ! i of
        None \<Rightarrow> Some (Abandoned j, p)
      | Some slot \<Rightarrow>
          (case add_used (p_memory p) (sl_queue slot) (c_head (j_chain j)) used of
             None \<Rightarrow> None
           | Some (m, q, completed) \<Rightarrow>
               let (q, needed) = (if completed then notification_needed m q else (q, False))
               in Some (Answered j used completed,
                    p\<lparr>p_memory := m, p_slots := (p_slots p)[i := Some (slot\<lparr>sl_queue := q\<rparr>)],
                      p_irq := (if needed then irq_raise 1 (p_irq p) else p_irq p)\<rparr>)))"

definition worker_step :: "blk_env \<Rightarrow> nat \<Rightarrow> pool \<Rightarrow> (pool_event \<times> pool) option" where
  "worker_step env i p =
     (let goto = (\<lambda>w p. p\<lparr>p_workers := (p_workers p)[i := w]\<rparr>) in
      case p_workers p ! i of
        WRecv \<Rightarrow>
          (case p_jobs p of
             [] \<Rightarrow> if p_coord p = CReturned then Some (Internal, goto WReturned p) else None
           | j # js \<Rightarrow> Some (Internal, goto (WCheck j) (p\<lparr>p_jobs := js\<rparr>)))
      | WCheck j \<Rightarrow>
          if j_generation j \<noteq> p_generation p then Some (Abandoned j, goto WRecv p) else Some (Internal, goto (WRun j) p)
      | WRun j \<Rightarrow>
          if memory_locked p then None
          else (case process env (p_serial p) (j_chain j) (p_memory p) (p_backend p) of
             (used, m, be) \<Rightarrow> Some (Internal, goto (WDone j used) (p\<lparr>p_memory := m, p_backend := be\<rparr>)))
      | WDone j used \<Rightarrow> map_option (\<lambda>(e, p). (e, goto WRecv p)) (complete_job j used p)
      | WReturned \<Rightarrow> None)"

text \<open>Steps of the threads, and what the guest and the machine may do in between.\<close>

inductive pool_step :: "pool \<Rightarrow> pool_event \<Rightarrow> pool \<Rightarrow> bool" where
  coord: "coord_step p = Some (e, p') \<Longrightarrow> pool_step p e p'"
| worker: "i < length (p_workers p) \<Longrightarrow> worker_step env i p = Some (e, p') \<Longrightarrow> pool_step p e p'"

inductive outside_step :: "pool \<Rightarrow> pool_event \<Rightarrow> pool \<Rightarrow> bool" where
  kick: "outside_step p (Kicked k) (blk_send k p)"
| drop: "outside_step p Internal (pool_drop p)"
| store: "mem_inv m \<Longrightarrow> outside_step p Internal (p\<lparr>p_memory := m\<rparr>)"
| ack: "outside_step p Internal (p\<lparr>p_irq := irq\<rparr>)"

inductive pool_run :: "pool \<Rightarrow> pool_event list \<Rightarrow> pool \<Rightarrow> bool" where
  start: "pool_run p [] p"
| step: "pool_run p es p' \<Longrightarrow> pool_step p' e p'' \<Longrightarrow> pool_run p (es @ [e]) p''"
| outside: "pool_run p es p' \<Longrightarrow> outside_step p' e p'' \<Longrightarrow> pool_run p (es @ [e]) p''"

text \<open>Steps of the threads alone.\<close>

inductive thread_run :: "pool \<Rightarrow> pool_event list \<Rightarrow> pool \<Rightarrow> bool" where
  start: "thread_run p [] p"
| step: "thread_run p es p' \<Longrightarrow> pool_step p' e p'' \<Longrightarrow> thread_run p (es @ [e]) p''"

section \<open>Jobs are neither lost nor answered twice\<close>

fun coord_jobs :: "coordinator \<Rightarrow> job list" where
  "coord_jobs (CSend js) = js"
| "coord_jobs _ = []"

fun worker_jobs :: "worker \<Rightarrow> job list" where
  "worker_jobs (WCheck j) = [j]"
| "worker_jobs (WRun j) = [j]"
| "worker_jobs (WDone j used) = [j]"
| "worker_jobs _ = []"

definition in_flight :: "pool \<Rightarrow> job multiset" where
  "in_flight p = mset (coord_jobs (p_coord p)) + mset (p_jobs p) + mset (concat (map worker_jobs (p_workers p)))"

fun popped :: "pool_event \<Rightarrow> job list" where
  "popped (Popped js) = js"
| "popped _ = []"

fun abandoned :: "pool_event \<Rightarrow> job list" where
  "abandoned (Abandoned j) = [j]"
| "abandoned _ = []"

text \<open>A job is answered when \<open>add_used\<close> took it, and refused when the queue it is answered on is broken or breaks at it.\<close>

fun answered :: "pool_event \<Rightarrow> job list" where
  "answered (Answered j used completed) = (if completed then [j] else [])"
| "answered _ = []"

fun refused :: "pool_event \<Rightarrow> job list" where
  "refused (Answered j used completed) = (if completed then [] else [j])"
| "refused _ = []"

lemma mset_concat_update:
  assumes "i < length ws"
  shows "mset (concat (map worker_jobs (ws[i := w]))) + mset (worker_jobs (ws ! i))
    = mset (concat (map worker_jobs ws)) + mset (worker_jobs w)"
proof -
  have "ws = take i ws @ ws ! i # drop (Suc i) ws" "ws[i := w] = take i ws @ w # drop (Suc i) ws"
    using assms by (simp_all add: id_take_nth_drop upd_conv_take_nth_drop)
  then have "mset (concat (map worker_jobs ws)) = mset (concat (map worker_jobs (take i ws))) + (mset (worker_jobs (ws ! i)) + mset (concat (map worker_jobs (drop (Suc i) ws))))"
    "mset (concat (map worker_jobs (ws[i := w]))) = mset (concat (map worker_jobs (take i ws))) + (mset (worker_jobs w) + mset (concat (map worker_jobs (drop (Suc i) ws))))"
    by (metis concat.simps(2) concat_append list.simps(9) map_append mset_append)+
  then show ?thesis by (simp add: union_ac)
qed

definition accounted :: "pool \<Rightarrow> pool_event \<Rightarrow> pool \<Rightarrow> bool" where
  "accounted p e p' \<longleftrightarrow> in_flight p + mset (popped e) = in_flight p' + mset (abandoned e) + mset (refused e) + mset (answered e)"

lemma coord_accounted: "coord_step p = Some (e, p') \<Longrightarrow> accounted p e p'"
  by (auto simp: coord_step_def pop_chains_def Let_def accounted_def in_flight_def
      split: coordinator.splits list.splits blk_kick.splits if_splits option.splits prod.splits)

lemma complete_job_frame:
  assumes "complete_job j used p = Some (e, p')"
  shows "p_coord p' = p_coord p" "p_jobs p' = p_jobs p" "p_workers p' = p_workers p" "p_kicks p' = p_kicks p" "p_open p' = p_open p"
    "p_depth p' = p_depth p" "length (p_slots p') = length (p_slots p)" "p_generation p' = p_generation p"
    "e = Abandoned j \<or> (\<exists>completed. e = Answered j used completed)"
  using assms by (auto simp: complete_job_def Let_def split: if_splits option.splits prod.splits)

lemma worker_accounted:
  assumes "i < length (p_workers p)" "worker_step env i p = Some (e, p')"
  shows "accounted p e p'"
proof (cases "p_workers p ! i")
  case WRecv
  then show ?thesis
    using assms mset_concat_update [OF assms(1), of "WCheck _"] mset_concat_update [OF assms(1), of WReturned]
    by (auto simp: worker_step_def accounted_def in_flight_def split: list.splits if_splits)
next
  case (WCheck j)
  then show ?thesis
    using assms mset_concat_update [OF assms(1), of "WRun j"] mset_concat_update [OF assms(1), of WRecv]
    by (auto simp: worker_step_def accounted_def in_flight_def split: if_splits)
next
  case (WRun j)
  then show ?thesis
    using assms mset_concat_update [OF assms(1), of "WDone j _"]
    by (auto simp: worker_step_def accounted_def in_flight_def split: if_splits prod.splits)
next
  case (WDone j used)
  then obtain p1 where c: "complete_job j used p = Some (e, p1)" "p' = p1\<lparr>p_workers := (p_workers p1)[i := WRecv]\<rparr>"
    using assms(2) by (auto simp: worker_step_def)
  show ?thesis
    using complete_job_frame [OF c(1)] c(2) WDone mset_concat_update [OF assms(1), of WRecv]
    by (auto simp: accounted_def in_flight_def)
next
  case WReturned
  then show ?thesis using assms(2) by (simp add: worker_step_def)
qed

lemma step_accounted: "pool_step p e p' \<Longrightarrow> accounted p e p'"
  by (induction rule: pool_step.induct) (blast intro: coord_accounted worker_accounted)+

lemma outside_accounted: "outside_step p e p' \<Longrightarrow> accounted p e p'"
  by (induction rule: outside_step.induct) (simp_all add: accounted_def in_flight_def blk_send_def pool_drop_def)

lemma accounted_append:
  assumes "in_flight p + mset (concat (map popped es)) = in_flight p' + mset (concat (map abandoned es)) + mset (concat (map refused es)) + mset (concat (map answered es))"
    "accounted p' e p''"
  shows "in_flight p + mset (concat (map popped (es @ [e])))
    = in_flight p'' + mset (concat (map abandoned (es @ [e]))) + mset (concat (map refused (es @ [e]))) + mset (concat (map answered (es @ [e])))"
proof -
  let ?out = "\<lambda>es. mset (concat (map abandoned es)) + mset (concat (map refused es)) + mset (concat (map answered es))"
  have e: "in_flight p' + mset (popped e) = in_flight p'' + ?out [e]"
    using assms(2) by (simp add: accounted_def union_assoc)
  have "in_flight p + mset (concat (map popped (es @ [e]))) = (in_flight p' + ?out es) + mset (popped e)"
    using assms(1) by (simp add: union_assoc)
  also have "\<dots> = (in_flight p' + mset (popped e)) + ?out es" by (simp add: ac_simps)
  also have "\<dots> = in_flight p'' + ?out (es @ [e])" unfolding e by (simp add: ac_simps)
  finally show ?thesis by (simp add: union_assoc)
qed

lemma run_accounted:
  assumes "pool_run p es p'"
  shows "in_flight p + mset (concat (map popped es)) = in_flight p' + mset (concat (map abandoned es)) + mset (concat (map refused es)) + mset (concat (map answered es))"
  using assms
proof (induction rule: pool_run.induct)
  case (step p es p' e p'')
  then show ?case by (intro accounted_append step_accounted)
next
  case (outside p es p' e p'')
  then show ?case by (intro accounted_append outside_accounted)
qed simp

section \<open>Without a reset nothing is given up\<close>

definition bound_slot :: "pool \<Rightarrow> job \<Rightarrow> bool" where
  "bound_slot p j \<longleftrightarrow> j_generation j = p_generation p \<and> unat (j_queue j) < length (p_slots p) \<and> p_slots p ! unat (j_queue j) \<noteq> None"

definition calm :: "pool \<Rightarrow> bool" where
  "calm p \<longleftrightarrow> KickReset \<notin> set (p_kicks p) \<and> (\<forall>k. p_coord p \<noteq> CClear k) \<and> (\<forall>j \<in># in_flight p. bound_slot p j)"

lemma in_flight_worker: "i < length (p_workers p) \<Longrightarrow> j \<in> set (worker_jobs (p_workers p ! i)) \<Longrightarrow> j \<in># in_flight p"
  by (auto simp: in_flight_def)

lemma calm_mono:
  assumes "calm p" "in_flight p' \<subseteq># in_flight p" "set (p_kicks p') \<subseteq> set (p_kicks p)" "\<forall>k. p_coord p' \<noteq> CClear k"
    "p_generation p' = p_generation p" "length (p_slots p') = length (p_slots p)"
    "\<And>i. i < length (p_slots p) \<Longrightarrow> p_slots p ! i \<noteq> None \<Longrightarrow> p_slots p' ! i \<noteq> None"
  shows "calm p'"
  using assms unfolding calm_def bound_slot_def by (metis mset_subset_eqD subsetD)

lemma accounted_subset: "accounted p e p' \<Longrightarrow> popped e = [] \<Longrightarrow> in_flight p' \<subseteq># in_flight p"
  by (simp add: accounted_def)

lemma coord_calm:
  assumes "calm p" "coord_step p = Some (e, p')"
  shows "calm p' \<and> abandoned e = []"
proof (cases "\<exists>js. e = Popped js")
  case True
  then obtain js n cs p1 where e: "e = Popped js" "p_coord p = CPop n" "pop_chains n p = Some (Some cs, p1)" "p' = p1\<lparr>p_coord := CSend js\<rparr>"
    "js = map (\<lambda>c. \<lparr>j_generation = p_generation p1, j_queue = qn_index n, j_chain = c\<rparr>) cs"
    using assms(2) by (auto simp: coord_step_def Let_def split: coordinator.splits list.splits blk_kick.splits if_splits option.splits)
  then obtain sl where p1: "unat (qn_index n) < length (p_slots p)" "p1 = p\<lparr>p_slots := (p_slots p)[unat (qn_index n) := Some sl]\<rparr>"
    by (auto simp: pop_chains_def Let_def split: if_splits option.splits)
  have "bound_slot p' j" if "j \<in># in_flight p" for j
    using assms(1) that p1 e(4) by (auto simp: calm_def bound_slot_def nth_list_update)
  moreover have "bound_slot p' j" if "j \<in> set js" for j
    using that p1 e(4,5) by (auto simp: bound_slot_def)
  moreover have "in_flight p' = in_flight p + mset js" using e(2,4) p1(2) by (simp add: in_flight_def)
  ultimately show ?thesis using assms(1) e p1 by (auto simp: calm_def)
next
  case False
  then have "popped e = []" by (cases e) simp_all
  then have sub: "in_flight p' \<subseteq># in_flight p" using coord_accounted [OF assms(2)] by (rule accounted_subset [rotated])
  have "abandoned e = []" "set (p_kicks p') \<subseteq> set (p_kicks p)" "\<forall>k. p_coord p' \<noteq> CClear k" "p_generation p' = p_generation p" "p_slots p' = p_slots p"
    using assms False
    by (auto simp: coord_step_def pop_chains_def calm_def Let_def
        split: coordinator.splits list.splits blk_kick.splits if_splits option.splits prod.splits)
  then show ?thesis using calm_mono [OF assms(1) sub] by simp
qed

lemma worker_calm:
  assumes "calm p" "i < length (p_workers p)" "worker_step env i p = Some (e, p')"
  shows "calm p' \<and> abandoned e = []"
proof -
  have sub: "in_flight p' \<subseteq># in_flight p"
  proof (rule accounted_subset [OF worker_accounted [OF assms(2,3)]])
    show "popped e = []"
      using assms(3) complete_job_frame(9) by (fastforce simp: worker_step_def split: worker.splits list.splits if_splits prod.splits)
  qed
  have j: "bound_slot p j" if "j \<in> set (worker_jobs (p_workers p ! i))" for j
    using assms(1) in_flight_worker [OF assms(2) that] by (simp add: calm_def)
  have fr: "abandoned e = [] \<and> p_kicks p' = p_kicks p \<and> p_coord p' = p_coord p \<and> p_generation p' = p_generation p
      \<and> length (p_slots p') = length (p_slots p) \<and> (\<forall>i < length (p_slots p). p_slots p ! i \<noteq> None \<longrightarrow> p_slots p' ! i \<noteq> None)"
  proof (cases "p_workers p ! i")
    case (WDone j used)
    then obtain p1 where c: "complete_job j used p = Some (e, p1)" "p' = p1\<lparr>p_workers := (p_workers p1)[i := WRecv]\<rparr>"
      using assms(3) by (auto simp: worker_step_def)
    have "bound_slot p j" using j WDone by simp
    then show ?thesis
      using c by (auto simp: complete_job_def bound_slot_def Let_def nth_list_update split: option.splits prod.splits)
  next
    case (WCheck j)
    then show ?thesis using j [of j] assms(3) by (auto simp: worker_step_def bound_slot_def)
  qed (use assms(3) in \<open>auto simp: worker_step_def split: list.splits if_splits prod.splits\<close>)
  then show ?thesis using calm_mono [OF assms(1) sub] assms(1) by (simp add: calm_def)
qed

lemma outside_calm: "outside_step p e p' \<Longrightarrow> calm p \<Longrightarrow> e \<noteq> Kicked KickReset \<Longrightarrow> calm p' \<and> abandoned e = []"
  by (induction rule: outside_step.induct) (auto simp: calm_def bound_slot_def in_flight_def blk_send_def pool_drop_def)

lemma run_calm:
  assumes "pool_run p es p'" "calm p" "Kicked KickReset \<notin> set es"
  shows "calm p' \<and> concat (map abandoned es) = []"
  using assms
proof (induction rule: pool_run.induct)
  case (step p es p' e p'')
  then have "calm p'" "concat (map abandoned es) = []" by simp_all
  moreover from step.hyps(2) this(1) have "calm p'' \<and> abandoned e = []"
    by (induction rule: pool_step.induct) (blast dest: coord_calm worker_calm)+
  ultimately show ?case by simp
next
  case (outside p es p' e p'')
  then show ?case using outside_calm [OF outside.hyps(2)] by auto
qed simp

section \<open>The threads come to rest\<close>

definition slot_ok :: "queue_slot option \<Rightarrow> bool" where
  "slot_ok s \<longleftrightarrow> (case s of None \<Rightarrow> True | Some sl \<Rightarrow> queue_inv (sl_queue sl))"

definition pool_inv :: "pool \<Rightarrow> bool" where
  "pool_inv p \<longleftrightarrow> mem_inv (p_memory p) \<and> list_all slot_ok (p_slots p) \<and> p_workers p \<noteq> [] \<and> 0 < p_depth p
     \<and> (WReturned \<in> set (p_workers p) \<longrightarrow> p_coord p = CReturned \<and> p_jobs p = [])
     \<and> (p_coord p = CReturned \<longrightarrow> \<not> p_open p \<and> p_kicks p = [])"

lemma spawn_inv: "mem_inv m \<Longrightarrow> pool_inv (pool_spawn opts be m irq serial)"
  by (auto simp: pool_inv_def pool_spawn_def slot_ok_def list_all_length max_def unat_gt_0)

lemma spawn_calm: "calm (pool_spawn opts be m irq serial)" "in_flight (pool_spawn opts be m irq serial) = {#}"
  by (simp_all add: calm_def pool_spawn_def in_flight_def)

lemma chains_total:
  assumes "queue_inv q"
  shows "\<exists>q' cs. chains (2 ^ 16) m q = Some (q', cs) \<and> queue_inv q'"
proof (cases "broken q \<or> avail_idx m q = None")
  case True
  obtain n where n: "(2 ^ 16 :: nat) = Suc n" using not0_implies_Suc [of "2 ^ 16"] by fastforce
  have "\<exists>q'. pop m q = Some (q', None) \<and> queue_inv q'"
  proof (cases "broken q")
    case True
    then show ?thesis using assms by (simp add: pop_def)
  next
    case False
    then show ?thesis using True assms by (simp add: pop_eq)
  qed
  then show ?thesis unfolding n by auto
next
  case False
  then obtain idx where idx: "avail_idx m q = Some idx" by auto
  have "unat (idx - last_avail q) < 2 ^ 16" using unsigned_less [of "idx - last_avail q", where 'a = nat] by simp
  from chains_spec [OF assms _ idx this] False obtain q' cs where
    "chains (2 ^ 16) m q = Some (q', cs)" "q' = q\<lparr>last_avail := idx\<rparr> \<or> q' = break_queue (q\<lparr>last_avail := last_avail q + of_nat (length cs)\<rparr>)"
    by blast
  then show ?thesis using assms by auto
qed

lemma chains_length: "chains fuel m q = Some (q', cs) \<Longrightarrow> length cs \<le> fuel"
  by (induction fuel arbitrary: q q' cs) (auto split: option.splits)

lemma slot_for_inv: "slot_ok s \<Longrightarrow> queue_inv (sl_queue (slot_for n s))"
  by (auto simp: slot_for_def slot_ok_def Let_def queue_new_inv split: option.split)

lemma list_all_update: "list_all P xs \<Longrightarrow> P x \<Longrightarrow> list_all P (xs[i := x])"
  by (auto simp: list_all_iff dest: set_update_subset_insert [THEN subsetD])

lemma pop_chains_total:
  assumes "pool_inv p"
  obtains r p' where "pop_chains n p = Some (r, p')" "list_all slot_ok (p_slots p')" "length (p_slots p') = length (p_slots p)"
    "p' = p\<lparr>p_slots := p_slots p'\<rparr>" "\<And>cs. r = Some cs \<Longrightarrow> length cs \<le> 2 ^ 16"
proof (cases "length (p_slots p) \<le> unat (qn_index n)")
  case True
  then show thesis using that [of None p] assms by (simp add: pop_chains_def pool_inv_def)
next
  case False
  let ?i = "unat (qn_index n)"
  let ?slot = "slot_for n (p_slots p ! ?i)"
  have ok: "list_all slot_ok (p_slots p)" using assms by (simp add: pool_inv_def)
  then have "queue_inv (sl_queue ?slot)" using False by (intro slot_for_inv) (simp add: list_all_length)
  then obtain q cs where q: "chains (2 ^ 16) (p_memory p) (sl_queue ?slot) = Some (q, cs)" "queue_inv q"
    using chains_total by blast
  have "slot_ok (Some (?slot\<lparr>sl_queue := q\<rparr>))" using q(2) by (simp add: slot_ok_def)
  then show thesis
    using that [of "Some cs" "p\<lparr>p_slots := (p_slots p)[?i := Some (?slot\<lparr>sl_queue := q\<rparr>)]\<rparr>"] False q(1) chains_length [OF q(1)]
      list_all_update [OF ok] by (simp add: pop_chains_def Let_def)
qed

lemma complete_job_total:
  assumes "pool_inv p"
  obtains e p' where "complete_job j used p = Some (e, p')" "list_all slot_ok (p_slots p')" "mem_inv (p_memory p')"
proof (cases "length (p_slots p) \<le> unat (j_queue j) \<or> p_slots p ! unat (j_queue j) = None")
  case True
  then show thesis using that [of "Abandoned j" p] assms by (auto simp: complete_job_def pool_inv_def Let_def)
next
  case False
  then obtain sl where sl: "p_slots p ! unat (j_queue j) = Some sl" "unat (j_queue j) < length (p_slots p)" by auto
  have ok: "list_all slot_ok (p_slots p)" "mem_inv (p_memory p)" using assms by (simp_all add: pool_inv_def)
  then have "slot_ok (Some sl)" using sl by (metis list_all_length)
  then have "queue_inv (sl_queue sl)" by (simp add: slot_ok_def)
  then obtain m q b where u: "add_used (p_memory p) (sl_queue sl) (c_head (j_chain j)) used = Some (m, q, b)" "mem_inv m" "queue_inv q"
    using add_used_total [OF ok(2)] by metis
  obtain q' needed where n: "(if b then notification_needed m q else (q, False)) = (q', needed)" by fastforce
  then have "queue_inv q'" using u(3) notification_inv [OF u(3), of m] by (auto split: if_splits)
  then have "slot_ok (Some (sl\<lparr>sl_queue := q'\<rparr>))" by (simp add: slot_ok_def)
  from list_all_update [OF ok(1) this] show thesis
    using that u(1,2) sl n by (simp add: complete_job_def Let_def split: prod.splits)
qed

definition same_shape :: "pool \<Rightarrow> pool \<Rightarrow> bool" where
  "same_shape p p' \<longleftrightarrow> length (p_slots p') = length (p_slots p) \<and> length (p_workers p') = length (p_workers p)"

text \<open>The steps the threads still have before them, with \<open>n\<close> slots.\<close>

fun kick_weight :: "nat \<Rightarrow> blk_kick \<Rightarrow> nat" where
  "kick_weight n KickReset = n + 2"
| "kick_weight n (KickNotify q) = 5 * 2 ^ 16 + 3"

fun coord_weight :: "nat \<Rightarrow> coordinator \<Rightarrow> nat" where
  "coord_weight n CRecv = 1"
| "coord_weight n (CClear k) = n - k + 2"
| "coord_weight n (CPop q) = 5 * 2 ^ 16 + 3"
| "coord_weight n (CSend js) = 5 * length js + 2"
| "coord_weight n CReturned = 0"

fun worker_weight :: "worker \<Rightarrow> nat" where
  "worker_weight WRecv = 1"
| "worker_weight (WCheck j) = 4"
| "worker_weight (WRun j) = 3"
| "worker_weight (WDone j used) = 2"
| "worker_weight WReturned = 0"

definition pool_weight :: "pool \<Rightarrow> nat" where
  "pool_weight p = sum_list (map (kick_weight (length (p_slots p))) (p_kicks p)) + coord_weight (length (p_slots p)) (p_coord p)
     + 4 * length (p_jobs p) + sum_list (map worker_weight (p_workers p))"

lemma worker_weight_update:
  assumes "i < length ws"
  shows "sum_list (map worker_weight (ws[i := w])) + worker_weight (ws ! i) = sum_list (map worker_weight ws) + worker_weight w"
  using assms
proof (induction ws arbitrary: i)
  case (Cons v ws)
  then show ?case by (cases i) auto
qed simp

lemma coord_progress:
  assumes "pool_inv p" "coord_step p = Some (e, p')"
  shows "pool_inv p' \<and> same_shape p p' \<and> pool_weight p' < pool_weight p"
proof (cases "\<exists>n. p_coord p = CPop n")
  case True
  then obtain n where n: "p_coord p = CPop n" ..
  obtain r p1 where r: "pop_chains n p = Some (r, p1)" "list_all slot_ok (p_slots p1)" "length (p_slots p1) = length (p_slots p)"
    "p1 = p\<lparr>p_slots := p_slots p1\<rparr>" "\<And>cs. r = Some cs \<Longrightarrow> length cs \<le> 2 ^ 16"
    using pop_chains_total [OF assms(1)] by metis
  have p1: "p_coord p1 = p_coord p" "p_kicks p1 = p_kicks p" "p_workers p1 = p_workers p" "p_jobs p1 = p_jobs p" "p_open p1 = p_open p"
    "p_depth p1 = p_depth p" "p_memory p1 = p_memory p"
    by (subst r(4), simp)+
  have "\<exists>c. p' = p1\<lparr>p_coord := c\<rparr> \<and> c \<noteq> CReturned \<and> coord_weight (length (p_slots p)) c < 5 * 2 ^ 16 + 3"
    using assms(2) n r(1) r(5) by (auto simp: coord_step_def Let_def split: if_splits option.splits)
  then show ?thesis using assms(1) r(2,3) p1 n by (auto simp: pool_inv_def same_shape_def pool_weight_def)
next
  case False
  then show ?thesis
    using assms
    by (auto simp: coord_step_def pool_inv_def same_shape_def pool_weight_def list_all_update slot_ok_def
        split: coordinator.splits list.splits blk_kick.splits if_splits)
qed

lemma worker_progress:
  assumes "pool_inv p" "i < length (p_workers p)" "worker_step env i p = Some (e, p')"
  shows "pool_inv p' \<and> same_shape p p' \<and> pool_weight p' < pool_weight p"
proof -
  note upd = worker_weight_update [OF assms(2)]
  have ret: "WReturned \<in> set ((p_workers p)[i := w]) \<Longrightarrow> w \<noteq> WReturned \<Longrightarrow> WReturned \<in> set (p_workers p)" for w
    using set_update_subset_insert by fastforce
  show ?thesis
  proof (cases "p_workers p ! i")
    case WRecv
    show ?thesis
    proof (cases "p_jobs p")
      case Nil
      then show ?thesis
        using WRecv assms upd [of WReturned]
        by (auto simp: worker_step_def pool_inv_def same_shape_def pool_weight_def split: if_splits)
    next
      case (Cons j js)
      then show ?thesis
        using WRecv assms upd [of "WCheck j"] ret [of "WCheck j"]
        by (auto simp: worker_step_def pool_inv_def same_shape_def pool_weight_def)
    qed
  next
    case (WCheck j)
    obtain w where w: "p' = p\<lparr>p_workers := (p_workers p)[i := w]\<rparr>" "w \<noteq> WReturned" "worker_weight w < 4"
      using assms(3) WCheck by (simp add: worker_step_def split: if_splits) fastforce+
    then show ?thesis
      using assms(1,2) WCheck upd [of w] ret [of w] by (auto simp: pool_inv_def same_shape_def pool_weight_def)
  next
    case (WRun j)
    then obtain used m be where pr: "process env (p_serial p) (j_chain j) (p_memory p) (p_backend p) = (used, m, be)"
      "p' = p\<lparr>p_memory := m, p_backend := be, p_workers := (p_workers p)[i := WDone j used]\<rparr>"
      using assms(3) by (auto simp: worker_step_def split: if_splits prod.splits)
    have "mem_inv m" using process_inv [OF _ pr(1)] assms(1) by (simp add: pool_inv_def)
    then show ?thesis
      using assms(1,2) pr(2) WRun upd [of "WDone j used"] ret [of "WDone j used"] by (auto simp: pool_inv_def same_shape_def pool_weight_def)
  next
    case (WDone j used)
    then obtain p1 where c: "complete_job j used p = Some (e, p1)" "p' = p1\<lparr>p_workers := (p_workers p1)[i := WRecv]\<rparr>"
      using assms(3) by (auto simp: worker_step_def)
    have "list_all slot_ok (p_slots p1)" "mem_inv (p_memory p1)"
      using complete_job_total [OF assms(1), of j used] c(1) by auto
    then show ?thesis
      using assms(1,2) complete_job_frame [OF c(1)] c(2) WDone upd [of WRecv] ret [of WRecv]
      by (auto simp: pool_inv_def same_shape_def pool_weight_def)
  next
    case WReturned
    then show ?thesis using assms(3) by (simp add: worker_step_def)
  qed
qed

lemma step_progress: "pool_step p e p' \<Longrightarrow> pool_inv p \<Longrightarrow> pool_inv p' \<and> same_shape p p' \<and> pool_weight p' < pool_weight p"
  by (induction rule: pool_step.induct) (blast dest: coord_progress worker_progress)+

lemma outside_inv: "outside_step p e p' \<Longrightarrow> pool_inv p \<Longrightarrow> pool_inv p'"
  by (induction rule: outside_step.induct) (auto simp: pool_inv_def blk_send_def pool_drop_def)

lemma pool_run_inv: "pool_run p es p' \<Longrightarrow> pool_inv p \<Longrightarrow> pool_inv p'"
  by (induction rule: pool_run.induct) (auto dest: step_progress outside_inv)

lemma thread_run_bound: "thread_run p es p' \<Longrightarrow> pool_inv p \<Longrightarrow> pool_inv p' \<and> length es + pool_weight p' \<le> pool_weight p"
proof (induction rule: thread_run.induct)
  case (step p es p' e p'')
  then show ?case using step_progress [OF step.hyps(2)] by fastforce
qed simp

lemma thread_run_run: "thread_run p es p' \<Longrightarrow> pool_run p es p'"
  by (induction rule: thread_run.induct) (auto intro: pool_run.intros)

text \<open>No thread can move: nothing is left to do, and after the drop all threads have returned.\<close>

definition at_rest :: "pool \<Rightarrow> bool" where
  "at_rest p \<longleftrightarrow> p_kicks p = [] \<and> in_flight p = {#}
     \<and> (if p_open p then p_coord p = CRecv \<and> (\<forall>w \<in> set (p_workers p). w = WRecv)
        else p_coord p = CReturned \<and> (\<forall>w \<in> set (p_workers p). w = WReturned))"

lemma stuck_worker:
  assumes "pool_inv p" "\<And>e p'. \<not> pool_step p e p'" "w \<in> set (p_workers p)"
  shows "w = WRecv \<or> w = WReturned"
proof -
  have no: "worker_step env i p = None" if "i < length (p_workers p)" for env i
    using assms(2) that pool_step.worker by (metis not_Some_eq surj_pair)
  have not_done: "\<not> (\<exists>j used. v = WDone j used)" if v: "v \<in> set (p_workers p)" for v
  proof
    assume "\<exists>j used. v = WDone j used"
    then obtain i j used where i: "i < length (p_workers p)" "p_workers p ! i = WDone j used" using v by (auto simp: in_set_conv_nth)
    then show False using no [OF i(1)] complete_job_total [OF assms(1), of j used] by (auto simp: worker_step_def)
  qed
  then have "\<not> memory_locked p" by (auto simp: memory_locked_def list_ex_iff split: worker.splits)
  moreover obtain i where "i < length (p_workers p)" "p_workers p ! i = w" using assms(3) by (auto simp: in_set_conv_nth)
  ultimately show ?thesis
    using no [of i undefined] not_done [OF assms(3)] by (cases w) (auto simp: worker_step_def split: prod.splits if_splits)
qed

lemma stuck_at_rest:
  assumes "pool_inv p" "\<And>e p'. \<not> pool_step p e p'"
  shows "at_rest p"
proof -
  have workers: "w = WRecv \<or> w = WReturned" if "w \<in> set (p_workers p)" for w using stuck_worker [OF assms that] .
  have no: "worker_step env i p = None" if "i < length (p_workers p)" for env i
    using assms(2) that pool_step.worker by (metis not_Some_eq surj_pair)
  have coord: "coord_step p = None" using assms(2) pool_step.coord by (metis not_Some_eq surj_pair)
  have free: "\<not> memory_locked p" using workers by (auto simp: memory_locked_def list_ex_iff split: worker.splits)
  have recv: "p_jobs p = [] \<and> p_coord p \<noteq> CReturned" if w: "WRecv \<in> set (p_workers p)"
  proof -
    obtain i where "i < length (p_workers p)" "p_workers p ! i = WRecv" using w by (auto simp: in_set_conv_nth)
    then show ?thesis using no [of i undefined] by (auto simp: worker_step_def split: list.splits if_splits)
  qed
  have ret: "p_jobs p = [] \<and> p_coord p = CReturned" if "WReturned \<in> set (p_workers p)" using that assms(1) by (simp add: pool_inv_def)
  obtain w where "w \<in> set (p_workers p)" using assms(1) by (cases "p_workers p") (auto simp: pool_inv_def)
  then have jobs: "p_jobs p = []" using workers recv ret by metis
  have c: "p_coord p = CRecv \<and> p_kicks p = [] \<and> p_open p \<or> p_coord p = CReturned \<and> p_kicks p = [] \<and> \<not> p_open p"
  proof (cases "p_coord p")
    case (CPop n)
    obtain r p' where "pop_chains n p = Some (r, p')" using pop_chains_total [OF assms(1)] by metis
    then show ?thesis using coord free CPop by (cases r) (simp_all add: coord_step_def Let_def)
  next
    case (CSend js)
    then show ?thesis using coord jobs assms(1) by (cases js) (auto simp: coord_step_def pool_inv_def)
  qed (use coord assms(1) in \<open>auto simp: coord_step_def pool_inv_def split: list.splits blk_kick.splits if_splits\<close>)
  have ws: "worker_jobs w = []" if "w \<in> set (p_workers p)" for w using workers [OF that] by auto
  have "coord_jobs (p_coord p) = []" using c by auto
  then have "in_flight p = {#}" using jobs ws by (simp add: in_flight_def)
  moreover have "w = WRecv" if "w \<in> set (p_workers p)" "p_coord p = CRecv" for w using workers [OF that(1)] ret that by auto
  moreover have "w = WReturned" if "w \<in> set (p_workers p)" "p_coord p = CReturned" for w using workers [OF that(1)] recv that by auto
  ultimately show ?thesis using c by (auto simp: at_rest_def)
qed

section \<open>A job that outlives a reset\<close>

text \<open>A schedule: whose turn it is.\<close>

datatype turn = CoordTurn | WorkerTurn nat | SendTurn blk_kick

fun play :: "blk_env \<Rightarrow> turn list \<Rightarrow> pool \<Rightarrow> (pool_event list \<times> pool) option" where
  "play env [] p = Some ([], p)"
| "play env (t # ts) p =
     (case (case t of CoordTurn \<Rightarrow> coord_step p
                    | WorkerTurn i \<Rightarrow> if i < length (p_workers p) then worker_step env i p else None
                    | SendTurn k \<Rightarrow> Some (Kicked k, blk_send k p)) of
        None \<Rightarrow> None
      | Some (e, p) \<Rightarrow> map_option (\<lambda>(es, p). (e # es, p)) (play env ts p))"

lemma play_run: "pool_run p0 es0 p \<Longrightarrow> play env ts p = Some (es, p') \<Longrightarrow> pool_run p0 (es0 @ es) p'"
proof (induction ts arbitrary: p es es0)
  case (Cons t ts)
  obtain e p1 es1 where s: "(case t of CoordTurn \<Rightarrow> coord_step p
      | WorkerTurn i \<Rightarrow> if i < length (p_workers p) then worker_step env i p else None
      | SendTurn k \<Rightarrow> Some (Kicked k, blk_send k p)) = Some (e, p1)" "play env ts p1 = Some (es1, p')" "es = e # es1"
    using Cons.prems(2) by (auto split: option.splits)
  have "pool_run p0 (es0 @ [e]) p1"
    using s(1) by (cases t) (auto intro: pool_run.intros pool_step.intros outside_step.intros Cons.prems(1) split: if_splits)
  from Cons.IH [OF this s(2)] show ?case using s(3) by simp
qed simp

lemma stale_run:
  assumes "chains (2 ^ 16) m (sl_queue (slot_for n0 None)) = Some (q0, [c])" "qn_index n0 = 0"
    "chains (2 ^ 16) m (sl_queue (slot_for n1 None)) = Some (q1, cs)" "qn_index n1 = 0"
    "process env serial c m be = (used, m1, be1)" "add_used m1 q1 (c_head c) used = Some (m2, q2, True)"
    "bo_num_queues opts = 1"
  shows "\<exists>es es' p. pool_run (pool_spawn opts be m irq serial) (es @ [Kicked KickReset] @ es') p
    \<and> Popped [\<lparr>j_generation = 1, j_queue = 0, j_chain = c\<rparr>] \<in> set es
    \<and> Answered \<lparr>j_generation = 1, j_queue = 0, j_chain = c\<rparr> used True \<in> set es'
    \<and> p_generation p = 2 \<and> p_memory p = m2 \<and> map (map_option sl_rings) (p_slots p) = [Some (qn_size n1, qn_desc n1, qn_avail n1, qn_used n1)]"
proof -
  let ?p = "pool_spawn opts be m irq serial" and ?j = "\<lparr>j_generation = 1, j_queue = 0, j_chain = c\<rparr>"
  let ?before = "[SendTurn (KickNotify n0), CoordTurn, CoordTurn, CoordTurn, CoordTurn, WorkerTurn 0, WorkerTurn 0]"
  let ?after = "[CoordTurn, CoordTurn, CoordTurn, SendTurn (KickNotify n1), CoordTurn, CoordTurn, WorkerTurn 0, WorkerTurn 0]"
  define ws where "ws = replicate (unat (max 1 (bo_io_workers opts)) - 1) WRecv"
  have "0 < unat (max 1 (bo_io_workers opts))" by (auto simp: max_def unat_gt_0)
  then have ws: "p_workers ?p = WRecv # ws" unfolding ws_def by (cases "unat (max 1 (bo_io_workers opts))") (simp_all add: pool_spawn_def)
  have free: "\<not> list_ex (\<lambda>w. case w of WDone _ _ \<Rightarrow> True | _ \<Rightarrow> False) ws" by (auto simp: ws_def list_ex_iff)
  have depth: "0 < p_depth ?p" by (auto simp: pool_spawn_def max_def unat_gt_0)
  have p: "p_kicks ?p = []" "p_open ?p" "p_coord ?p = CRecv" "p_generation ?p = 1" "p_slots ?p = [None]" "p_jobs ?p = []" "p_memory ?p = m"
    "p_backend ?p = be" "p_serial ?p = serial"
    using assms(7) by (simp_all add: pool_spawn_def)
  note steps = coord_step_def worker_step_def blk_send_def pop_chains_def memory_locked_def Let_def
  let ?es = "[Kicked (KickNotify n0), Internal, Popped [?j], Internal, Internal, Internal, Internal]"
  let ?p1 = "?p\<lparr>p_slots := [Some ((slot_for n0 None)\<lparr>sl_queue := q0\<rparr>)], p_workers := WRun ?j # ws\<rparr>"
  have "play env ?before ?p = Some (?es, ?p1)" using assms(1,2) ws free depth p by (simp add: steps)
  from play_run [OF pool_run.start this] have before: "pool_run ?p ?es ?p1" by simp
  obtain q3 needed where q3: "notification_needed m2 q2 = (q3, needed)" by fastforce
  let ?js = "map (\<lambda>c. \<lparr>j_generation = 2, j_queue = 0, j_chain = c\<rparr>) cs"
  let ?es' = "[Internal, Internal, Internal, Kicked (KickNotify n1), Internal, Popped ?js, Internal, Answered ?j used True]"
  let ?p2 = "?p\<lparr>p_generation := 2, p_coord := CSend ?js, p_slots := [Some ((slot_for n1 None)\<lparr>sl_queue := q3\<rparr>)], p_workers := WRecv # ws,
    p_memory := m2, p_backend := be1, p_irq := (if needed then irq_raise 1 (p_irq ?p) else p_irq ?p)\<rparr>"
  have "play env (SendTurn KickReset # ?after) ?p1 = Some (Kicked KickReset # ?es', ?p2)"
    using assms(3-6) q3 free p by (simp add: steps complete_job_def)
  from play_run [OF before this] have "pool_run ?p (?es @ [Kicked KickReset] @ ?es') ?p2" by simp
  moreover have "sl_rings (slot_for n1 None) = (qn_size n1, qn_desc n1, qn_avail n1, qn_used n1)" by (simp add: slot_for_def)
  ultimately show ?thesis by (intro exI [of _ ?es] exI [of _ ?es'] exI [of _ ?p2]) simp
qed

text \<open>
  A queue with one chain that carries no place for a status, and the rings of a second queue, which is empty.
\<close>

definition demo_pool_memory :: guest_memory where
  "demo_pool_memory = demo_mem [(1, 0x30), (3, 0x40), (8, 44), (0x1002, 1)]"

definition demo_old_chain :: chain where
  "demo_old_chain = \<lparr>c_head = 0, c_readable = [\<lparr>b_addr = 0x40003000, b_len = 44\<rparr>], c_writable = []\<rparr>"

definition demo_notify :: "u64 \<Rightarrow> queue_notify" where
  "demo_notify base = \<lparr>qn_index = 0, qn_size = 4, qn_desc = base, qn_avail = base + 0x1000, qn_used = base + 0x2000,
     qn_features = VIRTIO_F_EVENT_IDX\<rparr>"

definition demo_options :: blk_options where
  "demo_options = \<lparr>bo_io_workers = 1, bo_queue_depth = 16, bo_num_queues = 1\<rparr>"

definition demo_pool :: pool where
  "demo_pool = pool_spawn demo_options (FileB demo_disk) demo_pool_memory irq_new []"

lemmas demo_pool_read = demo_mem_read [of _ _ "[(1, 0x30), (3, 0x40), (8, 44), (0x1002, 1)]", folded demo_pool_memory_def]

lemma demo_pool_inv: "mem_inv demo_pool_memory"
  by (simp add: demo_pool_memory_def demo_mem_inv)

lemma demo_old_queue: "chains (2 ^ 16) demo_pool_memory (sl_queue (slot_for (demo_notify 0x40000000) None))
  = Some (demo_queue\<lparr>last_avail := 1\<rparr>, [demo_old_chain])"
proof -
  have "(VIRTIO_F_EVENT_IDX AND VIRTIO_F_INDIRECT_DESC) = 0" "VIRTIO_F_EVENT_IDX \<noteq> 0"
    by (simp_all add: VIRTIO_F_EVENT_IDX_def VIRTIO_F_INDIRECT_DESC_def)
  then have q: "sl_queue (slot_for (demo_notify 0x40000000) None) = demo_queue"
    by (simp add: slot_for_def demo_notify_def demo_queue_def)
  have idx: "avail_idx demo_pool_memory demo_queue = Some 1"
    by (simp add: avail_idx_def demo_queue_eq read_u16_def demo_pool_read upt_widths)
  let ?d = "\<lparr>d_addr = 0x40003000, d_len = 44, d_flags = 0, d_next = 0\<rparr>"
  have "desc_at demo_pool_memory (sq_desc demo_queue) (unat (0 :: u16)) = Some ?d"
    by (simp add: desc_at_def demo_queue_eq read_u16_def read_u32_def read_u64_def demo_pool_read upt_widths)
  then have "chain_spec demo_pool_memory demo_queue 0 (chain_of 0 [?d])"
    by (rule chain_spec_single)
      (simp_all add: has_next_def is_indirect_def NEXT_def desc_ok_def span_mapped_def checked_add_def read_u8_def demo_pool_read demo_queue_eq)
  moreover have "demo_old_chain = chain_of 0 [?d]" by (simp add: demo_old_chain_def chain_of_def buf_of_def is_write_def)
  moreover have "avail_entry demo_pool_memory demo_queue 0 = Some 0"
    by (simp add: avail_entry_def demo_queue_eq read_u16_def demo_pool_read upt_widths)
  moreover have "c_head demo_old_chain = 0" by (simp add: demo_old_chain_def)
  ultimately have "published demo_pool_memory demo_queue 0 1 [demo_old_chain]" by (intro published_single) simp_all
  moreover have la: "last_avail demo_queue = 0" by (simp add: demo_queue_eq)
  ultimately have "published demo_pool_memory demo_queue (last_avail demo_queue) 1 [demo_old_chain]" unfolding la by simp
  then show ?thesis unfolding q by (rule chains_published [OF demo_queue_inv idx]) simp
qed

lemma demo_new_queue:
  "\<exists>q m'. chains (2 ^ 16) demo_pool_memory (sl_queue (slot_for (demo_notify 0x40004000) None)) = Some (q, [])
    \<and> add_used demo_pool_memory q (c_head demo_old_chain) 0 = Some (m', q\<lparr>used_idx := 1\<rparr>, True)"
proof -
  have "(VIRTIO_F_EVENT_IDX AND VIRTIO_F_INDIRECT_DESC) = 0" "VIRTIO_F_EVENT_IDX \<noteq> 0"
    by (simp_all add: VIRTIO_F_EVENT_IDX_def VIRTIO_F_INDIRECT_DESC_def)
  moreover have "is_power_of_two (4 :: u16)" by code_simp
  ultimately have q: "sl_queue (slot_for (demo_notify 0x40004000) None) = \<lparr>sq_size = 4, sq_desc = 0x40004000, sq_avail = 0x40005000,
      sq_used = 0x40006000, last_avail = 0, used_idx = 0, broken = False, indirect = False, event_idx = True\<rparr>" (is "_ = ?q")
    by (simp add: slot_for_def demo_notify_def queue_new_def)
  have inv: "queue_inv ?q" using queue_new_inv [of 4 "0x40004000" "0x40005000" "0x40006000" False True] \<open>is_power_of_two 4\<close>
    by (simp add: queue_new_def)
  have idx: "avail_idx demo_pool_memory ?q = Some 0" by (simp add: avail_idx_def read_u16_def demo_pool_read upt_widths)
  have "chains (2 ^ 16) demo_pool_memory ?q = Some (?q\<lparr>last_avail := 0\<rparr>, [])"
    by (rule chains_published [OF inv _ idx]) simp_all
  moreover have "ring_mapped demo_pool_memory ?q" by (simp add: ring_mapped_def ring_end_def demo_pool_read)
  then obtain m' where "add_used demo_pool_memory ?q (c_head demo_old_chain) 0 = Some (m', ?q\<lparr>used_idx := used_idx ?q + 1\<rparr>, True)"
    using add_used_succeeds [OF demo_pool_inv inv, of "c_head demo_old_chain" 0] by (auto simp: demo_old_chain_def)
  ultimately show ?thesis unfolding q by auto
qed

lemma demo_process: "process demo_env [] demo_old_chain demo_pool_memory (FileB demo_disk) = (0, demo_pool_memory, FileB demo_disk)"
  by (simp add: process_def parse_def chain_status_def demo_old_chain_def write_status_byte_def split: option.split)

text \<open>What an answer leaves behind: the entry of the used ring, published; or a broken queue.\<close>

definition completed_on :: "pool \<Rightarrow> job \<Rightarrow> u32 \<Rightarrow> bool" where
  "completed_on p j used \<longleftrightarrow> unat (j_queue j) < length (p_slots p) \<and>
     (case p_slots p ! unat (j_queue j) of
        None \<Rightarrow> False
      | Some slot \<Rightarrow>
          let q = sl_queue slot in
          used_index (p_memory p) q = Some (used_idx q) \<and>
          used_elem (p_memory p) q (unat (used_idx q - 1) mod unat (sq_size q)) = Some (ucast (c_head (j_chain j)), used))"

definition refused_on :: "pool \<Rightarrow> job \<Rightarrow> bool" where
  "refused_on p j \<longleftrightarrow> unat (j_queue j) < length (p_slots p) \<and>
     (case p_slots p ! unat (j_queue j) of None \<Rightarrow> False | Some slot \<Rightarrow> broken (sl_queue slot))"

lemma add_used_refused: "add_used m q head len = Some (m', q', False) \<Longrightarrow> broken q'"
  by (auto simp: add_used_def break_queue_def Let_def split: if_splits option.splits sum.splits)

lemma notification_needed_ring:
  "notification_needed m q = (q', b) \<Longrightarrow>
     sq_used q' = sq_used q \<and> used_idx q' = used_idx q \<and> sq_size q' = sq_size q"
  by (auto simp: notification_needed_def break_queue_def Let_def split: if_splits option.splits sum.splits)

lemma complete_job_result:
  assumes "complete_job j used p = Some (Answered j' used' completed, p')"
  shows "completed \<Longrightarrow> mem_inv (p_memory p) \<Longrightarrow> completed_on p' j' used'" "\<not> completed \<Longrightarrow> refused_on p' j'"
proof -
  let ?i = "unat (j_queue j)"
  from assms obtain slot m q where s: "?i < length (p_slots p)" "p_slots p ! ?i = Some slot" "j' = j" "used' = used"
    "add_used (p_memory p) (sl_queue slot) (c_head (j_chain j)) used = Some (m, q, completed)"
    by (auto simp: complete_job_def Let_def not_le split: if_splits option.splits prod.splits)
  show "completed_on p' j' used'" if c: "completed" "mem_inv (p_memory p)"
  proof -
    from s(5) c(1) have add: "add_used (p_memory p) (sl_queue slot) (c_head (j_chain j)) used = Some (m, q, True)" by simp
    note eff = add_used_effect [OF c(2) add]
    obtain q' b where n: "notification_needed m q = (q', b)" by fastforce
    have p': "p_memory p' = m" "p_slots p' = (p_slots p)[?i := Some (slot\<lparr>sl_queue := q'\<rparr>)]"
      using assms s c n by (auto simp: complete_job_def Let_def)
    have q': "sq_used q' = sq_used (sl_queue slot)" "used_idx q' - 1 = used_idx (sl_queue slot)"
      "used_idx q' = used_idx (sl_queue slot) + 1" "sq_size q' = sq_size (sl_queue slot)"
      using notification_needed_ring [OF n] eff(3) by simp_all
    have "used_index m q' = Some (used_idx q')"
      using eff(4) unfolding used_index_def q'(1,3) .
    moreover have "used_elem m q' (unat (used_idx q' - 1) mod unat (sq_size q')) = Some (ucast (c_head (j_chain j)), used)"
    proof -
      have "used_elem m q' k = used_elem m (sl_queue slot) k" for k by (simp only: used_elem_def q'(1))
      with eff(5) show ?thesis by (simp add: used_slot_def q'(2,4))
    qed
    ultimately show ?thesis using s by (simp add: completed_on_def p' Let_def)
  qed
  show "refused_on p' j'" if "\<not> completed"
    using assms s that add_used_refused by (auto simp: complete_job_def refused_on_def Let_def)
qed

lemma coord_not_answered: "coord_step p = Some (e, p') \<Longrightarrow> e \<noteq> Answered j used completed"
  by (auto simp: coord_step_def Let_def split: coordinator.splits list.splits blk_kick.splits if_splits option.splits)

lemma step_result:
  assumes "pool_step p (Answered j used completed) p'"
  shows "completed \<Longrightarrow> mem_inv (p_memory p) \<Longrightarrow> completed_on p' j used" "\<not> completed \<Longrightarrow> refused_on p' j"
proof -
  have "\<exists>i used0 j0 p1. complete_job j0 used0 p = Some (Answered j used completed, p1)
      \<and> p' = p1\<lparr>p_workers := (p_workers p1)[i := WRecv]\<rparr>"
    using assms
  proof (cases rule: pool_step.cases)
    case coord
    then show ?thesis using coord_not_answered by blast
  next
    case (worker i env)
    then show ?thesis
      by (cases "p_workers p ! i") (auto simp: worker_step_def Let_def split: list.splits if_splits prod.splits)
  qed
  then obtain i used0 j0 p1 where c: "complete_job j0 used0 p = Some (Answered j used completed, p1)"
    "p' = p1\<lparr>p_workers := (p_workers p1)[i := WRecv]\<rparr>" by blast
  show "completed_on p' j used" if "completed" "mem_inv (p_memory p)"
    using complete_job_result(1) [OF c(1) that] by (simp add: c(2) completed_on_def Let_def split: option.splits)
  show "refused_on p' j" if "\<not> completed"
    using complete_job_result(2) [OF c(1) that] by (simp add: c(2) refused_on_def)
qed

lemma run_result:
  assumes "pool_run p0 es p" "pool_inv p0" "es = es' @ [Answered j used completed]"
  shows "if completed then completed_on p j used else refused_on p j"
  using assms(1)
proof (cases rule: pool_run.cases)
  case (step es1 p1 e)
  then have e: "pool_run p0 es1 p1" "pool_step p1 (Answered j used completed) p" using assms(3) by auto
  have "mem_inv (p_memory p1)" using pool_run_inv [OF e(1) assms(2)] by (simp add: pool_inv_def)
  with step_result [OF e(2)] show ?thesis by simp
next
  case (outside es1 p1 e)
  then have "outside_step p1 (Answered j used completed) p" using assms(3) by auto
  then show ?thesis by (auto elim: outside_step.cases)
qed (use assms(3) in simp)

text \<open>
  C11. However the threads of the pool interleave with each other and with kicks, stores of the guest and the end of the
  device, every chain taken off a queue is at any time exactly one of: in flight, put on a used ring once, refused by the
  queue it was to be answered on, or given up. When a chain is put on a used ring, that ring holds its head and length
  behind the published index at that moment; a refusal means that the queue is broken. None is given up as long as no reset
  has been sent.
\<close>

theorem blk_pool_exactly_once:
  assumes "mem_inv m" "pool_run (pool_spawn opts be m irq serial) es p"
  shows "mset (concat (map popped es)) =
      in_flight p + mset (concat (map abandoned es)) + mset (concat (map refused es)) + mset (concat (map answered es))
    \<and> (Kicked KickReset \<notin> set es \<longrightarrow> concat (map abandoned es) = [])
    \<and> (\<forall>es' j used. es = es' @ [Answered j used True] \<longrightarrow> completed_on p j used)
    \<and> (\<forall>es' j used. es = es' @ [Answered j used False] \<longrightarrow> refused_on p j)"
  using run_accounted [OF assms(2)] run_calm [OF assms(2) spawn_calm(1)] run_result [OF assms(2) spawn_inv [OF assms(1)]]
  by (simp add: spawn_calm(2)) (metis (full_types))

theorem blk_pool_exactly_once_witness:
  "\<exists>es p j used. pool_run demo_pool es p \<and> Answered j used True \<in> set es
    \<and> mset (concat (map popped es)) =
        in_flight p + mset (concat (map abandoned es)) + mset (concat (map refused es)) + mset (concat (map answered es))"
proof -
  obtain q m' where q: "chains (2 ^ 16) demo_pool_memory (sl_queue (slot_for (demo_notify 0x40004000) None)) = Some (q, [])"
    "add_used demo_pool_memory q (c_head demo_old_chain) 0 = Some (m', q\<lparr>used_idx := 1\<rparr>, True)"
    using demo_new_queue by blast
  have n: "qn_index (demo_notify b) = 0" for b by (simp add: demo_notify_def)
  obtain es es' p where r: "pool_run (pool_spawn demo_options (FileB demo_disk) demo_pool_memory irq_new []) (es @ [Kicked KickReset] @ es') p"
    "Answered \<lparr>j_generation = 1, j_queue = 0, j_chain = demo_old_chain\<rparr> 0 True \<in> set es'"
    using stale_run [OF demo_old_queue n q(1) n demo_process q(2), of demo_options irq_new] by (auto simp: demo_options_def)
  show ?thesis
    unfolding demo_pool_def using r blk_pool_exactly_once [OF demo_pool_inv r(1)]
    by (intro exI [of _ "es @ [Kicked KickReset] @ es'"]) auto
qed

text \<open>
  C10. The pool neither hangs nor spins. In any state it can reach, its threads alone take a bounded number of steps, and
  when none of them can move, no kick is waiting and every chain ever taken off a queue has been put on a used ring, was
  refused by a broken queue or was given up; if the device has been dropped, the coordinator and all workers have returned, so the joins of the drop end.
\<close>

theorem blk_pool_drains:
  assumes "mem_inv m" "pool_run (pool_spawn opts be m irq serial) es p"
  shows "\<exists>n. (\<forall>es' p'. thread_run p es' p' \<longrightarrow> length es' \<le> n
    \<and> ((\<nexists>e p''. pool_step p' e p'') \<longrightarrow>
        at_rest p' \<and> mset (concat (map popped (es @ es'))) =
          mset (concat (map abandoned (es @ es'))) + mset (concat (map refused (es @ es'))) + mset (concat (map answered (es @ es')))))"
proof (intro exI [of _ "pool_weight p"] allI impI conjI)
  fix es' p'
  assume run: "thread_run p es' p'"
  have inv: "pool_inv p" using pool_run_inv [OF assms(2)] spawn_inv [OF assms(1)] by blast
  show "length es' \<le> pool_weight p" using thread_run_bound [OF run inv] by simp
  assume "\<nexists>e p''. pool_step p' e p''"
  then show rest: "at_rest p'" using stuck_at_rest thread_run_bound [OF run inv] by blast
  let ?out = "\<lambda>es. mset (concat (map abandoned es)) + mset (concat (map refused es)) + mset (concat (map answered es))"
  have before: "mset (concat (map popped es)) = in_flight p + ?out es"
    using run_accounted [OF assms(2)] by (simp add: spawn_calm(2) union_assoc)
  have after: "in_flight p + mset (concat (map popped es')) = ?out es'"
    using run_accounted [OF thread_run_run [OF run]] rest by (simp add: at_rest_def)
  have "mset (concat (map popped (es @ es'))) = (in_flight p + mset (concat (map popped es'))) + ?out es"
    by (simp add: before ac_simps)
  also have "\<dots> = ?out (es @ es')" unfolding after by (simp add: ac_simps)
  finally show "mset (concat (map popped (es @ es'))) = ?out (es @ es')" .
qed

theorem blk_pool_drains_witness:
  "\<exists>es p. thread_run (blk_send KickReset demo_pool) es p \<and> length es = 3 \<and> at_rest p"
proof -
  let ?p = "demo_pool\<lparr>p_generation := 2\<rparr>"
  have d: "p_kicks demo_pool = []" "p_open demo_pool" "p_coord demo_pool = CRecv" "p_generation demo_pool = 1" "p_slots demo_pool = [None]"
    "p_jobs demo_pool = []" "p_workers demo_pool = [WRecv]"
    by (simp_all add: demo_pool_def pool_spawn_def demo_options_def)
  have "coord_step (blk_send KickReset demo_pool) = Some (Internal, ?p\<lparr>p_coord := CClear 0\<rparr>)"
    "coord_step (?p\<lparr>p_coord := CClear 0\<rparr>) = Some (Internal, ?p\<lparr>p_coord := CClear 1\<rparr>)"
    "coord_step (?p\<lparr>p_coord := CClear 1\<rparr>) = Some (Internal, ?p)"
    using d by (simp_all add: coord_step_def blk_send_def)
  then have run: "thread_run (blk_send KickReset demo_pool) ((([] @ [Internal]) @ [Internal]) @ [Internal]) ?p"
    by (blast intro: thread_run.step thread_run.start pool_step.coord)
  have stuck: "\<nexists>e p''. pool_step ?p e p''"
    using d by (auto elim!: pool_step.cases simp: coord_step_def worker_step_def)
  have "pool_run demo_pool [Kicked KickReset] (blk_send KickReset demo_pool)"
    using pool_run.outside [OF pool_run.start outside_step.kick] by fastforce
  then have "at_rest ?p"
    using blk_pool_drains [OF demo_pool_inv] run stuck unfolding demo_pool_def by blast
  then show ?thesis using run by (intro exI [of _ "[Internal, Internal, Internal]"] exI [of _ ?p]) simp
qed

text \<open>
  C20. A reset does not stop a request that has passed the generation check. Whatever the queue set up after the reset is,
  a chain popped before it can still be processed, on guest memory as it is then, and its head is put on the used ring of
  the new queue, although the generation of its job is over.
\<close>

theorem blk_pool_stale_completion:
  assumes "chains (2 ^ 16) m (sl_queue (slot_for n0 None)) = Some (q0, [c])" "qn_index n0 = 0"
    "chains (2 ^ 16) m (sl_queue (slot_for n1 None)) = Some (q1, cs)" "qn_index n1 = 0"
    "process env serial c m be = (used, m1, be1)" "add_used m1 q1 (c_head c) used = Some (m2, q2, True)"
    "bo_num_queues opts = 1"
  shows "\<exists>es es' p. pool_run (pool_spawn opts be m irq serial) (es @ [Kicked KickReset] @ es') p
    \<and> Popped [\<lparr>j_generation = 1, j_queue = 0, j_chain = c\<rparr>] \<in> set es
    \<and> Answered \<lparr>j_generation = 1, j_queue = 0, j_chain = c\<rparr> used True \<in> set es'
    \<and> p_generation p = 2 \<and> p_memory p = m2 \<and> map (map_option sl_rings) (p_slots p) = [Some (qn_size n1, qn_desc n1, qn_avail n1, qn_used n1)]"
  using assms by (rule stale_run)

theorem blk_pool_stale_completion_witness:
  "\<exists>es es' p. pool_run demo_pool (es @ [Kicked KickReset] @ es') p
    \<and> Popped [\<lparr>j_generation = 1, j_queue = 0, j_chain = demo_old_chain\<rparr>] \<in> set es
    \<and> Answered \<lparr>j_generation = 1, j_queue = 0, j_chain = demo_old_chain\<rparr> 0 True \<in> set es'"
proof -
  obtain q m' where q: "chains (2 ^ 16) demo_pool_memory (sl_queue (slot_for (demo_notify 0x40004000) None)) = Some (q, [])"
    "add_used demo_pool_memory q (c_head demo_old_chain) 0 = Some (m', q\<lparr>used_idx := 1\<rparr>, True)"
    using demo_new_queue by blast
  have n: "qn_index (demo_notify b) = 0" for b by (simp add: demo_notify_def)
  have o: "bo_num_queues demo_options = 1" by (simp add: demo_options_def)
  show ?thesis
    unfolding demo_pool_def
    using blk_pool_stale_completion [OF demo_old_queue n q(1) n demo_process q(2) o, of irq_new] by blast
qed

end
