(* ===== verification/Spec2Isabelle.thy ===== *)
theory Spec2Isabelle
  imports Used_Ring Wfi_Park Machine_Vcpu Pci_Machine Base_Ref Vsock_Worker Blk_Pool
begin

text \<open>
  Ternvale is a virtual machine monitor for ARM64 guests, written in Rust. A guest's vCPU runs in the host's hypervisor
  until it exits; the exit is decoded, and accesses to device addresses go over an MMIO bus to virtio transports, which
  hand kicks to devices. Devices take descriptor chains off queues in guest memory, move data between the guest and host
  files or sockets, complete the chains and raise interrupts. This development models that path from the exit of a vCPU
  to the bytes of a disk image or of a vsock stream, and the PCI side that makes devices visible.

  \<^bold>\<open>Conventions.\<close> Rust integers are words (\<open>u8\<close>, \<open>u16\<close>, \<open>u32\<close>, \<open>u64\<close>), and \<open>usize\<close> is \<open>nat\<close> where it is a length;
  arithmetic wraps as in a release build. A struct is a record, an enum a datatype, a \<open>Result\<close> a sum with \<open>Inl\<close> for the
  error, and a panic the value \<open>None\<close> of the function that may panic. What the operating system, the hypervisor, a file
  or a socket answers is an argument; a property that needs it to behave says so in a hypothesis. Where threads share
  state, the code between two points at which another thread can intervene is one step of a transition relation.
  Logging, metrics and statistics are left out.

  \<^bold>\<open>Foundations.\<close>
  \<^item> \<open>Prelude\<close>: words, checked and saturating arithmetic, little-endian bytes, results, sorted lists, and the locale
    \<open>component\<close> of a state whose operations keep an invariant; it is interpreted for every component with histories.
  \<^item> \<open>Guest_Memory\<close> (\<open>ternvale-vmm/src/memory/\<close>: \<open>mod.rs\<close>, \<open>host.rs\<close>, \<open>error.rs\<close>): regions of guest RAM. Accesses are
    admitted exactly when one region holds all of them, and memory refines a partial map from addresses to bytes. Its
    contract towards devices is the locale \<open>byte_store\<close>.
  \<^item> \<open>Guest_Buffers\<close>: lists of guest buffers as address lists, on which the statements about devices are built.

  \<^bold>\<open>Virtqueues and transports.\<close>
  \<^item> \<open>Split_Queue\<close>, \<open>Used_Ring\<close> (\<open>ternvale-devices/src/virtio/queue.rs\<close>): \<open>pop\<close> returns exactly the chains that the
    descriptor tables describe, an inductive predicate that knows nothing of the loop checks; completions appear to the
    driver in order; no history panics. The chains have their readable buffers first, as documented, except that the
    order is not checked between the ring and an indirect table; the exception is part of the statement. \<open>chains\<close> has fuel: \<open>2 ^ 16\<close> suffices because the published index and the queue's
    are 16 bits apart at most, and the walk of one chain is bounded by the queue size.
  \<^item> \<open>Virtio_Irq\<close> (\<open>virtio/irq.rs\<close>): the interrupt line under every interleaving of its callers.
  \<^item> \<open>Virtio_Core\<close> (\<open>virtio.rs\<close>, \<open>virtio/core.rs\<close>, \<open>core/status.rs\<close>, \<open>core/queue.rs\<close>): features, status, queue registers.
    The status register refines a machine of five phases.
  \<^item> \<open>Virtio_Mmio\<close> (\<open>virtio/mmio.rs\<close>, \<open>virtio/notify_hub.rs\<close>, addresses of \<open>platform.rs\<close>): the register file and the hub
    that delivers kicks without the lock, with when the two paths agree and when not. The operations of the hub are one
    step each in the transport; its single stores and loads are modelled beside them, and a kick that overlaps them is
    shown to be whole while the queue keeps its configuration (\<open>kick_not_torn\<close>) and possibly mixed when it does not.
  \<^item> \<open>Mmio_Bus\<close> (\<open>ternvale-vmm/src/mmio.rs\<close>): windows, the search with its per-thread cache, dispatch. A device on the bus
    is the locale \<open>mmio_device\<close>, interpreted by the virtio-mmio transport.
  \<^item> \<open>Pci_Config\<close>, \<open>Pci_Msix\<close>, \<open>Pci_Intx\<close>, \<open>Pci_Bus\<close>, \<open>Pci_Interrupts\<close> (\<open>ternvale-vmm/src/pci/\<close>): config space with BARs
    and capabilities, MSI-X, shared interrupt lines, bus 0 with ECAM and the memory window. Functions are the locales
    \<open>pci_function\<close> and \<open>pci_interrupting\<close>, interpreted by the host bridge and the virtio functions. A pin follows its
    function only when the interrupt of the function calls its hook: \<open>fn_hooks\<close> counts the calls and \<open>settle\<close> refreshes
    the pin when there was a new one, so that no change is missed is a law of the locale.
  \<^item> \<open>Virtio_Pci\<close> (\<open>virtio/pci.rs\<close>, \<open>pci/caps.rs\<close>, \<open>pci/common.rs\<close>) is the PCI transport; \<open>Pci_Machine\<close> joins bus, functions and
    devices from boot on: every device is reachable at an address of its own, and interrupt lines show what is pending.

  \<^bold>\<open>vCPUs.\<close>
  \<^item> \<open>Esr\<close> (\<open>esr.rs\<close>): the decoder of exception syndromes inverts their layout, whatever the bits outside it.
  \<^item> \<open>Vcpu\<close> (\<open>psci.rs\<close>, \<open>vcpu.rs\<close>, \<open>vcpu/exit.rs\<close>, \<open>vcpu/wfi.rs\<close>, \<open>vcpu/stop.rs\<close>): what one vCPU completes itself and its run
    loop. The number of turns is an argument; that a stop ends the loop is proved for enough turns.
  \<^item> \<open>Wfi_Park\<close>: the sleep in WFI against the threads that end it, as interleaved steps.
  \<^item> \<open>Cpu_Power\<close> (\<open>smp.rs\<close>): CPU_ON, CPU_OFF, start-up and stop of all vCPU threads, alone and interleaved.
  \<^item> \<open>Machine_Vcpu\<close> (\<open>machine_vcpu.rs\<close>): exits that need the machine, through decoder, bus and power table.

  \<^bold>\<open>Disks.\<close>
  \<^item> \<open>Host_File\<close> is a file as its bytes, with calls that may fail. \<open>Snapshot_Delta\<close> (\<open>ternvale-snapshot/src/format.rs\<close>,
    \<open>delta.rs\<close>) is one layer; \<open>Snapshot_Stack\<close> (\<open>stack.rs\<close>) is a disk of layers over a base, which behaves like a flat disk
    while blocks new to a layer come in ascending order, and misplaces data otherwise: a block that comes late rotates
    the contents of the blocks behind it. \<open>Base_Ref\<close> (\<open>base_ref.rs\<close>) counts the holders of a shared base.
  \<^item> \<open>Blk_Backend\<close> (\<open>virtio/blk/backend.rs\<close>, \<open>vectored.rs\<close>): vectored transfers between guest buffers and a raw file or a
    stack, for every way in which the kernel may cut them short. Its contract is the locale \<open>guest_disk\<close>.
  \<^item> \<open>Blk_Request\<close> (\<open>blk/request.rs\<close>): one request. Reads return the disk, writes store exactly their data, and nothing a
    guest puts into a chain reaches a byte outside the range of a write.
  \<^item> \<open>Blk_Pool\<close> (\<open>blk.rs\<close>, \<open>blk/media.rs\<close>, \<open>blk/pool.rs\<close>): coordinator and workers as interleaved threads over two channels
    and the locks of memory and queues. Every chain is in flight, given up after a reset, refused by a broken queue or
    answered, and only one of these; an answer is in the used ring it was made on. The threads come to rest (a weight
    that falls with every step bounds them), and a request can outlive a reset of the device.

  \<^bold>\<open>Vsock.\<close>
  \<^item> \<open>Vsock_Conn\<close> (\<open>virtio/vsock/packet.rs\<close>, \<open>conn.rs\<close>): one stream with its credit, exact although counters wrap. The stream
    loses only what a call of \<open>fill\<close> had read when a later read of the same call fails, and that is counted.
  \<^item> \<open>Vsock_Muxer\<close> (\<open>muxer.rs\<close>): the connection table. Its search for a free port is a partial function, which returns
    while fewer than \<open>2 ^ 31\<close> connections are open.
  \<^item> \<open>Vsock_Worker\<close> (\<open>worker.rs\<close>): packets between the queues and the connection table.

  \<^bold>\<open>Not modelled.\<close> The other devices (network, balloon, console, input, entropy, sound, 9p, virtiofs, GPU, USB, TPM) use
  the queue and transports above, but what they do with data is host I/O or a large protocol of its own. ACPI tables, the
  device tree, boot images and firmware are built once before the guest runs. Saving and restoring a machine needs the
  hypervisor's state of every vCPU. The GIC belongs to the hypervisor. Configuration, command line, user-mode network,
  the guest agent and the desktop application do not act on the guest except through the parts above. Within modelled
  files, code that only opens paths, syncs files or writes logs is left out. Guest stores that race with a device inside
  one of its steps are not modelled: a step sees one state of guest memory.
\<close>

end
